(* ===== verification/Prelude.thy ===== *)
theory Prelude
  imports Complex_Main "HOL-Library.AList" "HOL-Library.Char_ord" "HOL-Library.List_Lexorder"
    "HOL-Library.Product_Lexorder"
begin

text \<open>
  What every component of the development shares.

  \<^item> Exceptions as values (\<open>exn\<close>) and the state-and-exception computations \<open>pm\<close> in which
    the backend's handlers are written: \<open>ret\<close>, \<open>raise\<close>, \<open>bind\<close>, Python's
    \<open>try/except\<close> and \<open>try/finally\<close>, and a list comprehension with effects (\<open>map_pm\<close>).
  \<^item> \<open>preserves\<close>, the one-line Hoare logic of invariants over those computations, with
    its rules in the collection \<open>preserves_intros\<close>, and \<open>total\<close>, for what never raises,
    with \<open>total_intros\<close>.
  \<^item> Python's text helpers: decimal printing, zero padding, \<open>str.join\<close>.
  \<^item> Two interfaces used by several components: \<open>keyed_table\<close> (what a table of rows
    promises about a lookup after a write) and \<open>step_system\<close> (an invariant kept by every
    atomic step is kept by every run).
\<close>

named_theorems preserves_intros
named_theorems total_intros
named_theorems pm_simps

section \<open>Computations with state and exceptions\<close>

datatype exn = Exn string | HTTPException nat string

type_synonym ('s, 'a) pm = "'s \<Rightarrow> (exn + 'a) \<times> 's"

definition ret :: "'a \<Rightarrow> ('s, 'a) pm" where
  "ret a = (\<lambda>s. (Inr a, s))"

definition raise :: "exn \<Rightarrow> ('s, 'a) pm" where
  "raise e = (\<lambda>s. (Inl e, s))"

definition bind :: "('s, 'a) pm \<Rightarrow> ('a \<Rightarrow> ('s, 'b) pm) \<Rightarrow> ('s, 'b) pm" where
  "bind m f = (\<lambda>s. case m s of (Inl e, s') \<Rightarrow> (Inl e, s') | (Inr a, s') \<Rightarrow> f a s')"

definition try_except :: "('s, 'a) pm \<Rightarrow> (exn \<Rightarrow> ('s, 'a) pm) \<Rightarrow> ('s, 'a) pm" where
  "try_except m h = (\<lambda>s. case m s of (Inl e, s') \<Rightarrow> h e s' | (Inr a, s') \<Rightarrow> (Inr a, s'))"

text \<open>
  A \<open>try\<close> whose two outcomes continue differently: the exception becomes a value.
\<close>

definition attempt :: "('s, 'a) pm \<Rightarrow> ('s, exn + 'a) pm" where
  "attempt m = (\<lambda>s. case m s of (r, s') \<Rightarrow> (Inr r, s'))"

text \<open>A \<open>finally\<close> block that only updates the state: it runs on both exits.\<close>

definition try_finally :: "('s, 'a) pm \<Rightarrow> ('s \<Rightarrow> 's) \<Rightarrow> ('s, 'a) pm" where
  "try_finally m f = (\<lambda>s. case m s of (r, s') \<Rightarrow> (r, f s'))"

definition gets :: "('s \<Rightarrow> 'a) \<Rightarrow> ('s, 'a) pm" where
  "gets f = (\<lambda>s. (Inr (f s), s))"

definition modify :: "('s \<Rightarrow> 's) \<Rightarrow> ('s, unit) pm" where
  "modify f = (\<lambda>s. (Inr (), f s))"

fun map_pm :: "('a \<Rightarrow> ('s, 'b) pm) \<Rightarrow> 'a list \<Rightarrow> ('s, 'b list) pm" where
  "map_pm f [] = ret []"
| "map_pm f (x # xs) = bind (f x) (\<lambda>y. bind (map_pm f xs) (\<lambda>ys. ret (y # ys)))"

definition exn_str :: "exn \<Rightarrow> string" where
  "exn_str e = (case e of Exn m \<Rightarrow> m | HTTPException c d \<Rightarrow> d)"

text \<open>Python's \<open>round\<close>: to the nearest, a half to the even neighbour.\<close>

definition round_half_even :: "real \<Rightarrow> int" where
  "round_half_even x =
    (let f = \<lfloor>x\<rfloor>; r = x - of_int f
     in if r < 1 / 2 then f else if 1 / 2 < r then f + 1 else if even f then f else f + 1)"

definition py_round :: "nat \<Rightarrow> real \<Rightarrow> real" where
  "py_round n x = of_int (round_half_even (x * 10 ^ n)) / 10 ^ n"

definition preserves :: "('s \<Rightarrow> bool) \<Rightarrow> ('s, 'a) pm \<Rightarrow> bool" where
  "preserves I m \<longleftrightarrow> (\<forall>s. I s \<longrightarrow> I (snd (m s)))"

text \<open>A computation that never raises.\<close>

definition total :: "('s, 'a) pm \<Rightarrow> bool" where
  "total m \<longleftrightarrow> (\<forall>s. \<exists>a s'. m s = (Inr a, s'))"

section \<open>Python text helpers\<close>

definition digit_char :: "nat \<Rightarrow> char" where
  "digit_char d = char_of (48 + d)"

fun nat_str :: "nat \<Rightarrow> string" where
  "nat_str n = (if n < 10 then [digit_char n] else nat_str (n div 10) @ [digit_char (n mod 10)])"

declare nat_str.simps [simp del]

definition int_str :: "int \<Rightarrow> string" where
  "int_str i = (if i < 0 then ''-'' @ nat_str (nat (- i)) else nat_str (nat i))"

text \<open>The format specification \<open>0<w>d\<close> on a value that is not negative.\<close>

definition pad0 :: "nat \<Rightarrow> nat \<Rightarrow> string" where
  "pad0 w n = replicate (w - length (nat_str n)) (CHR ''0'') @ nat_str n"

fun join :: "string \<Rightarrow> string list \<Rightarrow> string" where
  "join sep [] = []"
| "join sep [x] = x"
| "join sep (x # y # ys) = x @ sep @ join sep (y # ys)"

text \<open>\<open>NL\<close> is the newline of Python's \<open>\n\<close>.\<close>

definition NL :: string where
  "NL = [CHR 10]"

section \<open>Interfaces\<close>

text \<open>
  A table of rows under a primary key: what the clients of a store rely on. \<open>lookup\<close>
  is a read by the whole key, \<open>upsert\<close> and \<open>remove\<close> are the two kinds of write.
\<close>

locale keyed_table =
  fixes lookup :: "'t \<Rightarrow> 'k \<Rightarrow> 'r option"
    and upsert :: "'k \<Rightarrow> 'r \<Rightarrow> 't \<Rightarrow> 't"
    and remove :: "'k \<Rightarrow> 't \<Rightarrow> 't"
    and keys :: "'t \<Rightarrow> 'k set"
  assumes lookup_upsert: "lookup (upsert k r t) = (lookup t)(k \<mapsto> r)"
    and lookup_remove: "lookup (remove k t) = (lookup t)(k := None)"
    and keys_lookup: "k \<in> keys t \<longleftrightarrow> lookup t k \<noteq> None"
begin

lemma keys_upsert: "keys (upsert k r t) = insert k (keys t)"
  by (auto simp: keys_lookup lookup_upsert split: if_splits)

lemma keys_remove: "keys (remove k t) = keys t - {k}"
  by (auto simp: keys_lookup lookup_remove split: if_splits)

lemma remove_upsert_fresh: "k \<notin> keys t \<Longrightarrow> lookup (remove k (upsert k r t)) = lookup t"
  by (auto simp: keys_lookup lookup_upsert lookup_remove)

lemma upsert_idem: "lookup (upsert k r (upsert k r t)) = lookup (upsert k r t)"
  by (simp add: lookup_upsert)

end

text \<open>
  Atomic steps labelled with what asked for them. Accord and the sink's writes are atomic
  per statement, so every interleaving of their callers is a list of labels.
\<close>

locale step_system =
  fixes step :: "'l \<Rightarrow> 's \<Rightarrow> 's" and inv :: "'s \<Rightarrow> bool"
  assumes step_inv: "inv s \<Longrightarrow> inv (step l s)"
begin

lemma run_inv: "inv s \<Longrightarrow> inv (fold step ls s)"
  by (induction ls arbitrary: s) (auto intro: step_inv)

lemma prefix_inv: "inv s \<Longrightarrow> inv (fold step (take n ls) s)"
  by (rule run_inv)

end

section \<open>Lemmas\<close>

lemmas pm_defs = ret_def raise_def bind_def try_except_def try_finally_def gets_def modify_def

lemma ret_run [pm_simps]: "ret a s = (Inr a, s)"
  by (simp add: ret_def)

lemma raise_run [pm_simps]: "raise e s = (Inl e, s)"
  by (simp add: raise_def)

lemma bind_Inr [pm_simps]: "m s = (Inr a, s') \<Longrightarrow> bind m f s = f a s'"
  by (simp add: bind_def)

lemma bind_Inl [pm_simps]: "m s = (Inl e, s') \<Longrightarrow> bind m f s = (Inl e, s')"
  by (simp add: bind_def)

lemma attempt_run [pm_simps]: "m s = (r, s') \<Longrightarrow> attempt m s = (Inr r, s')"
  by (simp add: attempt_def)

lemma gets_run [pm_simps]: "gets f s = (Inr (f s), s)"
  by (simp add: gets_def)

lemma modify_run [pm_simps]: "modify f s = (Inr (), f s)"
  by (simp add: modify_def)

lemma bind_ret_left: "bind (ret a) f = f a"
  by (simp add: bind_def ret_def)

lemma bind_assoc: "bind (bind m f) g = bind m (\<lambda>a. bind (f a) g)"
  by (auto simp: bind_def fun_eq_iff split: prod.splits sum.splits)

lemma preservesI: "(\<And>s. I s \<Longrightarrow> I (snd (m s))) \<Longrightarrow> preserves I m"
  by (simp add: preserves_def)

lemma preservesD: "preserves I m \<Longrightarrow> I s \<Longrightarrow> I (snd (m s))"
  by (simp add: preserves_def)

lemma preserves_ret [preserves_intros]: "preserves I (ret a)"
  by (simp add: preserves_def ret_def)

lemma preserves_raise [preserves_intros]: "preserves I (raise e)"
  by (simp add: preserves_def raise_def)

lemma preserves_gets [preserves_intros]: "preserves I (gets f)"
  by (simp add: preserves_def gets_def)

lemma preserves_bind [preserves_intros]:
  assumes "preserves I m" and "\<And>a. preserves I (f a)"
  shows "preserves I (bind m f)"
  unfolding preserves_def bind_def
proof (intro allI impI)
  fix s assume "I s"
  with assms(1) have m: "I (snd (m s))" by (simp add: preserves_def)
  show "I (snd (case m s of (Inl e, s') \<Rightarrow> (Inl e, s') | (Inr a, s') \<Rightarrow> f a s'))"
    using m assms(2) by (auto simp: preserves_def split: prod.splits sum.splits)
qed

lemma preserves_try_except [preserves_intros]:
  assumes "preserves I m" and "\<And>e. preserves I (h e)"
  shows "preserves I (try_except m h)"
  unfolding preserves_def try_except_def
proof (intro allI impI)
  fix s assume "I s"
  with assms(1) have m: "I (snd (m s))" by (simp add: preserves_def)
  show "I (snd (case m s of (Inl e, s') \<Rightarrow> h e s' | (Inr a, s') \<Rightarrow> (Inr a, s')))"
    using m assms(2) by (auto simp: preserves_def split: prod.splits sum.splits)
qed

lemma preserves_attempt [preserves_intros]: "preserves I m \<Longrightarrow> preserves I (attempt m)"
  by (auto simp: preserves_def attempt_def split: prod.splits)

lemma preserves_case_sum [preserves_intros]:
  "(\<And>e. preserves I (f e)) \<Longrightarrow> (\<And>a. preserves I (g a)) \<Longrightarrow>
    preserves I (case z of Inl e \<Rightarrow> f e | Inr a \<Rightarrow> g a)"
  by (cases z) auto

lemma preserves_try_finally [preserves_intros]:
  assumes "preserves I m" and "\<And>s. I s \<Longrightarrow> I (f s)"
  shows "preserves I (try_finally m f)"
  using assms by (auto simp: preserves_def try_finally_def split: prod.splits)

lemma preserves_modify [preserves_intros]:
  "(\<And>s. I s \<Longrightarrow> I (f s)) \<Longrightarrow> preserves I (modify f)"
  by (simp add: preserves_def modify_def)

lemma preserves_map_pm [preserves_intros]:
  assumes "\<And>x. preserves I (f x)"
  shows "preserves I (map_pm f xs)"
  by (induction xs) (auto intro!: preserves_intros assms)

lemma preserves_map_pm_mem:
  assumes "\<And>x. x \<in> set xs \<Longrightarrow> preserves I (f x)"
  shows "preserves I (map_pm f xs)"
  using assms by (induction xs) (auto intro!: preserves_ret preserves_bind)

lemma preserves_if [preserves_intros]:
  "(b \<Longrightarrow> preserves I m) \<Longrightarrow> (\<not> b \<Longrightarrow> preserves I m') \<Longrightarrow> preserves I (if b then m else m')"
  by simp

lemma preserves_case_option [preserves_intros]:
  "preserves I m \<Longrightarrow> (\<And>x. preserves I (f x)) \<Longrightarrow>
    preserves I (case z of None \<Rightarrow> m | Some x \<Rightarrow> f x)"
  by (cases z) auto

lemma preserves_case_prod [preserves_intros]:
  "(\<And>x y. preserves I (f x y)) \<Longrightarrow> preserves I (case z of (x, y) \<Rightarrow> f x y)"
  by (cases z) auto

lemma totalD: "total m \<Longrightarrow> \<exists>a s'. m s = (Inr a, s')"
  by (simp add: total_def)

lemma total_ret [total_intros]: "total (ret a)"
  by (simp add: total_def ret_def)

lemma total_bind [total_intros]: "total m \<Longrightarrow> (\<And>a. total (f a)) \<Longrightarrow> total (bind m f)"
  unfolding total_def bind_def by (metis (no_types, lifting) old.prod.case sum.case(2))

lemma total_attempt [total_intros]: "total (attempt m)"
  by (simp add: total_def attempt_def split: prod.splits)

lemma total_try_except [total_intros]: "(\<And>e. total (h e)) \<Longrightarrow> total (try_except m h)"
  by (auto simp: total_def try_except_def split: prod.splits sum.splits)

lemma total_gets [total_intros]: "total (gets f)"
  by (simp add: total_def gets_def)

lemma total_modify [total_intros]: "total (modify f)"
  by (simp add: total_def modify_def)

lemma total_if [total_intros]: "total m \<Longrightarrow> total m' \<Longrightarrow> total (if b then m else m')"
  by simp

lemma total_case_sum [total_intros]:
  "(\<And>e. total (f e)) \<Longrightarrow> (\<And>a. total (g a)) \<Longrightarrow> total (case z of Inl e \<Rightarrow> f e | Inr a \<Rightarrow> g a)"
  by (cases z) auto

lemma total_case_option [total_intros]:
  "total m \<Longrightarrow> (\<And>x. total (f x)) \<Longrightarrow> total (case z of None \<Rightarrow> m | Some x \<Rightarrow> f x)"
  by (cases z) auto

lemma total_case_prod [total_intros]:
  "(\<And>x y. total (f x y)) \<Longrightarrow> total (case z of (x, y) \<Rightarrow> f x y)"
  by (cases z) auto

lemma total_map_pm [total_intros]: "(\<And>x. total (f x)) \<Longrightarrow> total (map_pm f xs)"
  by (induction xs) (auto intro!: total_intros)

subsection \<open>Decimal printing is injective\<close>

definition str_val :: "string \<Rightarrow> nat" where
  "str_val s = foldl (\<lambda>n c. 10 * n + (of_char c - 48)) 0 s"

lemma of_char_digit: "d < 10 \<Longrightarrow> (of_char (digit_char d) :: nat) = 48 + d"
  by (simp add: digit_char_def)

lemma str_val_snoc: "str_val (s @ [c]) = 10 * str_val s + (of_char c - 48)"
  by (simp add: str_val_def)

lemma str_val_nat_str: "str_val (nat_str n) = n"
proof (induction n rule: nat_str.induct)
  case (1 n)
  show ?case
  proof (cases "n < 10")
    case True
    then show ?thesis by (subst nat_str.simps) (simp add: str_val_def of_char_digit)
  next
    case False
    with "1.IH" have "str_val (nat_str (n div 10)) = n div 10" by simp
    with False show ?thesis
      by (subst nat_str.simps) (simp add: str_val_snoc of_char_digit)
  qed
qed

lemma str_val_zeros: "str_val (replicate k (CHR ''0'') @ s) = str_val s"
  by (induction k) (simp_all add: str_val_def)

lemma str_val_pad0: "str_val (pad0 w n) = n"
  by (simp add: pad0_def str_val_zeros str_val_nat_str)

lemma pad0_inj: "pad0 w m = pad0 w n \<longleftrightarrow> m = n"
  by (metis str_val_pad0)

lemma nat_str_inj: "nat_str m = nat_str n \<longleftrightarrow> m = n"
  by (metis str_val_nat_str)


subsection \<open>Rounding\<close>

lemma round_half_even_error: "\<bar>of_int (round_half_even x) - x\<bar> \<le> 1 / 2"
proof -
  have "of_int \<lfloor>x\<rfloor> \<le> x" "x < of_int \<lfloor>x\<rfloor> + 1" by linarith+
  then show ?thesis by (auto simp: round_half_even_def Let_def abs_le_iff)
qed

lemma round_half_even_mono: "x \<le> y \<Longrightarrow> round_half_even x \<le> round_half_even y"
proof -
  assume xy: "x \<le> y"
  then have f: "\<lfloor>x\<rfloor> \<le> \<lfloor>y\<rfloor>" by (rule floor_mono)
  show ?thesis
  proof (cases "\<lfloor>x\<rfloor> = \<lfloor>y\<rfloor>")
    case True
    with xy show ?thesis by (auto simp: round_half_even_def Let_def)
  next
    case False
    with f have "\<lfloor>x\<rfloor> + 1 \<le> \<lfloor>y\<rfloor>" by simp
    then show ?thesis by (auto simp: round_half_even_def Let_def)
  qed
qed

lemma py_round_mono: "x \<le> y \<Longrightarrow> py_round n x \<le> py_round n y"
  by (simp add: py_round_def divide_right_mono round_half_even_mono)

end
