(* ===== verification/Pystr.thy ===== *)
theory Pystr
  imports Prelude
begin

text \<open>
  The operations on \<open>str\<close> that the sources use, over lists of characters: \<open>strip\<close>, \<open>upper\<close>, \<open>lower\<close>,
  \<open>startswith\<close>, \<open>find\<close>, \<open>rfind\<close>, \<open>replace\<close>, \<open>split\<close> with and without a separator, and \<open>float\<close> on
  decimal notation. Characters are the 256 of HOL, so case mapping is that of ASCII letters.
  The spellings of infinities and of NaN are outside the model: a float is a real number here.
\<close>

section \<open>Definitions\<close>

abbreviation code_of :: "char \<Rightarrow> nat" where
  "code_of c \<equiv> of_char c"

definition is_space :: "char \<Rightarrow> bool" where
  "is_space c \<longleftrightarrow> 9 \<le> code_of c \<and> code_of c \<le> 13 \<or> 28 \<le> code_of c \<and> code_of c \<le> 32 \<or>
     code_of c = 133 \<or> code_of c = 160"

definition is_digit :: "char \<Rightarrow> bool" where
  "is_digit c \<longleftrightarrow> 48 \<le> code_of c \<and> code_of c \<le> 57"

definition is_lower :: "char \<Rightarrow> bool" where
  "is_lower c \<longleftrightarrow> 97 \<le> code_of c \<and> code_of c \<le> 122"

definition is_upper :: "char \<Rightarrow> bool" where
  "is_upper c \<longleftrightarrow> 65 \<le> code_of c \<and> code_of c \<le> 90"

definition to_upper :: "char \<Rightarrow> char" where
  "to_upper c = (if is_lower c then char_of (code_of c - 32) else c)"

definition to_lower :: "char \<Rightarrow> char" where
  "to_lower c = (if is_upper c then char_of (code_of c + 32) else c)"

abbreviation upper :: "string \<Rightarrow> string" where
  "upper \<equiv> map to_upper"

abbreviation lower :: "string \<Rightarrow> string" where
  "lower \<equiv> map to_lower"

definition rstrip :: "string \<Rightarrow> string" where
  "rstrip s = rev (dropWhile is_space (rev s))"

definition strip :: "string \<Rightarrow> string" where
  "strip s = rstrip (dropWhile is_space s)"

definition starts_with :: "string \<Rightarrow> string \<Rightarrow> bool" where
  "starts_with p s \<longleftrightarrow> take (length p) s = p"

fun find_sub :: "string \<Rightarrow> string \<Rightarrow> nat option" where
  "find_sub p [] = (if p = [] then Some 0 else None)"
| "find_sub p (c # s) = (if starts_with p (c # s) then Some 0 else map_option Suc (find_sub p s))"

fun rfind_sub :: "string \<Rightarrow> string \<Rightarrow> nat option" where
  "rfind_sub p [] = (if p = [] then Some 0 else None)"
| "rfind_sub p (c # s) =
    (case rfind_sub p s of Some i \<Rightarrow> Some (Suc i)
     | None \<Rightarrow> if starts_with p (c # s) then Some 0 else None)"

definition slice :: "nat \<Rightarrow> nat \<Rightarrow> string \<Rightarrow> string" where
  "slice a b s = take (b - a) (drop a s)"

text \<open>\<open>s.replace(p, "")\<close> for a text \<open>p\<close> that is not empty.\<close>

fun remove_sub :: "string \<Rightarrow> string \<Rightarrow> string" where
  "remove_sub p [] = []"
| "remove_sub p (c # s) =
    (if starts_with p (c # s) then remove_sub p (drop (length p - 1) s) else c # remove_sub p s)"

text \<open>\<open>s.replace(p, r)\<close>, likewise.\<close>

fun replace_sub :: "string \<Rightarrow> string \<Rightarrow> string \<Rightarrow> string" where
  "replace_sub p r [] = []"
| "replace_sub p r (c # s) =
    (if starts_with p (c # s) then r @ replace_sub p r (drop (length p - 1) s) else c # replace_sub p r s)"

fun split_on :: "char \<Rightarrow> string \<Rightarrow> string list" where
  "split_on d [] = [[]]"
| "split_on d (c # s) =
    (if c = d then [] # split_on d s
     else case split_on d s of w # ws \<Rightarrow> (c # w) # ws | [] \<Rightarrow> [[c]])"

text \<open>\<open>s.split()\<close>: the maximal runs of non-space characters.\<close>

definition words :: "string \<Rightarrow> string list" where
  "words s = filter (\<lambda>w. w \<noteq> [])
     (foldr (\<lambda>c ws. if is_space c then [] # ws else case ws of w # ws \<Rightarrow> (c # w) # ws | [] \<Rightarrow> [[c]]) s [[]])"

text \<open>Digits, with single underscores allowed between them, and what follows.\<close>

fun digit_part :: "bool \<Rightarrow> string \<Rightarrow> string \<times> string" where
  "digit_part prev [] = ([], [])"
| "digit_part prev (c # s) =
    (if is_digit c then (let (ds, r) = digit_part True s in (c # ds, r))
     else if prev \<and> c = CHR ''_'' \<and> s \<noteq> [] \<and> is_digit (hd s) then digit_part False s
     else ([], c # s))"

fun take_sign :: "string \<Rightarrow> bool \<times> string" where
  "take_sign [] = (False, [])"
| "take_sign (c # s) = (if c = CHR ''-'' then (True, s) else if c = CHR ''+'' then (False, s) else (False, c # s))"

definition signed :: "bool \<Rightarrow> real \<Rightarrow> real" where
  "signed neg x = (if neg then - x else x)"

text \<open>\<open>float(s)\<close>, \<open>None\<close> where it raises \<open>ValueError\<close>.\<close>

definition py_float :: "string \<Rightarrow> real option" where
  "py_float s =
    (let (neg, t) = take_sign (strip s);
         (whole, t1) = digit_part False t;
         (frac, t2) = (case t1 of c # u \<Rightarrow> if c = CHR ''.'' then digit_part False u else ([], t1) | [] \<Rightarrow> ([], []));
         v = real (str_val (whole @ frac)) / 10 ^ length frac
     in if whole = [] \<and> frac = [] then None
        else case t2 of
          [] \<Rightarrow> Some (signed neg v)
        | c # u \<Rightarrow>
            if c = CHR ''e'' \<or> c = CHR ''E''
            then (let (eneg, u1) = take_sign u; (ds, r) = digit_part False u1
                  in if ds = [] \<or> r \<noteq> [] then None
                     else Some (signed neg (if eneg then v / 10 ^ str_val ds else v * 10 ^ str_val ds)))
            else None)"

text \<open>\<open>int(s)\<close> of a text, and of a float: towards zero.\<close>

definition py_int :: "string \<Rightarrow> int option" where
  "py_int s =
    (let (neg, t) = take_sign (strip s); (ds, r) = digit_part False t
     in if ds = [] \<or> r \<noteq> [] then None else Some (if neg then - int (str_val ds) else int (str_val ds)))"

definition truncate_int :: "real \<Rightarrow> int" where
  "truncate_int x = (if 0 \<le> x then \<lfloor>x\<rfloor> else \<lceil>x\<rceil>)"

section \<open>Lemmas\<close>

text \<open>Evaluation by the bits of a character.\<close>

lemma char_code [code]:
  shows "is_digit (Char b0 b1 b2 b3 b4 b5 b6 b7) \<longleftrightarrow> \<not> b7 \<and> \<not> b6 \<and> b5 \<and> b4 \<and> (b3 \<longrightarrow> \<not> b2 \<and> \<not> b1)"
    and "is_lower (Char b0 b1 b2 b3 b4 b5 b6 b7) \<longleftrightarrow>
      \<not> b7 \<and> b6 \<and> b5 \<and> (if b4 then \<not> (b3 \<and> (b2 \<or> b0 \<and> b1)) else b0 \<or> b1 \<or> b2 \<or> b3)"
    and "is_upper (Char b0 b1 b2 b3 b4 b5 b6 b7) \<longleftrightarrow>
      \<not> b7 \<and> b6 \<and> \<not> b5 \<and> (if b4 then \<not> (b3 \<and> (b2 \<or> b0 \<and> b1)) else b0 \<or> b1 \<or> b2 \<or> b3)"
    and "is_space (Char b0 b1 b2 b3 b4 b5 b6 b7) \<longleftrightarrow>
      (if b7 then \<not> b6 \<and> \<not> b4 \<and> \<not> b3 \<and> \<not> b1 \<and> (if b5 then \<not> b2 \<and> \<not> b0 else b2 \<and> b0)
       else \<not> b6 \<and> (if b5 then \<not> (b0 \<or> b1 \<or> b2 \<or> b3 \<or> b4)
         else b3 \<and> (if b4 then b2 else (b0 \<or> b1 \<or> b2) \<and> \<not> (b2 \<and> b1))))"
    and "to_upper (Char b0 b1 b2 b3 b4 b5 b6 b7) =
      Char b0 b1 b2 b3 b4 (b5 \<and> \<not> is_lower (Char b0 b1 b2 b3 b4 b5 b6 b7)) b6 b7"
    and "to_lower (Char b0 b1 b2 b3 b4 b5 b6 b7) =
      Char b0 b1 b2 b3 b4 (b5 \<or> is_upper (Char b0 b1 b2 b3 b4 b5 b6 b7)) b6 b7"
  by (cases b0; cases b1; cases b2; cases b3; cases b4; cases b5; cases b6; cases b7,
      simp_all add: is_digit_def is_space_def to_upper_def to_lower_def is_lower_def is_upper_def
        of_char_Char char_of_def bit_0)+

lemma dropWhile_hd: "s \<noteq> [] \<Longrightarrow> \<not> P (hd s) \<Longrightarrow> dropWhile P s = s"
  by (cases s) simp_all

lemma strip_id: "s \<noteq> [] \<Longrightarrow> \<not> is_space (hd s) \<Longrightarrow> \<not> is_space (last s) \<Longrightarrow> strip s = s"
  by (simp add: strip_def rstrip_def dropWhile_hd hd_rev)

lemma rfind_sub_at_end: "p \<noteq> [] \<Longrightarrow> rfind_sub p (xs @ p) = Some (length xs)"
proof (induction xs)
  case Nil
  then obtain c q where p: "p = c # q" by (cases p) auto
  have "rfind_sub p r = None" if "length r < length p" for r
    using that by (induction r) (auto simp: starts_with_def)
  then have "rfind_sub p q = None" using p by simp
  then show ?case using p by (simp add: starts_with_def)
qed simp

lemma split_on_plain: "d \<notin> set s \<Longrightarrow> split_on d s = [s]"
  by (induction s) auto

lemma split_on_sep: "d \<notin> set s \<Longrightarrow> split_on d (s @ d # t) = s # split_on d t"
  by (induction s) auto

lemma split_on_nonempty: "split_on d s \<noteq> []"
  by (induction s) (auto split: list.splits)

text \<open>Splitting undoes joining.\<close>

lemma split_on_join:
  assumes "ws \<noteq> []" and "\<forall>w \<in> set ws. d \<notin> set w"
  shows "split_on d (join [d] ws) = ws"
  using assms
proof (induction ws)
  case (Cons w ws)
  then show ?case by (cases ws) (auto simp: split_on_plain split_on_sep)
qed simp

lemma str_val_append_digits: "str_val (ds @ es) = str_val ds * 10 ^ length es + str_val es"
  by (induction es rule: rev_induct)
    (simp_all add: str_val_snoc append_assoc [symmetric] algebra_simps del: append_assoc, simp add: str_val_def)

lemma digit_part_all: "list_all is_digit ds \<Longrightarrow> digit_part b ds = (ds, [])"
  by (induction ds arbitrary: b) auto

lemma digit_part_stop:
  "list_all is_digit ds \<Longrightarrow> \<not> is_digit c \<Longrightarrow> c \<noteq> CHR ''_'' \<Longrightarrow> digit_part b (ds @ c # r) = (ds, c # r)"
  by (induction ds arbitrary: b) auto

text \<open>The decimal digits of a number are digits, at least one.\<close>

lemma nat_str_digits: "list_all is_digit (nat_str n)" and nat_str_nonempty: "nat_str n \<noteq> []"
proof -
  have "d < 10 \<Longrightarrow> is_digit (digit_char d)" for d by (simp add: is_digit_def of_char_digit)
  then show "list_all is_digit (nat_str n)"
    by (induction n rule: nat_str.induct) (subst nat_str.simps, simp)
  show "nat_str n \<noteq> []" by (subst nat_str.simps) simp
qed

end
