(* ===== verification/Json.thy ===== *)
theory Json
  imports Pystr
begin

text \<open>
  Decoded JSON as the ingress programs see it, and the conversions of the language they apply to it:
  \<open>str\<close>, \<open>float\<close>, \<open>int\<close>, truth and \<open>dict.get\<close>, each raising where Python raises; and \<open>uuid.UUID\<close> of a
  text. Numbers with a fraction are reals.
\<close>

section \<open>Values and conversions\<close>

datatype json =
    JNull
  | JBool bool
  | JInt int
  | JFloat real
  | JStr string
  | JArr "json list"
  | JObj "(string \<times> json) list"

text \<open>\<open>str(v)\<close> and \<open>float(v)\<close>.\<close>

fun py_str :: "(json \<Rightarrow> string) \<Rightarrow> json \<Rightarrow> string" where
  "py_str repr_of JNull = ''None''"
| "py_str repr_of (JBool b) = (if b then ''True'' else ''False'')"
| "py_str repr_of (JInt i) = int_str i"
| "py_str repr_of (JStr s) = s"
| "py_str repr_of v = repr_of v"

fun float_of :: "json \<Rightarrow> exn + real" where
  "float_of (JBool b) = Inr (if b then 1 else 0)"
| "float_of (JInt i) = Inr (of_int i)"
| "float_of (JFloat x) = Inr x"
| "float_of (JStr s) = (case py_float s of None \<Rightarrow> Inl (Exn ''could not convert string to float'') | Some x \<Rightarrow> Inr x)"
| "float_of _ = Inl (Exn ''float() argument must be a string or a real number'')"

fun truthy :: "json \<Rightarrow> bool" where
  "truthy JNull = False"
| "truthy (JBool b) = b"
| "truthy (JInt i) = (i \<noteq> 0)"
| "truthy (JFloat x) = (x \<noteq> 0)"
| "truthy (JStr s) = (s \<noteq> [])"
| "truthy (JArr vs) = (vs \<noteq> [])"
| "truthy (JObj m) = (m \<noteq> [])"

text \<open>\<open>v.get(k, d)\<close>, which only an object has.\<close>

fun get_or :: "json \<Rightarrow> string \<Rightarrow> json \<Rightarrow> exn + json" where
  "get_or (JObj m) k d = Inr (case map_of m k of None \<Rightarrow> d | Some v \<Rightarrow> v)"
| "get_or _ k d = Inl (Exn ''object has no attribute get'')"

fun hex_val :: "char \<Rightarrow> nat option" where
  "hex_val c = (let n = code_of c in
     if 48 \<le> n \<and> n \<le> 57 then Some (n - 48)
     else if 97 \<le> n \<and> n \<le> 102 then Some (n - 87)
     else if 65 \<le> n \<and> n \<le> 70 then Some (n - 55) else None)"

text \<open>\<open>int(s, 16)\<close>: surrounding space, a sign, a \<open>0x\<close> prefix and single underscores are accepted.\<close>

fun hex_run :: "nat \<Rightarrow> bool \<Rightarrow> string \<Rightarrow> nat option" where
  "hex_run acc prev [] = (if prev then Some acc else None)"
| "hex_run acc prev (c # s) =
    (if c = CHR ''_'' then (if prev then hex_run acc False s else None)
     else case hex_val c of None \<Rightarrow> None | Some d \<Rightarrow> hex_run (16 * acc + d) True s)"

definition hex_int :: "string \<Rightarrow> (bool \<times> nat) option" where
  "hex_int s =
    (let (neg, t) = take_sign (strip s);
         t = (if starts_with ''0x'' t \<or> starts_with ''0X'' t
              then (if starts_with ''_'' (drop 2 t) then drop 3 t else drop 2 t) else t)
     in map_option (Pair neg) (hex_run 0 False t))"

text \<open>\<open>uuid.UUID(text)\<close>: prefixes, braces and hyphens dropped, then 32 characters that are a number.\<close>

definition parse_uuid :: "string \<Rightarrow> nat option" where
  "parse_uuid s =
    (let h = remove_sub ''uuid:'' (remove_sub ''urn:'' s);
         h = rev (dropWhile (\<lambda>c. c \<in> set ''{}'') (rev (dropWhile (\<lambda>c. c \<in> set ''{}'') h)));
         h = remove_sub ''-'' h
     in if length h \<noteq> 32 then None
        else case hex_int h of
          Some (neg, n) \<Rightarrow> if neg \<and> n \<noteq> 0 \<or> 2 ^ 128 \<le> n then None else Some n
        | None \<Rightarrow> None)"

fun int_of :: "json \<Rightarrow> exn + int" where
  "int_of (JBool b) = Inr (if b then 1 else 0)"
| "int_of (JInt i) = Inr i"
| "int_of (JFloat x) = Inr (truncate_int x)"
| "int_of (JStr s) = (case py_int s of None \<Rightarrow> Inl (Exn ''invalid literal for int() with base 10'') | Some i \<Rightarrow> Inr i)"
| "int_of _ = Inl (Exn ''int() argument must be a string or a real number'')"

text \<open>What a \<open>for\<close> over a value goes through.\<close>

fun iterate_json :: "json \<Rightarrow> exn + json list" where
  "iterate_json (JArr vs) = Inr vs"
| "iterate_json (JObj m) = Inr (map (JStr \<circ> fst) m)"
| "iterate_json (JStr s) = Inr (map (\<lambda>c. JStr [c]) s)"
| "iterate_json _ = Inl (Exn ''object is not iterable'')"

text \<open>A result as a computation.\<close>

definition lift_exn :: "exn + 'a \<Rightarrow> ('s, 'a) pm" where
  "lift_exn r = (case r of Inl e \<Rightarrow> raise e | Inr a \<Rightarrow> ret a)"

lemma lift_exn_simps [simp]: "lift_exn (Inr a) = ret a" "lift_exn (Inl e) = raise e"
  by (simp_all add: lift_exn_def)

lemma preserves_lift_exn [preserves_intros]: "preserves I (lift_exn r)"
  by (auto simp: preserves_def lift_exn_def ret_def raise_def split: sum.splits)

end
