(* ===== verification/Schema.thy ===== *)
theory Schema
  imports Prelude
begin

text \<open>
  The demo keyspace, as the ingest sink declares it (\<open>ensure_schema\<close> of
  \<open>src/ingress/consumer/consumer.py\<close>): one \<open>table_def\<close> per \<open>CREATE TABLE\<close>, in the
  order the sink issues them, with the columns, the partition and clustering key and the two
  table options the environment decides, \<open>transactional_mode\<close> and \<open>cdc\<close>. The key of a
  table is what the statements of the other components bind, so \<open>primary_key\<close> is read
  from these definitions.
\<close>

record table_def =
  tname :: string
  columns :: "(string \<times> string) list"
  partition_key :: "string list"
  clustering_key :: "(string \<times> bool) list"  \<comment> \<open>column, and whether it is descending\<close>
  transactional :: bool
  cdc_option :: bool

datatype ddl =
    CreateKeyspace string
  | CreateTable table_def
  | CreateIndex string string string  \<comment> \<open>index, table, column\<close>

definition EMBEDDING_DIMS :: nat where
  "EMBEDDING_DIMS = 1536"

definition events_table :: "string \<Rightarrow> table_def" where
  "events_table table = \<lparr>
     tname = table,
     columns = [(''event_bucket'', ''text''), (''shard'', ''int''), (''event_id'', ''timeuuid''),
       (''entity_id'', ''text''), (''event_day'', ''date''), (''event_time'', ''timestamp''),
       (''event_type'', ''text''), (''observer_id'', ''text''), (''latitude'', ''double''),
       (''longitude'', ''double''), (''altitude_m'', ''float''), (''temp_external_c'', ''float''),
       (''temp_internal_c'', ''float''), (''text_payload'', ''text'')],
     partition_key = [''event_bucket'', ''shard''],
     clustering_key = [(''event_id'', False)],
     transactional = False, cdc_option = False\<rparr>"

definition drone_latest_status_table :: "bool \<Rightarrow> table_def" where
  "drone_latest_status_table CDC_ENABLED = \<lparr>
     tname = ''drone_latest_status'',
     columns = [(''entity_id'', ''text''), (''event_id'', ''timeuuid''),
       (''event_time'', ''timestamp''), (''event_type'', ''text''), (''observer_id'', ''text''),
       (''latitude'', ''double''), (''longitude'', ''double''), (''altitude_m'', ''float''),
       (''temp_external_c'', ''float''), (''temp_internal_c'', ''float''),
       (''speed_mps'', ''double''), (''heading_deg'', ''double''), (''is_flying'', ''boolean''),
       (''telemetry_age_s'', ''int''), (''near_restricted_zone'', ''boolean''),
       (''predicted_zone_breach'', ''boolean''), (''risk_score'', ''double''),
       (''text_payload'', ''text''), (''updated_at'', ''timestamp'')],
     partition_key = [''entity_id''], clustering_key = [],
     transactional = False, cdc_option = CDC_ENABLED\<rparr>"

definition drone_text_embeddings_table :: table_def where
  "drone_text_embeddings_table = \<lparr>
     tname = ''drone_text_embeddings'',
     columns = [(''entity_id'', ''text''), (''text_payload'', ''text''),
       (''payload_vector'', ''vector<float, '' @ nat_str EMBEDDING_DIMS @ ''>''),
       (''updated_at'', ''timestamp'')],
     partition_key = [''entity_id''], clustering_key = [],
     transactional = False, cdc_option = False\<rparr>"

definition drone_events_by_entity_table :: table_def where
  "drone_events_by_entity_table = \<lparr>
     tname = ''drone_events_by_entity'',
     columns = [(''entity_id'', ''text''), (''event_time'', ''timestamp''),
       (''event_id'', ''timeuuid''), (''event_type'', ''text''), (''observer_id'', ''text''),
       (''latitude'', ''double''), (''longitude'', ''double''), (''altitude_m'', ''float''),
       (''temp_external_c'', ''float''), (''temp_internal_c'', ''float''),
       (''speed_mps'', ''double''), (''heading_deg'', ''double''), (''zone_id'', ''text''),
       (''text_payload'', ''text'')],
     partition_key = [''entity_id''],
     clustering_key = [(''event_time'', True), (''event_id'', True)],
     transactional = False, cdc_option = False\<rparr>"

definition restricted_zones_table :: table_def where
  "restricted_zones_table = \<lparr>
     tname = ''restricted_zones'',
     columns = [(''zone_id'', ''text''), (''zone_name'', ''text''), (''polygon_wkt'', ''text''),
       (''severity'', ''text''), (''enabled'', ''boolean''), (''updated_at'', ''timestamp'')],
     partition_key = [''zone_id''], clustering_key = [],
     transactional = False, cdc_option = False\<rparr>"

definition alerts_by_bucket_table :: table_def where
  "alerts_by_bucket_table = \<lparr>
     tname = ''alerts_by_bucket'',
     columns = [(''bucket'', ''text''), (''alert_time'', ''timestamp''), (''entity_id'', ''text''),
       (''alert_id'', ''timeuuid''), (''alert_type'', ''text''), (''severity'', ''text''),
       (''zone_id'', ''text''), (''latitude'', ''double''), (''longitude'', ''double''),
       (''altitude_m'', ''float''), (''message'', ''text''), (''risk_score'', ''double'')],
     partition_key = [''bucket''],
     clustering_key = [(''alert_time'', True), (''entity_id'', False), (''alert_id'', True)],
     transactional = False, cdc_option = False\<rparr>"

definition ingestion_counts_table :: table_def where
  "ingestion_counts_table = \<lparr>
     tname = ''ingestion_counts'',
     columns = [(''bucket'', ''text''), (''record_count'', ''counter'')],
     partition_key = [''bucket''], clustering_key = [],
     transactional = False, cdc_option = False\<rparr>"

definition sessions_open_table :: "bool \<Rightarrow> table_def" where
  "sessions_open_table ACCORD_ENABLED = \<lparr>
     tname = ''sessions_open'',
     columns = [(''user_id'', ''text''), (''session_id'', ''uuid'')],
     partition_key = [''user_id''], clustering_key = [(''session_id'', False)],
     transactional = ACCORD_ENABLED, cdc_option = False\<rparr>"

definition session_seq_applied_table :: "bool \<Rightarrow> table_def" where
  "session_seq_applied_table ACCORD_ENABLED = \<lparr>
     tname = ''session_seq_applied'',
     columns = [(''user_id'', ''text''), (''session_id'', ''uuid''), (''seq'', ''bigint'')],
     partition_key = [''user_id'', ''session_id''], clustering_key = [(''seq'', False)],
     transactional = ACCORD_ENABLED, cdc_option = False\<rparr>"

definition timeline_columns :: "(string \<times> string) list" where
  "timeline_columns = [(''user_id'', ''text''), (''session_id'', ''uuid''), (''seq'', ''bigint''),
     (''event_id'', ''timeuuid''), (''event_time'', ''timestamp''), (''event_type'', ''text''),
     (''payload'', ''text'')]"

definition session_timeline_table :: "bool \<Rightarrow> table_def" where
  "session_timeline_table ACCORD_ENABLED = \<lparr>
     tname = ''session_timeline'', columns = timeline_columns,
     partition_key = [''user_id'', ''session_id''], clustering_key = [(''seq'', False)],
     transactional = ACCORD_ENABLED, cdc_option = False\<rparr>"

definition session_timeline_plain_table :: table_def where
  "session_timeline_plain_table = \<lparr>
     tname = ''session_timeline_plain'', columns = timeline_columns,
     partition_key = [''user_id'', ''session_id''], clustering_key = [(''seq'', False)],
     transactional = False, cdc_option = False\<rparr>"

definition zone_occupancy_table :: "bool \<Rightarrow> table_def" where
  "zone_occupancy_table ACCORD_ENABLED = \<lparr>
     tname = ''zone_occupancy'',
     columns = [(''zone_id'', ''text''), (''zone_name'', ''text''), (''severity'', ''text''),
       (''capacity'', ''bigint''), (''remaining'', ''bigint'')],
     partition_key = [''zone_id''], clustering_key = [],
     transactional = ACCORD_ENABLED, cdc_option = False\<rparr>"

definition zone_clearance_table :: "bool \<Rightarrow> table_def" where
  "zone_clearance_table ACCORD_ENABLED = \<lparr>
     tname = ''zone_clearance'',
     columns = [(''zone_id'', ''text''), (''entity_id'', ''text''), (''granted_at'', ''timestamp'')],
     partition_key = [''zone_id''], clustering_key = [(''entity_id'', False)],
     transactional = ACCORD_ENABLED, cdc_option = False\<rparr>"

definition drone_clearance_table :: "bool \<Rightarrow> table_def" where
  "drone_clearance_table ACCORD_ENABLED = \<lparr>
     tname = ''drone_clearance'',
     columns = [(''entity_id'', ''text''), (''zone_id'', ''text''), (''granted_at'', ''timestamp'')],
     partition_key = [''entity_id''], clustering_key = [],
     transactional = ACCORD_ENABLED, cdc_option = False\<rparr>"

text \<open>The DDL of \<open>ensure_schema\<close>, in the order it is executed.\<close>

definition schema_ddl :: "string \<Rightarrow> string \<Rightarrow> bool \<Rightarrow> bool \<Rightarrow> ddl list" where
  "schema_ddl keyspace table ACCORD_ENABLED CDC_ENABLED =
    [CreateKeyspace keyspace,
     CreateTable (events_table table),
     CreateTable (drone_latest_status_table CDC_ENABLED),
     CreateTable drone_text_embeddings_table,
     CreateIndex ''payload_vector_idx'' ''drone_text_embeddings'' ''payload_vector'',
     CreateTable drone_events_by_entity_table,
     CreateTable restricted_zones_table,
     CreateTable alerts_by_bucket_table,
     CreateTable ingestion_counts_table,
     CreateTable (sessions_open_table ACCORD_ENABLED),
     CreateTable (session_seq_applied_table ACCORD_ENABLED),
     CreateTable (session_timeline_table ACCORD_ENABLED),
     CreateTable session_timeline_plain_table,
     CreateTable (zone_occupancy_table ACCORD_ENABLED),
     CreateTable (zone_clearance_table ACCORD_ENABLED),
     CreateTable (drone_clearance_table ACCORD_ENABLED)]"

fun tables_of :: "ddl list \<Rightarrow> table_def list" where
  "tables_of [] = []"
| "tables_of (CreateTable d # ds) = d # tables_of ds"
| "tables_of (_ # ds) = tables_of ds"

definition key_columns :: "table_def \<Rightarrow> string list" where
  "key_columns d = partition_key d @ map fst (clustering_key d)"

definition primary_key :: "string \<Rightarrow> string list" where
  "primary_key t =
    (case List.find (\<lambda>d. tname d = t) (tables_of (schema_ddl ''demo'' ''events'' True True)) of
       None \<Rightarrow> [] | Some d \<Rightarrow> key_columns d)"

lemmas table_defs = events_table_def drone_latest_status_table_def drone_text_embeddings_table_def
  drone_events_by_entity_table_def restricted_zones_table_def alerts_by_bucket_table_def
  ingestion_counts_table_def sessions_open_table_def session_seq_applied_table_def
  session_timeline_table_def session_timeline_plain_table_def zone_occupancy_table_def
  zone_clearance_table_def drone_clearance_table_def

lemma primary_keys [simp]:
  "primary_key ''events'' = [''event_bucket'', ''shard'', ''event_id'']"
  "primary_key ''drone_latest_status'' = [''entity_id'']"
  "primary_key ''drone_text_embeddings'' = [''entity_id'']"
  "primary_key ''drone_events_by_entity'' = [''entity_id'', ''event_time'', ''event_id'']"
  "primary_key ''restricted_zones'' = [''zone_id'']"
  "primary_key ''alerts_by_bucket'' = [''bucket'', ''alert_time'', ''entity_id'', ''alert_id'']"
  "primary_key ''ingestion_counts'' = [''bucket'']"
  "primary_key ''sessions_open'' = [''user_id'', ''session_id'']"
  "primary_key ''session_seq_applied'' = [''user_id'', ''session_id'', ''seq'']"
  "primary_key ''session_timeline'' = [''user_id'', ''session_id'', ''seq'']"
  "primary_key ''session_timeline_plain'' = [''user_id'', ''session_id'', ''seq'']"
  "primary_key ''zone_occupancy'' = [''zone_id'']"
  "primary_key ''zone_clearance'' = [''zone_id'', ''entity_id'']"
  "primary_key ''drone_clearance'' = [''entity_id'']"
  by (simp_all add: primary_key_def schema_ddl_def key_columns_def table_defs)

text \<open>
  Every key column of every table is one of its columns, and column and table names are
  distinct: the declarations are well formed whatever the environment asks for.
\<close>

definition well_formed :: "table_def \<Rightarrow> bool" where
  "well_formed d \<longleftrightarrow> partition_key d \<noteq> [] \<and> distinct (key_columns d) \<and>
     distinct (map fst (columns d)) \<and> set (key_columns d) \<subseteq> set (map fst (columns d))"

lemma schema_well_formed:
  "list_all well_formed (tables_of (schema_ddl ks table accord cdc))"
  by (simp add: schema_ddl_def table_defs well_formed_def key_columns_def timeline_columns_def)

end
