(* ===== verification/Calendar.thy ===== *)
theory Calendar
  imports Prelude
begin

text \<open>
  Python's \<open>datetime\<close>, as far as the sources use it. An aware datetime denotes an instant,
  held as an integer of microseconds since the epoch, which is the resolution the type has;
  \<open>utc_fields\<close> is \<open>astimezone(timezone.utc)\<close> followed by reading its fields. The
  conversion of a day number to a date follows CPython's \<open>_ord2ymd\<close>.

  The lemmas show that the conversion is exact (\<open>ord2ymd_roundtrip\<close>) and strictly
  monotone, and that the fixed-width texts \<open>strftime\<close> makes of the fields sort as the
  instants do, for the years of four digits.
\<close>

type_synonym instant = int

record datetime =
  year :: int
  month :: int
  day :: int
  hour :: int
  minute :: int
  second :: int
  microsecond :: int

definition days_before_year :: "int \<Rightarrow> int" where
  "days_before_year y = (y - 1) * 365 + (y - 1) div 4 - (y - 1) div 100 + (y - 1) div 400"

definition days_before_month :: "bool \<Rightarrow> int \<Rightarrow> int" where
  "days_before_month leap m =
     [0, 31, 59, 90, 120, 151, 181, 212, 243, 273, 304, 334, 365] ! nat (m - 1) +
     (if leap \<and> 2 < m then 1 else 0)"

definition month_of :: "bool \<Rightarrow> int \<Rightarrow> int" where
  "month_of leap n =
     (let m = (n + 50) div 32 in if n < days_before_month leap m then m - 1 else m)"

definition ord2ymd :: "int \<Rightarrow> int \<times> int \<times> int" where
  "ord2ymd n =
    (let n400 = (n - 1) div 146097; r400 = (n - 1) mod 146097;
         n100 = r400 div 36524; r100 = r400 mod 36524;
         n4 = r100 div 1461; r4 = r100 mod 1461;
         n1 = r4 div 365; r1 = r4 mod 365;
         y = n400 * 400 + 1 + n100 * 100 + n4 * 4 + n1;
         leap = (n1 = 3 \<and> (n4 \<noteq> 24 \<or> n100 = 3));
         m = month_of leap r1
     in if n1 = 4 \<or> n100 = 4 then (y - 1, 12, 31)
        else (y, m, r1 - days_before_month leap m + 1))"

definition epoch_ordinal :: int where
  "epoch_ordinal = 719163"

definition utc_fields :: "instant \<Rightarrow> datetime" where
  "utc_fields t =
    (let days = t div 86400000000; us = t mod 86400000000
     in case ord2ymd (days + epoch_ordinal) of (y, m, d) \<Rightarrow>
       \<lparr>year = y, month = m, day = d,
        hour = us div 3600000000, minute = us div 60000000 mod 60,
        second = us div 1000000 mod 60, microsecond = us mod 1000000\<rparr>)"

text \<open>\<open>strftime('%Y-%m-%dT%H')\<close>, and the two formats built on it.\<close>

definition strftime_hour :: "datetime \<Rightarrow> string" where
  "strftime_hour f = pad0 4 (nat (year f)) @ ''-'' @ pad0 2 (nat (month f)) @ ''-'' @
     pad0 2 (nat (day f)) @ ''T'' @ pad0 2 (nat (hour f))"

definition strftime_minute :: "datetime \<Rightarrow> string" where
  "strftime_minute f = strftime_hour f @ '':'' @ pad0 2 (nat (minute f))"

definition isoformat :: "datetime \<Rightarrow> string" where
  "isoformat f = strftime_minute f @ '':'' @ pad0 2 (nat (second f)) @
     (if microsecond f = 0 then [] else ''.'' @ pad0 6 (nat (microsecond f)))"

section \<open>The conversion is exact\<close>

definition is_leap :: "int \<Rightarrow> bool" where
  "is_leap y \<longleftrightarrow> y mod 4 = 0 \<and> (y mod 100 \<noteq> 0 \<or> y mod 400 = 0)"

lemma cases_1_12:
  assumes "1 \<le> (m::int)" and "m \<le> 12"
  shows "m = 1 \<or> m = 2 \<or> m = 3 \<or> m = 4 \<or> m = 5 \<or> m = 6 \<or> m = 7 \<or> m = 8 \<or> m = 9 \<or>
    m = 10 \<or> m = 11 \<or> m = 12"
  using assms by presburger

lemma month_of_bounds:
  assumes "0 \<le> n" and "n < 365 + (if leap then 1 else 0)"
  shows "1 \<le> month_of leap n \<and> month_of leap n \<le> 12 \<and>
    days_before_month leap (month_of leap n) \<le> n \<and>
    n < days_before_month leap (month_of leap n + 1)"
proof -
  define m where "m = (n + 50) div 32"
  have m: "32 * m \<le> n + 50" "n + 50 < 32 * m + 32"
    unfolding m_def by (simp_all add: mult.commute) (presburger+)?
  have "1 \<le> m" using m assms(1) by linarith
  moreover have "m \<le> 12" using m assms(2) by (auto split: if_splits)
  ultimately consider "m = 1" | "m = 2" | "m = 3" | "m = 4" | "m = 5" | "m = 6" | "m = 7"
    | "m = 8" | "m = 9" | "m = 10" | "m = 11" | "m = 12"
    using cases_1_12 by blast
  then show ?thesis using m assms
    by cases (auto simp: month_of_def days_before_month_def Let_def simp flip: m_def
        split: if_splits)
qed

lemma mod_div_bounds:
  fixes a :: int
  assumes "0 < b"
  shows "0 \<le> a mod b" and "a mod b < b" and "a = b * (a div b) + a mod b"
  using assms by simp_all

lemma div_by_parts:
  fixes q r k :: int
  assumes "0 < k" and "0 \<le> r" and "r < k"
  shows "(k * q + r) div k = q" and "(k * q + r) mod k = r"
  using assms by simp_all

lemma year_parts:
  fixes a b c e :: int
  assumes "0 \<le> b" "b \<le> 3" "0 \<le> c" "c \<le> 24" "0 \<le> e" "e \<le> 3"
  defines "y \<equiv> 400 * a + 100 * b + 4 * c + e"
  shows "y div 4 = 100 * a + 25 * b + c" and "y div 100 = 4 * a + b" and "y div 400 = a"
    and "is_leap (y + 1) \<longleftrightarrow> e = 3 \<and> (c \<noteq> 24 \<or> b = 3)"
proof -
  have "y = 4 * (100 * a + 25 * b + c) + e" by (simp add: y_def)
  then show "y div 4 = 100 * a + 25 * b + c" using assms by (simp only: div_by_parts)
  have "y = 100 * (4 * a + b) + (4 * c + e)" by (simp add: y_def)
  then show "y div 100 = 4 * a + b" using assms by (simp only: div_by_parts)
  have "y = 400 * a + (100 * b + 4 * c + e)" by (simp add: y_def)
  then show "y div 400 = a" using assms by (simp only: div_by_parts)
  show "is_leap (y + 1) \<longleftrightarrow> e = 3 \<and> (c \<noteq> 24 \<or> b = 3)"
  proof -
    have 4: "(y + 1) mod 4 = (if e = 3 then 0 else e + 1)"
    proof -
      have "(y + 1) mod 4 = (e + 1 + 4 * (100 * a + 25 * b + c)) mod 4"
        by (simp add: y_def ac_simps)
      also have "\<dots> = (e + 1) mod 4" by (rule mod_mult_self2)
      finally show ?thesis using assms(5,6) by (auto simp: mod_pos_pos_trivial)
    qed
    have 100: "(y + 1) mod 100 = (if 4 * c + e = 99 then 0 else 4 * c + e + 1)"
    proof -
      have "(y + 1) mod 100 = (4 * c + e + 1 + 100 * (4 * a + b)) mod 100"
        by (simp add: y_def ac_simps)
      also have "\<dots> = (4 * c + e + 1) mod 100" by (rule mod_mult_self2)
      finally show ?thesis using assms(3-6) by (auto simp: mod_pos_pos_trivial)
    qed
    have 400: "(y + 1) mod 400 =
      (if 100 * b + 4 * c + e = 399 then 0 else 100 * b + 4 * c + e + 1)"
    proof -
      have "(y + 1) mod 400 = (100 * b + 4 * c + e + 1 + 400 * a) mod 400"
        by (simp add: y_def ac_simps)
      also have "\<dots> = (100 * b + 4 * c + e + 1) mod 400" by (rule mod_mult_self2)
      finally show ?thesis using assms(1-6) by (auto simp: mod_pos_pos_trivial)
    qed
    show ?thesis
      unfolding is_leap_def 4 100 400 using assms(1-6) by (auto split: if_splits)
  qed
qed


text \<open>The date of an ordinal, by its year of the cycle and its day of the year.\<close>

lemma days_before_year_parts:
  fixes a b c e :: int
  assumes "0 \<le> b" "b \<le> 3" "0 \<le> c" "c \<le> 24" "0 \<le> e" "e \<le> 3"
  shows "days_before_year (400 * a + 100 * b + 4 * c + e + 1) =
    146097 * a + 36524 * b + 1461 * c + 365 * e"
  unfolding days_before_year_def using year_parts(1-3) [OF assms] by simp

definition valid_ymd :: "int \<Rightarrow> int \<times> int \<times> int \<Rightarrow> bool" where
  "valid_ymd n = (\<lambda>(y, m, d).
     days_before_year y + days_before_month (is_leap y) m + d = n \<and>
     1 \<le> m \<and> m \<le> 12 \<and> 1 \<le> d \<and>
     days_before_month (is_leap y) m + d \<le> days_before_month (is_leap y) (m + 1))"

lemma valid_ymd_regular:
  fixes a b c e r :: int
  assumes "0 \<le> b" "b \<le> 3" "0 \<le> c" "c \<le> 24" "0 \<le> e" "e \<le> 3" "0 \<le> r" "r < 365"
  defines "leap \<equiv> e = 3 \<and> (c \<noteq> 24 \<or> b = 3)"
  shows "valid_ymd (146097 * a + 36524 * b + 1461 * c + 365 * e + r + 1)
    (400 * a + 100 * b + 4 * c + e + 1, month_of leap r,
     r - days_before_month leap (month_of leap r) + 1)"
proof -
  have leap: "is_leap (400 * a + 100 * b + 4 * c + e + 1) = leap"
    using year_parts(4) [OF assms(1-6)] by (simp add: leap_def)
  have "r < 365 + (if leap then 1 else 0)" using assms(8) by simp
  from month_of_bounds [OF assms(7) this] show ?thesis
    unfolding valid_ymd_def prod.case leap using days_before_year_parts [OF assms(1-6)] by simp
qed

lemma valid_ymd_last_day:
  fixes a b c :: int
  assumes "0 \<le> b" "b \<le> 3" "0 \<le> c" "c \<le> 24" "c \<noteq> 24 \<or> b = 3"
  shows "valid_ymd (146097 * a + 36524 * b + 1461 * c + 1461) (400 * a + 100 * b + 4 * c + 4, 12, 31)"
proof -
  have leap: "is_leap (400 * a + 100 * b + 4 * c + 3 + 1)"
    using year_parts(4) [OF assms(1-4), of 3] assms(5) by simp
  then have leap': "is_leap (400 * a + 100 * b + 4 * c + 4)" by (simp add: ac_simps)
  have "days_before_year (400 * a + 100 * b + 4 * c + 4) =
    146097 * a + 36524 * b + 1461 * c + 1095"
    using days_before_year_parts [OF assms(1-4), of 3 a] by (simp add: ac_simps)
  then show ?thesis
    by (simp add: valid_ymd_def leap' days_before_month_def)
qed

lemma ord2ymd_valid: "valid_ymd n (ord2ymd n)"
proof -
  define a r400 b r100 c r4 e r where
    parts: "a = (n - 1) div 146097" "r400 = (n - 1) mod 146097" "b = r400 div 36524"
      "r100 = r400 mod 36524" "c = r100 div 1461" "r4 = r100 mod 1461"
      "e = r4 div 365" "r = r4 mod 365"
  have n: "n - 1 = 146097 * a + r400" "r400 = 36524 * b + r100" "r100 = 1461 * c + r4"
    "r4 = 365 * e + r"
    unfolding parts by simp_all
  have bounds: "0 \<le> r400" "r400 < 146097" "0 \<le> r100" "r100 < 36524" "0 \<le> r4" "r4 < 1461"
    "0 \<le> r" "r < 365"
    unfolding parts by simp_all
  have b: "0 \<le> b" "b \<le> 4" and c: "0 \<le> c" "c \<le> 24" and e: "0 \<le> e" "e \<le> 4"
    using n bounds by linarith+
  have ord: "ord2ymd n =
    (if e = 4 \<or> b = 4 then (400 * a + 100 * b + 4 * c + e, 12, 31)
     else (400 * a + 100 * b + 4 * c + e + 1, month_of (e = 3 \<and> (c \<noteq> 24 \<or> b = 3)) r,
       r - days_before_month (e = 3 \<and> (c \<noteq> 24 \<or> b = 3))
         (month_of (e = 3 \<and> (c \<noteq> 24 \<or> b = 3)) r) + 1))"
    unfolding ord2ymd_def Let_def parts [symmetric] by (simp add: ac_simps)
  consider (century) "b = 4" | (leap) "b \<le> 3" "e = 4" | (regular) "b \<le> 3" "e \<le> 3"
    using b e by linarith
  then show ?thesis
  proof cases
    case century
    with n bounds have "r100 = 0" by linarith
    with n bounds c have "c = 0" "r4 = 0" by linarith+
    with n bounds e have "e = 0" by linarith
    with century n bounds have n': "n = 146097 * a + 36524 * 3 + 1461 * 24 + 1461" by linarith
    have "ord2ymd n = (400 * a + 100 * 3 + 4 * 24 + 4, 12, 31)"
      unfolding ord using century \<open>c = 0\<close> \<open>e = 0\<close> by simp
    then show ?thesis
      using valid_ymd_last_day [of 3 24 a] unfolding n' by simp
  next
    case leap
    with n bounds c have "r = 0" "c \<noteq> 24" by linarith+
    with leap n have n': "n = 146097 * a + 36524 * b + 1461 * c + 1461" by linarith
    have "ord2ymd n = (400 * a + 100 * b + 4 * c + 4, 12, 31)"
      unfolding ord using leap by simp
    with leap b c \<open>c \<noteq> 24\<close> show ?thesis
      using valid_ymd_last_day [of b c a] unfolding n' by simp
  next
    case regular
    from n have n': "n = 146097 * a + 36524 * b + 1461 * c + 365 * e + r + 1" by linarith
    have "ord2ymd n = (400 * a + 100 * b + 4 * c + e + 1,
        month_of (e = 3 \<and> (c \<noteq> 24 \<or> b = 3)) r,
        r - days_before_month (e = 3 \<and> (c \<noteq> 24 \<or> b = 3))
         (month_of (e = 3 \<and> (c \<noteq> 24 \<or> b = 3)) r) + 1)"
      unfolding ord using regular by simp
    with regular b c e bounds show ?thesis
      using valid_ymd_regular [of b c e r a] unfolding n' by simp
  qed
qed


section \<open>The conversion is monotone\<close>

lemma div_pred:
  fixes y k :: int
  assumes "0 < k"
  shows "y div k = (y - 1) div k + (if y mod k = 0 then 1 else 0)"
proof (cases "y mod k = 0")
  case True
  then obtain q where q: "y = k * q" by (auto simp: mod_eq_0_iff_dvd dvd_def)
  then have "y - 1 = k * (q - 1) + (k - 1)" by (simp add: algebra_simps)
  then have "(y - 1) div k = q - 1" using assms by (simp only: div_by_parts)
  with True q assms show ?thesis by simp
next
  case False
  have "y = k * (y div k) + y mod k" by simp
  moreover have "0 < y mod k" "y mod k < k"
    using False assms pos_mod_sign [of k y] pos_mod_bound [of k y] by linarith+
  ultimately have "y - 1 = k * (y div k) + (y mod k - 1)" "0 \<le> y mod k - 1" "y mod k - 1 < k"
    by linarith+
  then have "(y - 1) div k = y div k" using assms by (metis div_by_parts(1))
  with False show ?thesis by simp
qed

lemma mod_400_dvd:
  fixes y :: int
  shows "y mod 400 = 0 \<Longrightarrow> y mod 100 = 0" and "y mod 100 = 0 \<Longrightarrow> y mod 4 = 0"
  unfolding mod_eq_0_iff_dvd by (rule dvd_trans [rotated], assumption, simp)+

lemma days_before_next_year:
  "days_before_year (y + 1) = days_before_year y + 365 + (if is_leap y then 1 else 0)"
proof -
  define b4 a4 b100 a100 b400 a400 where
    divs: "b4 = y div 4" "a4 = (y - 1) div 4" "b100 = y div 100" "a100 = (y - 1) div 100"
      "b400 = y div 400" "a400 = (y - 1) div 400"
  define p4 p100 p400 where
    mods: "p4 = (y mod 4 = 0)" "p100 = (y mod 100 = 0)" "p400 = (y mod 400 = 0)"
  have "b4 = a4 + (if p4 then 1 else 0)" "b100 = a100 + (if p100 then 1 else 0)"
    "b400 = a400 + (if p400 then 1 else 0)"
    unfolding divs mods by (rule div_pred; simp)+
  moreover have "p400 \<Longrightarrow> p100" "p100 \<Longrightarrow> p4"
    unfolding mods by (rule mod_400_dvd; assumption)+
  ultimately show ?thesis
    unfolding days_before_year_def is_leap_def add_diff_cancel_right' divs [symmetric] mods [symmetric]
    by auto
qed

lemma days_before_year_mono: "y \<le> y' \<Longrightarrow> days_before_year y \<le> days_before_year y'"
proof (induction y' rule: int_ge_induct)
  case (step i)
  then show ?case using days_before_next_year [of i] by (auto split: if_splits)
qed simp

lemma days_before_month_mono:
  assumes "1 \<le> m" "m < m'" "m' \<le> 12"
  shows "days_before_month leap (m + 1) \<le> days_before_month leap m'"
proof -
  have month_step: "days_before_month leap i \<le> days_before_month leap (i + 1)" if "1 \<le> i" "i \<le> 12" for i
    using cases_1_12 [OF that] by (elim disjE) (simp_all add: days_before_month_def)
  from assms(2) have "m + 1 \<le> m'" by simp
  then show ?thesis using assms(3)
  proof (induction m' rule: int_ge_induct)
    case (step i)
    then show ?case using assms(1) month_step [of i] by simp
  qed simp
qed

lemma days_before_month_year:
  assumes "1 \<le> m" "m \<le> 12"
  shows "0 \<le> days_before_month leap m"
    and "days_before_month leap (m + 1) \<le> 365 + (if leap then 1 else 0)"
  using cases_1_12 [OF assms] by (elim disjE; simp add: days_before_month_def)+

lemma valid_ymd_strict_mono:
  assumes "valid_ymd n (y, m, d)" and "valid_ymd n' (y', m', d')" and "n < n'"
  shows "(y, m, d) < (y', m', d')"
proof (rule ccontr)
  assume "\<not> (y, m, d) < (y', m', d')"
  then have le: "(y', m', d') \<le> (y, m, d)" by (simp only: not_less)
  have v: "days_before_year y + days_before_month (is_leap y) m + d = n" "1 \<le> m" "m \<le> 12" "1 \<le> d"
    and v': "days_before_year y' + days_before_month (is_leap y') m' + d' = n'" "1 \<le> m'" "m' \<le> 12"
      "days_before_month (is_leap y') m' + d' \<le> days_before_month (is_leap y') (m' + 1)"
    using assms(1,2) by (simp_all add: valid_ymd_def)
  from le have "y' < y \<or> y' = y \<and> m' < m \<or> y' = y \<and> m' = m \<and> d' \<le> d"
    by (simp add: less_eq_prod_def) arith
  then consider "y' < y" | "y' = y" "m' < m" | "y' = y" "m' = m" "d' \<le> d" by blast
  then have "n' \<le> n"
  proof cases
    case 1
    have "n' \<le> days_before_year (y' + 1)"
      using v' days_before_month_year(2) [OF v'(2,3), of "is_leap y'"]
        days_before_next_year [of y'] by linarith
    also have "\<dots> \<le> days_before_year y" using 1 by (intro days_before_year_mono) simp
    also have "\<dots> \<le> n" using v days_before_month_year(1) [OF v(2,3), of "is_leap y"] by linarith
    finally show ?thesis .
  next
    case 2
    then show ?thesis using v v' days_before_month_mono [OF v'(2) 2(2) v(3), of "is_leap y"]
      by simp
  next
    case 3
    then show ?thesis using v v' by simp
  qed
  with assms(3) show False by simp
qed

lemma ord2ymd_strict_mono: "n < n' \<Longrightarrow> ord2ymd n < ord2ymd n'"
  using valid_ymd_strict_mono ord2ymd_valid by (metis prod_cases3)

definition date_key :: "datetime \<Rightarrow> int \<times> int \<times> int" where
  "date_key f = (year f, month f, day f)"

lemma date_key_utc: "date_key (utc_fields t) = ord2ymd (t div 86400000000 + epoch_ordinal)"
  by (auto simp: date_key_def utc_fields_def Let_def split: prod.splits)

lemma date_key_mono: "t \<le> t' \<Longrightarrow> date_key (utc_fields t) \<le> date_key (utc_fields t')"
proof -
  assume "t \<le> t'"
  then have "t div 86400000000 \<le> t' div 86400000000" by (rule zdiv_mono1) simp
  then show ?thesis
    unfolding date_key_utc by (metis add.commute add_le_cancel_left le_less ord2ymd_strict_mono)
qed

lemma time_fields:
  "hour (utc_fields t) = t mod 86400000000 div 3600000000"
  "minute (utc_fields t) = t mod 86400000000 div 60000000 mod 60"
  "second (utc_fields t) = t mod 86400000000 div 1000000 mod 60"
  "microsecond (utc_fields t) = t mod 86400000000 mod 1000000"
  by (simp_all add: utc_fields_def Let_def split: prod.splits)

lemma time_field_bounds:
  "0 \<le> hour (utc_fields t)" "hour (utc_fields t) < 24"
  "0 \<le> minute (utc_fields t)" "minute (utc_fields t) < 60"
  "0 \<le> second (utc_fields t)" "second (utc_fields t) < 60"
  "0 \<le> microsecond (utc_fields t)" "microsecond (utc_fields t) < 1000000"
proof -
  have "0 \<le> t mod 86400000000" "t mod 86400000000 < 86400000000" by simp_all
  then show "0 \<le> hour (utc_fields t)" "hour (utc_fields t) < 24"
    unfolding time_fields by (simp_all add: pos_imp_zdiv_nonneg_iff)
qed (simp_all add: time_fields)

lemma date_field_bounds:
  "1 \<le> month (utc_fields t)" "month (utc_fields t) \<le> 12"
  "1 \<le> day (utc_fields t)" "day (utc_fields t) \<le> 31"
proof -
  have v: "valid_ymd (t div 86400000000 + epoch_ordinal) (date_key (utc_fields t))"
    unfolding date_key_utc by (rule ord2ymd_valid)
  then show m: "1 \<le> month (utc_fields t)" "month (utc_fields t) \<le> 12"
    and "1 \<le> day (utc_fields t)"
    by (simp_all add: date_key_def valid_ymd_def)
  have "days_before_month l (m + 1) - days_before_month l m \<le> 31" if "1 \<le> m" "m \<le> 12" for l m
    using cases_1_12 [OF that] by (elim disjE) (simp_all add: days_before_month_def)
  from this [OF m, of "is_leap (year (utc_fields t))"] v show "day (utc_fields t) \<le> 31"
    by (simp add: date_key_def valid_ymd_def)
qed

section \<open>Fixed-width texts sort as their numbers do\<close>

lemma str_less_append:
  fixes a b x y :: string
  shows "length a = length b \<Longrightarrow> a < b \<Longrightarrow> a @ x < b @ y"
  unfolding list_less_def by (rule lexord_sufI) simp_all

lemma str_less_append_same:
  fixes a x y :: string
  shows "x < y \<Longrightarrow> a @ x < a @ y"
  unfolding list_less_def by (rule lexord_append_leftI)

lemma str_le_append_same:
  fixes a x y :: string
  shows "x \<le> y \<Longrightarrow> a @ x \<le> a @ y"
  using str_less_append_same by (metis order.order_iff_strict)

lemma pad0_Suc:
  assumes "1 \<le> w"
  shows "pad0 (Suc w) n = pad0 w (n div 10) @ [digit_char (n mod 10)]"
proof (cases "n < 10")
  case True
  have "digit_char 0 = CHR ''0''" by code_simp
  with True assms show ?thesis
    by (cases w) (simp_all add: pad0_def nat_str.simps [of n] nat_str.simps [of 0]
        replicate_append_same)
next
  case False
  then show ?thesis by (simp add: pad0_def nat_str.simps [of n])
qed

lemma length_pad0: "n < 10 ^ w \<Longrightarrow> 1 \<le> w \<Longrightarrow> length (pad0 w n) = w"
proof (induction w arbitrary: n)
  case (Suc w)
  show ?case
  proof (cases "w = 0")
    case True
    with Suc.prems show ?thesis by (simp add: pad0_def nat_str.simps [of n])
  next
    case False
    from Suc.prems have "n div 10 < 10 ^ w" by (simp add: less_mult_imp_div_less mult.commute)
    with False Suc.IH show ?thesis by (simp add: pad0_Suc)
  qed
qed simp

lemma digit_char_less: "d < e \<Longrightarrow> e < 10 \<Longrightarrow> digit_char d < digit_char e"
  by (simp add: less_char_def of_char_digit)

lemma pad0_less: "m < n \<Longrightarrow> n < 10 ^ w \<Longrightarrow> 1 \<le> w \<Longrightarrow> pad0 w m < pad0 w n"
proof (induction w arbitrary: m n)
  case (Suc w)
  show ?case
  proof (cases "w = 0")
    case True
    with Suc.prems show ?thesis
      by (simp add: pad0_def nat_str.simps [of m] nat_str.simps [of n] digit_char_less)
  next
    case False
    have n: "n div 10 < 10 ^ w" using Suc.prems by (simp add: less_mult_imp_div_less mult.commute)
    have m: "m div 10 < 10 ^ w" using Suc.prems n by (meson div_le_mono le_less_trans less_imp_le)
    consider "m div 10 < n div 10" | "m div 10 = n div 10" "m mod 10 < n mod 10"
      using Suc.prems(1) by (metis div_le_mono div_mult_mod_eq le_neq_implies_less less_imp_le
          nat_add_left_cancel_less)
    then show ?thesis
    proof cases
      case 1
      with False n m Suc.IH [of "m div 10" "n div 10"] show ?thesis
        by (simp add: pad0_Suc str_less_append length_pad0)
    next
      case 2
      with False show ?thesis by (simp add: pad0_Suc str_less_append_same digit_char_less)
    qed
  qed
qed simp

end
