(* ===== verification/Cql.thy ===== *)
theory Cql
  imports Schema Calendar
begin

text \<open>
  The CQL the backend writes, and the node it writes to.

  The transactions of \<open>src/backend/app/routes/transactions.py\<close> are CQL programs held as
  text. They are modelled twice: as the text the Python builds (in \<open>Session_Timeline\<close> and
  \<open>Clearance\<close>) and as a value of type \<open>txn\<close>, whose \<open>render_txn\<close> is that text and
  whose meaning is \<open>run_txn\<close>: the \<open>LET\<close> reads, then the \<open>IF\<close>, then the writes, each
  \<open>?\<close> bound to the next parameter, nothing written when the \<open>IF\<close> does not hold, and the
  projected row returned either way.

  A \<open>world\<close> is what a handler can touch: the tables, the clock it reads, the identifiers
  \<open>uuid4\<close> hands out, and the lock the transaction routes share. What the node makes of a
  transaction's text is a parameter, the field \<open>accord\<close>; the theorems that depend on it say so
  with the hypothesis \<open>accord_runs\<close>, that the node gives the texts this module sends their
  documented meaning. \<open>serve\<close> is a node that does. A call to the node can fail: \<open>faults\<close>
  says, call by call, whether the reply arrives, the statement never ran, or it ran and the
  reply was lost. Theorems about invariants quantify over every fault list.
\<close>

section \<open>Values and tables\<close>

datatype cval =
    CNull
  | CText string
  | CInt int
  | CUuid nat
  | CTime instant
  | CBool bool
  | CDouble real
  | CDate int

type_synonym row = "(string \<times> cval) list"
type_synonym ctable = "(cval list \<times> row) list"
type_synonym db = "string \<Rightarrow> ctable"
type_synonym projection = "(string \<times> cval) list"

definition cval_key :: "cval \<Rightarrow> nat \<times> string \<times> real" where
  "cval_key v = (case v of
      CNull \<Rightarrow> (0, [], 0)
    | CText s \<Rightarrow> (1, s, 0)
    | CInt i \<Rightarrow> (2, [], of_int i)
    | CUuid n \<Rightarrow> (3, [], of_nat n)
    | CTime t \<Rightarrow> (4, [], of_int t)
    | CBool b \<Rightarrow> (5, [], if b then 1 else 0)
    | CDouble x \<Rightarrow> (6, [], x)
    | CDate n \<Rightarrow> (7, [], of_int n))"

lemma cval_key_inj: "cval_key v = cval_key w \<longleftrightarrow> v = w"
  by (cases v; cases w) (auto simp: cval_key_def)

instantiation cval :: linorder
begin

definition less_eq_cval :: "cval \<Rightarrow> cval \<Rightarrow> bool" where
  "less_eq_cval v w \<longleftrightarrow> cval_key v \<le> cval_key w"

definition less_cval :: "cval \<Rightarrow> cval \<Rightarrow> bool" where
  "less_cval v w \<longleftrightarrow> cval_key v < cval_key w"

instance
proof
  fix x y z :: cval
  show "x < y \<longleftrightarrow> x \<le> y \<and> \<not> y \<le> x"
    by (auto simp: less_eq_cval_def less_cval_def)
  show "x \<le> x" by (simp add: less_eq_cval_def)
  show "x \<le> y \<Longrightarrow> y \<le> z \<Longrightarrow> x \<le> z"
    unfolding less_eq_cval_def by (rule order_trans)
  show "x \<le> y \<Longrightarrow> y \<le> x \<Longrightarrow> x = y"
    unfolding less_eq_cval_def by (metis order_antisym cval_key_inj)
  show "x \<le> y \<or> y \<le> x"
    unfolding less_eq_cval_def by (rule linear)
qed

end

text \<open>
  How a value prints: \<open>str()\<close> of what the driver hands back, after \<open>execute_query\<close> has
  turned a timestamp into its \<open>isoformat\<close>. A UUID prints as its 32 hexadecimal digits in
  five groups.
\<close>

definition hex_digit :: "nat \<Rightarrow> char" where
  "hex_digit d = (if d < 10 then char_of (48 + d) else char_of (87 + d))"

fun hex_digits :: "nat \<Rightarrow> nat \<Rightarrow> string" where
  "hex_digits 0 n = []"
| "hex_digits (Suc w) n = hex_digits w (n div 16) @ [hex_digit (n mod 16)]"

definition uuid_hex :: "nat \<Rightarrow> string" where
  "uuid_hex n = hex_digits 32 n"

definition uuid_str :: "nat \<Rightarrow> string" where
  "uuid_str n = (let h = uuid_hex n in
     take 8 h @ ''-'' @ take 4 (drop 8 h) @ ''-'' @ take 4 (drop 12 h) @ ''-'' @
     take 4 (drop 16 h) @ ''-'' @ drop 20 h)"

text \<open>The text of a float or a date is left open: no statement here prints one.\<close>

fun cval_str :: "cval \<Rightarrow> string" where
  "cval_str CNull = ''None''"
| "cval_str (CText s) = s"
| "cval_str (CInt i) = int_str i"
| "cval_str (CUuid n) = uuid_str n"
| "cval_str (CTime t) = isoformat (utc_fields t)"
| "cval_str (CBool b) = (if b then ''True'' else ''False'')"

definition row_get :: "row \<Rightarrow> string \<Rightarrow> cval" where
  "row_get r c = (case map_of r c of None \<Rightarrow> CNull | Some v \<Rightarrow> v)"

definition key_of :: "string \<Rightarrow> row \<Rightarrow> cval list" where
  "key_of t r = map (row_get r) (primary_key t)"

text \<open>
  An \<open>INSERT\<close> is an upsert: the columns it names replace the row's, the others stay.
\<close>

definition put_row :: "string \<Rightarrow> row \<Rightarrow> db \<Rightarrow> db" where
  "put_row t cs d =
    d(t := AList.update (key_of t cs)
             (case map_of (d t) (key_of t cs) of None \<Rightarrow> cs | Some r \<Rightarrow> AList.merge r cs) (d t))"

definition delete_row :: "string \<Rightarrow> row \<Rightarrow> db \<Rightarrow> db" where
  "delete_row t cs d = d(t := AList.delete (key_of t cs) (d t))"

text \<open>
  \<open>SET c += n\<close>, on a row that holds an integer there. A row that does not is left as it is.
\<close>

definition increment_row :: "string \<Rightarrow> string \<Rightarrow> int \<Rightarrow> row \<Rightarrow> db \<Rightarrow> db" where
  "increment_row t c n cs d =
    (case map_of (d t) (key_of t cs) of
       None \<Rightarrow> d
     | Some r \<Rightarrow>
        (case row_get r c of
           CInt i \<Rightarrow> d(t := AList.update (key_of t cs) (AList.update c (CInt (i + n)) r) (d t))
         | _ \<Rightarrow> d))"

text \<open>
  The rows of one partition, in clustering order (every clustering column of the tables read
  this way is ascending), and a scan of a whole table, in the store's own order.
\<close>

definition select_partition :: "string \<Rightarrow> row \<Rightarrow> db \<Rightarrow> row list" where
  "select_partition t conds d =
    map snd (sort_key fst
      (filter (\<lambda>(k, r). list_all (\<lambda>(c, v). row_get r c = v) conds) (d t)))"

definition select_all :: "string \<Rightarrow> db \<Rightarrow> row list" where
  "select_all t d = map snd (d t)"

section \<open>Transactions\<close>

datatype rhs = Q | L int

datatype cref = Row string | Col string string

datatype let_read = LetRead string "string list" string "(string \<times> rhs) list"

datatype guard = NotNull cref | IsNull cref | GtLit cref int | EqQ cref

datatype cql_write =
    Insert string "string list"
  | Increment string string int "string list"
  | Delete string "string list"

record txn =
  lets :: "let_read list"
  projects :: "cref list"
  guards :: "guard list"
  writes :: "cql_write list"

fun cref_name :: "cref \<Rightarrow> string" where
  "cref_name (Row n) = n"
| "cref_name (Col n c) = n @ ''.'' @ c"

subsection \<open>The text of a transaction\<close>

fun render_rhs :: "rhs \<Rightarrow> string" where
  "render_rhs Q = ''?''"
| "render_rhs (L i) = int_str i"

definition render_where :: "(string \<times> rhs) list \<Rightarrow> string" where
  "render_where ws = join '' AND '' (map (\<lambda>(c, v). c @ '' = '' @ render_rhs v) ws)"

fun render_let :: "string \<Rightarrow> let_read \<Rightarrow> string" where
  "render_let ks (LetRead n cs t ws) =
     ''LET '' @ n @ '' = (SELECT '' @ join '', '' cs @ '' FROM '' @ ks @ ''.'' @ t @
     '' WHERE '' @ render_where ws @ '');''"

fun render_guard :: "guard \<Rightarrow> string" where
  "render_guard (NotNull r) = cref_name r @ '' IS NOT NULL''"
| "render_guard (IsNull r) = cref_name r @ '' IS NULL''"
| "render_guard (GtLit r i) = cref_name r @ '' > '' @ int_str i"
| "render_guard (EqQ r) = cref_name r @ '' = ?''"

fun render_write :: "string \<Rightarrow> cql_write \<Rightarrow> string" where
  "render_write ks (Insert t cs) =
     ''INSERT INTO '' @ ks @ ''.'' @ t @ '' ('' @ join '', '' cs @ '') VALUES ('' @
     join '', '' (map (\<lambda>_. ''?'') cs) @ '');''"
| "render_write ks (Increment t c i ws) =
     ''UPDATE '' @ ks @ ''.'' @ t @ '' SET '' @ c @ (if i < 0 then '' -= '' else '' += '') @
     int_str \<bar>i\<bar> @ '' WHERE '' @ render_where (map (\<lambda>w. (w, Q)) ws) @ '';''"
| "render_write ks (Delete t ws) =
     ''DELETE FROM '' @ ks @ ''.'' @ t @ '' WHERE '' @ render_where (map (\<lambda>w. (w, Q)) ws) @ '';''"

definition render_txn :: "string \<Rightarrow> txn \<Rightarrow> string" where
  "render_txn ks t =
     ''BEGIN TRANSACTION'' @ NL @ ''  '' @
     join (NL @ ''  '') (map (render_let ks) (lets t) @
       [''SELECT '' @ join '', '' (map cref_name (projects t)) @ '';'']) @
     (if writes t = [] then []
      else NL @ ''  IF '' @ join '' AND '' (map render_guard (guards t)) @ '' THEN'' @
        concat (map (\<lambda>w. NL @ ''    '' @ render_write ks w) (writes t)) @ NL @ ''  END IF'') @
     NL @ ''COMMIT TRANSACTION;''"

subsection \<open>The meaning of a transaction\<close>

type_synonym let_env = "(string \<times> row option) list"

fun take_binds :: "(string \<times> rhs) list \<Rightarrow> cval list \<Rightarrow> row \<times> cval list" where
  "take_binds [] ps = ([], ps)"
| "take_binds ((c, L i) # ws) ps = (case take_binds ws ps of (b, r) \<Rightarrow> ((c, CInt i) # b, r))"
| "take_binds ((c, Q) # ws) ps =
     (case take_binds ws (tl ps) of (b, r) \<Rightarrow> ((c, if ps = [] then CNull else hd ps) # b, r))"

fun run_lets :: "let_read list \<Rightarrow> cval list \<Rightarrow> db \<Rightarrow> let_env \<times> cval list" where
  "run_lets [] ps d = ([], ps)"
| "run_lets (LetRead n cs t ws # ls) ps d =
     (case take_binds ws ps of (b, r) \<Rightarrow>
      case run_lets ls r d of (e, r') \<Rightarrow>
        ((n, map_option (filter (\<lambda>(c, _). c \<in> set cs)) (map_of (d t) (key_of t b))) # e, r'))"

definition env_row :: "let_env \<Rightarrow> string \<Rightarrow> row option" where
  "env_row e n = (case map_of e n of None \<Rightarrow> None | Some r \<Rightarrow> r)"

fun cref_val :: "let_env \<Rightarrow> cref \<Rightarrow> cval" where
  "cref_val e (Row n) = (case env_row e n of None \<Rightarrow> CNull | Some _ \<Rightarrow> CBool True)"
| "cref_val e (Col n c) = (case env_row e n of None \<Rightarrow> CNull | Some r \<Rightarrow> row_get r c)"

fun run_guards :: "guard list \<Rightarrow> let_env \<Rightarrow> cval list \<Rightarrow> bool \<times> cval list" where
  "run_guards [] e ps = (True, ps)"
| "run_guards (NotNull r # gs) e ps =
     (case run_guards gs e ps of (b, q) \<Rightarrow> (cref_val e r \<noteq> CNull \<and> b, q))"
| "run_guards (IsNull r # gs) e ps =
     (case run_guards gs e ps of (b, q) \<Rightarrow> (cref_val e r = CNull \<and> b, q))"
| "run_guards (GtLit r i # gs) e ps =
     (case run_guards gs e ps of (b, q) \<Rightarrow>
        ((case cref_val e r of CInt j \<Rightarrow> i < j | _ \<Rightarrow> False) \<and> b, q))"
| "run_guards (EqQ r # gs) e ps =
     (case run_guards gs e (tl ps) of (b, q) \<Rightarrow>
        (cref_val e r \<noteq> CNull \<and> ps \<noteq> [] \<and> cref_val e r = hd ps \<and> b, q))"

fun run_writes :: "cql_write list \<Rightarrow> cval list \<Rightarrow> db \<Rightarrow> db" where
  "run_writes [] ps d = d"
| "run_writes (Insert t cs # ws) ps d =
     run_writes ws (drop (length cs) ps) (put_row t (zip cs ps) d)"
| "run_writes (Increment t c i ks # ws) ps d =
     run_writes ws (drop (length ks) ps) (increment_row t c i (zip ks ps) d)"
| "run_writes (Delete t ks # ws) ps d =
     run_writes ws (drop (length ks) ps) (delete_row t (zip ks ps) d)"

definition run_txn :: "txn \<Rightarrow> cval list \<Rightarrow> db \<Rightarrow> projection \<times> db" where
  "run_txn t ps d =
    (case run_lets (lets t) ps d of (e, r) \<Rightarrow>
     case run_guards (guards t) e r of (ok, q) \<Rightarrow>
       (map (\<lambda>c. (cref_name c, cref_val e c)) (projects t),
        if ok then run_writes (writes t) q d else d))"

section \<open>The world of a handler\<close>

datatype fault = Reply | LostBefore string | LostAfter string

record world =
  accord :: "string \<Rightarrow> cval list \<Rightarrow> db \<Rightarrow> projection \<times> db"
  tables :: db
  faults :: "fault list"
  wall_clock :: "nat \<Rightarrow> instant"
  perf_clock :: "nat \<Rightarrow> real"
  ticks :: nat
  uuids :: "nat \<Rightarrow> nat"
  uuids_used :: nat
  txn_lock :: bool

text \<open>One call to the node: it replies, or raises before or after its effect.\<close>

definition node_call :: "(db \<Rightarrow> 'a \<times> db) \<Rightarrow> (world, 'a) pm" where
  "node_call f = (\<lambda>w.
    case (case faults w of [] \<Rightarrow> Reply | x # _ \<Rightarrow> x) of
      Reply \<Rightarrow> (Inr (fst (f (tables w))),
                w\<lparr>tables := snd (f (tables w)), faults := tl (faults w)\<rparr>)
    | LostBefore m \<Rightarrow> (Inl (Exn m), w\<lparr>faults := tl (faults w)\<rparr>)
    | LostAfter m \<Rightarrow> (Inl (Exn m),
                w\<lparr>tables := snd (f (tables w)), faults := tl (faults w)\<rparr>))"

definition execute_query :: "(db \<Rightarrow> 'a) \<Rightarrow> (world, 'a) pm" where
  "execute_query f = node_call (\<lambda>d. (f d, d))"

definition execute_write :: "(db \<Rightarrow> db) \<Rightarrow> (world, unit) pm" where
  "execute_write f = node_call (\<lambda>d. ((), f d))"

definition execute_transaction :: "string \<Rightarrow> cval list \<Rightarrow> (world, projection) pm" where
  "execute_transaction stmt ps = (\<lambda>w. node_call (accord w stmt ps) w)"

text \<open>
  What the module relies on of Accord: each of the transactions \<open>ts\<close>, sent as its text, reads,
  decides and writes as \<open>run_txn\<close> says, atomically.
\<close>

definition accord_runs :: "string \<Rightarrow> txn list \<Rightarrow> world \<Rightarrow> bool" where
  "accord_runs ks ts w \<longleftrightarrow>
    (\<forall>t \<in> set ts. \<forall>ps d. accord w (render_txn ks t) ps d = run_txn t ps d)"

text \<open>A node that serves the texts of \<open>ts\<close> and ignores every other.\<close>

definition serve :: "string \<Rightarrow> txn list \<Rightarrow> string \<Rightarrow> cval list \<Rightarrow> db \<Rightarrow> projection \<times> db" where
  "serve ks ts stmt ps d =
    (case map_of (map (\<lambda>t. (render_txn ks t, t)) ts) stmt of
       None \<Rightarrow> ([], d)
     | Some t \<Rightarrow> run_txn t ps d)"

text \<open>\<open>datetime.now(timezone.utc)\<close> and \<open>time.perf_counter()\<close> (seconds).\<close>

definition now :: "(world, instant) pm" where
  "now = (\<lambda>w. (Inr (wall_clock w (ticks w)), w\<lparr>ticks := Suc (ticks w)\<rparr>))"

definition perf_counter :: "(world, real) pm" where
  "perf_counter = (\<lambda>w. (Inr (perf_clock w (ticks w)), w\<lparr>ticks := Suc (ticks w)\<rparr>))"

definition new_uuid :: "(world, nat) pm" where
  "new_uuid = (\<lambda>w. (Inr (uuids w (uuids_used w)), w\<lparr>uuids_used := Suc (uuids_used w)\<rparr>))"

text \<open>A world at rest around a set of tables, with a node that serves \<open>ts\<close>.\<close>

definition node_world :: "string \<Rightarrow> txn list \<Rightarrow> db \<Rightarrow> world" where
  "node_world ks ts d = \<lparr>accord = serve ks ts, tables = d, faults = [],
     wall_clock = (\<lambda>n. int n), perf_clock = (\<lambda>n. of_nat n), ticks = 0,
     uuids = (\<lambda>n. n), uuids_used = 0, txn_lock = False\<rparr>"

definition empty_db :: db where
  "empty_db = (\<lambda>_. [])"

section \<open>Lemmas\<close>

interpretation rows: keyed_table map_of AList.update AList.delete "\<lambda>t. fst ` set t"
  by unfold_locales
    (simp_all add: update_conv' delete_conv' map_of_eq_None_iff)

lemma node_world_simps [simp]:
  "accord (node_world ks ts d) = serve ks ts" "tables (node_world ks ts d) = d"
  "faults (node_world ks ts d) = []" "uuids (node_world ks ts d) = (\<lambda>n. n)"
  "uuids_used (node_world ks ts d) = 0" "\<not> txn_lock (node_world ks ts d)"
  by (simp_all add: node_world_def)

subsection \<open>Well-formed tables\<close>

definition table_ok :: "string \<Rightarrow> ctable \<Rightarrow> bool" where
  "table_ok t rs \<longleftrightarrow> distinct (map fst rs) \<and> (\<forall>(k, r) \<in> set rs. key_of t r = k)"

definition db_ok :: "db \<Rightarrow> bool" where
  "db_ok d \<longleftrightarrow> (\<forall>t. table_ok t (d t))"

lemma row_get_simps [simp]:
  "row_get [] c = CNull"
  "row_get ((c', v) # r) c = (if c = c' then v else row_get r c)"
  by (simp_all add: row_get_def)

lemma row_get_update: "row_get (AList.update c v r) c' = (if c' = c then v else row_get r c')"
  by (auto simp: row_get_def update_conv')

lemma row_get_merge:
  "row_get (AList.merge r cs) c = (if c \<in> fst ` set cs then row_get cs c else row_get r c)"
proof (cases "map_of cs c")
  case None
  then have "c \<notin> fst ` set cs" by (simp add: map_of_eq_None_iff)
  with None show ?thesis by (simp add: row_get_def merge_conv' map_add_def)
next
  case (Some v)
  then have "c \<in> fst ` set cs" by (force dest: map_of_SomeD)
  with Some show ?thesis by (simp add: row_get_def merge_conv' map_add_def)
qed

lemma row_get_filter: "c \<in> set cs \<Longrightarrow> row_get (filter (\<lambda>(c, _). c \<in> set cs) r) c = row_get r c"
  by (induction r) (auto split: if_splits)

lemma table_ok_lookup: "table_ok t rs \<Longrightarrow> map_of rs k = Some r \<Longrightarrow> key_of t r = k"
  by (auto simp: table_ok_def dest: map_of_SomeD)

lemma table_ok_update:
  assumes "table_ok t rs" and "key_of t r = k"
  shows "table_ok t (AList.update k r rs)"
proof -
  have "distinct (map fst (AList.update k r rs))"
    using assms(1) by (simp add: table_ok_def distinct_update)
  moreover have "key_of t r' = k'" if "(k', r') \<in> set (AList.update k r rs)" for k' r'
  proof -
    from that calculation have "map_of (AList.update k r rs) k' = Some r'" by simp
    with assms show ?thesis
      by (auto simp: update_conv' table_ok_lookup split: if_splits)
  qed
  ultimately show ?thesis by (auto simp: table_ok_def)
qed

lemma table_ok_delete: "table_ok t rs \<Longrightarrow> table_ok t (AList.delete k rs)"
  by (auto simp: table_ok_def AList.delete_eq distinct_map_filter)

lemma key_of_merge:
  assumes "set (primary_key t) \<subseteq> fst ` set cs"
  shows "key_of t (AList.merge r cs) = key_of t cs"
  using assms by (auto simp: key_of_def row_get_merge)

lemma db_ok_put_row:
  assumes "db_ok d" and "set (primary_key t) \<subseteq> fst ` set cs"
  shows "db_ok (put_row t cs d)"
  using assms by (auto simp: db_ok_def put_row_def key_of_merge intro!: table_ok_update
      split: option.splits)

lemma db_ok_delete_row: "db_ok d \<Longrightarrow> db_ok (delete_row t cs d)"
  by (auto simp: db_ok_def delete_row_def intro!: table_ok_delete)

lemma db_ok_increment_row:
  assumes "db_ok d" and "c \<notin> set (primary_key t)"
  shows "db_ok (increment_row t c n cs d)"
proof -
  have "key_of t (AList.update c v r) = key_of t r" for v r
    using assms(2) by (auto simp: key_of_def row_get_update)
  then show ?thesis using assms(1)
    by (auto simp: db_ok_def increment_row_def
        intro!: table_ok_update dest: table_ok_lookup [rotated] split: option.splits cval.splits)
qed

subsection \<open>Calls to the node\<close>

lemma now_run [pm_simps]: "now w = (Inr (wall_clock w (ticks w)), w\<lparr>ticks := Suc (ticks w)\<rparr>)"
  by (simp add: now_def)

lemma perf_counter_run [pm_simps]:
  "perf_counter w = (Inr (perf_clock w (ticks w)), w\<lparr>ticks := Suc (ticks w)\<rparr>)"
  by (simp add: perf_counter_def)

lemma new_uuid_run [pm_simps]:
  "new_uuid w = (Inr (uuids w (uuids_used w)), w\<lparr>uuids_used := Suc (uuids_used w)\<rparr>)"
  by (simp add: new_uuid_def)

lemma total_clock [total_intros]: "total now" "total perf_counter" "total new_uuid"
  by (simp_all add: total_def now_def perf_counter_def new_uuid_def)

lemma node_call_cases:
  obtains (reply) "node_call f w =
      (Inr (fst (f (tables w))), w\<lparr>tables := snd (f (tables w)), faults := tl (faults w)\<rparr>)"
  | (before) m where "node_call f w = (Inl (Exn m), w\<lparr>faults := tl (faults w)\<rparr>)"
  | (after) m where "node_call f w =
      (Inl (Exn m), w\<lparr>tables := snd (f (tables w)), faults := tl (faults w)\<rparr>)"
  by (cases "case faults w of [] \<Rightarrow> Reply | x # _ \<Rightarrow> x") (auto simp: node_call_def)

text \<open>A call keeps an invariant of the tables as soon as the statement does.\<close>

definition on_node :: "string \<Rightarrow> txn list \<Rightarrow> (db \<Rightarrow> bool) \<Rightarrow> world \<Rightarrow> bool" where
  "on_node ks ts I w \<longleftrightarrow> accord_runs ks ts w \<and> I (tables w)"

lemma accord_runs_cong: "accord w = accord w' \<Longrightarrow> accord_runs ks ts w = accord_runs ks ts w'"
  by (simp add: accord_runs_def)

lemma accord_runs_update [simp]:
  "accord_runs ks ts (w\<lparr>tables := d\<rparr>) = accord_runs ks ts w"
  "accord_runs ks ts (w\<lparr>faults := fs\<rparr>) = accord_runs ks ts w"
  "accord_runs ks ts (w\<lparr>ticks := n\<rparr>) = accord_runs ks ts w"
  "accord_runs ks ts (w\<lparr>uuids_used := n\<rparr>) = accord_runs ks ts w"
  "accord_runs ks ts (w\<lparr>txn_lock := b\<rparr>) = accord_runs ks ts w"
  by (rule accord_runs_cong, simp)+

lemma accord_runs_serve:
  assumes "distinct (map (render_txn ks) ts)" and "accord w = serve ks ts"
  shows "accord_runs ks ts w"
  unfolding accord_runs_def
proof (intro ballI allI)
  fix t ps d assume "t \<in> set ts"
  then have "(render_txn ks t, t) \<in> set (map (\<lambda>t. (render_txn ks t, t)) ts)" by simp
  moreover have "distinct (map fst (map (\<lambda>t. (render_txn ks t, t)) ts))"
    using assms(1) by (simp add: comp_def)
  ultimately have "map_of (map (\<lambda>t. (render_txn ks t, t)) ts) (render_txn ks t) = Some t"
    by (rule map_of_is_SomeI [rotated])
  with assms(2) show "accord w (render_txn ks t) ps d = run_txn t ps d"
    by (simp add: serve_def)
qed

lemma preserves_node_call:
  assumes "\<And>d. I d \<Longrightarrow> I (snd (f d))"
  shows "preserves (on_node ks ts I) (node_call f)"
proof (rule preservesI)
  fix w assume "on_node ks ts I w"
  then show "on_node ks ts I (snd (node_call f w))"
    by (cases f w rule: node_call_cases) (auto simp: on_node_def assms)
qed

lemma preserves_execute_query [preserves_intros]:
  "preserves (on_node ks ts I) (execute_query f)"
  unfolding execute_query_def by (rule preserves_node_call) simp

lemma preserves_execute_write:
  "(\<And>d. I d \<Longrightarrow> I (f d)) \<Longrightarrow> preserves (on_node ks ts I) (execute_write f)"
  unfolding execute_write_def by (rule preserves_node_call) simp

lemma preserves_execute_transaction:
  assumes "t \<in> set ts" and "\<And>d. I d \<Longrightarrow> I (snd (run_txn t ps d))"
  shows "preserves (on_node ks ts I) (execute_transaction (render_txn ks t) ps)"
proof (rule preservesI)
  fix w assume w: "on_node ks ts I w"
  with assms(1) have "accord w (render_txn ks t) ps = run_txn t ps"
    by (auto simp: on_node_def accord_runs_def)
  with w preserves_node_call [of I "run_txn t ps" ks ts] assms(2)
  show "on_node ks ts I (snd (execute_transaction (render_txn ks t) ps w))"
    by (simp add: execute_transaction_def preservesD)
qed

lemma preserves_now [preserves_intros]: "preserves (on_node ks ts I) now"
  by (auto simp: preserves_def now_def on_node_def)

lemma preserves_perf_counter [preserves_intros]: "preserves (on_node ks ts I) perf_counter"
  by (auto simp: preserves_def perf_counter_def on_node_def)

lemma preserves_new_uuid [preserves_intros]: "preserves (on_node ks ts I) new_uuid"
  by (auto simp: preserves_def new_uuid_def on_node_def)

text \<open>When nothing fails, a call is the statement.\<close>

lemma node_call_ok [pm_simps]:
  "faults w = [] \<Longrightarrow>
    node_call f w = (Inr (fst (f (tables w))), w\<lparr>tables := snd (f (tables w))\<rparr>)"
  by (simp add: node_call_def)

end
