(* ===== verification/Streaming.thy ===== *)
theory Streaming
  imports Json Cql
begin

text \<open>
  The live tail of the change-data-capture topic (\<open>src/backend/app/routes/streaming.py\<close>): the values
  of a decoded record as JSON, the Confluent framing, the consumer that attaches, polls, decodes and
  keeps the newest records, and what the page reads of it.

  The broker, the schema registry, \<open>fastavro\<close> and \<open>json.loads\<close> are the record \<open>cdc_broker\<close> of parameters over
  a state \<open>'x\<close>. Bytes are characters, of which HOL has 256. An Avro value is what \<open>fastavro\<close> hands over;
  of a decimal its value and its text. The state of the tail is the record \<open>tail\<close>; a turn of its loop
  is \<open>tail_turn\<close>. The page's requests only read the buffer, between two appends.
\<close>

section \<open>Values as JSON\<close>

datatype avro =
    ANull
  | ABool bool
  | AInt int
  | AFloat real
  | AStr string
  | ABytes string
  | AMoment instant
  | ADate int
  | ADecimal real string
  | AUuid nat
  | AMap "(string \<times> avro) list"
  | AArr "avro list"
  | AOther string

definition ALPHABET64 :: string where
  "ALPHABET64 = ''ABCDEFGHIJKLMNOPQRSTUVWXYZabcdefghijklmnopqrstuvwxyz0123456789+/''"

definition char64 :: "nat \<Rightarrow> char" where
  "char64 n = ALPHABET64 ! n"

text \<open>\<open>base64.b64encode\<close>: three bytes to four characters, the last group padded.\<close>

fun b64encode :: "string \<Rightarrow> string" where
  "b64encode [] = []"
| "b64encode [a] = (let n = code_of a in [char64 (n div 4), char64 (n mod 4 * 16), CHR ''='', CHR ''=''])"
| "b64encode [a, b] =
    (let n = code_of a; m = code_of b
     in [char64 (n div 4), char64 (n mod 4 * 16 + m div 16), char64 (m mod 16 * 4), CHR ''=''])"
| "b64encode (a # b # c # s) =
    (let n = code_of a; m = code_of b; k = code_of c
     in [char64 (n div 4), char64 (n mod 4 * 16 + m div 16), char64 (m mod 16 * 4 + k div 64), char64 (k mod 64)] @ b64encode s)"

text \<open>A date, given by its day: \<open>date.isoformat\<close>.\<close>

definition date_str :: "int \<Rightarrow> string" where
  "date_str n = take 10 (isoformat (utc_fields (n * 86400000000)))"

text \<open>\<open>_json_safe\<close>, and the texts \<open>str\<close> gives of what is not a string.\<close>

fun json_safe :: "avro \<Rightarrow> json" where
  "json_safe ANull = JNull"
| "json_safe (ABool b) = JBool b"
| "json_safe (AInt i) = JInt i"
| "json_safe (AFloat x) = JFloat x"
| "json_safe (AStr s) = JStr s"
| "json_safe (ABytes b) = JObj [(''base64'', JStr (b64encode b))]"
| "json_safe (AMoment t) = JStr (isoformat (utc_fields t) @ ''+00:00'')"
| "json_safe (ADate n) = JStr (date_str n)"
| "json_safe (ADecimal x t) = JStr t"
| "json_safe (AUuid n) = JStr (uuid_str n)"
| "json_safe (AMap m) = JObj (map (\<lambda>(k, v). (k, json_safe v)) m)"
| "json_safe (AArr vs) = JArr (map json_safe vs)"
| "json_safe (AOther t) = JStr t"

fun avro_str :: "(avro \<Rightarrow> string) \<Rightarrow> avro \<Rightarrow> string" where
  "avro_str repr_of ANull = ''None''"
| "avro_str repr_of (ABool b) = (if b then ''True'' else ''False'')"
| "avro_str repr_of (AInt i) = int_str i"
| "avro_str repr_of (AStr s) = s"
| "avro_str repr_of (ADate n) = date_str n"
| "avro_str repr_of (ADecimal x t) = t"
| "avro_str repr_of (AUuid n) = uuid_str n"
| "avro_str repr_of (AOther t) = t"
| "avro_str repr_of v = repr_of v"

fun avro_truthy :: "avro \<Rightarrow> bool" where
  "avro_truthy ANull = False"
| "avro_truthy (ABool b) = b"
| "avro_truthy (AInt i) = (i \<noteq> 0)"
| "avro_truthy (AFloat x) = (x \<noteq> 0)"
| "avro_truthy (AStr s) = (s \<noteq> [])"
| "avro_truthy (ABytes s) = (s \<noteq> [])"
| "avro_truthy (ADecimal x t) = (x \<noteq> 0)"
| "avro_truthy (AMap m) = (m \<noteq> [])"
| "avro_truthy (AArr vs) = (vs \<noteq> [])"
| "avro_truthy _ = True"

text \<open>\<open>int(micros // 1000)\<close>, and \<open>[str(name) for name in names]\<close>.\<close>

fun millis_of :: "avro \<Rightarrow> exn + int" where
  "millis_of (ABool b) = Inr 0"
| "millis_of (AInt i) = Inr (i div 1000)"
| "millis_of (AFloat x) = Inr \<lfloor>x / 1000\<rfloor>"
| "millis_of (ADecimal x t) = Inr (truncate_int (x / 1000))"
| "millis_of _ = Inl (Exn ''unsupported operand type(s) for //'')"

fun names_of :: "(avro \<Rightarrow> string) \<Rightarrow> avro \<Rightarrow> exn + string list" where
  "names_of repr_of (AArr vs) = Inr (map (avro_str repr_of) vs)"
| "names_of repr_of (AMap m) = Inr (map fst m)"
| "names_of repr_of (AStr s) = Inr (map (\<lambda>c. [c]) s)"
| "names_of repr_of (ABytes s) = Inr (map (\<lambda>c. nat_str (code_of c)) s)"
| "names_of repr_of _ = Inl (Exn ''object is not iterable'')"

section \<open>The tail\<close>

record message =
  msg_partition :: nat
  msg_offset :: nat
  msg_key :: "string option"
  msg_timestamp :: "int option"
  msg_value :: "string option"

record cdc_record =
  r_seq :: nat
  r_partition :: nat
  r_offset :: nat
  r_key :: string
  r_keyspace :: string
  r_table :: string
  r_operation :: string
  mutation_at_ms :: int
  kafka_at_ms :: int
  age_ms :: "real option"
  is_backfill :: bool
  is_partial :: bool
  r_columns :: "(string \<times> json) list"
  update_fields :: "string list"
  r_schema_id :: "nat option"
  decode_error :: "string option"

record 'x cdc_broker =
  open_consumer :: "'x \<Rightarrow> (exn + nat) \<times> 'x"
  partitions_for_topic :: "nat \<Rightarrow> 'x \<Rightarrow> (exn + nat list) \<times> 'x"
  assign :: "nat \<Rightarrow> nat list \<Rightarrow> 'x \<Rightarrow> (exn + unit) \<times> 'x"
  end_offsets :: "nat \<Rightarrow> nat list \<Rightarrow> 'x \<Rightarrow> (exn + (nat \<Rightarrow> nat)) \<times> 'x"
  beginning_offsets :: "nat \<Rightarrow> nat list \<Rightarrow> 'x \<Rightarrow> (exn + (nat \<Rightarrow> nat)) \<times> 'x"
  seek :: "nat \<Rightarrow> nat \<Rightarrow> nat \<Rightarrow> 'x \<Rightarrow> (exn + unit) \<times> 'x"
  poll_consumer :: "nat \<Rightarrow> nat \<Rightarrow> 'x \<Rightarrow> (exn + (nat \<times> message list) list) \<times> 'x"
  close_consumer :: "nat \<Rightarrow> 'x \<Rightarrow> (exn + unit) \<times> 'x"
  registry_get :: "string \<Rightarrow> 'x \<Rightarrow> (exn + json) \<times> 'x"
  json_loads :: "string \<Rightarrow> exn + json"
  parse_schema :: "json \<Rightarrow> exn + json"
  schemaless_reader :: "string \<Rightarrow> json \<Rightarrow> exn + avro"
  utf8_replace :: "string \<Rightarrow> string"
  avro_repr :: "avro \<Rightarrow> string"
  exn_name :: "exn \<Rightarrow> string"

record cdc_settings =
  cdc_topic :: string
  cdc_buffer_size :: nat
  cdc_schema_registry_url :: string
  kafka_bootstrap :: string

record 'x tail =
  cdc_buffer :: "cdc_record list"
  tail_consumer :: "nat option"
  tail_partitions :: "nat list"
  tail_state :: string
  tail_error :: "string option"
  tail_seq :: nat
  tail_consumed :: nat
  decode_failures :: nat
  cdc_schemas :: "(nat \<times> json) list"
  backfill_until :: "(nat \<times> nat) list"
  latencies :: "real list"
  last_record_at_ms :: "int option"
  tail_rate :: real
  rate_marker_at :: real
  rate_marker_count :: nat
  monotonic_at :: "nat \<Rightarrow> real"
  time_at :: "nat \<Rightarrow> real"
  clock_reads :: nat
  broker :: 'x

type_synonym ('x, 'a) ct = "('x tail, 'a) pm"

definition LATENCY_SAMPLES :: nat where
  "LATENCY_SAMPLES = 200"

definition HEADER_BYTES :: nat where
  "HEADER_BYTES = 5"

definition ENVELOPE_FIELDS :: "string list" where
  "ENVELOPE_FIELDS = [''timestampMicros'', ''sourceTable'', ''sourceKeyspace'', ''truncatedFields'', ''version'',
     ''operationType'', ''isPartial'', ''updateFields'', ''range'', ''ttl'', ''payload'']"

text \<open>\<open>deque(maxlen=n)\<close>: what is kept of a list, and appending.\<close>

definition newest :: "nat \<Rightarrow> 'a list \<Rightarrow> 'a list" where
  "newest n xs = drop (length xs - n) xs"

definition push :: "nat \<Rightarrow> 'a \<Rightarrow> 'a list \<Rightarrow> 'a list" where
  "push n x xs = newest n (xs @ [x])"

definition start_tail :: "(nat \<Rightarrow> real) \<Rightarrow> (nat \<Rightarrow> real) \<Rightarrow> 'x \<Rightarrow> 'x tail" where
  "start_tail tick wall_time x = \<lparr>cdc_buffer = [], tail_consumer = None, tail_partitions = [], tail_state = ''starting'',
     tail_error = None, tail_seq = 0, tail_consumed = 0, decode_failures = 0, cdc_schemas = [], backfill_until = [],
     latencies = [], last_record_at_ms = None, tail_rate = 0, rate_marker_at = tick 0, rate_marker_count = 0,
     monotonic_at = tick, time_at = wall_time, clock_reads = 1, broker = x\<rparr>"

definition on_broker :: "('x \<Rightarrow> (exn + 'a) \<times> 'x) \<Rightarrow> ('x, 'a) ct" where
  "on_broker f = (\<lambda>s. case f (broker s) of (r, x) \<Rightarrow> (r, s\<lparr>broker := x\<rparr>))"

definition tail_monotonic :: "('x, real) ct" where
  "tail_monotonic = (\<lambda>s. (Inr (monotonic_at s (clock_reads s)), s\<lparr>clock_reads := Suc (clock_reads s)\<rparr>))"

definition tail_time :: "('x, real) ct" where
  "tail_time = (\<lambda>s. (Inr (time_at s (clock_reads s)), s\<lparr>clock_reads := Suc (clock_reads s)\<rparr>))"

definition MISSING_TOPIC :: "cdc_settings \<Rightarrow> string" where
  "MISSING_TOPIC C = ''topic '' @ cdc_topic C @
     '' does not exist yet; the Sidecar creates it with its first published mutation''"

definition seek_all :: "'x cdc_broker \<Rightarrow> nat \<Rightarrow> nat \<Rightarrow> (nat \<Rightarrow> nat) \<Rightarrow> (nat \<Rightarrow> nat) \<Rightarrow> nat list \<Rightarrow> ('x, unit list) ct" where
  "seek_all K c each begins ends = map_pm (\<lambda>p. on_broker (seek K c p (max (begins p) (ends p - each))))"

definition attach :: "'x cdc_broker \<Rightarrow> cdc_settings \<Rightarrow> ('x, unit) ct" where
  "attach K C =
    bind (on_broker (open_consumer K)) (\<lambda>c. bind (on_broker (partitions_for_topic K c)) (\<lambda>ps.
    if ps = [] then
      bind (on_broker (close_consumer K c)) (\<lambda>_. bind (modify (\<lambda>s. s\<lparr>tail_state := ''waiting_for_topic''\<rparr>)) (\<lambda>_.
        raise (Exn (MISSING_TOPIC C))))
    else
      let assignment = sorted_list_of_set (set ps); each = max 1 (cdc_buffer_size C div length assignment) in
      bind (on_broker (assign K c assignment)) (\<lambda>_. bind (on_broker (end_offsets K c assignment)) (\<lambda>ends.
      bind (on_broker (beginning_offsets K c assignment)) (\<lambda>begins. bind (seek_all K c each begins ends assignment) (\<lambda>_.
        modify (\<lambda>s. s\<lparr>backfill_until := map (\<lambda>p. (p, ends p)) assignment, tail_consumer := Some c,
          tail_partitions := assignment, tail_state := ''tailing''\<rparr>)))))))"

definition poll_tail :: "'x cdc_broker \<Rightarrow> cdc_settings \<Rightarrow> ('x, (nat \<times> message list) list) ct" where
  "poll_tail K C = bind (gets tail_consumer) (\<lambda>c. case c of
     None \<Rightarrow> raise (Exn ''NoneType object has no attribute poll'')
   | Some c \<Rightarrow> on_broker (poll_consumer K c (cdc_buffer_size C)))"

text \<open>A close that fails leaves nothing to do.\<close>

definition close_tail :: "'x cdc_broker \<Rightarrow> ('x, unit) ct" where
  "close_tail K = bind (gets tail_consumer) (\<lambda>c. bind (modify (\<lambda>s. s\<lparr>tail_consumer := None\<rparr>)) (\<lambda>_.
     case c of None \<Rightarrow> ret () | Some c \<Rightarrow> try_except (on_broker (close_consumer K c)) (\<lambda>_. ret ())))"

subsection \<open>One record\<close>

definition unframe :: "string \<Rightarrow> exn + (nat \<times> string)" where
  "unframe payload =
    (if length payload < HEADER_BYTES \<or> code_of (hd payload) \<noteq> (0 :: nat)
     then Inl (Exn (''not Confluent-framed: '' @ nat_str (length payload) @ '' bytes beginning '' @
       (case payload of [] \<Rightarrow> ''nothing'' | c # _ \<Rightarrow> hex_digits 2 (code_of c))))
     else Inr (foldl (\<lambda>n c. 256 * n + code_of c) 0 (take 4 (tl payload)), drop HEADER_BYTES payload))"

definition rstrip_slash :: "string \<Rightarrow> string" where
  "rstrip_slash s = rev (dropWhile (\<lambda>c. c = CHR ''/'') (rev s))"

text \<open>\<open>body["schema"]\<close>, which must be a text.\<close>

fun schema_text :: "json \<Rightarrow> exn + string" where
  "schema_text (JObj m) = (case map_of m ''schema'' of
     Some (JStr t) \<Rightarrow> Inr t | Some _ \<Rightarrow> Inl (Exn ''the JSON object must be str, bytes or bytearray'') | None \<Rightarrow> Inl (Exn ''schema''))"
| "schema_text _ = Inl (Exn ''indices must be integers'')"

definition schema_of :: "'x cdc_broker \<Rightarrow> cdc_settings \<Rightarrow> nat \<Rightarrow> ('x, json) ct" where
  "schema_of K C sid = bind (gets (\<lambda>s. map_of (cdc_schemas s) sid)) (\<lambda>cached. case cached of
     Some p \<Rightarrow> ret p
   | None \<Rightarrow>
      bind (on_broker (registry_get K (rstrip_slash (cdc_schema_registry_url C) @ ''/schemas/ids/'' @ nat_str sid))) (\<lambda>body.
      bind (lift_exn (schema_text body)) (\<lambda>t. bind (lift_exn (json_loads K t)) (\<lambda>j. bind (lift_exn (parse_schema K j)) (\<lambda>p.
        bind (modify (\<lambda>s. s\<lparr>cdc_schemas := AList.update sid p (cdc_schemas s)\<rparr>)) (\<lambda>_. ret p))))))"

text \<open>The record before its value is read: all that needs no schema.\<close>

definition bare_record :: "'x cdc_broker \<Rightarrow> nat \<Rightarrow> bool \<Rightarrow> message \<Rightarrow> cdc_record" where
  "bare_record K n back m =
    (let key = (case msg_key m of None \<Rightarrow> [] | Some k \<Rightarrow> if k = [] then [] else utf8_replace K k);
         parts = split_on CHR '':'' key; named = 2 \<le> length parts
     in \<lparr>r_seq = n, r_partition = msg_partition m, r_offset = msg_offset m, r_key = key,
         r_keyspace = (if named then parts ! 0 else []), r_table = (if named then parts ! 1 else []), r_operation = [],
         mutation_at_ms = 0, kafka_at_ms = (case msg_timestamp m of None \<Rightarrow> 0 | Some t \<Rightarrow> t), age_ms = None,
         is_backfill = back, is_partial = False, r_columns = [], update_fields = [], r_schema_id = None, decode_error = None\<rparr>)"

text \<open>
  The value: the schema named and what the reader makes of it, or the failure. The identifier is noted
  before the schema is fetched.
\<close>

definition read_value :: "'x cdc_broker \<Rightarrow> cdc_settings \<Rightarrow> message \<Rightarrow> ('x, nat option \<times> (exn + avro)) ct" where
  "read_value K C m =
    (let payload = (case msg_value m of None \<Rightarrow> [] | Some v \<Rightarrow> v)
     in case unframe payload of
          Inl e \<Rightarrow> ret (None, Inl e)
        | Inr (sid, body) \<Rightarrow>
            bind (attempt (bind (schema_of K C sid) (\<lambda>schema. lift_exn (schemaless_reader K body schema)))) (\<lambda>r. ret (Some sid, r)))"

definition field_or :: "(string \<times> avro) list \<Rightarrow> string \<Rightarrow> avro \<Rightarrow> avro" where
  "field_or m k d = (case map_of m k of None \<Rightarrow> d | Some v \<Rightarrow> if avro_truthy v then v else d)"

text \<open>The envelope read onto the record: outside the \<open>try\<close>, so a failure here leaves \<open>_decode\<close>.\<close>

fun envelope :: "'x cdc_broker \<Rightarrow> avro \<Rightarrow> cdc_record \<Rightarrow> exn + cdc_record" where
  "envelope K (AMap m) r =
    (case millis_of (field_or m ''timestampMicros'' (AInt 0)) of Inl e \<Rightarrow> Inl e
     | Inr ms \<Rightarrow> (case names_of (avro_repr K) (field_or m ''updateFields'' (AArr [])) of Inl e \<Rightarrow> Inl e
       | Inr names \<Rightarrow> Inr (r\<lparr>
           r_operation := avro_str (avro_repr K) (field_or m ''operationType'' (AStr [])),
           r_keyspace := avro_str (avro_repr K) (field_or m ''sourceKeyspace'' (AStr (r_keyspace r))),
           r_table := avro_str (avro_repr K) (field_or m ''sourceTable'' (AStr (r_table r))),
           is_partial := avro_truthy (field_or m ''isPartial'' (ABool False)),
           mutation_at_ms := ms, update_fields := names,
           r_columns := (case map_of m ''payload'' of
               Some (AMap row) \<Rightarrow> map (\<lambda>(k, v). (k, json_safe v)) row
             | _ \<Rightarrow> map (\<lambda>(k, v). (k, json_safe v)) (filter (\<lambda>(k, v). k \<notin> set ENVELOPE_FIELDS) m))\<rparr>)))"
| "envelope K _ r = Inl (Exn ''object has no attribute get'')"

text \<open>The age of a record seen arrive, and the time of the last one.\<close>

definition finish_record :: "bool \<Rightarrow> cdc_record \<Rightarrow> ('x, cdc_record) ct" where
  "finish_record back r =
    bind (if mutation_at_ms r = 0 then ret r
      else bind tail_time (\<lambda>now. let age = now * 1000 - of_int (mutation_at_ms r) in
        if back then ret r
        else bind (modify (\<lambda>s. s\<lparr>latencies := push LATENCY_SAMPLES age (latencies s)\<rparr>)) (\<lambda>_.
          ret (r\<lparr>age_ms := Some (py_round 1 age)\<rparr>)))) (\<lambda>r.
    bind (modify (\<lambda>s. s\<lparr>last_record_at_ms := Some (if kafka_at_ms r \<noteq> 0 then kafka_at_ms r else mutation_at_ms r)\<rparr>)) (\<lambda>_.
      ret r))"

definition decode_message :: "'x cdc_broker \<Rightarrow> cdc_settings \<Rightarrow> nat \<Rightarrow> message \<Rightarrow> ('x, cdc_record) ct" where
  "decode_message K C p m =
    bind (modify (\<lambda>s. s\<lparr>tail_seq := Suc (tail_seq s)\<rparr>)) (\<lambda>_.
    bind (gets (\<lambda>s. (tail_seq s, msg_offset m < (case map_of (backfill_until s) p of None \<Rightarrow> 0 | Some e \<Rightarrow> e)))) (\<lambda>(n, back).
    let r0 = bare_record K n back m in
    bind (read_value K C m) (\<lambda>(sid, v).
    let r1 = r0\<lparr>r_schema_id := sid\<rparr> in
    case v of
      Inl e \<Rightarrow> bind (modify (\<lambda>s. s\<lparr>decode_failures := Suc (decode_failures s)\<rparr>)) (\<lambda>_.
        ret (r1\<lparr>decode_error := Some (exn_name K e @ '': '' @ exn_str e)\<rparr>))
    | Inr decoded \<Rightarrow>
        bind (lift_exn (envelope K decoded r1)) (\<lambda>r2.
        finish_record back r2))))"

subsection \<open>The loop\<close>

definition take_message :: "'x cdc_broker \<Rightarrow> cdc_settings \<Rightarrow> nat \<times> message \<Rightarrow> ('x, unit) ct" where
  "take_message K C pm =
    bind (modify (\<lambda>s. s\<lparr>tail_consumed := Suc (tail_consumed s)\<rparr>)) (\<lambda>_.
    bind (decode_message K C (fst pm) (snd pm)) (\<lambda>r.
      modify (\<lambda>s. s\<lparr>cdc_buffer := push (cdc_buffer_size C) r (cdc_buffer s)\<rparr>)))"

definition arrivals :: "(nat \<times> message list) list \<Rightarrow> (nat \<times> message) list" where
  "arrivals batches = concat (map (\<lambda>(p, ms). map (Pair p) ms) batches)"

definition measure_rate :: "('x, unit) ct" where
  "measure_rate = bind tail_monotonic (\<lambda>now. modify (\<lambda>s. let elapsed = now - rate_marker_at s in
     if 1 \<le> elapsed
     then s\<lparr>tail_rate := (of_nat (tail_consumed s) - of_nat (rate_marker_count s)) / elapsed, rate_marker_at := now,
       rate_marker_count := tail_consumed s\<rparr>
     else s))"

definition ingest :: "'x cdc_broker \<Rightarrow> cdc_settings \<Rightarrow> (nat \<times> message list) list \<Rightarrow> ('x, unit) ct" where
  "ingest K C batches =
    bind (map_pm (take_message K C) (arrivals batches)) (\<lambda>_. if arrivals batches = [] then ret () else measure_rate)"

definition tail_turn :: "'x cdc_broker \<Rightarrow> cdc_settings \<Rightarrow> ('x, unit) ct" where
  "tail_turn K C =
    try_except
      (bind (gets tail_consumer) (\<lambda>c. bind (if c = None then attach K C else ret ()) (\<lambda>_.
       bind (poll_tail K C) (\<lambda>batches. bind (ingest K C batches) (\<lambda>_. modify (\<lambda>s. s\<lparr>tail_error := None\<rparr>))))))
      (\<lambda>e. bind (modify (\<lambda>s. s\<lparr>tail_error := Some (exn_name K e @ '': '' @ exn_str e), tail_state := ''error''\<rparr>)) (\<lambda>_.
        close_tail K))"

text \<open>\<open>run\<close> is such turns until it is cancelled, which closes the consumer.\<close>

fun tail_turns :: "'x cdc_broker \<Rightarrow> cdc_settings \<Rightarrow> nat \<Rightarrow> 'x tail \<Rightarrow> 'x tail" where
  "tail_turns K C 0 s = s"
| "tail_turns K C (Suc n) s = tail_turns K C n (snd (tail_turn K C s))"

subsection \<open>What the page reads\<close>

record cdc_status =
  st_state :: string
  st_partitions :: "nat list"
  st_buffer_size :: nat
  st_buffered :: nat
  st_consumed :: nat
  st_decode_failures :: nat
  st_rate_per_sec :: real
  st_latency_p50_ms :: "real option"
  st_latency_max_ms :: "real option"
  st_schema_ids :: "nat list"
  st_last_record_at_ms :: "int option"
  st_error :: "string option"

definition cdc_status_of :: "cdc_settings \<Rightarrow> 'x tail \<Rightarrow> cdc_status" where
  "cdc_status_of C s =
    (let live = sort (latencies s)
     in \<lparr>st_state = tail_state s, st_partitions = tail_partitions s, st_buffer_size = cdc_buffer_size C,
         st_buffered = length (cdc_buffer s), st_consumed = tail_consumed s, st_decode_failures = decode_failures s,
         st_rate_per_sec = py_round 1 (tail_rate s),
         st_latency_p50_ms = (if live = [] then None else Some (py_round 1 (live ! (length live div 2)))),
         st_latency_max_ms = (if live = [] then None else Some (py_round 1 (last live))),
         st_schema_ids = sort (map fst (cdc_schemas s)), st_last_record_at_ms = last_record_at_ms s, st_error = tail_error s\<rparr>)"

definition cdc_records :: "nat \<Rightarrow> nat option \<Rightarrow> 'x tail \<Rightarrow> cdc_record list" where
  "cdc_records limit since s =
    (let newest_first = rev (cdc_buffer s)
     in take limit (case since of None \<Rightarrow> newest_first | Some k \<Rightarrow> filter (\<lambda>r. k < r_seq r) newest_first))"

text \<open>\<open>GET /cdc\<close>: the counters and the records; a limit outside 1 to 500 is refused before.\<close>

definition cdc_stream :: "cdc_settings \<Rightarrow> nat \<Rightarrow> nat option \<Rightarrow> 'x tail \<Rightarrow> cdc_status \<times> cdc_record list" where
  "cdc_stream C limit since s = (cdc_status_of C s, cdc_records limit since s)"

subsection \<open>The schema view\<close>

definition json_field :: "json \<Rightarrow> string \<Rightarrow> exn + json" where
  "json_field v k = get_or v k JNull"

definition is_object :: "json \<Rightarrow> bool" where
  "is_object v \<longleftrightarrow> (case v of JObj _ \<Rightarrow> True | _ \<Rightarrow> False)"

definition payload_column :: "json \<Rightarrow> ('v, json) pm" where
  "payload_column column =
    bind (lift_exn (json_field column ''type'')) (\<lambda>t.
    let branches = (case t of JArr bs \<Rightarrow> bs | b \<Rightarrow> [b]);
        declared = (case filter is_object branches of [] \<Rightarrow> JObj [] | d # _ \<Rightarrow> d) in
    bind (lift_exn (json_field column ''name'')) (\<lambda>name. bind (lift_exn (json_field declared ''type'')) (\<lambda>ty.
    bind (lift_exn (json_field declared ''logicalType'')) (\<lambda>logical. bind (lift_exn (json_field declared ''cqlType'')) (\<lambda>cql.
      ret (JObj [(''name'', name), (''avro_type'', if truthy ty then ty else logical), (''cql_type'', cql)]))))))"

fun payload_fields_of :: "json list \<Rightarrow> ('v, json list) pm" where
  "payload_fields_of [] = ret []"
| "payload_fields_of (f # fs) =
    bind (lift_exn (json_field f ''name'')) (\<lambda>name.
    if name \<noteq> JStr ''payload'' then payload_fields_of fs
    else bind (lift_exn (json_field f ''type'')) (\<lambda>nested.
      if \<not> is_object nested then ret []
      else bind (lift_exn (get_or nested ''fields'' (JArr []))) (\<lambda>v. bind (lift_exn (iterate_json v)) (map_pm payload_column))))"

definition payload_fields :: "json \<Rightarrow> ('v, json list) pm" where
  "payload_fields avro_schema =
    bind (lift_exn (get_or avro_schema ''fields'' (JArr []))) (\<lambda>v. bind (lift_exn (iterate_json v)) payload_fields_of)"

record cdc_schema_view =
  v_subject :: string
  v_registry :: string
  v_schema_id :: json
  v_version :: json
  v_avro_schema :: json
  v_fields :: "json list"
  v_payload_fields :: "json list"
  v_error :: "string option"

text \<open>
  \<open>GET /cdc/schema\<close>. The state is the view being filled: what was set before a failure stays set. The
  registry answers with a status and a body, or fails; \<open>raise_for_status\<close> refuses 400 and above.
\<close>

definition cdc_schema :: "'x cdc_broker \<Rightarrow> cdc_settings \<Rightarrow> (string \<Rightarrow> exn + (nat \<times> json)) \<Rightarrow> cdc_schema_view" where
  "cdc_schema K C latest =
    (let registry = rstrip_slash (cdc_schema_registry_url C); subject = cdc_topic C @ ''-value'';
         view = \<lparr>v_subject = subject, v_registry = registry, v_schema_id = JNull, v_version = JNull, v_avro_schema = JNull,
           v_fields = [], v_payload_fields = [], v_error = None\<rparr>
     in snd (try_except
       (bind (lift_exn (latest (registry @ ''/subjects/'' @ subject @ ''/versions/latest''))) (\<lambda>(status, body).
        if status = 404 then modify (\<lambda>v. v\<lparr>v_error := Some (''no schema registered for '' @ subject @
          '' yet; the Sidecar registers one with its first published mutation'')\<rparr>)
        else if 400 \<le> status then raise (Exn (''HTTP '' @ nat_str status))
        else bind (lift_exn (json_field body ''id'')) (\<lambda>i. bind (modify (\<lambda>v. v\<lparr>v_schema_id := i\<rparr>)) (\<lambda>_.
          bind (lift_exn (json_field body ''version'')) (\<lambda>n. bind (modify (\<lambda>v. v\<lparr>v_version := n\<rparr>)) (\<lambda>_.
          bind (lift_exn (schema_text body)) (\<lambda>t. bind (lift_exn (json_loads K t)) (\<lambda>avro.
          bind (modify (\<lambda>v. v\<lparr>v_avro_schema := avro\<rparr>)) (\<lambda>_.
          bind (lift_exn (get_or avro ''fields'' (JArr []))) (\<lambda>fs. bind (lift_exn (iterate_json fs)) (\<lambda>fs.
          bind (map_pm (\<lambda>f. bind (lift_exn (json_field f ''name'')) (\<lambda>n. bind (lift_exn (json_field f ''type'')) (\<lambda>t.
            ret (JObj [(''name'', n), (''type'', t)])))) fs) (\<lambda>listed.
          bind (modify (\<lambda>v. v\<lparr>v_fields := listed\<rparr>)) (\<lambda>_. bind (payload_fields avro) (\<lambda>cols.
            modify (\<lambda>v. v\<lparr>v_payload_fields := cols\<rparr>)))))))))))))))
       (\<lambda>e. modify (\<lambda>v. v\<lparr>v_error := Some (exn_name K e @ '': '' @ exn_str e)\<rparr>)) view))"

section \<open>Base 64 is reversible\<close>

fun index_of :: "'a \<Rightarrow> 'a list \<Rightarrow> nat option" where
  "index_of x [] = None"
| "index_of x (y # ys) = (if x = y then Some 0 else map_option Suc (index_of x ys))"

definition value64 :: "char \<Rightarrow> nat" where
  "value64 c = (case index_of c ALPHABET64 of None \<Rightarrow> 0 | Some n \<Rightarrow> n)"

fun b64decode :: "string \<Rightarrow> string" where
  "b64decode (w # x # y # z # s) =
    (if y = CHR ''='' then [char_of (4 * value64 w + value64 x div 16)]
     else if z = CHR ''='' then [char_of (4 * value64 w + value64 x div 16), char_of (16 * (value64 x mod 16) + value64 y div 4)]
     else [char_of (4 * value64 w + value64 x div 16), char_of (16 * (value64 x mod 16) + value64 y div 4),
           char_of (64 * (value64 y mod 4) + value64 z)] @ b64decode s)"
| "b64decode s = []"

lemma alphabet64: "list_all (\<lambda>n. value64 (char64 n) = n \<and> char64 n \<noteq> CHR ''='') [0..<64]"
  by code_simp

lemma char64 [simp]: "n < 64 \<Longrightarrow> value64 (char64 n) = n" "n < 64 \<Longrightarrow> char64 n \<noteq> CHR ''=''"
  using alphabet64 by (simp_all add: list_all_iff)

lemma code_of_bound: "code_of c < 256"
  using of_char_of [of "code_of c"] by (metis char_of_mod_256 mod_less_divisor of_char_mod_256 zero_less_numeral)

lemma sextets:
  "code_of a div 4 < 64" "code_of a mod 4 * 16 + code_of b div 16 < 64" "code_of b mod 16 * 4 + code_of c div 64 < 64"
  "code_of a mod 4 * 16 < 64" "code_of b mod 16 * 4 < 64" "code_of c mod 64 < 64"
proof -
  have "code_of a div 4 < 64" "code_of b div 16 < 16" "code_of c div 64 < 4"
    using code_of_bound [of a] code_of_bound [of b] code_of_bound [of c] by (simp_all add: less_mult_imp_div_less)
  moreover have "code_of a mod 4 < 4" "code_of b mod 16 < 16" "code_of c mod 64 < 64" by simp_all
  ultimately show "code_of a div 4 < 64" "code_of a mod 4 * 16 + code_of b div 16 < 64" "code_of b mod 16 * 4 + code_of c div 64 < 64"
    "code_of a mod 4 * 16 < 64" "code_of b mod 16 * 4 < 64" "code_of c mod 64 < 64" by linarith+
qed

lemma carries: "code_of b div 16 div 16 = 0" "code_of b div 64 div 4 = 0"
  using code_of_bound [of b] by (simp_all add: div_mult2_eq [symmetric])

lemma rejoined:
  "4 * (code_of a div 4) + (code_of a mod 4 * 16 + code_of b div 16) div 16 = code_of a"
  "16 * ((code_of a mod 4 * 16 + code_of b div 16) mod 16) + (code_of b mod 16 * 4 + code_of c div 64) div 4 = code_of b"
  "64 * ((code_of b mod 16 * 4 + code_of c div 64) mod 4) + code_of c mod 64 = code_of c"
  "4 * (code_of a div 4) + (code_of a mod 4 * 16) div 16 = code_of a"
  "16 * ((code_of a mod 4 * 16 + code_of b div 16) mod 16) + (code_of b mod 16 * 4) div 4 = code_of b"
proof -
  have "code_of b div 16 mod 16 = code_of b div 16" "code_of c div 64 mod 4 = code_of c div 64"
    using code_of_bound [of b] code_of_bound [of c] by (simp_all add: less_mult_imp_div_less)
  moreover have "(x * 16 + y) mod 16 = y mod 16" "(x * 4 + y) mod 4 = y mod 4" for x y :: nat by simp_all
  ultimately show
    "4 * (code_of a div 4) + (code_of a mod 4 * 16 + code_of b div 16) div 16 = code_of a"
    "16 * ((code_of a mod 4 * 16 + code_of b div 16) mod 16) + (code_of b mod 16 * 4 + code_of c div 64) div 4 = code_of b"
    "64 * ((code_of b mod 16 * 4 + code_of c div 64) mod 4) + code_of c mod 64 = code_of c"
    "4 * (code_of a div 4) + (code_of a mod 4 * 16) div 16 = code_of a"
    "16 * ((code_of a mod 4 * 16 + code_of b div 16) mod 16) + (code_of b mod 16 * 4) div 4 = code_of b"
    by (simp_all add: carries)
qed

lemma b64_inverse: "b64decode (b64encode bs) = bs"
proof (induction bs rule: b64encode.induct)
  case (4 a b c s)
  then have "b64decode (b64encode s) = s" by blast
  then show ?case
    by (simp only: b64encode.simps b64decode.simps Let_def append.simps char64 sextets if_False rejoined char_of_char simp_thms)
qed (simp_all only: b64encode.simps b64decode.simps Let_def append.simps char64 sextets if_True if_False rejoined char_of_char
  simp_thms refl)

lemma b64_text: "set (b64encode bs) \<subseteq> insert (CHR ''='') (set ALPHABET64)" "length (b64encode bs) = 4 * ((length bs + 2) div 3)"
proof -
  have "n < 64 \<Longrightarrow> char64 n \<in> set ALPHABET64" for n
    unfolding char64_def by (rule nth_mem) (simp add: ALPHABET64_def)
  then show "set (b64encode bs) \<subseteq> insert (CHR ''='') (set ALPHABET64)"
    by (induction bs rule: b64encode.induct) (simp_all add: Let_def sextets)
  have "(5 + n) div 3 = Suc (Suc (Suc n) div 3)" for n :: nat by presburger
  then show "length (b64encode bs) = 4 * ((length bs + 2) div 3)"
    by (induction bs rule: b64encode.induct) (simp_all add: Let_def)
qed

section \<open>The buffer holds the newest records, in the order they were decoded\<close>

lemma newest_newest: "newest n (newest n xs @ ys) = newest n (xs @ ys)"
proof (cases "n \<le> length xs")
  case True
  then show ?thesis by (simp add: newest_def add.commute)
qed (simp add: newest_def)

lemma length_newest [simp]: "length (newest n xs) = min n (length xs)"
  by (simp add: newest_def)

lemma set_newest: "x \<in> set (newest n xs) \<Longrightarrow> x \<in> set xs"
  by (auto simp: newest_def dest: in_set_dropD)

lemma newest_all [simp]: "length xs \<le> n \<Longrightarrow> newest n xs = xs"
  by (simp add: newest_def)

text \<open>
  \<open>grew C s rs s'\<close>: between the two states exactly the records \<open>rs\<close> were appended, numbered upwards from
  beyond \<open>s\<close>; the oldest left.
\<close>

definition grew :: "cdc_settings \<Rightarrow> 'x tail \<Rightarrow> cdc_record list \<Rightarrow> 'x tail \<Rightarrow> bool" where
  "grew C s rs s' \<longleftrightarrow> cdc_buffer s' = newest (cdc_buffer_size C) (cdc_buffer s @ rs) \<and> sorted_wrt (<) (map r_seq rs) \<and>
     (\<forall>r \<in> set rs. tail_seq s < r_seq r \<and> r_seq r \<le> tail_seq s') \<and> 
     tail_consumed s' + tail_seq s = tail_consumed s + tail_seq s' \<and> tail_seq s + length rs \<le> tail_seq s'"

definition buffer_ok :: "cdc_settings \<Rightarrow> 'x tail \<Rightarrow> bool" where
  "buffer_ok C s \<longleftrightarrow> length (cdc_buffer s) \<le> cdc_buffer_size C \<and> sorted_wrt (<) (map r_seq (cdc_buffer s)) \<and>
     (\<forall>r \<in> set (cdc_buffer s). r_seq r \<le> tail_seq s) \<and> tail_consumed s = tail_seq s"

lemma grew_refl: "length (cdc_buffer s) \<le> cdc_buffer_size C \<Longrightarrow> grew C s [] s"
  by (simp add: grew_def)

lemma grew_trans:
  assumes a: "grew C s rs t" and b: "grew C t qs u"
  shows "grew C s (rs @ qs) u"
  unfolding grew_def
proof (intro conjI ballI)
  show "cdc_buffer u = newest (cdc_buffer_size C) (cdc_buffer s @ rs @ qs)"
    using a b by (simp add: grew_def newest_newest)
  show "sorted_wrt (<) (map r_seq (rs @ qs))"
    using a b by (fastforce simp: grew_def sorted_wrt_append)
  show "tail_consumed u + tail_seq s = tail_consumed s + tail_seq u"
    using a b by (simp_all add: grew_def)
  show "tail_seq s + length (rs @ qs) \<le> tail_seq u" using a b by (simp add: grew_def)
  fix r assume "r \<in> set (rs @ qs)"
  then consider "r \<in> set rs" | "r \<in> set qs" by auto
  then show "tail_seq s < r_seq r" "r_seq r \<le> tail_seq u"
    using a b unfolding grew_def by (cases; fastforce)+
qed

lemma grew_bounded: "grew C s rs t \<Longrightarrow> length (cdc_buffer t) \<le> cdc_buffer_size C"
  by (simp add: grew_def)

lemma sorted_wrt_newest: "sorted_wrt P (map f xs) \<Longrightarrow> sorted_wrt P (map f (newest n xs))"
  unfolding newest_def drop_map [symmetric] by (rule sorted_wrt_drop)

lemma grew_ok:
  assumes g: "grew C s rs t" and ok: "buffer_ok C s"
  shows "buffer_ok C t"
proof -
  have t: "cdc_buffer t = newest (cdc_buffer_size C) (cdc_buffer s @ rs)" using g by (simp add: grew_def)
  have "sorted_wrt (<) (map r_seq (cdc_buffer s @ rs))"
    using g ok by (fastforce simp: grew_def buffer_ok_def sorted_wrt_append)
  then have "sorted_wrt (<) (map r_seq (cdc_buffer t))" unfolding t by (rule sorted_wrt_newest)
  moreover have "r_seq r \<le> tail_seq t" if "r \<in> set (cdc_buffer t)" for r
  proof -
    from that have "r \<in> set (cdc_buffer s) \<or> r \<in> set rs" unfolding t by (auto dest: set_newest)
    then show ?thesis using g ok by (fastforce simp: grew_def buffer_ok_def)
  qed
  moreover have "tail_consumed t = tail_seq t" using g ok by (simp add: grew_def buffer_ok_def)
  ultimately show ?thesis by (simp add: buffer_ok_def t)
qed

subsection \<open>What each part leaves alone\<close>

definition kept_by :: "'x tail \<Rightarrow> cdc_record list \<times> nat \<times> nat" where
  "kept_by s = (cdc_buffer s, tail_seq s, tail_consumed s)"

definition inert :: "('x, 'a) ct \<Rightarrow> bool" where
  "inert m \<longleftrightarrow> (\<forall>k. preserves (\<lambda>s. kept_by s = k) m)"

lemma inertI: "(\<And>k. preserves (\<lambda>s. kept_by s = k) m) \<Longrightarrow> inert m"
  by (simp add: inert_def)

lemma inertD: "inert m \<Longrightarrow> m s = (r, s') \<Longrightarrow> kept_by s' = kept_by s"
proof -
  assume "inert m" and r: "m s = (r, s')"
  then have "preserves (\<lambda>t. kept_by t = kept_by s) m" unfolding inert_def by blast
  from preservesD [OF this refl] r show ?thesis by simp
qed

lemma inert_preserves: "inert m \<Longrightarrow> preserves (\<lambda>s. kept_by s = k) m"
  unfolding inert_def by blast

lemma inert_parts:
  "inert (on_broker f)" "inert tail_time" "inert tail_monotonic" "inert measure_rate" "inert (schema_of K C sid)"
  "inert (read_value K C m)" "inert (attach K C)" "inert (poll_tail K C)" "inert (close_tail K)"
proof -
  have b: "preserves (\<lambda>s. kept_by s = k) (on_broker f)" for k f
    by (auto simp: preserves_def on_broker_def kept_by_def split: prod.splits)
  have c: "preserves (\<lambda>s. kept_by s = k) tail_time" "preserves (\<lambda>s. kept_by s = k) tail_monotonic" for k
    by (auto simp: preserves_def tail_time_def tail_monotonic_def kept_by_def)
  have sc: "preserves (\<lambda>s. kept_by s = k) (schema_of K C sid)" for k and K :: "'z cdc_broker" and C sid
    unfolding schema_of_def by (intro preserves_intros b) (simp add: kept_by_def)
  show "inert (on_broker f)" "inert tail_time" "inert tail_monotonic" "inert (schema_of K C sid)"
    by (rule inertI, rule b) (rule inertI, rule c, rule inertI, rule c, rule inertI, rule sc)
  show "inert measure_rate"
    unfolding measure_rate_def by (intro inertI preserves_intros c) (simp add: kept_by_def Let_def)
  show "inert (read_value K C m)"
    unfolding read_value_def Let_def by (intro inertI preserves_intros sc)
  show "inert (attach K C)"
    unfolding attach_def Let_def seek_all_def by (intro inertI preserves_intros b) (simp_all add: kept_by_def)
  show "inert (poll_tail K C)"
    unfolding poll_tail_def by (intro inertI preserves_intros b)
  show "inert (close_tail K)"
    unfolding close_tail_def by (intro inertI preserves_intros b) (simp add: kept_by_def)
qed

subsection \<open>Messages and turns\<close>

definition position :: "cdc_record \<Rightarrow> nat \<times> nat" where
  "position r = (r_partition r, r_offset r)"

definition place :: "nat \<times> message \<Rightarrow> nat \<times> nat" where
  "place pm = (msg_partition (snd pm), msg_offset (snd pm))"

text \<open>What the reader makes of a value is the publisher's envelope.\<close>

definition enveloped :: "'x cdc_broker \<Rightarrow> bool" where
  "enveloped K \<longleftrightarrow> (\<forall>body schema v. schemaless_reader K body schema = Inr v \<longrightarrow>
     (\<exists>m ms names. v = AMap m \<and> millis_of (field_or m ''timestampMicros'' (AInt 0)) = Inr ms \<and>
       names_of (avro_repr K) (field_or m ''updateFields'' (AArr [])) = Inr names))"

lemma read_value_reader:
  assumes "read_value K C m s = (Inr (sid, Inr v), s')"
  shows "\<exists>body schema. schemaless_reader K body schema = Inr v"
  using assms
  by (auto simp: read_value_def Let_def ret_def bind_def attempt_def lift_exn_def raise_def split: sum.splits prod.splits)

lemma read_value_total: "\<exists>sid v s'. read_value K C m s = (Inr (sid, v), s')"
  by (auto simp: read_value_def Let_def ret_def bind_def attempt_def split: sum.splits prod.splits)

lemma envelope_keeps: "envelope K v r = Inr r' \<Longrightarrow> r_seq r' = r_seq r \<and> position r' = position r \<and> decode_error r' = decode_error r"
  by (cases v) (auto simp: position_def split: sum.splits)

lemma finish_record_result:
  "\<exists>a. fst (finish_record b r s) = Inr a \<and> r_seq a = r_seq r \<and> position a = position r \<and> kept_by (snd (finish_record b r s)) = kept_by s"
  by (auto simp: finish_record_def bind_def modify_def ret_def tail_time_def Let_def kept_by_def position_def)

lemma bare_record_keeps: "r_seq (bare_record K n b m) = n" "position (bare_record K n b m) = (msg_partition m, msg_offset m)"
  by (simp_all add: bare_record_def Let_def position_def)

lemma decode_message_result:
  assumes d: "decode_message K C p m s = (r, s')"
  shows "cdc_buffer s' = cdc_buffer s" and "tail_seq s' = Suc (tail_seq s)" and "tail_consumed s' = tail_consumed s"
    and "r = Inr a \<Longrightarrow> r_seq a = Suc (tail_seq s) \<and> position a = (msg_partition m, msg_offset m)"
    and "enveloped K \<Longrightarrow> \<exists>a. r = Inr a"
proof -
  define s1 where "s1 = s\<lparr>tail_seq := Suc (tail_seq s)\<rparr>"
  define old where "old = (msg_offset m < (case map_of (backfill_until s1) p of None \<Rightarrow> 0 | Some e \<Rightarrow> e))"
  define r1 where "r1 sid = (bare_record K (Suc (tail_seq s)) old m)\<lparr>r_schema_id := sid\<rparr>" for sid
  obtain sid v s2 where v: "read_value K C m s1 = (Inr (sid, v), s2)" using read_value_total by blast
  have k2: "kept_by s2 = kept_by s1" using inertD [OF inert_parts(6) v] .
  have r1: "r_seq (r1 sid) = Suc (tail_seq s)" "position (r1 sid) = (msg_partition m, msg_offset m)"
    using bare_record_keeps [of K "Suc (tail_seq s)" old m] by (simp_all add: r1_def position_def)
  have all: "kept_by s' = kept_by s1 \<and> (\<forall>a. r = Inr a \<longrightarrow> r_seq a = Suc (tail_seq s) \<and> position a = (msg_partition m, msg_offset m)) \<and>
    (enveloped K \<longrightarrow> (\<exists>a. r = Inr a))"
  proof (cases v)
    case (Inl e)
    then have "r = Inr ((r1 sid)\<lparr>decode_error := Some (exn_name K e @ '': '' @ exn_str e)\<rparr>)" "s' = s2\<lparr>decode_failures := Suc (decode_failures s2)\<rparr>"
      using d v by (simp_all add: decode_message_def bind_def modify_def gets_def ret_def s1_def old_def r1_def Let_def)
    then show ?thesis using k2 r1 by (simp add: kept_by_def position_def)
  next
    case (Inr x)
    show ?thesis
    proof (cases "envelope K x (r1 sid)")
      case (Inl e)
      then have "r = Inl e" "s' = s2"
        using d v Inr by (simp_all add: decode_message_def bind_def modify_def gets_def ret_def raise_def s1_def old_def r1_def Let_def)
      moreover have "\<not> enveloped K"
      proof
        assume "enveloped K"
        moreover obtain body schema where "schemaless_reader K body schema = Inr x" using read_value_reader v Inr by blast
        ultimately obtain mm ms names where "x = AMap mm" "millis_of (field_or mm ''timestampMicros'' (AInt 0)) = Inr ms"
          "names_of (avro_repr K) (field_or mm ''updateFields'' (AArr [])) = Inr names" unfolding enveloped_def by blast
        with Inl show False by simp
      qed
      ultimately show ?thesis using k2 by simp
    next
      case e: (Inr r2)
      have "\<exists>a. r = Inr a \<and> r_seq a = r_seq r2 \<and> position a = position r2 \<and> kept_by s' = kept_by s2"
        using finish_record_result [of old r2 s2]
          d v Inr e by (simp add: decode_message_def bind_def modify_def gets_def ret_def s1_def old_def r1_def Let_def)
      then show ?thesis using k2 r1 envelope_keeps [OF e] by auto
    qed
  qed
  then show "cdc_buffer s' = cdc_buffer s" "tail_seq s' = Suc (tail_seq s)" "tail_consumed s' = tail_consumed s"
    "r = Inr a \<Longrightarrow> r_seq a = Suc (tail_seq s) \<and> position a = (msg_partition m, msg_offset m)" "enveloped K \<Longrightarrow> \<exists>a. r = Inr a"
    by (auto simp: kept_by_def s1_def)
qed

lemma grew_inert:
  assumes "kept_by t = kept_by s" shows "grew C s rs u \<longleftrightarrow> grew C t rs u" "grew C u rs s \<longleftrightarrow> grew C u rs t"
  using assms by (simp_all add: grew_def kept_by_def)

lemma take_message_result:
  assumes t: "take_message K C pm s = (r, s')" and b: "length (cdc_buffer s) \<le> cdc_buffer_size C"
  shows "\<exists>rs. grew C s rs s' \<and> (r = Inr () \<longrightarrow> map position rs = [place pm]) \<and> (enveloped K \<longrightarrow> r = Inr ())"
proof -
  define s1 where "s1 = s\<lparr>tail_consumed := Suc (tail_consumed s)\<rparr>"
  obtain q s2 where d: "decode_message K C (fst pm) (snd pm) s1 = (q, s2)" by (cases "decode_message K C (fst pm) (snd pm) s1")
  note dr = decode_message_result [OF d]
  show ?thesis
  proof (cases q)
    case (Inl e)
    then have "r = Inl e" "s' = s2" using t d by (simp_all add: take_message_def bind_def modify_def s1_def)
    moreover have "grew C s [] s2" using dr(1-3) b by (simp add: grew_def s1_def)
    moreover have "\<not> enveloped K" using dr(5) Inl by auto
    ultimately show ?thesis by (intro exI [of _ "[]"]) simp
  next
    case (Inr a)
    then have "r = Inr ()" "s' = s2\<lparr>cdc_buffer := push (cdc_buffer_size C) a (cdc_buffer s2)\<rparr>"
      using t d by (simp_all add: take_message_def bind_def modify_def s1_def)
    moreover have "grew C s [a] (s2\<lparr>cdc_buffer := push (cdc_buffer_size C) a (cdc_buffer s2)\<rparr>)"
      using dr(1-3) dr(4) [OF Inr] by (simp add: grew_def s1_def push_def)
    moreover have "position a = place pm" using dr(4) [OF Inr] by (simp add: place_def)
    ultimately show ?thesis by (intro exI [of _ "[a]"]) simp
  qed
qed

lemma take_messages_result:
  assumes "map_pm (take_message K C) ms s = (r, s')" and "length (cdc_buffer s) \<le> cdc_buffer_size C"
  shows "\<exists>rs. grew C s rs s' \<and> (\<forall>us. r = Inr us \<longrightarrow> map position rs = map place ms) \<and> (enveloped K \<longrightarrow> (\<exists>us. r = Inr us))"
  using assms
proof (induction ms arbitrary: s r)
  case Nil
  then show ?case by (intro exI [of _ "[]"]) (auto simp: ret_def grew_refl)
next
  case (Cons m ms)
  obtain q t where m: "take_message K C m s = (q, t)" by (cases "take_message K C m s")
  from take_message_result [OF m Cons.prems(2)]
  obtain rs where rs: "grew C s rs t" "q = Inr () \<longrightarrow> map position rs = [place m]" "enveloped K \<longrightarrow> q = Inr ()"
    by (elim exE conjE)
  show ?case
  proof (cases q)
    case (Inl e)
    then have "r = Inl e" "s' = t" using Cons.prems(1) m by (simp_all add: bind_def)
    with rs Inl show ?thesis by auto
  next
    case (Inr u)
    obtain q2 where r2: "map_pm (take_message K C) ms t = (q2, s')" "isl q2 = isl r"
      using Cons.prems(1) m Inr by (auto simp: bind_def ret_def split: prod.splits sum.splits)
    from Cons.IH [OF r2(1) grew_bounded [OF rs(1)]]
    obtain qs where qs: "grew C t qs s'" "\<forall>us. q2 = Inr us \<longrightarrow> map position qs = map place ms" "enveloped K \<longrightarrow> (\<exists>us. q2 = Inr us)"
      by (elim exE conjE)
    have "grew C s (rs @ qs) s'" using grew_trans rs(1) qs(1) by blast
    moreover have "map position (rs @ qs) = map place (m # ms)" if "r = Inr us" for us
      using that r2(2) rs(2) qs(2) Inr by (cases q2) auto
    moreover have "\<exists>us. r = Inr us" if "enveloped K" using qs(3) that r2(2) by (cases r) auto
    ultimately show ?thesis by blast
  qed
qed

text \<open>What a turn's poll hands over.\<close>

definition attached_poll :: "'x cdc_broker \<Rightarrow> cdc_settings \<Rightarrow> ('x, (nat \<times> message list) list) ct" where
  "attached_poll K C = bind (gets tail_consumer) (\<lambda>c. bind (if c = None then attach K C else ret ()) (\<lambda>_. poll_tail K C))"

definition turn_arrivals :: "'x cdc_broker \<Rightarrow> cdc_settings \<Rightarrow> 'x tail \<Rightarrow> (nat \<times> message) list" where
  "turn_arrivals K C s = (case attached_poll K C s of (Inr batches, _) \<Rightarrow> arrivals batches | _ \<Rightarrow> [])"

fun polled :: "'x cdc_broker \<Rightarrow> cdc_settings \<Rightarrow> nat \<Rightarrow> 'x tail \<Rightarrow> (nat \<times> message) list" where
  "polled K C 0 s = []"
| "polled K C (Suc n) s = turn_arrivals K C s @ polled K C n (snd (tail_turn K C s))"

lemma tail_turn_eq:
  "tail_turn K C = try_except
     (bind (attached_poll K C) (\<lambda>batches. bind (ingest K C batches) (\<lambda>_. modify (\<lambda>s. s\<lparr>tail_error := None\<rparr>))))
     (\<lambda>e. bind (modify (\<lambda>s. s\<lparr>tail_error := Some (exn_name K e @ '': '' @ exn_str e), tail_state := ''error''\<rparr>)) (\<lambda>_.
        close_tail K))"
  by (simp add: tail_turn_def attached_poll_def bind_assoc)

lemma inert_attached_poll: "inert (attached_poll K C)"
  unfolding attached_poll_def by (intro inertI preserves_bind preserves_gets preserves_if preserves_ret inert_preserves [OF inert_parts(7)] inert_preserves [OF inert_parts(8)])

lemma close_tail_total: "\<exists>t. close_tail K s = (Inr (), t) \<and> kept_by t = kept_by s \<and> tail_consumer t = None \<and> tail_state t = tail_state s"
  by (auto simp: close_tail_def bind_def gets_def modify_def ret_def try_except_def on_broker_def kept_by_def
      split: option.splits prod.splits sum.splits)

text \<open>A turn's failure is recorded and the consumer closed; nothing leaves the loop.\<close>

lemma tail_turn_failed:
  assumes "bind (attached_poll K C) (\<lambda>batches. bind (ingest K C batches) (\<lambda>_. modify (\<lambda>s. s\<lparr>tail_error := None\<rparr>))) s = (Inl e, t)"
  shows "\<exists>u. tail_turn K C s = (Inr (), u) \<and> kept_by u = kept_by t \<and> tail_consumer u = None \<and> tail_state u = ''error''"
proof -
  let ?t = "t\<lparr>tail_error := Some (exn_name K e @ '': '' @ exn_str e), tail_state := ''error''\<rparr>"
  have "tail_turn K C s = close_tail K ?t"
    unfolding tail_turn_eq try_except_def assms by (simp add: bind_def modify_def)
  then show ?thesis using close_tail_total [of K ?t] by (auto simp: kept_by_def)
qed

lemma ingest_result:
  assumes i: "ingest K C batches s = (r, s')" and b: "length (cdc_buffer s) \<le> cdc_buffer_size C"
  shows "\<exists>rs. grew C s rs s' \<and> (r = Inr () \<longrightarrow> map position rs = map place (arrivals batches)) \<and> (enveloped K \<longrightarrow> r = Inr ())"
proof -
  obtain q t where m: "map_pm (take_message K C) (arrivals batches) s = (q, t)" by (cases "map_pm (take_message K C) (arrivals batches) s")
  obtain rs where rs: "grew C s rs t" "\<And>us. q = Inr us \<Longrightarrow> map position rs = map place (arrivals batches)"
    "enveloped K \<Longrightarrow> \<exists>us. q = Inr us" using take_messages_result [OF m b] by blast
  show ?thesis
  proof (cases q)
    case (Inl e)
    then have "r = Inl e" "s' = t" using i m by (simp_all add: ingest_def bind_def)
    with rs Inl show ?thesis by auto
  next
    case (Inr us)
    have "\<exists>u. measure_rate t = (Inr (), u)" by (simp add: measure_rate_def bind_def tail_monotonic_def modify_def)
    then have "r = Inr () \<and> kept_by s' = kept_by t"
      using i m Inr inertD [OF inert_parts(4), of t] by (auto simp: ingest_def bind_def ret_def split: if_splits)
    with rs Inr show ?thesis using grew_inert(2) by blast
  qed
qed

lemma tail_turn_result:
  assumes b: "length (cdc_buffer s) \<le> cdc_buffer_size C"
  shows "\<exists>rs t. tail_turn K C s = (Inr (), t) \<and> grew C s rs t \<and> (enveloped K \<longrightarrow> map position rs = map place (turn_arrivals K C s))"
proof -
  obtain q s1 where p: "attached_poll K C s = (q, s1)" by (cases "attached_poll K C s")
  have k: "kept_by s1 = kept_by s" using inertD [OF inert_attached_poll p] .
  show ?thesis
  proof (cases q)
    case (Inl e)
    then obtain u where "tail_turn K C s = (Inr (), u)" "kept_by u = kept_by s1"
      using tail_turn_failed [of K C s e s1] p by (auto simp: bind_def)
    moreover have "turn_arrivals K C s = []" using p Inl by (simp add: turn_arrivals_def)
    ultimately show ?thesis using grew_refl [OF b] grew_inert(2) k by (metis list.map(1))
  next
    case (Inr batches)
    obtain r s2 where i: "ingest K C batches s1 = (r, s2)" by (cases "ingest K C batches s1")
    have "length (cdc_buffer s1) \<le> cdc_buffer_size C" using b k by (simp add: kept_by_def)
    from ingest_result [OF i this] obtain rs where rs: "grew C s1 rs s2" "r = Inr () \<Longrightarrow> map position rs = map place (arrivals batches)"
      "enveloped K \<Longrightarrow> r = Inr ()" by blast
    have g: "grew C s rs s2" using rs(1) k grew_inert(1) by blast
    have a: "turn_arrivals K C s = arrivals batches" using p Inr by (simp add: turn_arrivals_def)
    show ?thesis
    proof (cases r)
      case (Inl e)
      then obtain u where "tail_turn K C s = (Inr (), u)" "kept_by u = kept_by s2"
        using tail_turn_failed [of K C s e s2] p Inr i by (auto simp: bind_def)
      then show ?thesis using g grew_inert(2) rs(3) Inl by (metis Inr_not_Inl)
    next
      case u: (Inr u)
      have "tail_turn K C s = (Inr (), s2\<lparr>tail_error := None\<rparr>)"
        using p Inr i u by (simp add: tail_turn_eq try_except_def bind_def modify_def)
      moreover have "grew C s rs (s2\<lparr>tail_error := None\<rparr>)" using g by (simp add: grew_def)
      ultimately show ?thesis using rs(2) u a by auto
    qed
  qed
qed

lemma tail_turns_result:
  assumes "length (cdc_buffer s) \<le> cdc_buffer_size C"
  shows "\<exists>rs. grew C s rs (tail_turns K C n s) \<and> (enveloped K \<longrightarrow> map position rs = map place (polled K C n s))"
  using assms
proof (induction n arbitrary: s)
  case 0
  then show ?case by (intro exI [of _ "[]"]) (simp add: grew_refl)
next
  case (Suc n)
  obtain rs t where t: "tail_turn K C s = (Inr (), t)" "grew C s rs t" "enveloped K \<Longrightarrow> map position rs = map place (turn_arrivals K C s)"
    using tail_turn_result [OF Suc.prems] by blast
  obtain qs where qs: "grew C t qs (tail_turns K C n t)" "enveloped K \<Longrightarrow> map position qs = map place (polled K C n t)"
    using Suc.IH [OF grew_bounded [OF t(2)]] by blast
  show ?case using grew_trans [OF t(2) qs(1)] t qs(2) by (intro exI [of _ "rs @ qs"]) simp
qed

section \<open>Properties\<close>

lemma newest_since:
  assumes "\<forall>r \<in> set xs. \<not> P r" and "\<forall>r \<in> set ys. P r"
  shows "filter P (newest n (xs @ ys)) = newest n ys"
proof -
  have "length xs + length ys - n - length xs = length ys - n" by simp
  then have "newest n (xs @ ys) = drop (length xs + length ys - n) xs @ newest n ys" by (simp add: newest_def)
  moreover have "filter P (drop d xs) = []" for d
    using assms(1) by (auto simp: filter_empty_conv dest: in_set_dropD)
  moreover have "filter P (newest n ys) = newest n ys"
    using assms(2) by (auto simp: filter_id_conv dest: set_newest)
  ultimately show ?thesis by simp
qed


text \<open>A broker with one partition of three messages: one that is not framed, one that decodes, one with no value.\<close>

definition framed :: "string \<Rightarrow> string" where
  "framed body = [char_of (0 :: nat), char_of (0 :: nat), char_of (0 :: nat), char_of (0 :: nat), char_of (1 :: nat)] @ body"

definition demo_message :: "nat \<Rightarrow> string option \<Rightarrow> message" where
  "demo_message n v = \<lparr>msg_partition = 0, msg_offset = n, msg_key = Some ''demo:drones:1'', msg_timestamp = Some 5, msg_value = v\<rparr>"

definition demo_log :: "message list" where
  "demo_log = [demo_message 0 (Some ''text''), demo_message 1 (Some (framed ''row'')), demo_message 2 None]"

definition demo_kafka :: "unit cdc_broker" where
  "demo_kafka = \<lparr>open_consumer = (\<lambda>x. (Inr 0, x)), partitions_for_topic = (\<lambda>c x. (Inr [0], x)), assign = (\<lambda>c ps x. (Inr (), x)),
     end_offsets = (\<lambda>c ps x. (Inr (\<lambda>_. 3), x)), beginning_offsets = (\<lambda>c ps x. (Inr (\<lambda>_. 0), x)),
     seek = (\<lambda>c p n x. (Inr (), x)), poll_consumer = (\<lambda>c n x. (Inr [(0, demo_log)], x)), close_consumer = (\<lambda>c x. (Inr (), x)),
     registry_get = (\<lambda>u x. (Inr (JObj [(''schema'', JStr ''{}'')]), x)), json_loads = (\<lambda>t. Inr (JObj [])), parse_schema = Inr,
     schemaless_reader = (\<lambda>body schema. Inr (AMap [(''payload'', AMap [(''name'', AStr body)])])), utf8_replace = id,
     avro_repr = (\<lambda>_. []), exn_name = (\<lambda>_. ''ValueError'')\<rparr>"

definition demo_cdc :: cdc_settings where
  "demo_cdc = \<lparr>cdc_topic = ''cdc-mutations'', cdc_buffer_size = 200, cdc_schema_registry_url = ''http://apicurio'',
     kafka_bootstrap = ''cdc_broker:19092''\<rparr>"

definition demo_tail :: "unit tail" where
  "demo_tail = start_tail (\<lambda>_. 0) (\<lambda>_. 0) ()"

lemma demo_enveloped: "enveloped demo_kafka"
  by (auto simp: enveloped_def demo_kafka_def field_or_def)

lemma demo_attach: "attached_poll demo_kafka demo_cdc demo_tail =
  (Inr [(0, demo_log)], demo_tail\<lparr>backfill_until := [(0, 3)], tail_consumer := Some 0, tail_partitions := [0], tail_state := ''tailing''\<rparr>)"
  by (simp add: attached_poll_def attach_def poll_tail_def seek_all_def on_broker_def bind_def gets_def modify_def ret_def Let_def
      demo_kafka_def demo_tail_def start_tail_def)

lemma demo_arrivals: "map place (turn_arrivals demo_kafka demo_cdc demo_tail) = [(0, 0), (0, 1), (0, 2)]"
  by (simp add: turn_arrivals_def demo_attach arrivals_def demo_log_def demo_message_def place_def)


text \<open>
  C31. Bytes are shown reversibly: a value of bytes becomes an object with the one field
  \<open>base64\<close>, whose text decodes to those bytes, is in the base 64 alphabet with its padding and has four
  characters for every three bytes or part of three.
\<close>

theorem bytes_are_recoverable:
  "\<exists>t. json_safe (ABytes bs) = JObj [(''base64'', JStr t)] \<and> b64decode t = bs \<and>
    set t \<subseteq> insert (CHR ''='') (set ALPHABET64) \<and> length t = 4 * ((length bs + 2) div 3)"
  using b64_inverse b64_text by simp

text \<open>The connection the loop holds, as the page shows it.\<close>

definition shown_ok :: "'x tail \<Rightarrow> bool" where
  "shown_ok s \<longleftrightarrow> (tail_state s = ''tailing'' \<and> tail_consumer s \<noteq> None) \<or>
     (tail_state s = ''error'' \<and> tail_consumer s = None \<and> tail_error s \<noteq> None)"

definition link :: "'x tail \<Rightarrow> string \<times> nat option" where
  "link s = (tail_state s, tail_consumer s)"

lemma link_kept: "preserves (\<lambda>s. link s = k) (on_broker f)" "preserves (\<lambda>s. link s = k) tail_time"
  "preserves (\<lambda>s. link s = k) tail_monotonic"
  by (auto simp: preserves_def on_broker_def tail_time_def tail_monotonic_def link_def split: prod.splits)

lemma link_ingest: "preserves (\<lambda>s. link s = k) (ingest K C batches)"
proof -
  have "preserves (\<lambda>s. link s = k) (schema_of K C sid)" for sid
    unfolding schema_of_def by (intro preserves_intros link_kept) (simp add: link_def)
  then have "preserves (\<lambda>s. link s = k) (read_value K C m)" for m
    unfolding read_value_def Let_def by (intro preserves_intros)
  moreover have "preserves (\<lambda>s. link s = k) (finish_record b r)" for b r
    unfolding finish_record_def Let_def by (intro preserves_intros link_kept) (simp_all add: link_def)
  ultimately have "preserves (\<lambda>s. link s = k) (decode_message K C p m)" for p m
    unfolding decode_message_def Let_def by (intro preserves_intros) (simp_all add: link_def)
  then have "preserves (\<lambda>s. link s = k) (take_message K C pm)" for pm
    unfolding take_message_def by (intro preserves_intros) (simp_all add: link_def)
  then show ?thesis
    unfolding ingest_def measure_rate_def by (intro preserves_intros link_kept) (simp_all add: link_def Let_def)
qed

lemma attached_poll_link:
  assumes p: "attached_poll K C s = (Inr batches, t)" and s: "tail_consumer s = None \<or> shown_ok s"
  shows "tail_state t = ''tailing'' \<and> tail_consumer t \<noteq> None"
proof -
  have at: "tail_state u = ''tailing'' \<and> tail_consumer u \<noteq> None" if "attach K C s = (Inr (), u)" for u
    using that unfolding attach_def Let_def
    by (auto simp: bind_def modify_def raise_def split: prod.splits sum.splits if_splits)
  have po: "link t = link u" if "poll_tail K C u = (Inr batches, t)" for u
    using that link_kept(1) [of "link u"] unfolding poll_tail_def
    by (auto simp: bind_def gets_def raise_def on_broker_def link_def split: option.splits prod.splits)
  show ?thesis
  proof (cases "tail_consumer s")
    case None
    then obtain u where u: "attach K C s = (Inr (), u)" "poll_tail K C u = (Inr batches, t)"
      using p by (auto simp: attached_poll_def bind_def gets_def split: prod.splits sum.splits)
    from at [OF u(1)] po [OF u(2)] show ?thesis by (simp add: link_def)
  next
    case (Some c)
    then have "poll_tail K C s = (Inr batches, t)" using p by (simp add: attached_poll_def bind_def gets_def ret_def)
    from po [OF this] s Some show ?thesis by (auto simp: link_def shown_ok_def)
  qed
qed

lemma tail_turn_shown:
  assumes s: "tail_consumer s = None \<or> shown_ok s"
  shows "shown_ok (snd (tail_turn K C s)) \<and> (tail_state (snd (tail_turn K C s)) = ''tailing'' \<longrightarrow> tail_error (snd (tail_turn K C s)) = None)"
proof (cases "bind (attached_poll K C) (\<lambda>batches. bind (ingest K C batches) (\<lambda>_. modify (\<lambda>s. s\<lparr>tail_error := None\<rparr>))) s")
  case (Pair r t)
  show ?thesis
  proof (cases r)
    case (Inl e)
    let ?t = "t\<lparr>tail_error := Some (exn_name K e @ '': '' @ exn_str e), tail_state := ''error''\<rparr>"
    have "tail_turn K C s = close_tail K ?t"
      unfolding tail_turn_eq try_except_def Pair Inl by (simp add: bind_def modify_def)
    moreover have "tail_error (snd (close_tail K ?t)) = tail_error ?t"
      by (auto simp: close_tail_def bind_def gets_def modify_def ret_def try_except_def on_broker_def
          split: option.splits prod.splits sum.splits)
    ultimately show ?thesis using close_tail_total [of K ?t] by (auto simp: shown_ok_def)
  next
    case (Inr u)
    obtain batches s1 where p: "attached_poll K C s = (Inr batches, s1)"
      using Pair Inr by (auto simp: bind_def split: prod.splits sum.splits)
    obtain s2 where i: "ingest K C batches s1 = (Inr (), s2)" "t = s2\<lparr>tail_error := None\<rparr>"
      using Pair Inr p by (auto simp: bind_def modify_def split: prod.splits sum.splits)
    have "link s2 = link s1" using preservesD [OF link_ingest refl, of K C batches s1] i(1) by simp
    moreover have "tail_turn K C s = (Inr (), t)" unfolding tail_turn_eq try_except_def Pair Inr by simp
    ultimately show ?thesis using attached_poll_link [OF p s] i(2) by (simp add: shown_ok_def link_def)
  qed
qed

text \<open>
  Property. The state the page shows is \<open>tailing\<close> or \<open>error\<close> after every turn, \<open>tailing\<close> exactly when a
  consumer is open and exactly when no error is reported. The state \<open>waiting_for_topic\<close> that \<open>_attach\<close> sets
  for a topic that does not exist yet is overwritten by the handler of the exception it raises.
\<close>

theorem waiting_is_never_shown:
  "let s = tail_turns K C (Suc n) (start_tail tick wall_time x) in
   tail_state s \<in> {''tailing'', ''error''} \<and> (tail_state s = ''tailing'' \<longleftrightarrow> tail_consumer s \<noteq> None) \<and>
   (tail_state s = ''tailing'' \<longleftrightarrow> tail_error s = None)"
proof -
  have "shown_ok (tail_turns K C (Suc m) s) \<and> (tail_state (tail_turns K C (Suc m) s) = ''tailing'' \<longrightarrow> tail_error (tail_turns K C (Suc m) s) = None)"
    if "tail_consumer s = None \<or> shown_ok s" for m and s :: "'a tail"
    using that
  proof (induction m arbitrary: s)
    case 0
    then show ?case using tail_turn_shown [of s K C] by simp
  next
    case (Suc m)
    have "shown_ok (snd (tail_turn K C s))" using tail_turn_shown [of s K C] Suc.prems by simp
    then show ?case using Suc.IH [of "snd (tail_turn K C s)"] by simp
  qed
  from this [of "start_tail tick wall_time x" n] show ?thesis
    by (auto simp: Let_def shown_ok_def start_tail_def)
qed

definition poison_kafka :: "unit cdc_broker" where
  "poison_kafka = demo_kafka\<lparr>
     poll_consumer := (\<lambda>c n x. (Inr [(0, [demo_message 0 (Some (framed ''text'')), demo_message 1 (Some (framed ''row''))])], x)),
     schemaless_reader := (\<lambda>body schema. Inr (if body = ''text'' then AStr ''text'' else AMap [])),
     exn_name := (\<lambda>_. ''AttributeError'')\<rparr>"

lemma poisoned_turn:
  assumes "tail_consumer s = None" and "cdc_buffer s = []"
  shows "tail_consumer (snd (tail_turn poison_kafka demo_cdc s)) = None \<and> cdc_buffer (snd (tail_turn poison_kafka demo_cdc s)) = [] \<and>
    tail_error (snd (tail_turn poison_kafka demo_cdc s)) = Some ''AttributeError: object has no attribute get'' \<and>
    map place (turn_arrivals poison_kafka demo_cdc s) = [(0, 0), (0, 1)]"
proof -
  have p: "attached_poll poison_kafka demo_cdc s = (Inr [(0, [demo_message 0 (Some (framed ''text'')), demo_message 1 (Some (framed ''row''))])],
    s\<lparr>backfill_until := [(0, 3)], tail_consumer := Some 0, tail_partitions := [0], tail_state := ''tailing''\<rparr>)"
    using assms by (simp add: attached_poll_def attach_def poll_tail_def seek_all_def on_broker_def bind_def gets_def modify_def ret_def
      Let_def poison_kafka_def demo_kafka_def)
  have u: "unframe (framed ''text'') = Inr (1, ''text'')" by (simp add: unframe_def framed_def HEADER_BYTES_def)
  have d: "\<exists>t. decode_message poison_kafka demo_cdc 0 (demo_message 0 (Some (framed ''text''))) q =
      (Inl (Exn ''object has no attribute get''), t) \<and> cdc_buffer t = cdc_buffer q \<and> tail_consumer t = tail_consumer q" for q
    using u by (auto simp: decode_message_def read_value_def schema_of_def demo_message_def on_broker_def bind_def gets_def modify_def
      ret_def raise_def attempt_def Let_def poison_kafka_def demo_kafka_def lift_exn_def split: option.splits)
  let ?s = "s\<lparr>backfill_until := [(0, 3)], tail_consumer := Some 0, tail_partitions := [0], tail_state := ''tailing'',
    tail_consumed := Suc (tail_consumed s)\<rparr>"
  from d [of ?s] obtain t where t: "decode_message poison_kafka demo_cdc 0 (demo_message 0 (Some (framed ''text''))) ?s =
      (Inl (Exn ''object has no attribute get''), t)" "cdc_buffer t = []" "tail_consumer t = Some 0" using assms by auto
  have "bind (attached_poll poison_kafka demo_cdc) (\<lambda>batches. bind (ingest poison_kafka demo_cdc batches)
      (\<lambda>_. modify (\<lambda>s. s\<lparr>tail_error := None\<rparr>))) s = (Inl (Exn ''object has no attribute get''), t)"
    using p t(1) by (simp add: bind_def ingest_def arrivals_def take_message_def modify_def)
  then have "tail_turn poison_kafka demo_cdc s = close_tail poison_kafka
      (t\<lparr>tail_error := Some ''AttributeError: object has no attribute get'', tail_state := ''error''\<rparr>)"
    unfolding tail_turn_eq try_except_def by (simp add: bind_def modify_def exn_str_def poison_kafka_def)
  then show ?thesis using t(2,3) p
    by (simp add: close_tail_def bind_def gets_def modify_def try_except_def on_broker_def poison_kafka_def demo_kafka_def
      turn_arrivals_def arrivals_def place_def demo_message_def)
qed


end
