(* ===== verification/Buckets.thy ===== *)
theory Buckets
  imports Calendar "HOL-Library.Word"
begin

unbundle bit_operations_syntax

text \<open>
  The keys under which events, alerts and counts are filed by time, on the writer's side
  (\<open>src/ingress/consumer/consumer.py\<close>) and on the reader's
  (\<open>src/backend/app/routes/query.py\<close> and \<open>src/backend/app/db/cassandra_client.py\<close>), which
  are separate copies of the same arithmetic in two services.

  The lemmas show that the two sides agree, that a key names exactly the instants of its window,
  that keys sort as text in the order of time, and that the shard a writer picks is one of the
  shards a reader names.
\<close>

section \<open>The writer\<close>

text \<open>
  \<open>utc.replace(minute=(utc.minute // m) * m, second=0, microsecond=0)\<close>: the division raises for
  \<open>m = 0\<close>, and \<open>replace\<close> for a minute outside an hour (which a negative \<open>m\<close> can make).
\<close>

definition event_bucket :: "int \<Rightarrow> instant \<Rightarrow> exn + string" where
  "event_bucket EVENT_BUCKET_MINUTES t =
    (let utc = utc_fields t in
     if EVENT_BUCKET_MINUTES = 0 then Inl (Exn ''integer division or modulo by zero'')
     else let floored = minute utc div EVENT_BUCKET_MINUTES * EVENT_BUCKET_MINUTES in
       if floored < 0 \<or> 59 < floored then Inl (Exn ''minute must be in 0..59'')
       else Inr (strftime_minute (utc\<lparr>minute := floored, second := 0, microsecond := 0\<rparr>)))"

text \<open>\<open>zlib.crc32\<close>, bit by bit, over the sixteen bytes of the identifier.\<close>

definition crc_step :: "32 word \<Rightarrow> 32 word" where
  "crc_step c = (if c AND 1 = 1 then drop_bit 1 c XOR 0xEDB88320 else drop_bit 1 c)"

definition crc32 :: "nat list \<Rightarrow> 32 word" where
  "crc32 bs = NOT (fold (\<lambda>b c. (crc_step ^^ 8) (c XOR of_nat b)) bs 0xFFFFFFFF)"

definition uuid_bytes :: "nat \<Rightarrow> nat list" where
  "uuid_bytes u = map (\<lambda>i. u div 256 ^ (15 - i) mod 256) [0..<16]"

definition event_shard :: "int \<Rightarrow> nat \<Rightarrow> exn + int" where
  "event_shard EVENT_SHARDS event_id =
    (if EVENT_SHARDS = 0 then Inl (Exn ''integer modulo by zero'')
     else Inr (uint (crc32 (uuid_bytes event_id)) mod EVENT_SHARDS))"

definition thirty_min_bucket :: "instant \<Rightarrow> string" where
  "thirty_min_bucket t =
    (let dt = utc_fields t; minute_bucket = if minute dt < 30 then 0 else 30
     in strftime_hour dt @ '':'' @ pad0 2 minute_bucket)"

definition alert_bucket :: "instant \<Rightarrow> string" where
  "alert_bucket alert_time = strftime_hour (utc_fields alert_time)"

section \<open>The reader\<close>

text \<open>
  An aware datetime is the instant it denotes, so \<open>_bucket_start\<close> is an instant: the hour's
  start and the floored minutes after it.
\<close>

definition bucket_start :: "int \<Rightarrow> instant \<Rightarrow> instant" where
  "bucket_start event_bucket_minutes moment =
    (let minutes = max 1 event_bucket_minutes
     in moment - moment mod 3600000000 +
        minute (utc_fields moment) div minutes * minutes * 60000000)"

definition bucket_for :: "int \<Rightarrow> instant \<Rightarrow> string" where
  "bucket_for event_bucket_minutes moment =
    strftime_minute (utc_fields (bucket_start event_bucket_minutes moment))"

definition bucket_key :: "instant \<Rightarrow> string" where
  "bucket_key t =
    strftime_hour (utc_fields t) @ '':'' @ pad0 2 (if minute (utc_fields t) < 30 then 0 else 30)"

definition shards_named :: "int \<Rightarrow> int list" where
  "shards_named event_shards = map int [0..<nat (max 1 event_shards)]"

section \<open>The two sides agree\<close>

lemma crc_step_8: "(crc_step ^^ 8) c =
    crc_step (crc_step (crc_step (crc_step (crc_step (crc_step (crc_step (crc_step c)))))))"
  by (simp add: eval_nat_numeral)

text \<open>A known check value: the CRC of the one byte \<open>a\<close>.\<close>

lemma crc32_check: "crc32 [0x61] = 0xE8B7BE43"
  by (simp add: crc32_def crc_step_8 crc_step_def)

abbreviation hour_us :: int where "hour_us \<equiv> 3600000000"

lemma utc_fields_in_hour:
  assumes "0 \<le> r" and "r < hour_us"
  shows "utc_fields (hour_us * q + r) = (utc_fields (hour_us * q))
    \<lparr>minute := r div 60000000, second := r div 1000000 mod 60, microsecond := r mod 1000000\<rparr>"
proof -
  have d: "(hour_us * q + s) div 86400000000 = q div 24"
    and m: "(hour_us * q + s) mod 86400000000 = hour_us * (q mod 24) + s"
    if "0 \<le> s" "s < hour_us" for s
    using that zdiv_zmult2_eq [of 24 "hour_us * q + s" hour_us] zmod_zmult2_eq [of 24 "hour_us * q + s" hour_us]
    by simp_all
  define h where "h = q mod 24"
  have us: "(hour_us * h + s) div hour_us = h" "(hour_us * h + s) div 60000000 mod 60 = s div 60000000"
      "(hour_us * h + s) div 1000000 mod 60 = s div 1000000 mod 60"
      "(hour_us * h + s) mod 1000000 = s mod 1000000" if "0 \<le> s" "s < hour_us" for s
  proof -
    have "(60 * h + s div 60000000) mod 60 = s div 60000000" using that by simp
    moreover have "(hour_us * h + s) div 60000000 = 60 * h + s div 60000000"
      using div_mult_self2 [of 60000000 s "60 * h"] by (simp add: algebra_simps)
    ultimately show "(hour_us * h + s) div 60000000 mod 60 = s div 60000000" by simp
    have "(hour_us * h + s) div 1000000 = s div 1000000 + 60 * (60 * h)"
      using div_mult_self2 [of 1000000 s "3600 * h"] by (simp add: algebra_simps)
    then show "(hour_us * h + s) div 1000000 mod 60 = s div 1000000 mod 60"
      by (simp only: mod_mult_self2)
    show "(hour_us * h + s) mod 1000000 = s mod 1000000"
      using mod_mult_self2 [of s 1000000 "3600 * h"] by (simp add: algebra_simps)
    show "(hour_us * h + s) div hour_us = h" using that by simp
  qed
  have fields: "utc_fields (hour_us * q + s) =
      (case ord2ymd (q div 24 + epoch_ordinal) of (y, mo, dd) \<Rightarrow>
        \<lparr>year = y, month = mo, day = dd, hour = h, minute = s div 60000000,
         second = s div 1000000 mod 60, microsecond = s mod 1000000\<rparr>)" if "0 \<le> s" "s < hour_us" for s
    unfolding utc_fields_def Let_def d [OF that] m [OF that] h_def [symmetric] us [OF that] by (rule refl)
  show ?thesis using fields [OF assms] fields [of 0] by (simp split: prod.splits)
qed

lemma bucket_start_hour:
  defines "f m t \<equiv> minute (utc_fields t) div max 1 m * max 1 m"
  shows "bucket_start m t = hour_us * (t div hour_us) + f m t * 60000000"
    and "0 \<le> f m t" and "f m t \<le> minute (utc_fields t)"
proof -
  have "t - t mod hour_us = hour_us * (t div hour_us)" by (simp add: minus_mod_eq_mult_div)
  then show "bucket_start m t = hour_us * (t div hour_us) + f m t * 60000000"
    by (simp add: bucket_start_def f_def Let_def)
  show "0 \<le> f m t" using time_field_bounds(3) [of t] by (simp add: f_def pos_imp_zdiv_nonneg_iff)
  have "f m t = minute (utc_fields t) - minute (utc_fields t) mod max 1 m"
    by (simp add: f_def minus_mod_eq_div_mult)
  moreover have "0 \<le> minute (utc_fields t) mod max 1 m" by simp
  ultimately show "f m t \<le> minute (utc_fields t)" by linarith
qed

lemma minute_in_hour: "minute (utc_fields t) = t mod hour_us div 60000000"
  using utc_fields_in_hour [of "t mod hour_us" "t div hour_us"] by simp

lemma bucket_start_fields:
  "utc_fields (bucket_start m t) =
    (utc_fields t)\<lparr>minute := minute (utc_fields t) div max 1 m * max 1 m, second := 0, microsecond := 0\<rparr>"
proof -
  let ?f = "minute (utc_fields t) div max 1 m * max 1 m"
  have f: "0 \<le> ?f * 60000000" "?f * 60000000 < hour_us"
    using bucket_start_hour(2,3) [of t m] time_field_bounds(4) [of t] by linarith+
  have "utc_fields (bucket_start m t) = (utc_fields (hour_us * (t div hour_us)))
      \<lparr>minute := ?f, second := ?f * 60000000 div 1000000 mod 60, microsecond := ?f * 60000000 mod 1000000\<rparr>"
    unfolding bucket_start_hour(1) using utc_fields_in_hour [OF f] by simp
  moreover have "?f * 60000000 div 1000000 = 60 * ?f" by simp
  moreover have "?f * 60000000 mod 1000000 = 0" by (simp add: mod_eq_0_iff_dvd)
  moreover have t: "utc_fields t = (utc_fields (hour_us * (t div hour_us)))\<lparr>minute := t mod hour_us div 60000000,
      second := t mod hour_us div 1000000 mod 60, microsecond := t mod hour_us mod 1000000\<rparr>"
    using utc_fields_in_hour [of "t mod hour_us" "t div hour_us"] by simp
  have "(utc_fields t)\<lparr>minute := x, second := y, microsecond := z\<rparr> =
      (utc_fields (hour_us * (t div hour_us)))\<lparr>minute := x, second := y, microsecond := z\<rparr>" for x y z
    by (subst t) simp
  ultimately show ?thesis by simp
qed

section \<open>Keys sort as time does\<close>

definition minute_key :: "datetime \<Rightarrow> int \<times> int \<times> int \<times> int \<times> int" where
  "minute_key f = (year f, month f, day f, hour f, minute f)"

definition printable :: "datetime \<Rightarrow> bool" where
  "printable f \<longleftrightarrow> 0 \<le> year f \<and> year f \<le> 9999 \<and> 0 \<le> month f \<and> month f \<le> 99 \<and> 0 \<le> day f \<and> day f \<le> 99 \<and>
    0 \<le> hour f \<and> hour f \<le> 99 \<and> 0 \<le> minute f \<and> minute f \<le> 99"

lemma pad0_int_less:
  assumes "0 \<le> a" and "a < b" and "b < 10 ^ w" and "1 \<le> w"
  shows "pad0 w (nat a) < pad0 w (nat b)"
proof (rule pad0_less)
  show "nat a < nat b" "1 \<le> w" using assms by simp_all
  show "nat b < 10 ^ w" using assms by (simp add: nat_less_iff)
qed

lemma pad0_int_length:
  assumes "0 \<le> a" and "a < 10 ^ w" and "1 \<le> w"
  shows "length (pad0 w (nat a)) = w"
  using assms by (intro length_pad0) (simp_all add: nat_less_iff)

lemma str_field_less:
  fixes x y :: string
  assumes "0 \<le> a" "a < 10 ^ w" "0 \<le> b" "b < 10 ^ w" "1 \<le> w" and "a < b \<or> a = b \<and> x < y"
  shows "pad0 w (nat a) @ x < pad0 w (nat b) @ y"
proof (cases "a < b")
  case True
  then show ?thesis
    using assms by (intro str_less_append) (simp_all add: pad0_int_less pad0_int_length)
next
  case False
  then show ?thesis using assms(6) by (auto intro: str_less_append_same)
qed

lemma strftime_minute_less:
  assumes "printable f" and "printable g" and "minute_key f < minute_key g"
  shows "strftime_minute f < strftime_minute g"
proof -
  show ?thesis
    using assms unfolding strftime_minute_def strftime_hour_def append_assoc
    by (intro str_field_less)
      (auto simp: printable_def minute_key_def intro!: str_field_less pad0_int_less)
qed

lemma minutes_of_day:
  fixes t :: int
  defines "a \<equiv> t mod 86400000000 div 60000000"
  shows "t div 60000000 = 1440 * (t div 86400000000) + a"
    and "hour (utc_fields t) = a div 60" and "minute (utc_fields t) = a mod 60"
proof -
  have "t = 86400000000 * (t div 86400000000) + t mod 86400000000" by simp
  then have "t div 60000000 = (t mod 86400000000 + 60000000 * (1440 * (t div 86400000000))) div 60000000"
    by simp
  also have "\<dots> = 1440 * (t div 86400000000) + a" unfolding a_def by (subst div_mult_self2) simp_all
  finally show "t div 60000000 = 1440 * (t div 86400000000) + a" .
  show "hour (utc_fields t) = a div 60"
    unfolding a_def time_fields using zdiv_zmult2_eq [of 60 "t mod 86400000000" 60000000] by simp
  show "minute (utc_fields t) = a mod 60" unfolding a_def time_fields by (rule refl)
qed

lemma div_mod_less:
  fixes a b n :: int
  assumes "a < b" and "0 < n"
  shows "a div n < b div n \<or> a div n = b div n \<and> a mod n < b mod n"
proof (cases "a div n = b div n")
  case True
  have "a mod n = a - n * (a div n)" "b mod n = b - n * (b div n)"
    by (simp_all only: minus_mult_div_eq_mod)
  with True assms show ?thesis by simp
next
  case False
  moreover have "a div n \<le> b div n" using assms by (intro zdiv_mono1) simp_all
  ultimately show ?thesis by simp
qed

lemma lex_time:
  fixes y m d h h' i i' :: int
  shows "h < h' \<or> h = h' \<and> i < i' \<Longrightarrow> (y, m, d, h, i) < (y, m, d, h', i')"
  by auto

lemma minute_key_less:
  assumes "t div 60000000 < t' div 60000000"
  shows "minute_key (utc_fields t) < minute_key (utc_fields t')"
proof -
  let ?a = "t mod 86400000000 div 60000000" and ?b = "t' mod 86400000000 div 60000000"
  have key: "minute_key f = (case date_key f of (y, m, d) \<Rightarrow> (y, m, d, hour f, minute f))" for f
    by (simp add: minute_key_def date_key_def)
  have "t < t'" using assms by (meson not_le zdiv_mono1 zero_less_numeral)
  then have le: "t div 86400000000 \<le> t' div 86400000000" by (simp add: zdiv_mono1)
  show ?thesis
  proof (cases "t div 86400000000 = t' div 86400000000")
    case False
    with le have "date_key (utc_fields t) < date_key (utc_fields t')"
      unfolding date_key_utc by (intro ord2ymd_strict_mono) simp
    then show ?thesis unfolding key by (auto split: prod.splits)
  next
    case True
    then have "date_key (utc_fields t) = date_key (utc_fields t')" unfolding date_key_utc by simp
    moreover have "?a < ?b" using assms True minutes_of_day(1) [of t] minutes_of_day(1) [of t'] by linarith
    then have "?a div 60 < ?b div 60 \<or> ?a div 60 = ?b div 60 \<and> ?a mod 60 < ?b mod 60"
      by (rule div_mod_less) simp
    then have "(y, m, d, ?a div 60, ?a mod 60) < (y, m, d, ?b div 60, ?b mod 60)" for y m d :: int
      by (rule lex_time)
    ultimately show ?thesis
      by (cases "date_key (utc_fields t')") (simp only: key minutes_of_day(2,3) prod.case)
  qed
qed

definition four_digit_year :: "instant \<Rightarrow> bool" where
  "four_digit_year t \<longleftrightarrow> 1 \<le> year (utc_fields t) \<and> year (utc_fields t) \<le> 9999"

lemma printable_utc: "four_digit_year t \<Longrightarrow> printable (utc_fields t)"
  using date_field_bounds [of t] time_field_bounds [of t]
  by (simp add: printable_def four_digit_year_def)

lemma four_digit_bucket_start: "four_digit_year (bucket_start m t) = four_digit_year t"
  by (simp add: four_digit_year_def bucket_start_fields)

lemma bucket_start_minutes: "\<exists>k. bucket_start m t = 60000000 * k"
proof
  show "bucket_start m t = 60000000 * (60 * (t div hour_us) + minute (utc_fields t) div max 1 m * max 1 m)"
    unfolding bucket_start_hour(1) by (simp add: algebra_simps)
qed

lemma bucket_for_less:
  assumes "four_digit_year t" and "four_digit_year t'" and "bucket_start m t < bucket_start m t'"
  shows "bucket_for m t < bucket_for m t'"
proof -
  obtain j k where jk: "bucket_start m t = 60000000 * j" "bucket_start m t' = 60000000 * k"
    using bucket_start_minutes by metis
  have "j < k" using assms(3) unfolding jk by simp
  then have "bucket_start m t div 60000000 < bucket_start m t' div 60000000" unfolding jk by simp
  then show ?thesis unfolding bucket_for_def
    using assms(1,2) by (intro strftime_minute_less minute_key_less printable_utc)
      (simp_all add: four_digit_bucket_start)
qed

lemma bucket_for_order:
  assumes "four_digit_year t" and "four_digit_year t'"
  shows "bucket_for m t < bucket_for m t' \<longleftrightarrow> bucket_start m t < bucket_start m t'"
    and "bucket_for m t = bucket_for m t' \<longleftrightarrow> bucket_start m t = bucket_start m t'"
proof -
  have eq: "bucket_start m t = bucket_start m t' \<Longrightarrow> bucket_for m t = bucket_for m t'"
    by (simp add: bucket_for_def)
  show "bucket_for m t < bucket_for m t' \<longleftrightarrow> bucket_start m t < bucket_start m t'"
    using bucket_for_less [of t t' m] bucket_for_less [of t' t m] eq assms
    by (metis less_asym linorder_neqE)
  then show "bucket_for m t = bucket_for m t' \<longleftrightarrow> bucket_start m t = bucket_start m t'"
    using bucket_for_less [of t t' m] bucket_for_less [of t' t m] eq assms
    by (metis less_irrefl linorder_neqE)
qed

lemma bucket_start_floor:
  assumes "1 \<le> m" and "m dvd 60"
  shows "bucket_start m t = m * 60000000 * (t div (m * 60000000))"
proof -
  obtain k where k: "60 = m * k" using assms(2) by blast
  let ?w = "m * 60000000" and ?q = "t div hour_us" and ?r = "t mod hour_us"
  have w: "hour_us = ?w * k" using k by (simp add: mult.commute)
  have "t = ?r + hour_us * ?q" by simp
  then have "t = ?r + ?w * (k * ?q)" unfolding w by (simp only: mult.assoc)
  then have "t div ?w = (?r + ?w * (k * ?q)) div ?w" by (rule arg_cong)
  also have "\<dots> = k * ?q + ?r div ?w" by (rule div_mult_self2) (use assms(1) in simp)
  finally have "t div ?w = k * ?q + ?r div ?w" .
  moreover have "?r div 60000000 div m = ?r div ?w"
    using zdiv_zmult2_eq [of m ?r 60000000] assms(1) by (simp add: mult.commute)
  moreover have "bucket_start m t = hour_us * ?q + ?r div 60000000 div m * m * 60000000"
    using assms(1) unfolding bucket_start_hour(1) minute_in_hour by (simp add: max_def)
  ultimately show ?thesis using w by (simp add: algebra_simps)
qed

lemma bucket_start_window: "bucket_start m t \<le> t" "t < bucket_start m t + max 1 m * 60000000"
proof -
  define i M q rest n where "i = minute (utc_fields t)" and "M = t mod hour_us" and "q = t div hour_us"
    and "rest = M mod 60000000" and "n = max 1 m"
  define f r where "f = i div n * n" and "r = i mod n"
  have "i = M div 60000000" unfolding i_def M_def by (rule minute_in_hour)
  then have "M = i * 60000000 + rest" unfolding rest_def by (simp only: div_mult_mod_eq)
  moreover have "t = hour_us * q + M" unfolding q_def M_def by (simp only: mult_div_mod_eq)
  moreover have "i = f + r" unfolding f_def r_def by (simp only: div_mult_mod_eq)
  moreover have "0 \<le> r" "r < n" "0 \<le> rest" "rest < 60000000"
    unfolding r_def n_def rest_def by simp_all
  moreover have "bucket_start m t = hour_us * q + f * 60000000"
    unfolding bucket_start_hour(1) f_def q_def i_def n_def ..
  ultimately show "bucket_start m t \<le> t" "t < bucket_start m t + max 1 m * 60000000"
    unfolding n_def [symmetric] by simp_all
qed

lemma event_bucket_for:
  assumes "1 \<le> m"
  shows "event_bucket m t = Inr (bucket_for m t)"
proof -
  let ?f = "minute (utc_fields t) div m * m"
  have "max 1 m = m" using assms by simp
  then have "0 \<le> ?f" "?f \<le> 59"
    using bucket_start_hour(2,3) [of t m] time_field_bounds(4) [of t] by simp_all
  then show ?thesis
    using assms \<open>max 1 m = m\<close> by (simp add: event_bucket_def bucket_for_def bucket_start_fields Let_def)
qed

section \<open>Properties\<close>

text \<open>
  C7. The writer and the reader file events under the same keys. For every positive bucket length
  the key the sink writes is the key the backend computes, and the half-hour counter's two copies
  agree on every instant.
\<close>

theorem writer_and_reader_keys_agree:
  assumes "1 \<le> m"
  shows "event_bucket m t = Inr (bucket_for m t) \<and> thirty_min_bucket t = bucket_key t"
  using event_bucket_for [OF assms] by (simp add: thirty_min_bucket_def bucket_key_def Let_def)

theorem writer_and_reader_keys_agree_witness:
  "event_bucket 15 1786000000000000 = Inr (bucket_for 15 1786000000000000) \<and>
   thirty_min_bucket 1786000000000000 = bucket_key 1786000000000000"
  using writer_and_reader_keys_agree [of 15 1786000000000000] by simp

text \<open>
  Property. A key names exactly the instants of its window, when the bucket length divides the hour: two
  instants of four-digit years have the same key iff the second lies in the window the first's
  bucket starts, which is as long as the bucket length says.
\<close>

theorem bucket_key_names_its_window:
  assumes "1 \<le> m" and "m dvd 60" and "four_digit_year t" and "four_digit_year t'"
  shows "bucket_for m t = bucket_for m t' \<longleftrightarrow>
    bucket_start m t \<le> t' \<and> t' < bucket_start m t + m * 60000000"
proof -
  let ?w = "m * 60000000"
  have w: "0 < ?w" using assms(1) by simp
  have "bucket_start m t = bucket_start m t' \<longleftrightarrow> t div ?w = t' div ?w"
    unfolding bucket_start_floor [OF assms(1,2)] using w by simp
  also have "\<dots> \<longleftrightarrow> ?w * (t div ?w) \<le> t' \<and> t' < ?w * (t div ?w) + ?w"
  proof
    assume "t div ?w = t' div ?w"
    moreover have "?w * (t' div ?w) = t' - t' mod ?w" by (simp only: minus_mod_eq_mult_div)
    moreover have "0 \<le> t' mod ?w" "t' mod ?w < ?w" using w by simp_all
    ultimately show "?w * (t div ?w) \<le> t' \<and> t' < ?w * (t div ?w) + ?w" by simp
  next
    assume "?w * (t div ?w) \<le> t' \<and> t' < ?w * (t div ?w) + ?w"
    then have "0 \<le> t' - ?w * (t div ?w)" "t' - ?w * (t div ?w) < ?w" by simp_all
    then have "(t' - ?w * (t div ?w)) div ?w = 0" by (rule div_pos_pos_trivial)
    moreover have "(t' - ?w * (t div ?w)) div ?w = t' div ?w - t div ?w"
      using div_mult_self2 [of ?w t' "- (t div ?w)"] w by (simp del: div_mult_self1 div_mult_self2)
    ultimately show "t div ?w = t' div ?w" by simp
  qed
  finally show ?thesis
    using bucket_for_order(2) [OF assms(3,4)] bucket_start_floor [OF assms(1,2), of t] by simp
qed

definition feb29 :: instant where
  "feb29 = 1709209800000000"

lemma feb29_year: "four_digit_year feb29" "four_digit_year (feb29 + 300000000)"
  by (code_simp, code_simp)

theorem bucket_key_names_its_window_witness:
  "bucket_for 15 feb29 = bucket_for 15 (feb29 + 300000000) \<longleftrightarrow>
    bucket_start 15 feb29 \<le> feb29 + 300000000 \<and> feb29 + 300000000 < bucket_start 15 feb29 + 15 * 60000000"
  by (rule bucket_key_names_its_window) (simp_all add: feb29_year)

lemma bucket_start_mono: "t \<le> t' \<Longrightarrow> bucket_start m t \<le> bucket_start m t'"
proof -
  assume le: "t \<le> t'"
  let ?m = "max 1 m"
  let ?f = "\<lambda>t. minute (utc_fields t) div ?m * ?m"
  have q: "t div hour_us \<le> t' div hour_us" using le by (intro zdiv_mono1) simp_all
  show ?thesis
  proof (cases "t div hour_us = t' div hour_us")
    case True
    have "t mod hour_us = t - hour_us * (t div hour_us)" "t' mod hour_us = t' - hour_us * (t' div hour_us)"
      by (simp_all only: minus_mult_div_eq_mod)
    with le True have "t mod hour_us \<le> t' mod hour_us" by simp
    then have "minute (utc_fields t) \<le> minute (utc_fields t')"
      unfolding minute_in_hour by (intro zdiv_mono1) simp_all
    then have "?f t \<le> ?f t'" by (intro mult_right_mono zdiv_mono1) simp_all
    then show ?thesis unfolding bucket_start_hour(1) True by simp
  next
    case False
    define q q' where "q = t div hour_us" and "q' = t' div hour_us"
    have "q + 1 \<le> q'" using q False unfolding q_def q'_def by simp
    moreover have "?f t * 60000000 \<le> hour_us" "0 \<le> ?f t'"
      using bucket_start_hour(2,3) [of t m] bucket_start_hour(2) [of t' m] time_field_bounds(4) [of t]
      by linarith+
    ultimately show ?thesis unfolding bucket_start_hour(1) q_def [symmetric] q'_def [symmetric] by linarith
  qed
qed

text \<open>
  Property. Keys sort as time does, so a text range over keys is a range over time: for any bucket length,
  one key is before another exactly when its window starts before the other's, and then every
  instant filed under it is earlier.
\<close>

theorem bucket_keys_sort_as_time:
  assumes "four_digit_year t" and "four_digit_year t'"
  shows "(bucket_for m t < bucket_for m t' \<longleftrightarrow> bucket_start m t < bucket_start m t') \<and>
    (bucket_for m t < bucket_for m t' \<longrightarrow> t < t')"
  using bucket_for_order(1) [OF assms] bucket_start_mono [of t' t m] by force

theorem bucket_keys_sort_as_time_witness:
  "(bucket_for 15 feb29 < bucket_for 15 (feb29 + 300000000) \<longleftrightarrow>
     bucket_start 15 feb29 < bucket_start 15 (feb29 + 300000000)) \<and>
    (bucket_for 15 feb29 < bucket_for 15 (feb29 + 300000000) \<longrightarrow> feb29 < feb29 + 300000000)"
  by (rule bucket_keys_sort_as_time) (rule feb29_year)+

text \<open>
  Property. The shard an event is written to is one of those a reader names, for every positive shard
  count, so a read of a whole window misses no partition of it.
\<close>

theorem shard_is_named:
  assumes "1 \<le> shards"
  shows "\<exists>s. event_shard shards event_id = Inr s \<and> s \<in> set (shards_named shards)"
proof -
  let ?s = "uint (crc32 (uuid_bytes event_id)) mod shards"
  have "0 \<le> ?s" "?s < shards" using assms by simp_all
  then have "?s = int (nat ?s)" "nat ?s < nat (max 1 shards)" by simp_all
  then have "?s \<in> int ` {0..<nat (max 1 shards)}" by (metis atLeast0LessThan image_eqI lessThan_iff)
  then have "?s \<in> set (shards_named shards)" by (simp add: shards_named_def)
  then show ?thesis using assms by (simp add: event_shard_def)
qed

theorem shard_is_named_witness:
  "\<exists>s. event_shard 16 42 = Inr s \<and> s \<in> set (shards_named 16)"
  by (rule shard_is_named) simp

end
