(* ===== verification/Geometry.thy ===== *)
theory Geometry
  imports Pystr
begin

text \<open>
  The geometry of restricted zones. The sink (\<open>src/ingress/consumer/consumer.py\<close>) and the backend
  (\<open>src/backend/app/utils/geometry.py\<close>) each keep a copy, so that the sink runs without the
  backend; both are modelled, the backend's under names that start with \<open>api_\<close>. A ring is a list
  of (longitude, latitude) pairs. Floats are real numbers, and \<open>float("inf")\<close> is \<open>None\<close>.

  The lemmas show that a well-formed WKT text parses to its ring, that a point inside lies within
  the ring's bounding box, that the distance is the least one to the boundary, that bearings and
  distances are in range, and that the two copies agree.
\<close>

section \<open>The sink's copy\<close>

type_synonym ring = "(real \<times> real) list"

definition EARTH_RADIUS_M :: real where
  "EARTH_RADIUS_M = 6371000"

definition M_PER_DEG_LAT :: real where
  "M_PER_DEG_LAT = 111320"

text \<open>One \<open>pair\<close> of the ring's text: skipped when it has fewer than two words or one is no number.\<close>

definition ring_point :: "string \<Rightarrow> (real \<times> real) list" where
  "ring_point pair =
    (case words pair of
       x # y # _ \<Rightarrow> (case (py_float x, py_float y) of (Some lon, Some lat) \<Rightarrow> [(lon, lat)] | _ \<Rightarrow> [])
     | _ \<Rightarrow> [])"

definition parse_wkt_polygon :: "string option \<Rightarrow> ring" where
  "parse_wkt_polygon wkt =
    (let text = strip (case wkt of None \<Rightarrow> [] | Some s \<Rightarrow> s)
     in if \<not> starts_with ''POLYGON'' (upper text) then []
        else case (find_sub ''(('' text, rfind_sub ''))'' text) of
             (Some start, Some end) \<Rightarrow> concat (map ring_point (split_on (CHR '','') (slice (start + 2) end text)))
           | _ \<Rightarrow> [])"

definition radians :: "real \<Rightarrow> real" where
  "radians d = d * pi / 180"

definition degrees :: "real \<Rightarrow> real" where
  "degrees r = r * 180 / pi"

definition hypot :: "real \<Rightarrow> real \<Rightarrow> real" where
  "hypot x y = sqrt (x\<^sup>2 + y\<^sup>2)"

definition atan2 :: "real \<Rightarrow> real \<Rightarrow> real" where
  "atan2 y x =
    (if 0 < x then arctan (y / x)
     else if x < 0 then (if 0 \<le> y then arctan (y / x) + pi else arctan (y / x) - pi)
     else if 0 < y then pi / 2 else if y < 0 then - pi / 2 else 0)"

text \<open>Python's \<open>%\<close> on floats, for a positive modulus.\<close>

definition fmod :: "real \<Rightarrow> real \<Rightarrow> real" where
  "fmod x m = x - m * of_int \<lfloor>x / m\<rfloor>"

definition haversine_distance_m :: "real \<Rightarrow> real \<Rightarrow> real \<Rightarrow> real \<Rightarrow> real" where
  "haversine_distance_m lat1 lon1 lat2 lon2 =
    (let rlat1 = radians lat1; rlat2 = radians lat2;
         dlat = rlat2 - rlat1;
         dlon = radians (lon2 - lon1);
         a = (sin (dlat / 2))\<^sup>2 + cos rlat1 * cos rlat2 * (sin (dlon / 2))\<^sup>2
     in 2 * EARTH_RADIUS_M * arcsin (min 1 (sqrt a)))"

definition compute_bearing_deg :: "real \<Rightarrow> real \<Rightarrow> real \<Rightarrow> real \<Rightarrow> real" where
  "compute_bearing_deg lat1 lon1 lat2 lon2 =
    (let rlat1 = radians lat1; rlat2 = radians lat2;
         dlon = radians (lon2 - lon1);
         x = sin dlon * cos rlat2;
         y = cos rlat1 * sin rlat2 - sin rlat1 * cos rlat2 * cos dlon
     in fmod (degrees (atan2 x y) + 360) 360)"

text \<open>The loop of \<open>point_in_polygon\<close>: the previous vertex, the vertices to come, \<open>inside\<close> so far.\<close>

fun cast_ray :: "real \<Rightarrow> real \<Rightarrow> real \<times> real \<Rightarrow> ring \<Rightarrow> bool \<Rightarrow> bool" where
  "cast_ray lat lon (xj, yj) [] inside = inside"
| "cast_ray lat lon (xj, yj) ((xi, yi) # rest) inside =
    cast_ray lat lon (xi, yi) rest
      (if (lat < yi) \<noteq> (lat < yj)
       then if lon < xi + (xj - xi) * (lat - yi) / (yj - yi) then \<not> inside else inside
       else inside)"

definition point_in_polygon :: "real \<Rightarrow> real \<Rightarrow> ring \<Rightarrow> bool" where
  "point_in_polygon lat lon polygon =
    (if length polygon < 3 then False else cast_ray lat lon (last polygon) polygon False)"

text \<open>\<open>min(nearest, d)\<close> where \<open>nearest\<close> starts as infinity.\<close>

fun fmin :: "real option \<Rightarrow> real \<Rightarrow> real option" where
  "fmin None d = Some d"
| "fmin (Some x) d = Some (min x d)"

definition edge_distance :: "real \<Rightarrow> real \<Rightarrow> real \<Rightarrow> real \<times> real \<Rightarrow> real \<times> real \<Rightarrow> real" where
  "edge_distance m_per_deg_lon lat lon = (\<lambda>(vlon, vlat) (nlon, nlat).
    let ax = (vlon - lon) * m_per_deg_lon; ay = (vlat - lat) * M_PER_DEG_LAT;
        bx = (nlon - lon) * m_per_deg_lon; by' = (nlat - lat) * M_PER_DEG_LAT;
        dx = bx - ax; dy = by' - ay;
        length_sq = dx * dx + dy * dy;
        t = (if length_sq = 0 then 0 else max 0 (min 1 (- (ax * dx + ay * dy) / length_sq)))
    in hypot (ax + t * dx) (ay + t * dy))"

definition m_per_deg_lon_at :: "real \<Rightarrow> real" where
  "m_per_deg_lon_at lat = M_PER_DEG_LAT * max (cos (radians lat)) 0.01"

definition distance_to_polygon_m :: "real \<Rightarrow> real \<Rightarrow> ring \<Rightarrow> real option" where
  "distance_to_polygon_m lat lon polygon =
    (if length polygon < 3 then None
     else if point_in_polygon lat lon polygon then Some 0
     else fold (\<lambda>i nearest. fmin nearest
            (edge_distance (m_per_deg_lon_at lat) lat lon (polygon ! i) (polygon ! ((i + 1) mod length polygon))))
          [0..<length polygon] None)"

section \<open>The backend's copy\<close>

definition api_parse_wkt_polygon :: "string \<Rightarrow> ring" where
  "api_parse_wkt_polygon wkt =
    (let text = strip wkt
     in if \<not> starts_with ''POLYGON'' (upper text) then []
        else case (find_sub ''(('' text, rfind_sub ''))'' text) of
             (Some start, Some end) \<Rightarrow> concat (map ring_point (split_on (CHR '','') (slice (start + 2) end text)))
           | _ \<Rightarrow> [])"

fun api_cast_ray :: "real \<Rightarrow> real \<Rightarrow> real \<times> real \<Rightarrow> ring \<Rightarrow> bool \<Rightarrow> bool" where
  "api_cast_ray lat lon (xj, yj) [] inside = inside"
| "api_cast_ray lat lon (xj, yj) ((xi, yi) # rest) inside =
    (let inside' =
       (if (lat < yi) \<noteq> (lat < yj)
        then let x_at_lat = xi + (xj - xi) * (lat - yi) / (yj - yi)
             in if lon < x_at_lat then \<not> inside else inside
        else inside)
     in api_cast_ray lat lon (xi, yi) rest inside')"

definition api_point_in_polygon :: "real \<Rightarrow> real \<Rightarrow> ring \<Rightarrow> bool" where
  "api_point_in_polygon lat lon polygon =
    (if length polygon < 3 then False else api_cast_ray lat lon (last polygon) polygon False)"

definition api_haversine_distance_m :: "real \<Rightarrow> real \<Rightarrow> real \<Rightarrow> real \<Rightarrow> real" where
  "api_haversine_distance_m lat1 lon1 lat2 lon2 =
    (let rlat1 = radians lat1; rlat2 = radians lat2;
         dlat = rlat2 - rlat1;
         dlon = radians (lon2 - lon1);
         a = (sin (dlat / 2))\<^sup>2 + cos rlat1 * cos rlat2 * (sin (dlon / 2))\<^sup>2
     in 2 * EARTH_RADIUS_M * arcsin (min 1 (sqrt a)))"

definition to_xy :: "real \<Rightarrow> real \<Rightarrow> real \<times> real \<Rightarrow> real \<times> real" where
  "to_xy lat lon = (\<lambda>(plon, plat).
    ((plon - lon) * (M_PER_DEG_LAT * max (cos (radians lat)) 0.01), (plat - lat) * M_PER_DEG_LAT))"

definition api_edge_distance :: "real \<times> real \<Rightarrow> real \<times> real \<Rightarrow> real" where
  "api_edge_distance = (\<lambda>(ax, ay) (bx, by').
    let dx = bx - ax; dy = by' - ay;
        seg_len_sq = dx * dx + dy * dy;
        t = (if seg_len_sq = 0 then 0 else max 0 (min 1 (- (ax * dx + ay * dy) / seg_len_sq)));
        px = ax + t * dx; py = ay + t * dy
    in hypot px py)"

definition api_distance_to_polygon_m :: "real \<Rightarrow> real \<Rightarrow> ring \<Rightarrow> real option" where
  "api_distance_to_polygon_m lat lon polygon =
    (if length polygon < 3 then None
     else if api_point_in_polygon lat lon polygon then Some 0
     else fold (\<lambda>i nearest. fmin nearest
            (api_edge_distance (to_xy lat lon (polygon ! i)) (to_xy lat lon (polygon ! ((i + 1) mod length polygon)))))
          [0..<length polygon] None)"

definition api_compute_bearing_deg :: "real \<Rightarrow> real \<Rightarrow> real \<Rightarrow> real \<Rightarrow> real" where
  "api_compute_bearing_deg lat1 lon1 lat2 lon2 =
    (let rlat1 = radians lat1; rlat2 = radians lat2;
         dlon = radians (lon2 - lon1);
         x = sin dlon * cos rlat2;
         y = cos rlat1 * sin rlat2 - sin rlat1 * cos rlat2 * cos dlon
     in fmod (degrees (atan2 x y) + 360) 360)"

section \<open>Lemmas\<close>

subsection \<open>Containment\<close>

text \<open>Where an edge crosses the ray's latitude lies between its ends.\<close>

lemma crossing_between:
  fixes xi :: real
  assumes "(lat < yi) \<noteq> (lat < yj)"
  obtains t where "0 \<le> t" "t \<le> 1" "xi + (xj - xi) * (lat - yi) / (yj - yi) = (1 - t) * xi + t * xj"
proof
  let ?t = "(lat - yi) / (yj - yi)"
  show "0 \<le> ?t" "?t \<le> 1" using assms by (auto simp: field_split_simps)
  show "xi + (xj - xi) * (lat - yi) / (yj - yi) = (1 - ?t) * xi + ?t * xj"
    by (simp add: algebra_simps diff_divide_distrib add_divide_distrib)
qed

lemma crossing_bounds:
  fixes xi :: real
  assumes "(lat < yi) \<noteq> (lat < yj)"
  shows "xi \<le> lon \<Longrightarrow> xj \<le> lon \<Longrightarrow> xi + (xj - xi) * (lat - yi) / (yj - yi) \<le> lon"
    and "lon < xi \<Longrightarrow> lon < xj \<Longrightarrow> lon < xi + (xj - xi) * (lat - yi) / (yj - yi)"
proof -
  obtain t where t: "0 \<le> t" "t \<le> 1" and eq: "xi + (xj - xi) * (lat - yi) / (yj - yi) = (1 - t) * xi + t * xj"
    using crossing_between [OF assms] by blast
  show "xi \<le> lon \<Longrightarrow> xj \<le> lon \<Longrightarrow> xi + (xj - xi) * (lat - yi) / (yj - yi) \<le> lon"
    unfolding eq using t by (intro convex_bound_le) auto
  show "lon < xi \<Longrightarrow> lon < xj \<Longrightarrow> lon < xi + (xj - xi) * (lat - yi) / (yj - yi)"
    unfolding eq using t convex_bound_lt [of "- xi" "- lon" "- xj" "1 - t" t] by (simp add: algebra_simps)
qed

lemma cast_ray_level:
  assumes "\<forall>(x, y) \<in> set (p # ring). (lat < y) = b"
  shows "cast_ray lat lon p ring inside = inside"
  using assms by (induction lat lon p ring inside rule: cast_ray.induct) auto

lemma cast_ray_right:
  assumes "\<forall>(x, y) \<in> set (p # ring). x \<le> lon"
  shows "cast_ray lat lon p ring inside = inside"
  using assms
proof (induction lat lon p ring inside rule: cast_ray.induct)
  case (2 lat lon xj yj xi yi rest inside)
  have "xi \<le> lon" "xj \<le> lon" using 2(2) by auto
  then have "\<not> ((lat < yi) \<noteq> (lat < yj) \<and> lon < xi + (xj - xi) * (lat - yi) / (yj - yi))"
    using crossing_bounds(1) [of lat yi yj xi lon xj] by linarith
  then show ?case using 2 by (simp only: cast_ray.simps) auto
qed simp

text \<open>
  Left of every vertex each straddling edge toggles, and around a closed ring the latitude is
  crossed an even number of times.
\<close>

lemma cast_ray_left:
  assumes "\<forall>(x, y) \<in> set (p # ring). lon < x"
  shows "cast_ray lat lon p ring inside =
    (inside \<noteq> ((lat < snd p) \<noteq> (lat < snd (last (p # ring)))))"
  using assms
proof (induction lat lon p ring inside rule: cast_ray.induct)
  case (2 lat lon xj yj xi yi rest inside)
  then show ?case using crossing_bounds(2) [of lat yi yj lon xi xj] by auto
qed simp

lemma in_polygon_bounds:
  assumes "point_in_polygon lat lon polygon"
  shows "\<exists>(x, y) \<in> set polygon. lat < y" and "\<exists>(x, y) \<in> set polygon. y \<le> lat"
    and "\<exists>(x, y) \<in> set polygon. lon < x" and "\<exists>(x, y) \<in> set polygon. x \<le> lon"
proof -
  have ray: "cast_ray lat lon (last polygon) polygon False" and ne: "polygon \<noteq> []"
    using assms by (auto simp: point_in_polygon_def split: if_splits)
  have mem: "set (last polygon # polygon) = set polygon" using ne by auto
  show "\<exists>(x, y) \<in> set polygon. lat < y"
    using ray cast_ray_level [of "last polygon" polygon lat False lon False] unfolding mem by auto
  show "\<exists>(x, y) \<in> set polygon. y \<le> lat"
    using ray cast_ray_level [of "last polygon" polygon lat True lon False] unfolding mem
    by (auto simp: not_less [symmetric])
  show "\<exists>(x, y) \<in> set polygon. lon < x"
    using ray cast_ray_right [of "last polygon" polygon lon lat False] unfolding mem
    by (auto simp: not_less [symmetric])
  show "\<exists>(x, y) \<in> set polygon. x \<le> lon"
    using ray cast_ray_left [of "last polygon" polygon lon lat False] ne unfolding mem
    by (auto simp: not_less [symmetric])
qed

subsection \<open>Distance\<close>

text \<open>The clamped parameter is the nearest point of a segment.\<close>

lemma clamp_nearest:
  fixes ax ay dx dy s :: real
  defines "L \<equiv> dx * dx + dy * dy"
  defines "t \<equiv> if L = 0 then 0 else max 0 (min 1 (- (ax * dx + ay * dy) / L))"
  assumes "0 \<le> s" and "s \<le> 1"
  shows "0 \<le> t" and "t \<le> 1" and "hypot (ax + t * dx) (ay + t * dy) \<le> hypot (ax + s * dx) (ay + s * dy)"
proof -
  define P where "P = ax * dx + ay * dy"
  have L: "0 \<le> L" unfolding L_def by simp
  show "0 \<le> t" "t \<le> 1" unfolding t_def by auto
  have "(ax + s * dx)\<^sup>2 + (ay + s * dy)\<^sup>2 - ((ax + t * dx)\<^sup>2 + (ay + t * dy)\<^sup>2) = (s - t) * (2 * P + (s + t) * L)"
    unfolding P_def L_def by (simp add: power2_eq_square algebra_simps)
  moreover have "0 \<le> (s - t) * (2 * P + (s + t) * L)"
  proof (cases "L = 0")
    case True
    then have "dx = 0" "dy = 0" unfolding L_def by (auto simp: add_nonneg_eq_0_iff)
    then show ?thesis using True by (simp add: P_def)
  next
    case False
    then have pos: "0 < L" using L by simp
    have t: "t = max 0 (min 1 (- P / L))" using False by (simp add: t_def P_def)
    consider "- P / L \<le> 0" | "1 \<le> - P / L" | "0 \<le> - P / L" "- P / L \<le> 1" by linarith
    then show ?thesis
    proof cases
      case 1
      then have "t = 0" "0 \<le> P" using t pos by (auto simp: field_simps)
      then show ?thesis using assms(3) L by simp
    next
      case 2
      then have "t = 1" "P \<le> - L" using t pos by (auto simp: field_simps)
      moreover have "(s + 1) * L \<le> 2 * L" using assms(4) L by (intro mult_right_mono) auto
      ultimately show ?thesis using assms(4) by (intro mult_nonpos_nonpos) auto
    next
      case 3
      then have "t * L = - P" using t pos by simp
      then have "2 * P + (s + t) * L = (s - t) * L" by (simp add: algebra_simps)
      then show ?thesis using L by (simp add: mult.assoc [symmetric])
    qed
  qed
  ultimately show "hypot (ax + t * dx) (ay + t * dy) \<le> hypot (ax + s * dx) (ay + s * dy)"
    unfolding hypot_def by (intro real_sqrt_le_mono) linarith
qed

text \<open>The point at \<open>s\<close> of edge \<open>i\<close>, in metres east and north of the query point.\<close>

definition boundary_xy :: "real \<Rightarrow> real \<Rightarrow> ring \<Rightarrow> nat \<Rightarrow> real \<Rightarrow> real \<times> real" where
  "boundary_xy lat lon polygon i s =
    (let (ax, ay) = to_xy lat lon (polygon ! i);
         (bx, by') = to_xy lat lon (polygon ! ((i + 1) mod length polygon))
     in (ax + s * (bx - ax), ay + s * (by' - ay)))"

abbreviation metres :: "real \<times> real \<Rightarrow> real" where
  "metres p \<equiv> hypot (fst p) (snd p)"

lemma edge_distance_nearest:
  fixes polygon :: ring and lat lon :: real
  defines "e i \<equiv> edge_distance (m_per_deg_lon_at lat) lat lon (polygon ! i) (polygon ! ((i + 1) mod length polygon))"
  shows "0 \<le> s \<Longrightarrow> s \<le> 1 \<Longrightarrow> e i \<le> metres (boundary_xy lat lon polygon i s)"
    and "\<exists>t. 0 \<le> t \<and> t \<le> 1 \<and> e i = metres (boundary_xy lat lon polygon i t)"
proof -
  obtain vlon vlat nlon nlat where v: "polygon ! i = (vlon, vlat)" "polygon ! ((i + 1) mod length polygon) = (nlon, nlat)"
    by (metis surj_pair)
  note eqs = e_def edge_distance_def boundary_xy_def to_xy_def m_per_deg_lon_at_def v Let_def split fst_conv snd_conv
  show "0 \<le> s \<Longrightarrow> s \<le> 1 \<Longrightarrow> e i \<le> metres (boundary_xy lat lon polygon i s)"
    unfolding eqs by (rule clamp_nearest(3))
  show "\<exists>t. 0 \<le> t \<and> t \<le> 1 \<and> e i = metres (boundary_xy lat lon polygon i t)"
    unfolding eqs by (intro exI conjI, rule clamp_nearest(1), rule order.refl, simp, rule clamp_nearest(2),
      rule order.refl, simp, rule refl)
qed

lemma fold_fmin_Some: "fold (\<lambda>i nearest. fmin nearest (e i)) is (Some d) = Some (fold (\<lambda>i m. min m (e i)) is d)"
  by (induction "is" arbitrary: d) simp_all

lemma fold_min_least:
  fixes e :: "'a \<Rightarrow> real"
  shows "fold (\<lambda>i m. min m (e i)) is d \<in> insert d (e ` set is)" and "fold (\<lambda>i m. min m (e i)) is d \<le> d"
    and "i \<in> set is \<Longrightarrow> fold (\<lambda>i m. min m (e i)) is d \<le> e i"
proof -
  show le: "fold (\<lambda>i m. min m (e i)) is d \<le> d" for "is" d
    by (induction "is" arbitrary: d) (simp_all, meson min.cobounded1 order.trans)
  show "fold (\<lambda>i m. min m (e i)) is d \<in> insert d (e ` set is)"
    by (induction "is" arbitrary: d) (force simp: min_def)+
  show "i \<in> set is \<Longrightarrow> fold (\<lambda>i m. min m (e i)) is d \<le> e i"
    by (induction "is" arbitrary: d) (auto intro: order.trans [OF le])
qed

lemma fold_fmin:
  assumes "is \<noteq> []"
  shows "\<exists>d. fold (\<lambda>i nearest. fmin nearest (e i)) is None = Some d \<and> d \<in> e ` set is \<and> (\<forall>i \<in> set is. d \<le> e i)"
proof -
  obtain j js where j: "is = j # js" using assms by (cases "is") auto
  then show ?thesis
    using fold_min_least(1,2) [of e js "e j"] fold_min_least(3) [of _ js e "e j"] by (auto simp: fold_fmin_Some)
qed

lemma distance_outside:
  assumes "3 \<le> length polygon" and "\<not> point_in_polygon lat lon polygon"
  shows "\<exists>d. distance_to_polygon_m lat lon polygon = Some d \<and>
    (\<forall>i < length polygon. \<forall>s. 0 \<le> s \<and> s \<le> 1 \<longrightarrow> d \<le> metres (boundary_xy lat lon polygon i s)) \<and>
    (\<exists>i < length polygon. \<exists>s. 0 \<le> s \<and> s \<le> 1 \<and> d = metres (boundary_xy lat lon polygon i s))"
proof -
  let ?e = "\<lambda>i. edge_distance (m_per_deg_lon_at lat) lat lon (polygon ! i) (polygon ! ((i + 1) mod length polygon))"
  have "[0..<length polygon] \<noteq> []" using assms(1) by auto
  from fold_fmin [OF this, of ?e] obtain d where d: "distance_to_polygon_m lat lon polygon = Some d"
    "d \<in> ?e ` {0..<length polygon}" "\<forall>i \<in> {0..<length polygon}. d \<le> ?e i"
    using assms by (auto simp: distance_to_polygon_m_def)
  have "d \<le> metres (boundary_xy lat lon polygon i s)" if "i < length polygon" "0 \<le> s" "s \<le> 1" for i s
    using d(3) that(1) edge_distance_nearest(1) [OF that(2,3), of lat lon polygon i]
    by (meson atLeastLessThan_iff le0 order.trans)
  moreover obtain i where "i < length polygon" "d = ?e i" using d(2) by auto
  ultimately show ?thesis using d(1) edge_distance_nearest(2) [of lat lon polygon i] by metis
qed

lemma distance_nonneg: "distance_to_polygon_m lat lon polygon = Some d \<Longrightarrow> 0 \<le> d"
proof -
  assume d: "distance_to_polygon_m lat lon polygon = Some d"
  then have "3 \<le> length polygon" by (simp add: distance_to_polygon_m_def split: if_splits)
  then show ?thesis
    using d distance_outside [of polygon lat lon]
    by (cases "point_in_polygon lat lon polygon") (auto simp: distance_to_polygon_m_def hypot_def)
qed

subsection \<open>Great-circle distance and bearing\<close>

definition haversine_a :: "real \<Rightarrow> real \<Rightarrow> real \<Rightarrow> real" where
  "haversine_a r1 r2 d = (sin ((r2 - r1) / 2))\<^sup>2 + cos r1 * cos r2 * (sin (d / 2))\<^sup>2"

lemma sin_half_sq: "(sin (x / 2))\<^sup>2 = (1 - cos x) / (2 :: real)"
  using cos_double_sin [of "x / 2"] by simp

lemma haversine_a_eq: "haversine_a r1 r2 d = (1 - (sin r1 * sin r2 + cos r1 * cos r2 * cos d)) / 2"
  unfolding haversine_a_def sin_half_sq cos_diff by (simp add: field_simps)

text \<open>The radicand is never negative, whatever the angles.\<close>

lemma haversine_a_nonneg: "0 \<le> haversine_a r1 r2 d"
proof -
  have sum: "\<bar>x * y\<bar> \<le> (x\<^sup>2 + y\<^sup>2) / 2" for x y :: real
  proof -
    have "0 \<le> (\<bar>x\<bar> - \<bar>y\<bar>)\<^sup>2" by simp
    then show ?thesis by (simp add: power2_diff abs_mult)
  qed
  have "cos r1 * cos r2 * cos d \<le> \<bar>cos r1 * cos r2\<bar>"
    by (metis abs_cos_le_one abs_ge_self abs_ge_zero abs_mult mult_left_le order.trans)
  moreover have "sin r1 * sin r2 \<le> \<bar>sin r1 * sin r2\<bar>" by simp
  moreover have "((sin r1)\<^sup>2 + (sin r2)\<^sup>2) / 2 + ((cos r1)\<^sup>2 + (cos r2)\<^sup>2) / 2 = 1"
    using sin_cos_squared_add [of r1] sin_cos_squared_add [of r2] by argo
  ultimately have "sin r1 * sin r2 + cos r1 * cos r2 * cos d \<le> 1"
    using sum [of "sin r1" "sin r2"] sum [of "cos r1" "cos r2"] by linarith
  then show ?thesis by (simp add: haversine_a_eq)
qed

lemma haversine_fold:
  "haversine_distance_m lat1 lon1 lat2 lon2 =
    2 * EARTH_RADIUS_M * arcsin (min 1 (sqrt (haversine_a (radians lat1) (radians lat2) (radians (lon2 - lon1)))))"
  by (simp add: haversine_distance_m_def haversine_a_def Let_def)

lemma haversine_bounds: "0 \<le> haversine_distance_m lat1 lon1 lat2 lon2"
  "haversine_distance_m lat1 lon1 lat2 lon2 \<le> pi * EARTH_RADIUS_M"
proof -
  define r where "r = min 1 (sqrt (haversine_a (radians lat1) (radians lat2) (radians (lon2 - lon1))))"
  have r: "0 \<le> r" "r \<le> 1" unfolding r_def using haversine_a_nonneg by simp_all
  then have "0 \<le> arcsin r" "arcsin r \<le> pi / 2"
    using arcsin_le_arcsin [of 0 r] arcsin_bounded [of r] by simp_all
  then show "0 \<le> haversine_distance_m lat1 lon1 lat2 lon2"
    "haversine_distance_m lat1 lon1 lat2 lon2 \<le> pi * EARTH_RADIUS_M"
    unfolding haversine_fold EARTH_RADIUS_M_def r_def [symmetric] by simp_all
qed

lemma haversine_sym: "haversine_distance_m lat1 lon1 lat2 lon2 = haversine_distance_m lat2 lon2 lat1 lon1"
proof -
  have "radians (lon1 - lon2) = - radians (lon2 - lon1)" by (simp add: radians_def left_diff_distrib diff_divide_distrib)
  then show ?thesis unfolding haversine_fold haversine_a_eq by (simp add: mult_ac)
qed

lemma haversine_same: "haversine_distance_m lat lon lat lon = 0"
  by (simp add: haversine_distance_m_def radians_def)

lemma fmod_bounds: "0 < m \<Longrightarrow> 0 \<le> fmod x m \<and> fmod x m < m"
proof -
  assume m: "0 < m"
  have "m * of_int \<lfloor>x / m\<rfloor> \<le> m * (x / m)" "m * (x / m) < m * (of_int \<lfloor>x / m\<rfloor> + 1)"
    using m floor_correct [of "x / m"] by (simp_all only: mult_le_cancel_left_pos mult_less_cancel_left_pos of_int_add of_int_1)
  then show ?thesis using m by (simp add: fmod_def distrib_left)
qed

lemma bearing_bounds: "0 \<le> compute_bearing_deg lat1 lon1 lat2 lon2" "compute_bearing_deg lat1 lon1 lat2 lon2 < 360"
  using fmod_bounds [of 360] by (simp_all add: compute_bearing_deg_def Let_def)

subsection \<open>Well-formed WKT\<close>

text \<open>A coordinate in decimal notation: sign, whole part, number of decimals, decimals.\<close>

type_synonym dec = "bool \<times> nat \<times> nat \<times> nat"

definition dec_str :: "dec \<Rightarrow> string" where
  "dec_str = (\<lambda>(neg, n, w, f). (if neg then ''-'' else '''') @ nat_str n @ ''.'' @ pad0 w f)"

definition dec_val :: "dec \<Rightarrow> real" where
  "dec_val = (\<lambda>(neg, n, w, f). signed neg (real n + real f / 10 ^ w))"

definition dec_ok :: "dec \<Rightarrow> bool" where
  "dec_ok = (\<lambda>(neg, n, w, f). length (nat_str f) \<le> w)"

definition wkt_of :: "(dec \<times> dec) list \<Rightarrow> string" where
  "wkt_of ps = ''POLYGON(('' @ join '','' (map (\<lambda>(x, y). dec_str x @ '' '' @ dec_str y) ps) @ ''))''"

lemma is_digit_zero: "is_digit (CHR ''0'')"
  by (simp add: is_digit_def)

lemma pad0_digits: "list_all is_digit (pad0 w n)"
  using nat_str_digits [of n] is_digit_zero by (auto simp: pad0_def list_all_iff)

lemma length_pad0_wide: "length (nat_str n) \<le> w \<Longrightarrow> length (pad0 w n) = w"
  by (simp add: pad0_def)

lemma digit_not_special: "is_digit c \<Longrightarrow> \<not> is_space c \<and> c \<noteq> CHR '','' \<and> c \<noteq> CHR ''-'' \<and> c \<noteq> CHR ''+''"
  by (auto simp: is_digit_def is_space_def)

lemma dec_str_plain: "c \<in> set (dec_str d) \<Longrightarrow> \<not> is_space c \<and> c \<noteq> CHR '',''"
proof (cases d)
  case (fields neg n w f)
  assume "c \<in> set (dec_str d)"
  then have "c = CHR ''-'' \<or> c = CHR ''.'' \<or> is_digit c"
    using nat_str_digits [of n] pad0_digits [of w f] fields by (auto simp: dec_str_def list_all_iff split: if_splits)
  then show ?thesis using digit_not_special by (auto simp: is_space_def)
qed

lemma dec_str_nonempty: "dec_str d \<noteq> []"
  by (cases d) (simp add: dec_str_def)

lemma take_sign_digits: "list_all is_digit ds \<Longrightarrow> ds \<noteq> [] \<Longrightarrow> take_sign (ds @ r) = (False, ds @ r)"
  by (cases ds) (auto dest: digit_not_special)

lemma py_float_dec: "dec_ok d \<Longrightarrow> py_float (dec_str d) = Some (dec_val d)"
proof (cases d)
  case (fields neg n w f)
  assume ok: "dec_ok d"
  have st: "strip (dec_str d) = dec_str d"
    using dec_str_plain [of _ d] dec_str_nonempty [of d] by (intro strip_id) auto
  have sign: "take_sign (dec_str d) = (neg, nat_str n @ ''.'' @ pad0 w f)"
    using take_sign_digits [OF nat_str_digits nat_str_nonempty] fields by (simp add: dec_str_def)
  have whole: "digit_part False (nat_str n @ ''.'' @ pad0 w f) = (nat_str n, CHR ''.'' # pad0 w f)"
    using digit_part_stop [OF nat_str_digits, of "CHR ''.''" False n "pad0 w f"] by (simp add: is_digit_def)
  have frac: "digit_part False (pad0 w f) = (pad0 w f, [])" by (rule digit_part_all [OF pad0_digits])
  have "length (pad0 w f) = w" using ok fields by (simp add: dec_ok_def length_pad0_wide)
  then have val: "real (str_val (nat_str n @ pad0 w f)) / 10 ^ length (pad0 w f) = real n + real f / 10 ^ w"
    by (simp add: str_val_append_digits str_val_nat_str str_val_pad0 add_divide_distrib)
  show ?thesis
    unfolding py_float_def st sign Let_def prod.case whole list.case if_True frac val
    by (simp add: nat_str_nonempty dec_val_def fields frac val)
qed

lemma words_two:
  assumes "\<And>c. c \<in> set a \<union> set b \<Longrightarrow> \<not> is_space c" and "a \<noteq> []" and "b \<noteq> []"
  shows "words (a @ '' '' @ b) = [a, b]"
proof -
  let ?f = "\<lambda>c ws. if is_space c then [] # ws else case ws of w # ws \<Rightarrow> (c # w) # ws | [] \<Rightarrow> [[c]]"
  have word: "foldr ?f w (v # vs) = (w @ v) # vs" if "\<And>c. c \<in> set w \<Longrightarrow> \<not> is_space c" for w v vs
    using that by (induction w) auto
  have sp: "is_space (CHR '' '')" by (simp add: is_space_def)
  show ?thesis using assms sp by (simp add: words_def word)
qed

lemma ring_point_dec:
  "dec_ok x \<Longrightarrow> dec_ok y \<Longrightarrow> ring_point (dec_str x @ '' '' @ dec_str y) = [(dec_val x, dec_val y)]"
  unfolding ring_point_def
  by (subst words_two) (auto simp: py_float_dec dec_str_nonempty dest: dec_str_plain)

lemma ring_point_empty: "ring_point [] = []"
  by (simp add: ring_point_def words_def)

lemma wkt_body:
  fixes body :: string
  defines "text \<equiv> ''POLYGON(('' @ body @ ''))''"
  shows "strip text = text" and "starts_with ''POLYGON'' (upper text)" and "find_sub ''(('' text = Some 7"
    and "rfind_sub ''))'' text = Some (9 + length body)" and "slice 9 (9 + length body) text = body"
proof -
  show "strip text = text" unfolding text_def by (rule strip_id) (simp_all add: is_space_def)
  show "starts_with ''POLYGON'' (upper text)"
    unfolding text_def by (simp add: starts_with_def to_upper_def is_lower_def)
  show "find_sub ''(('' text = Some 7" unfolding text_def by (simp add: starts_with_def)
  show "rfind_sub ''))'' text = Some (9 + length body)"
    using rfind_sub_at_end [of "''))''" "''POLYGON(('' @ body"] unfolding text_def by simp
  show "slice 9 (9 + length body) text = body" unfolding text_def slice_def by simp
qed

lemma parse_wkt_body:
  "parse_wkt_polygon (Some (''POLYGON(('' @ body @ ''))'')) = concat (map ring_point (split_on (CHR '','') body))"
proof -
  define wkt where "wkt = ''POLYGON(('' @ body @ ''))''"
  note b = wkt_body [of body, folded wkt_def]
  have "(7 :: nat) + 2 = 9" by simp
  then have "slice (7 + 2) (9 + length body) wkt = body" using b(5) by (simp only:)
  then show ?thesis
    unfolding wkt_def [symmetric] parse_wkt_polygon_def Let_def option.case b(1) using b(2,3,4) by simp
qed

section \<open>Properties\<close>

lemma wkt_of_parses:
  assumes "\<forall>(x, y) \<in> set ps. dec_ok x \<and> dec_ok y"
  shows "parse_wkt_polygon (Some (wkt_of ps)) = map (\<lambda>(x, y). (dec_val x, dec_val y)) ps"
proof (cases ps)
  case Nil
  then show ?thesis unfolding wkt_of_def parse_wkt_body by (simp add: ring_point_empty)
next
  case (Cons p qs)
  let ?w = "map (\<lambda>(x, y). dec_str x @ '' '' @ dec_str y) ps"
  have "\<forall>w \<in> set ?w. CHR '','' \<notin> set w" using dec_str_plain by fastforce
  then have "split_on (CHR '','') (join '','' ?w) = ?w" using Cons by (intro split_on_join) simp_all
  moreover have "concat (map ring_point ?w) = map (\<lambda>(x, y). (dec_val x, dec_val y)) ps"
    using assms by (induction ps) (auto simp: ring_point_dec [simplified])
  ultimately show ?thesis unfolding wkt_of_def parse_wkt_body by simp
qed


definition airport_dec :: "(dec \<times> dec) list" where
  "airport_dec = [((False, 11, 2, 5), (False, 60, 2, 18)), ((False, 11, 2, 15), (False, 60, 2, 18)),
     ((False, 11, 2, 15), (False, 60, 2, 22)), ((True, 11, 1, 0), (False, 60, 2, 22))]"


text \<open>
  Property. A point inside a zone lies within the zone's bounding box: some vertex is north of it and some
  is not, some vertex is east of it and some is not. The last two need the parity of the ray
  casting: a closed ring crosses a latitude an even number of times.
\<close>

theorem inside_is_in_the_bounding_box:
  assumes "point_in_polygon lat lon polygon"
  shows "Min (snd ` set polygon) \<le> lat \<and> lat < Max (snd ` set polygon) \<and>
    Min (fst ` set polygon) \<le> lon \<and> lon < Max (fst ` set polygon)"
proof -
  have ne: "snd ` set polygon \<noteq> {}" "fst ` set polygon \<noteq> {}"
    using in_polygon_bounds(1) [OF assms] by auto
  have fin: "finite (snd ` set polygon)" "finite (fst ` set polygon)" by simp_all
  show ?thesis
    unfolding Min_le_iff [OF fin(1) ne(1)] Max_gr_iff [OF fin(1) ne(1)] Min_le_iff [OF fin(2) ne(2)]
      Max_gr_iff [OF fin(2) ne(2)]
    using in_polygon_bounds [OF assms] by force
qed

definition unit_square :: ring where
  "unit_square = [(0, 0), (1, 0), (1, 1), (0, 1), (0, 0)]"

theorem inside_is_in_the_bounding_box_witness:
  "Min (snd ` set unit_square) \<le> 1 / 2 \<and> 1 / 2 < Max (snd ` set unit_square) \<and>
   Min (fst ` set unit_square) \<le> 1 / 2 \<and> 1 / 2 < Max (fst ` set unit_square)"
  by (rule inside_is_in_the_bounding_box) (simp add: point_in_polygon_def unit_square_def)

text \<open>
  Property. The distance to a zone is the least distance to its boundary: outside a ring of at least
  three vertices it is at most the distance to every point of every edge, and it is the distance
  to one of them; inside it is zero; for fewer vertices it is infinite.
\<close>

theorem distance_is_least_to_boundary:
  "(length polygon < 3 \<longrightarrow> distance_to_polygon_m lat lon polygon = None) \<and>
   (point_in_polygon lat lon polygon \<longrightarrow> distance_to_polygon_m lat lon polygon = Some 0) \<and>
   (3 \<le> length polygon \<and> \<not> point_in_polygon lat lon polygon \<longrightarrow>
     (\<exists>d. distance_to_polygon_m lat lon polygon = Some d \<and>
       (\<forall>i < length polygon. \<forall>s. 0 \<le> s \<and> s \<le> 1 \<longrightarrow> d \<le> metres (boundary_xy lat lon polygon i s)) \<and>
       (\<exists>i < length polygon. \<exists>s. 0 \<le> s \<and> s \<le> 1 \<and> d = metres (boundary_xy lat lon polygon i s))))"
  using distance_outside [of polygon lat lon]
  by (auto simp: distance_to_polygon_m_def point_in_polygon_def split: if_splits)

theorem distance_is_least_to_boundary_witness:
  "\<exists>d. distance_to_polygon_m 2 (1 / 2) unit_square = Some d \<and>
     (\<exists>i < 5. \<exists>s. 0 \<le> s \<and> s \<le> 1 \<and> d = metres (boundary_xy 2 (1 / 2) unit_square i s))"
proof -
  have "3 \<le> length unit_square" "\<not> point_in_polygon 2 (1 / 2) unit_square" "length unit_square = 5"
    by (simp_all add: unit_square_def point_in_polygon_def)
  then show ?thesis using distance_is_least_to_boundary [of unit_square 2 "1 / 2"] by auto
qed

lemma geometry_copies_equal:
  "parse_wkt_polygon (Some wkt) = api_parse_wkt_polygon wkt \<and>
   point_in_polygon lat lon polygon = api_point_in_polygon lat lon polygon \<and>
   distance_to_polygon_m lat lon polygon = api_distance_to_polygon_m lat lon polygon \<and>
   haversine_distance_m lat lon lat2 lon2 = api_haversine_distance_m lat lon lat2 lon2 \<and>
   compute_bearing_deg lat lon lat2 lon2 = api_compute_bearing_deg lat lon lat2 lon2"
proof -
  have ray: "cast_ray lat lon p ring inside = api_cast_ray lat lon p ring inside" for p ring inside
    by (induction lat lon p ring inside rule: cast_ray.induct) (simp_all add: Let_def)
  have pip: "point_in_polygon lat lon polygon = api_point_in_polygon lat lon polygon"
    by (simp add: point_in_polygon_def api_point_in_polygon_def ray)
  have edge: "edge_distance (m_per_deg_lon_at lat) lat lon v n = api_edge_distance (to_xy lat lon v) (to_xy lat lon n)" for v n
    by (cases v; cases n) (simp add: edge_distance_def api_edge_distance_def to_xy_def m_per_deg_lon_at_def Let_def)
  show ?thesis
    unfolding pip edge distance_to_polygon_m_def api_distance_to_polygon_m_def parse_wkt_polygon_def
      api_parse_wkt_polygon_def haversine_distance_m_def api_haversine_distance_m_def
      compute_bearing_deg_def api_compute_bearing_deg_def
    by simp
qed

text \<open>
  Property. The two copies of the geometry agree on every input, so the alerts the sink writes and the
  simulation the dashboard runs decide alike.
\<close>

theorem geometry_copies_agree:
  "parse_wkt_polygon (Some wkt) = api_parse_wkt_polygon wkt \<and>
   point_in_polygon lat lon polygon = api_point_in_polygon lat lon polygon \<and>
   distance_to_polygon_m lat lon polygon = api_distance_to_polygon_m lat lon polygon \<and>
   haversine_distance_m lat lon lat2 lon2 = api_haversine_distance_m lat lon lat2 lon2 \<and>
   compute_bearing_deg lat lon lat2 lon2 = api_compute_bearing_deg lat lon lat2 lon2"
  by (rule geometry_copies_equal)

text \<open>
  Property. Great-circle distances are between zero and half the circumference, the same in both
  directions and zero from a point to itself; bearings are in \<open>[0, 360)\<close>. Nothing is assumed of the
  coordinates: the radicand of the haversine formula is never negative.
\<close>

theorem great_circle_in_range:
  "0 \<le> haversine_distance_m lat1 lon1 lat2 lon2 \<and>
   haversine_distance_m lat1 lon1 lat2 lon2 \<le> pi * EARTH_RADIUS_M \<and>
   haversine_distance_m lat1 lon1 lat2 lon2 = haversine_distance_m lat2 lon2 lat1 lon1 \<and>
   haversine_distance_m lat1 lon1 lat1 lon1 = 0 \<and>
   0 \<le> compute_bearing_deg lat1 lon1 lat2 lon2 \<and> compute_bearing_deg lat1 lon1 lat2 lon2 < 360"
  by (intro conjI haversine_bounds haversine_sym haversine_same bearing_bounds)

end
