(* ===== verification/Fleet.thy ===== *)
theory Fleet
  imports Cql Buckets Geometry
begin

text \<open>
  The read side of the dashboard: the Cassandra client (\<open>src/backend/app/db/cassandra_client.py\<close>) with
  its throttled connection and its fleet, alert and ingestion queries, and the routes that answer
  from them (\<open>map.py\<close>, \<open>zones.py\<close>, \<open>alerts.py\<close>, \<open>overview.py\<close> and \<open>settings.py\<close> of
  \<open>src/backend/app/routes\<close>), with their response classes of \<open>models.py\<close>.

  The client's attributes are a record around the node's world; a dial is one attempt to build a
  session and may fail. Statements are functions of the tables, with \<open>LIMIT\<close> and the clustering
  order written out. The health score is a parameter. Numbers of the tables are reals.
\<close>

section \<open>The client\<close>

definition FLEET_SCAN_LIMIT :: int where
  "FLEET_SCAN_LIMIT = 5000"

definition TRAIL_SCAN_ROWS :: nat where
  "TRAIL_SCAN_ROWS = 2000"

definition LATEST_STATUS_COLUMNS :: "string list" where
  "LATEST_STATUS_COLUMNS = [''entity_id'', ''event_time'', ''latitude'', ''longitude'', ''altitude_m'', ''speed_mps'',
     ''heading_deg'', ''is_flying'', ''temp_internal_c'', ''temp_external_c'', ''event_type'', ''observer_id'',
     ''telemetry_age_s'', ''near_restricted_zone'', ''predicted_zone_breach'', ''risk_score'']"

definition RECONNECT_INTERVAL_S :: real where
  "RECONNECT_INTERVAL_S = 10"

definition RATE_MIN_INTERVAL_S :: real where
  "RATE_MIN_INTERVAL_S = 2"

text \<open>Every dial of \<open>dials\<close> is an exception or a session; when the list ends, dials succeed.\<close>

record cassandra_client =
  is_connected :: bool
  has_session :: bool
  last_attempt :: real
  rate_sample :: "(real \<times> int) option"
  last_rate :: real
  fnode :: world
  dials :: "exn option list"
  mono_clock :: "nat \<Rightarrow> real"
  mono_reads :: nat

type_synonym 'a fleet = "(cassandra_client, 'a) pm"

definition node :: "(world, 'a) pm \<Rightarrow> 'a fleet" where
  "node m = (\<lambda>s. case m (fnode s) of (r, w) \<Rightarrow> (r, s\<lparr>fnode := w\<rparr>))"

definition monotonic :: "real fleet" where
  "monotonic = (\<lambda>s. (Inr (mono_clock s (mono_reads s)), s\<lparr>mono_reads := Suc (mono_reads s)\<rparr>))"

definition dial :: "unit fleet" where
  "dial = (\<lambda>s. case dials s of
      [] \<Rightarrow> (Inr (), s)
    | None # ds \<Rightarrow> (Inr (), s\<lparr>dials := ds\<rparr>)
    | Some e # ds \<Rightarrow> (Inl e, s\<lparr>dials := ds\<rparr>))"

definition connect :: "bool \<Rightarrow> unit fleet" where
  "connect force =
    bind (gets is_connected) (\<lambda>up.
    if up \<and> \<not> force then ret ()
    else bind monotonic (\<lambda>now_s.
      bind (gets last_attempt) (\<lambda>last.
      if \<not> force \<and> now_s - last < RECONNECT_INTERVAL_S then ret ()
      else bind (modify (\<lambda>s. s\<lparr>last_attempt := now_s\<rparr>)) (\<lambda>_.
        try_except (bind dial (\<lambda>_. modify (\<lambda>s. s\<lparr>has_session := True, is_connected := True\<rparr>)))
          (\<lambda>e. bind (modify (\<lambda>s. s\<lparr>is_connected := False, has_session := False\<rparr>)) (\<lambda>_.
            if force then raise e else ret ()))))))"

definition session :: "unit fleet" where
  "session =
    bind (bind (gets is_connected) (\<lambda>up. if up then ret () else connect False)) (\<lambda>_.
    bind (gets has_session) (\<lambda>s. if s then ret () else raise (Exn ''Cassandra not connected'')))"

text \<open>A row as the client returns it: timestamps as ISO-8601 text.\<close>

fun wire :: "cval \<Rightarrow> cval" where
  "wire (CTime t) = CText (isoformat (utc_fields t))"
| "wire v = v"

definition wire_row :: "row \<Rightarrow> row" where
  "wire_row r = map (\<lambda>(c, v). (c, wire v)) r"

definition fetch :: "(db \<Rightarrow> row list) \<Rightarrow> row list fleet" where
  "fetch f = bind session (\<lambda>_. bind (node (execute_query f)) (\<lambda>rs. ret (map wire_row rs)))"

text \<open>The columns a \<open>SELECT\<close> names, and the rows of a partition in their clustering order, each
  column of it ascending or descending.\<close>

definition project :: "string list \<Rightarrow> row \<Rightarrow> row" where
  "project cs r = map (\<lambda>c. (c, row_get r c)) cs"

definition clustered :: "(string \<times> bool) list \<Rightarrow> row list \<Rightarrow> row list" where
  "clustered ck rs =
    foldr (\<lambda>(c, desc) rs. if desc then rev (sort_key (\<lambda>r. row_get r c) (rev rs)) else sort_key (\<lambda>r. row_get r c) rs) ck rs"

definition partition_of :: "table_def \<Rightarrow> string \<Rightarrow> cval \<Rightarrow> db \<Rightarrow> row list" where
  "partition_of t c v d = clustered (clustering_key t) (filter (\<lambda>r. row_get r c = v) (select_all (tname t) d))"

section \<open>Values of a row\<close>

fun number :: "cval \<Rightarrow> real option" where
  "number (CDouble x) = Some x"
| "number (CInt i) = Some (of_int i)"
| "number _ = None"

text \<open>\<open>float(r.get(c) or 0.0)\<close>, \<open>float(r[c])\<close> and \<open>bool(r.get(c))\<close>.\<close>

definition float_or_0 :: "row \<Rightarrow> string \<Rightarrow> real" where
  "float_or_0 r c = (case number (row_get r c) of None \<Rightarrow> 0 | Some x \<Rightarrow> x)"

definition float_of :: "row \<Rightarrow> string \<Rightarrow> real fleet" where
  "float_of r c = (case number (row_get r c) of
     None \<Rightarrow> raise (Exn ''float() argument must be a string or a real number'') | Some x \<Rightarrow> ret x)"

fun truth :: "cval \<Rightarrow> bool" where
  "truth CNull = False"
| "truth (CBool b) = b"
| "truth (CText s) = (s \<noteq> [])"
| "truth (CInt i) = (i \<noteq> 0)"
| "truth (CDouble x) = (x \<noteq> 0)"
| "truth _ = True"

definition str_of :: "row \<Rightarrow> string \<Rightarrow> string" where
  "str_of r c = cval_str (row_get r c)"

definition str_or_empty :: "row \<Rightarrow> string \<Rightarrow> string" where
  "str_or_empty r c = (if truth (row_get r c) then cval_str (row_get r c) else '''')"

fun count_or_0 :: "cval \<Rightarrow> int" where
  "count_or_0 (CInt i) = i"
| "count_or_0 _ = 0"

section \<open>Overview\<close>

record overview_kpis =
  total_drones :: int
  active_flying_drones :: int
  grounded_drones :: int
  max_speed_mps :: real
  min_speed_mps :: real
  avg_speed_mps :: real
  max_altitude_m :: real
  min_altitude_m :: real
  avg_altitude_m :: real
  near_zone_count :: int
  predicted_breach_count :: int
  total_events :: int
  ingestion_rate_per_sec :: real

record stats3 =
  s_max :: real
  s_min :: real
  s_avg :: real

definition stats :: "real list \<Rightarrow> stats3" where
  "stats vs =
    (if vs = [] then \<lparr>s_max = 0, s_min = 0, s_avg = 0\<rparr>
     else \<lparr>s_max = py_round 1 (Max (set vs)), s_min = py_round 1 (Min (set vs)),
       s_avg = py_round 1 (sum_list vs / real (length vs))\<rparr>)"

definition observe_ingestion_rate :: "int \<Rightarrow> real fleet" where
  "observe_ingestion_rate events =
    bind monotonic (\<lambda>now_s.
    bind (gets rate_sample) (\<lambda>previous.
    bind (modify (\<lambda>s. s\<lparr>rate_sample := Some (now_s, events)\<rparr>)) (\<lambda>_.
    case previous of None \<Rightarrow> ret 0
    | Some (then_s, before) \<Rightarrow>
        if now_s - then_s < RATE_MIN_INTERVAL_S
        then bind (modify (\<lambda>s. s\<lparr>rate_sample := previous\<rparr>)) (\<lambda>_. gets last_rate)
        else bind (modify (\<lambda>s. s\<lparr>last_rate :=
               if events - before < 0 then 0 else py_round 1 (of_int (events - before) / (now_s - then_s))\<rparr>)) (\<lambda>_.
             gets last_rate))))"

definition get_total_events :: "int fleet" where
  "get_total_events =
    try_except (bind (fetch (\<lambda>d. map (project [''record_count'']) (select_all ''ingestion_counts'' d))) (\<lambda>rs.
      ret (sum_list (map (\<lambda>r. count_or_0 (row_get r ''record_count'')) rs)))) (\<lambda>_. ret 0)"

definition get_drone_count :: "int fleet" where
  "get_drone_count =
    bind (fetch (\<lambda>d. [[(''cnt'', CInt (int (length (select_all ''drone_latest_status'' d))))]])) (\<lambda>rs.
      ret (case rs of [] \<Rightarrow> 0 | r # _ \<Rightarrow> count_or_0 (row_get r ''cnt'')))"

definition kpis_of :: "row list \<Rightarrow> int \<Rightarrow> real \<Rightarrow> overview_kpis" where
  "kpis_of rs events rate =
    (let flying = filter (\<lambda>r. truth (row_get r ''is_flying'')) rs;
         speed = stats (List.map_filter (\<lambda>r. number (row_get r ''speed_mps'')) flying);
         altitude = stats (List.map_filter (\<lambda>r. number (row_get r ''altitude_m'')) flying)
     in \<lparr>total_drones = int (length rs), active_flying_drones = int (length flying),
         grounded_drones = int (length rs) - int (length flying),
         max_speed_mps = s_max speed, min_speed_mps = s_min speed, avg_speed_mps = s_avg speed,
         max_altitude_m = s_max altitude, min_altitude_m = s_min altitude, avg_altitude_m = s_avg altitude,
         near_zone_count = int (length (filter (\<lambda>r. truth (row_get r ''near_restricted_zone'')) rs)),
         predicted_breach_count = int (length (filter (\<lambda>r. truth (row_get r ''predicted_zone_breach'')) rs)),
         total_events = events, ingestion_rate_per_sec = rate\<rparr>)"

definition get_overview_kpis :: "overview_kpis fleet" where
  "get_overview_kpis =
    bind (fetch (\<lambda>d. take (nat FLEET_SCAN_LIMIT) (map (project [''entity_id'', ''is_flying'', ''speed_mps'', ''altitude_m'',
        ''near_restricted_zone'', ''predicted_zone_breach'']) (select_all ''drone_latest_status'' d)))) (\<lambda>rs.
    bind get_total_events (\<lambda>events.
    bind (observe_ingestion_rate events) (\<lambda>rate. ret (kpis_of rs events rate))))"

section \<open>Fleet queries\<close>

definition get_drones :: "int \<Rightarrow> bool \<Rightarrow> row list fleet" where
  "get_drones limit flying_only =
    fetch (\<lambda>d. take (nat (max 1 (min limit FLEET_SCAN_LIMIT)))
      (map (project LATEST_STATUS_COLUMNS)
        (filter (\<lambda>r. flying_only \<longrightarrow> row_get r ''is_flying'' = CBool True) (select_all ''drone_latest_status'' d))))"

definition get_drone_detail :: "string \<Rightarrow> row option fleet" where
  "get_drone_detail entity_id =
    bind (fetch (\<lambda>d. map (project LATEST_STATUS_COLUMNS)
        (filter (\<lambda>r. row_get r ''entity_id'' = CText entity_id) (select_all ''drone_latest_status'' d)))) (\<lambda>rs.
      ret (case rs of [] \<Rightarrow> None | r # _ \<Rightarrow> Some r))"

text \<open>\<open>xs[::stride]\<close> for a stride of at least 1.\<close>

function every :: "nat \<Rightarrow> 'a list \<Rightarrow> 'a list" where
  "every stride [] = []"
| "every stride (x # xs) = x # every stride (drop (stride - 1) xs)"
  by pat_completeness auto
termination by (relation "measure (\<lambda>(_, xs). length xs)") auto

definition get_drone_trail :: "string \<Rightarrow> int \<Rightarrow> row list fleet" where
  "get_drone_trail entity_id points =
    (let points = nat (max 2 (min points 500)) in
     bind (fetch (\<lambda>d. take TRAIL_SCAN_ROWS
         (map (project [''event_time'', ''latitude'', ''longitude'', ''altitude_m'', ''speed_mps'', ''heading_deg''])
           (partition_of drone_events_by_entity_table ''entity_id'' (CText entity_id) d)))) (\<lambda>rs.
       ret (take points (every (max 1 (length rs div points)) rs))))"

definition get_zones :: "row list fleet" where
  "get_zones =
    bind (fetch (\<lambda>d. map (project [''zone_id'', ''zone_name'', ''polygon_wkt'', ''severity'', ''enabled''])
        (select_all ''restricted_zones'' d))) (\<lambda>rs. ret (filter (\<lambda>r. truth (row_get r ''enabled'')) rs))"

definition ALERT_COLUMNS :: "string list" where
  "ALERT_COLUMNS = [''alert_id'', ''alert_time'', ''entity_id'', ''alert_type'', ''severity'', ''zone_id'', ''latitude'',
     ''longitude'', ''altitude_m'', ''message'', ''risk_score'']"

definition HOUR_US :: int where
  "HOUR_US = 3600000000"

definition alerts_of :: "instant \<Rightarrow> db \<Rightarrow> row list" where
  "alerts_of t d = map (project ALERT_COLUMNS)
     (partition_of alerts_by_bucket_table ''bucket'' (CText (strftime_hour (utc_fields t))) d)"

fun alerts_loop :: "nat \<Rightarrow> int \<Rightarrow> instant \<Rightarrow> row list \<Rightarrow> row list fleet" where
  "alerts_loop 0 limit t acc = ret acc"
| "alerts_loop (Suc n) limit t acc =
    (let remaining = limit - int (length acc) in
     if remaining \<le> 0 then ret acc
     else bind (fetch (\<lambda>d. take (nat remaining) (alerts_of t d))) (\<lambda>rs.
       alerts_loop n limit (t - HOUR_US) (acc @ rs)))"

definition get_alerts :: "int \<Rightarrow> int \<Rightarrow> row list fleet" where
  "get_alerts limit hours =
    bind (node now) (\<lambda>t. bind (alerts_loop (nat (max 1 hours)) limit t []) (\<lambda>acc. ret (take (nat limit) acc)))"

section \<open>Ingestion volume\<close>

record ingestion_bucket =
  time :: string
  timestamp :: string
  bcount :: int

definition bucket_count :: "instant \<Rightarrow> int fleet" where
  "bucket_count t =
    try_except (bind (fetch (\<lambda>d. map (project [''record_count''])
        (filter (\<lambda>r. row_get r ''bucket'' = CText (bucket_key t)) (select_all ''ingestion_counts'' d)))) (\<lambda>rs.
      ret (case rs of [] \<Rightarrow> 0 | r # _ \<Rightarrow> count_or_0 (row_get r ''record_count'')))) (\<lambda>_. ret 0)"

definition HALF_HOUR_US :: int where
  "HALF_HOUR_US = 1800000000"

definition get_ingestion_history :: "int \<Rightarrow> ingestion_bucket list fleet" where
  "get_ingestion_history hours =
    bind (node now) (\<lambda>now_t.
      map_pm (\<lambda>i. let t = now_t - HALF_HOUR_US * int i; key = bucket_key t in
          bind (bucket_count t) (\<lambda>n. ret \<lparr>time = drop 11 key, timestamp = key, bcount = n\<rparr>))
        (rev [0..<nat (hours * 2)]))"

section \<open>Map routes\<close>

record drone_position =
  d_entity_id :: string
  d_event_time :: string
  d_latitude :: real
  d_longitude :: real
  d_altitude_m :: real
  d_speed_mps :: real
  d_heading_deg :: real
  d_is_flying :: bool
  d_temp_internal_c :: real
  d_temp_external_c :: real
  d_near_restricted_zone :: bool
  d_predicted_zone_breach :: bool
  d_risk_score :: real

record restricted_zone =
  z_zone_id :: string
  z_zone_name :: string
  z_polygon_wkt :: string
  z_severity :: string
  z_enabled :: bool

record map_live_response =
  live_drones :: "drone_position list"
  live_zones :: "restricted_zone list"
  live_timestamp :: string

record trail_point =
  t_event_time :: string
  t_latitude :: real
  t_longitude :: real
  t_altitude_m :: real
  t_speed_mps :: real

record drone_trail =
  trail_entity_id :: string
  trail_points :: "trail_point list"

record nearby_drone_result =
  n_entity_id :: string
  n_event_time :: string
  n_latitude :: real
  n_longitude :: real
  n_altitude_m :: real
  n_distance_m :: real

record polygon_stats_response =
  drone_count :: int
  ps_avg_speed_mps :: real
  ps_max_speed_mps :: real
  ps_avg_altitude_m :: real
  ps_max_altitude_m :: real
  ps_avg_temp_internal_c :: real

definition DEFAULT_MAP_LIMIT :: int where
  "DEFAULT_MAP_LIMIT = 2000"

definition NEARBY_MAX_METRES :: int where
  "NEARBY_MAX_METRES = 5000"

definition to_drone :: "row \<Rightarrow> drone_position" where
  "to_drone r = \<lparr>d_entity_id = str_of r ''entity_id'', d_event_time = str_or_empty r ''event_time'',
     d_latitude = float_or_0 r ''latitude'', d_longitude = float_or_0 r ''longitude'',
     d_altitude_m = float_or_0 r ''altitude_m'', d_speed_mps = float_or_0 r ''speed_mps'',
     d_heading_deg = float_or_0 r ''heading_deg'', d_is_flying = truth (row_get r ''is_flying''),
     d_temp_internal_c = float_or_0 r ''temp_internal_c'', d_temp_external_c = float_or_0 r ''temp_external_c'',
     d_near_restricted_zone = truth (row_get r ''near_restricted_zone''),
     d_predicted_zone_breach = truth (row_get r ''predicted_zone_breach''), d_risk_score = float_or_0 r ''risk_score''\<rparr>"

definition to_zone :: "row \<Rightarrow> restricted_zone" where
  "to_zone r = \<lparr>z_zone_id = str_of r ''zone_id'', z_zone_name = str_of r ''zone_name'',
     z_polygon_wkt = str_of r ''polygon_wkt'',
     z_severity = (if truth (row_get r ''severity'') then str_of r ''severity'' else ''warning''),
     z_enabled = truth (row_get r ''enabled'')\<rparr>"

definition now_str :: "string fleet" where
  "now_str = bind (node now) (\<lambda>t. ret (isoformat (utc_fields t) @ ''+00:00''))"

definition get_map_live :: "int \<Rightarrow> map_live_response fleet" where
  "get_map_live limit =
    bind (bind (gets is_connected) (\<lambda>up. if up then ret () else connect False)) (\<lambda>_.
    bind (gets is_connected) (\<lambda>up.
    let empty = bind now_str (\<lambda>t. ret \<lparr>live_drones = [], live_zones = [], live_timestamp = t\<rparr>) in
    if \<not> up then empty
    else try_except
      (bind (get_drones limit False) (\<lambda>ds. bind get_zones (\<lambda>zs. bind now_str (\<lambda>t.
        ret \<lparr>live_drones = map to_drone ds, live_zones = map to_zone zs, live_timestamp = t\<rparr>))))
      (\<lambda>_. empty)))"

definition no_polygon_stats :: polygon_stats_response where
  "no_polygon_stats = \<lparr>drone_count = 0, ps_avg_speed_mps = 0, ps_max_speed_mps = 0, ps_avg_altitude_m = 0,
     ps_max_altitude_m = 0, ps_avg_temp_internal_c = 0\<rparr>"

definition in_polygon :: "ring \<Rightarrow> row \<Rightarrow> bool" where
  "in_polygon polygon r =
    (case (number (row_get r ''latitude''), number (row_get r ''longitude'')) of
       (Some lat, Some lon) \<Rightarrow> api_point_in_polygon lat lon polygon | _ \<Rightarrow> False)"

definition mean :: "real list \<Rightarrow> real" where
  "mean vs = (if vs = [] then 0 else py_round 1 (sum_list vs / real (length vs)))"

definition greatest :: "real list \<Rightarrow> real" where
  "greatest vs = (if vs = [] then 0 else py_round 1 (Max (set vs)))"

definition column_values :: "string \<Rightarrow> row list \<Rightarrow> real list" where
  "column_values c rs = List.map_filter (\<lambda>r. number (row_get r c)) rs"

definition get_polygon_stats :: "string \<Rightarrow> polygon_stats_response fleet" where
  "get_polygon_stats polygon_wkt =
    bind (gets is_connected) (\<lambda>up.
    if \<not> up then ret no_polygon_stats
    else let polygon = api_parse_wkt_polygon polygon_wkt in
      if polygon = [] then raise (HTTPException 400 ''Could not parse polygon_wkt'')
      else bind (attempt (get_drones FLEET_SCAN_LIMIT False)) (\<lambda>ans. case ans of
        Inl _ \<Rightarrow> ret no_polygon_stats
      | Inr ds \<Rightarrow>
          (let inside = filter (in_polygon polygon) ds in
           ret \<lparr>drone_count = int (length inside), ps_avg_speed_mps = mean (column_values ''speed_mps'' inside),
             ps_max_speed_mps = greatest (column_values ''speed_mps'' inside),
             ps_avg_altitude_m = mean (column_values ''altitude_m'' inside),
             ps_max_altitude_m = greatest (column_values ''altitude_m'' inside),
             ps_avg_temp_internal_c = mean (column_values ''temp_internal_c'' inside)\<rparr>)))"

definition drone_detail_route :: "string \<Rightarrow> drone_position fleet" where
  "drone_detail_route entity_id =
    bind (gets is_connected) (\<lambda>up.
    if \<not> up then raise (HTTPException 503 ''Cassandra unavailable'')
    else bind (get_drone_detail entity_id) (\<lambda>r. case r of
        None \<Rightarrow> raise (HTTPException 404 (''No such asset: '' @ entity_id))
      | Some r \<Rightarrow> ret (to_drone r)))"

definition trail_point_of :: "row \<Rightarrow> trail_point option" where
  "trail_point_of r =
    (case (number (row_get r ''latitude''), number (row_get r ''longitude'')) of
       (Some lat, Some lon) \<Rightarrow> Some \<lparr>t_event_time = str_or_empty r ''event_time'', t_latitude = lat, t_longitude = lon,
          t_altitude_m = float_or_0 r ''altitude_m'', t_speed_mps = float_or_0 r ''speed_mps''\<rparr>
     | _ \<Rightarrow> None)"

definition drone_trail_route :: "string \<Rightarrow> int \<Rightarrow> drone_trail fleet" where
  "drone_trail_route entity_id points =
    bind (gets is_connected) (\<lambda>up.
    if \<not> up then raise (HTTPException 503 ''Cassandra unavailable'')
    else bind (attempt (get_drone_trail entity_id points)) (\<lambda>ans. case ans of
        Inl e \<Rightarrow> raise (HTTPException 500 (exn_str e))
      | Inr rs \<Rightarrow> ret \<lparr>trail_entity_id = entity_id, trail_points = List.map_filter trail_point_of (rev rs)\<rparr>))"

fun nearby_loop :: "string \<Rightarrow> real \<Rightarrow> real \<Rightarrow> real \<Rightarrow> row list \<Rightarrow> nearby_drone_result list \<Rightarrow> nearby_drone_result list fleet" where
  "nearby_loop entity_id meters tlat tlon [] acc = ret acc"
| "nearby_loop entity_id meters tlat tlon (r # rs) acc =
    (if row_get r ''entity_id'' = CText entity_id \<or> row_get r ''latitude'' = CNull
     then nearby_loop entity_id meters tlat tlon rs acc
     else bind (float_of r ''latitude'') (\<lambda>lat. bind (float_of r ''longitude'') (\<lambda>lon.
       let distance = api_haversine_distance_m tlat tlon lat lon in
       nearby_loop entity_id meters tlat tlon rs
         (if distance \<le> meters
          then acc @ [\<lparr>n_entity_id = str_of r ''entity_id'', n_event_time = str_or_empty r ''event_time'', n_latitude = lat,
            n_longitude = lon, n_altitude_m = float_or_0 r ''altitude_m'', n_distance_m = py_round 1 distance\<rparr>]
          else acc))))"

definition get_nearby_drones :: "string \<Rightarrow> int \<Rightarrow> nearby_drone_result list fleet" where
  "get_nearby_drones entity_id meters =
    (let meters = max 1 (min meters NEARBY_MAX_METRES) in
     bind (gets is_connected) (\<lambda>up.
     if \<not> up then ret []
     else bind (get_drone_detail entity_id) (\<lambda>target. case target of None \<Rightarrow> ret []
       | Some target \<Rightarrow>
           if row_get target ''latitude'' = CNull then ret []
           else bind (float_of target ''latitude'') (\<lambda>tlat. bind (float_of target ''longitude'') (\<lambda>tlon.
             bind (get_drones FLEET_SCAN_LIMIT True) (\<lambda>ds.
             bind (nearby_loop entity_id (of_int meters) tlat tlon ds []) (\<lambda>near.
               ret (sort_key n_distance_m near))))))))"

section \<open>Zone routes\<close>

record what_if_zone_request =
  w_polygon_wkt :: string
  w_zone_name :: string
  w_severity :: string

record what_if_zone_response =
  w_zone :: restricted_zone
  drones_inside :: int
  drones_nearby :: int
  affected_drone_ids :: "string list"

definition api_WARNING_DISTANCE_M :: real where
  "api_WARNING_DISTANCE_M = 500"

definition get_zones_route :: "restricted_zone list fleet" where
  "get_zones_route =
    bind (gets is_connected) (\<lambda>up.
    if \<not> up then ret []
    else bind (attempt get_zones) (\<lambda>ans. ret (case ans of Inl _ \<Rightarrow> [] | Inr zs \<Rightarrow> map to_zone zs)))"

fun what_if_loop :: "ring \<Rightarrow> row list \<Rightarrow> string list \<Rightarrow> string list \<Rightarrow> string list \<times> string list" where
  "what_if_loop polygon [] inside nearby = (inside, nearby)"
| "what_if_loop polygon (r # rs) inside nearby =
    (case (number (row_get r ''latitude''), number (row_get r ''longitude'')) of
       (Some lat, Some lon) \<Rightarrow>
         if api_point_in_polygon lat lon polygon then what_if_loop polygon rs (inside @ [str_of r ''entity_id'']) nearby
         else if (case api_distance_to_polygon_m lat lon polygon of None \<Rightarrow> False | Some m \<Rightarrow> m < api_WARNING_DISTANCE_M)
         then what_if_loop polygon rs inside (nearby @ [str_of r ''entity_id''])
         else what_if_loop polygon rs inside nearby
     | _ \<Rightarrow> what_if_loop polygon rs inside nearby)"

definition what_if_zone :: "what_if_zone_request \<Rightarrow> what_if_zone_response fleet" where
  "what_if_zone req =
    (let polygon = api_parse_wkt_polygon (w_polygon_wkt req);
         zone = \<lparr>z_zone_id = ''what-if'', z_zone_name = w_zone_name req, z_polygon_wkt = w_polygon_wkt req,
           z_severity = w_severity req, z_enabled = True\<rparr>;
         none = \<lparr>w_zone = zone, drones_inside = 0, drones_nearby = 0, affected_drone_ids = []\<rparr>
     in if polygon = [] then raise (HTTPException 400 ''Could not parse polygon_wkt'')
        else bind (gets is_connected) (\<lambda>up.
          if \<not> up then ret none
          else bind (attempt (get_drones FLEET_SCAN_LIMIT False)) (\<lambda>ans. case ans of
            Inl _ \<Rightarrow> ret none
          | Inr ds \<Rightarrow>
              (case what_if_loop polygon ds [] [] of (inside, nearby) \<Rightarrow>
                 ret \<lparr>w_zone = zone, drones_inside = int (length inside), drones_nearby = int (length nearby),
                   affected_drone_ids = inside @ nearby\<rparr>))))"

section \<open>Alert and overview routes\<close>

record alert_summary =
  a_alert_id :: string
  a_alert_time :: string
  a_entity_id :: string
  a_alert_type :: string
  a_severity :: string
  a_message :: string
  a_risk_score :: real

record alert_record = alert_summary +
  a_zone_id :: "string option"
  a_latitude :: real
  a_longitude :: real
  a_altitude_m :: real

record alerts_response =
  ar_alerts :: "alert_record list"
  ar_total_count :: int

definition to_summary :: "row \<Rightarrow> alert_summary" where
  "to_summary r = \<lparr>a_alert_id = str_of r ''alert_id'', a_alert_time = str_of r ''alert_time'',
     a_entity_id = str_of r ''entity_id'', a_alert_type = str_of r ''alert_type'', a_severity = str_of r ''severity'',
     a_message = str_of r ''message'', a_risk_score = float_or_0 r ''risk_score''\<rparr>"

definition to_alert :: "row \<Rightarrow> alert_record" where
  "to_alert r = alert_summary.extend (to_summary r)
     (alert_record.fields (if truth (row_get r ''zone_id'') then Some (str_of r ''zone_id'') else None)
       (float_or_0 r ''latitude'') (float_or_0 r ''longitude'') (float_or_0 r ''altitude_m''))"

definition alerts_route :: "string option \<Rightarrow> int \<Rightarrow> alerts_response fleet" where
  "alerts_route sev limit =
    bind (gets is_connected) (\<lambda>up.
    if \<not> up then ret \<lparr>ar_alerts = [], ar_total_count = 0\<rparr>
    else bind (attempt (get_alerts limit 6)) (\<lambda>ans. case ans of
        Inl _ \<Rightarrow> ret \<lparr>ar_alerts = [], ar_total_count = 0\<rparr>
      | Inr rs \<Rightarrow>
          (let alerts = map to_alert rs in
           ret \<lparr>ar_alerts = filter (\<lambda>a. sev = None \<or> sev = Some [] \<or> sev = Some (a_severity a)) alerts,
             ar_total_count = int (length alerts)\<rparr>)))"

definition MAX_HISTORY_HOURS :: int where
  "MAX_HISTORY_HOURS = 48"

definition CSV_HEADER :: string where
  "CSV_HEADER = ''time,timestamp,count''"

definition no_kpis :: overview_kpis where
  "no_kpis = \<lparr>total_drones = 0, active_flying_drones = 0, grounded_drones = 0, max_speed_mps = 0, min_speed_mps = 0,
     avg_speed_mps = 0, max_altitude_m = 0, min_altitude_m = 0, avg_altitude_m = 0, near_zone_count = 0,
     predicted_breach_count = 0, total_events = 0, ingestion_rate_per_sec = 0\<rparr>"

text \<open>\<open>_fetch_kpis\<close>: \<open>None\<close> is the empty dictionary, which the overview fills with the zero
  defaults of its response class.\<close>

definition fetch_kpis :: "overview_kpis option fleet" where
  "fetch_kpis =
    bind (bind (gets is_connected) (\<lambda>up. if up then ret () else connect False)) (\<lambda>_.
    bind (gets is_connected) (\<lambda>up.
    if \<not> up then ret None else try_except (bind get_overview_kpis (\<lambda>k. ret (Some k))) (\<lambda>_. ret None)))"

definition fetch_latest_alerts :: "int \<Rightarrow> alert_summary list fleet" where
  "fetch_latest_alerts limit =
    bind (gets is_connected) (\<lambda>up.
    if \<not> up then ret []
    else try_except (bind (get_alerts limit 6) (\<lambda>rs. ret (map to_summary rs))) (\<lambda>_. ret []))"

definition overview_route :: "real fleet \<Rightarrow> (overview_kpis \<times> real \<times> alert_summary list) fleet" where
  "overview_route health = bind fetch_kpis (\<lambda>k. bind health (\<lambda>h. bind (fetch_latest_alerts 5) (\<lambda>as.
    ret (case k of None \<Rightarrow> no_kpis | Some k \<Rightarrow> k, h, as))))"

definition ingestion_history_route :: "int \<Rightarrow> (int \<times> ingestion_bucket list) fleet" where
  "ingestion_history_route hours =
    (let hours = max 1 (min hours MAX_HISTORY_HOURS) in
     bind (gets is_connected) (\<lambda>up.
     if \<not> up then ret (hours, [])
     else try_except (bind (get_ingestion_history hours) (\<lambda>bs. ret (hours, bs))) (\<lambda>_. ret (hours, []))))"

definition csv_line :: "ingestion_bucket \<Rightarrow> string" where
  "csv_line b = time b @ '','' @ timestamp b @ '','' @ int_str (bcount b)"

definition download_ingestion_csv :: "int \<Rightarrow> string fleet" where
  "download_ingestion_csv hours =
    (let hours = max 1 (min hours MAX_HISTORY_HOURS) in
     bind (gets is_connected) (\<lambda>up.
     bind (if up then try_except (bind (get_ingestion_history hours) (\<lambda>bs. ret (map csv_line bs))) (\<lambda>_. ret [])
           else ret []) (\<lambda>ls.
       ret (join NL (CSV_HEADER # ls) @ NL))))"

definition trigger_resync :: "(bool \<times> string \<times> overview_kpis option option) fleet" where
  "trigger_resync =
    try_except
      (bind (gets is_connected) (\<lambda>up. bind (connect (\<not> up)) (\<lambda>_. bind fetch_kpis (\<lambda>k.
        ret (True, ''Re-sync complete'', Some k)))))
      (\<lambda>e. ret (False, exn_str e, None))"

section \<open>Demo controls\<close>

record demo_settings =
  drones_enabled :: int
  events_per_sec :: int
  outlier_percent :: real
  paused :: bool

record demo_env =
  demo_n_entities :: int
  demo_max_entities :: int
  demo_events_per_sec :: int
  demo_outlier_percent :: real

definition default_settings :: "demo_env \<Rightarrow> demo_settings" where
  "default_settings env = \<lparr>drones_enabled = min (demo_n_entities env) (demo_max_entities env),
     events_per_sec = demo_events_per_sec env, outlier_percent = demo_outlier_percent env, paused = False\<rparr>"

text \<open>The validation of \<open>DemoSettings\<close>.\<close>

definition settings_valid :: "demo_settings \<Rightarrow> bool" where
  "settings_valid s \<longleftrightarrow> 1 \<le> drones_enabled s \<and> drones_enabled s \<le> 100000 \<and> 1 \<le> events_per_sec s \<and>
     events_per_sec s \<le> 1000000 \<and> 0 \<le> outlier_percent s \<and> outlier_percent s \<le> 100"

definition update_demo_settings :: "demo_env \<Rightarrow> demo_settings \<Rightarrow> demo_settings \<Rightarrow> (demo_settings \<times> string) \<times> demo_settings" where
  "update_demo_settings env new current =
    (let clamped = new\<lparr>drones_enabled := min (drones_enabled new) (demo_max_entities env)\<rparr>
     in ((clamped, if drones_enabled clamped \<noteq> drones_enabled new
           then ''Fleet size capped at MAX_ENTITIES ('' @ int_str (demo_max_entities env) @ '')''
           else ''Settings updated; the producer picks them up within its poll interval''), clamped))"

definition toggle_pause :: "demo_settings \<Rightarrow> (demo_settings \<times> string) \<times> demo_settings" where
  "toggle_pause current =
    (let next = current\<lparr>paused := \<not> paused current\<rparr>
     in ((next, ''Data generation '' @ (if paused next then ''paused'' else ''resumed'')), next))"

definition clear_fleet_state :: "(bool \<times> string) fleet" where
  "clear_fleet_state =
    bind (gets is_connected) (\<lambda>up.
    if \<not> up then ret (False, ''Cassandra not connected'')
    else try_except
      (bind session (\<lambda>_. bind (node (execute_write (\<lambda>d. d(''drone_latest_status'' := [])))) (\<lambda>_.
        ret (True, ''Fleet state cleared; KPIs rebuild as telemetry arrives''))))
      (\<lambda>e. ret (False, exn_str e)))"

section \<open>Lemmas\<close>

text \<open>Reading leaves the tables alone and, in the routes that catch what they call, always answers.\<close>

abbreviation keeps :: "db \<Rightarrow> 'a fleet \<Rightarrow> bool" where
  "keeps d m \<equiv> preserves (\<lambda>s. tables (fnode s) = d) m"

lemma keeps_node_query: "keeps d (node (execute_query f))"
  by (auto simp: preserves_def node_def execute_query_def node_call_def split: prod.splits fault.splits list.splits)

lemma keeps_node_now: "keeps d (node now)"
  by (simp add: preserves_def node_def now_def)

lemma keeps_monotonic: "keeps d monotonic"
  by (simp add: preserves_def monotonic_def)

lemma keeps_dial: "keeps d dial"
  by (auto simp: preserves_def dial_def split: list.splits option.splits)

lemma keeps_connect: "keeps d (connect force)"
  unfolding connect_def
  by (intro preserves_intros keeps_monotonic keeps_dial) simp_all

lemma keeps_session: "keeps d session"
  unfolding session_def by (intro preserves_intros keeps_connect)

lemma keeps_fetch: "keeps d (fetch f)"
  unfolding fetch_def by (intro preserves_intros keeps_session keeps_node_query)

lemma keeps_observe: "keeps d (observe_ingestion_rate n)"
  unfolding observe_ingestion_rate_def by (intro preserves_intros keeps_monotonic) simp_all

lemma keeps_alerts_loop: "keeps d (alerts_loop n limit t acc)"
  by (induction n limit t acc rule: alerts_loop.induct) (auto simp: Let_def intro!: preserves_intros keeps_fetch)

lemma keeps_float_of: "keeps d (float_of r c)"
  unfolding float_of_def by (intro preserves_intros)

lemma keeps_nearby_loop: "keeps d (nearby_loop e m a b rs acc)"
  by (induction e m a b rs acc rule: nearby_loop.induct)
    (auto simp: Let_def intro!: preserves_intros keeps_float_of)

lemmas read_defs = get_total_events_def get_drone_count_def get_overview_kpis_def get_drones_def get_drone_detail_def
  get_drone_trail_def get_zones_def get_alerts_def bucket_count_def get_ingestion_history_def now_str_def
  get_map_live_def get_polygon_stats_def drone_detail_route_def drone_trail_route_def get_nearby_drones_def
  get_zones_route_def what_if_zone_def alerts_route_def fetch_kpis_def fetch_latest_alerts_def
  ingestion_history_route_def download_ingestion_csv_def trigger_resync_def

lemmas keeps_reads = keeps_fetch keeps_node_now keeps_observe keeps_alerts_loop keeps_nearby_loop keeps_connect
  keeps_float_of

lemma connect_total: "total (connect False)"
proof -
  have "total monotonic" by (simp add: total_def monotonic_def)
  then show ?thesis unfolding connect_def if_False simp_thms by (intro total_intros)
qed

lemma now_total: "total (node now)" "total now_str"
  by (simp_all add: total_def node_def now_def now_str_def bind_def ret_def)

section \<open>Properties\<close>

text \<open>A client that is connected to a node which answers.\<close>

definition steady :: "cassandra_client \<Rightarrow> bool" where
  "steady s \<longleftrightarrow> is_connected s \<and> has_session s \<and> faults (fnode s) = []"

definition client_on :: "db \<Rightarrow> cassandra_client" where
  "client_on d = \<lparr>is_connected = True, has_session = True, last_attempt = 0, rate_sample = None, last_rate = 0,
     fnode = node_world ''demo'' [] d, dials = [], mono_clock = (\<lambda>n. of_nat n), mono_reads = 0\<rparr>"

lemma client_on_steady: "steady (client_on d)"
  by (simp add: steady_def client_on_def node_world_def)

lemma fetch_steady: "steady s \<Longrightarrow> fetch f s = (Inr (map wire_row (f (tables (fnode s)))), s)"
  by (simp add: steady_def fetch_def session_def bind_def gets_def ret_def node_def execute_query_def node_call_def)

text \<open>
  C21. The dashboard survives failures: whatever dials and calls fail, the live map, the zones, the
  alerts, the overview, the ingestion history and its download and the re-sync answer, and no
  read of the dashboard, those that can raise included, changes a table.
\<close>

theorem dashboard_reads_are_safe:
  "total (get_map_live limit) \<and> total get_zones_route \<and> total (alerts_route sev limit) \<and> total fetch_kpis \<and>
   total (fetch_latest_alerts limit) \<and> total (ingestion_history_route hours) \<and> total (download_ingestion_csv hours) \<and>
   total trigger_resync \<and>
   keeps d (get_map_live limit) \<and> keeps d get_zones_route \<and> keeps d (alerts_route sev limit) \<and> keeps d fetch_kpis \<and>
   keeps d (fetch_latest_alerts limit) \<and> keeps d (ingestion_history_route hours) \<and> keeps d (download_ingestion_csv hours) \<and>
   keeps d trigger_resync \<and> keeps d (get_polygon_stats wkt) \<and> keeps d (drone_detail_route e) \<and>
   keeps d (drone_trail_route e points) \<and> keeps d (get_nearby_drones e meters) \<and> keeps d (what_if_zone req)"
  unfolding read_defs Let_def
  by (intro conjI total_intros connect_total now_total preserves_intros keeps_reads)

lemma connect_unfold:
  "connect force s =
    (let now_s = mono_clock s (mono_reads s); s1 = s\<lparr>mono_reads := Suc (mono_reads s)\<rparr>; s2 = s1\<lparr>last_attempt := now_s\<rparr> in
     if is_connected s \<and> \<not> force then (Inr (), s)
     else if \<not> force \<and> now_s - last_attempt s < RECONNECT_INTERVAL_S then (Inr (), s1)
     else case dial s2 of (Inr _, s3) \<Rightarrow> (Inr (), s3\<lparr>has_session := True, is_connected := True\<rparr>)
       | (Inl e, s3) \<Rightarrow> (if force then Inl e else Inr (), s3\<lparr>is_connected := False, has_session := False\<rparr>))"
  by (auto simp: connect_def bind_def gets_def ret_def monotonic_def modify_def try_except_def raise_def Let_def
      split: prod.splits sum.splits)

lemma dial_frame:
  "dial s = (r, s') \<Longrightarrow> last_attempt s' = last_attempt s \<and> mono_clock s' = mono_clock s \<and> mono_reads s' = mono_reads s"
  by (auto simp: dial_def split: list.splits option.splits)

text \<open>The attempts of a sequence of requests for a connection: the times at which one was dialled.\<close>

fun attempts :: "bool list \<Rightarrow> cassandra_client \<Rightarrow> (bool \<times> real) list" where
  "attempts [] s = []"
| "attempts (force # fs) s =
    (let s' = snd (connect force s) in
     (if \<not> (is_connected s \<and> \<not> force) \<and>
         (force \<or> RECONNECT_INTERVAL_S \<le> mono_clock s (mono_reads s) - last_attempt s)
      then [(force, mono_clock s (mono_reads s))] else []) @ attempts fs s')"

lemma connect_frame:
  "let s' = snd (connect force s) in mono_clock s' = mono_clock s \<and>
     (if is_connected s \<and> \<not> force then s' = s
      else mono_reads s' = Suc (mono_reads s) \<and>
        last_attempt s' = (if force \<or> RECONNECT_INTERVAL_S \<le> mono_clock s (mono_reads s) - last_attempt s
          then mono_clock s (mono_reads s) else last_attempt s))"
  by (auto simp: connect_unfold Let_def dest: dial_frame split: prod.splits sum.splits)

lemma attempts_after:
  assumes "mono (mono_clock s)" and "last_attempt s \<le> mono_clock s (mono_reads s)"
    and "(f, t) \<in> set (attempts fs s)"
  shows "last_attempt s \<le> t \<and> (\<not> f \<longrightarrow> last_attempt s + RECONNECT_INTERVAL_S \<le> t)"
  using assms
proof (induction fs arbitrary: s)
  case (Cons force fs)
  define s' where "s' = snd (connect force s)"
  note fr = connect_frame [of force s, folded s'_def, unfolded Let_def]
  have clock: "mono_clock s (mono_reads s) \<le> mono_clock s (Suc (mono_reads s))" using Cons.prems(1) by (simp add: monoD)
  have "mono (mono_clock s')" "last_attempt s' \<le> mono_clock s' (mono_reads s')" "last_attempt s \<le> last_attempt s'"
    using fr Cons.prems clock by (auto split: if_splits)
  then show ?case
    using Cons.IH [of s'] Cons.prems(2,3) by (auto simp: s'_def [symmetric] Let_def split: if_splits)
qed simp

text \<open>
  Property. Connection attempts are throttled: over any sequence of requests, with a clock that does not go
  back, an attempt that was not forced comes at least 10 s after every earlier attempt; and a
  request that does not force one never raises.
\<close>

theorem attempts_are_spaced:
  assumes "mono (mono_clock s)" and "last_attempt s \<le> mono_clock s (mono_reads s)"
    and "i < j" and "j < length (attempts fs s)" and "\<not> fst (attempts fs s ! j)"
  shows "snd (attempts fs s ! i) + RECONNECT_INTERVAL_S \<le> snd (attempts fs s ! j) \<and>
    (\<forall>s. \<exists>s'. connect False s = (Inr (), s'))"
proof -
  have "snd (attempts fs s ! i) + RECONNECT_INTERVAL_S \<le> snd (attempts fs s ! j)"
    using assms
  proof (induction fs arbitrary: s i j)
    case (Cons force fs)
    define s' where "s' = snd (connect force s)"
    note fr = connect_frame [of force s, folded s'_def, unfolded Let_def]
    have clock: "mono_clock s (mono_reads s) \<le> mono_clock s (Suc (mono_reads s))" using Cons.prems(1) by (simp add: monoD)
    have s': "mono (mono_clock s')" "last_attempt s' \<le> mono_clock s' (mono_reads s')"
      using fr Cons.prems(1,2) clock by (auto split: if_splits)
    define head where "head = (if \<not> (is_connected s \<and> \<not> force) \<and>
         (force \<or> RECONNECT_INTERVAL_S \<le> mono_clock s (mono_reads s) - last_attempt s)
      then [(force, mono_clock s (mono_reads s))] else [])"
    have eq: "attempts (force # fs) s = head @ attempts fs s'" by (simp add: head_def s'_def Let_def)
    consider "head = []" | "head = [(force, last_attempt s')]" using fr by (auto simp: head_def split: if_splits)
    then show ?case
    proof cases
      case 1
      then show ?thesis using Cons.IH [OF s'] Cons.prems(3-5) by (simp add: eq del: attempts.simps)
    next
      case 2
      show ?thesis
      proof (cases i)
        case 0
        obtain k where k: "j = Suc k" using Cons.prems(3) by (cases j) auto
        have "attempts fs s' ! k \<in> set (attempts fs s')" using Cons.prems(4) k 2 by (simp add: eq del: attempts.simps)
        then have "(fst (attempts fs s' ! k), snd (attempts fs s' ! k)) \<in> set (attempts fs s')" by simp
        from attempts_after [OF s' this] show ?thesis
          using Cons.prems(5) 0 k 2 by (simp add: eq del: attempts.simps)
      next
        case (Suc i')
        then obtain k where "j = Suc k" "i' < k" using Cons.prems(3) by (cases j) auto
        then show ?thesis using Cons.IH [OF s', of i' k] Cons.prems(4,5) 2 Suc by (simp add: eq del: attempts.simps)
      qed
    qed
  qed simp
  moreover have "\<exists>s'. connect False t = (Inr (), s')" for t using totalD [OF connect_total, of t] by simp
  ultimately show ?thesis by blast
qed

theorem attempts_are_spaced_witness:
  "let s = (client_on empty_db)\<lparr>is_connected := False, dials := replicate 5 (Some (Exn ''refused'')), mono_clock := (\<lambda>n. 12 * real n + 20)\<rparr>
   in snd (attempts [False, False] s ! 0) + RECONNECT_INTERVAL_S \<le> snd (attempts [False, False] s ! 1)"
proof -
  define s where "s = (client_on empty_db)\<lparr>is_connected := False, dials := replicate 5 (Some (Exn ''refused'')), mono_clock := (\<lambda>n. 12 * real n + 20)\<rparr>"
  have a: "attempts [False, False] s = [(False, 20), (False, 32)]"
    by (simp add: s_def client_on_def connect_unfold dial_def RECONNECT_INTERVAL_S_def eval_nat_numeral)
  have "mono (mono_clock s)" "last_attempt s \<le> mono_clock s (mono_reads s)"
    by (simp_all add: s_def client_on_def mono_def)
  from attempts_are_spaced [OF this, of 0 1 "[False, False]"] show ?thesis
    unfolding s_def [symmetric] Let_def by (simp add: a del: attempts.simps)
qed

lemma stats_order: "s_min (stats vs) \<le> s_avg (stats vs) \<and> s_avg (stats vs) \<le> s_max (stats vs)"
proof (cases "vs = []")
  case False
  have n: "0 < real (length vs)" using False by simp
  have "real (length vs) * Min (set vs) \<le> sum_list vs"
    using sum_list_mono [of vs "\<lambda>_. Min (set vs)" "\<lambda>x. x"] by (simp add: sum_list_triv)
  moreover have "sum_list vs \<le> real (length vs) * Max (set vs)"
    using sum_list_mono [of vs "\<lambda>x. x" "\<lambda>_. Max (set vs)"] by (simp add: sum_list_triv)
  ultimately have "Min (set vs) \<le> sum_list vs / real (length vs)" "sum_list vs / real (length vs) \<le> Max (set vs)"
    using n by (simp_all add: field_simps)
  then show ?thesis using False by (simp add: stats_def py_round_mono)
qed (simp add: stats_def)

lemma py_round_nonneg: "0 \<le> x \<Longrightarrow> 0 \<le> py_round n x"
  using py_round_mono [of 0 x n] by (simp add: py_round_def round_half_even_def)

lemma observe_rate:
  assumes "0 \<le> last_rate s"
  shows "\<exists>r s'. observe_ingestion_rate n s = (Inr r, s') \<and> 0 \<le> r \<and> 0 \<le> last_rate s'"
proof -
  have "0 \<le> (of_int (n - b) / (x - y) :: real)" if "\<not> n - b < 0" "\<not> x - y < RATE_MIN_INTERVAL_S" for b x y
    using that by (intro divide_nonneg_nonneg) (auto simp: RATE_MIN_INTERVAL_S_def)
  then show ?thesis
    using assms by (auto simp: observe_ingestion_rate_def bind_def monotonic_def gets_def modify_def ret_def
        split: option.splits intro: py_round_nonneg)
qed

lemma rate_kept_fetch: "preserves (\<lambda>s. P (last_rate s)) (fetch f)"
proof -
  have n: "preserves (\<lambda>s. P (last_rate s)) (node m)" for m :: "(world, 'a) pm"
    by (auto simp: preserves_def node_def split: prod.splits)
  have "preserves (\<lambda>s. P (last_rate s)) monotonic" "preserves (\<lambda>s. P (last_rate s)) dial"
    by (auto simp: preserves_def monotonic_def dial_def split: list.splits option.splits)
  then have "preserves (\<lambda>s. P (last_rate s)) (connect force)" for force
    unfolding connect_def by (intro preserves_intros) simp_all
  then show ?thesis unfolding fetch_def session_def by (intro preserves_intros) (auto simp: preserves_def node_def split: prod.splits)
qed

text \<open>
  Property. The counters of the overview agree with each other: every asset counted is either flying or
  grounded, no more are near a zone or predicted to breach than there are, the averages lie
  between the least and the greatest, and the rate is not negative.
\<close>

theorem overview_counts_agree:
  assumes "get_overview_kpis s = (Inr k, s')" and "0 \<le> last_rate s"
  shows "total_drones k = active_flying_drones k + grounded_drones k \<and> 0 \<le> active_flying_drones k \<and> 0 \<le> grounded_drones k \<and>
    total_drones k \<le> FLEET_SCAN_LIMIT \<and> near_zone_count k \<le> total_drones k \<and> predicted_breach_count k \<le> total_drones k \<and>
    min_speed_mps k \<le> avg_speed_mps k \<and> avg_speed_mps k \<le> max_speed_mps k \<and>
    min_altitude_m k \<le> avg_altitude_m k \<and> avg_altitude_m k \<le> max_altitude_m k \<and>
    0 \<le> ingestion_rate_per_sec k \<and> 0 \<le> last_rate s'"
proof -
  define scan where "scan = (\<lambda>d. take (nat FLEET_SCAN_LIMIT) (map (project [''entity_id'', ''is_flying'', ''speed_mps'', ''altitude_m'',
        ''near_restricted_zone'', ''predicted_zone_breach'']) (select_all ''drone_latest_status'' d)))"
  obtain rs s1 where f: "fetch scan s = (Inr rs, s1)"
    using assms(1) unfolding get_overview_kpis_def scan_def [symmetric] by (auto simp: bind_def split: prod.splits sum.splits)
  obtain ev s2 where e: "get_total_events s1 = (Inr ev, s2)"
    using assms(1) f unfolding get_overview_kpis_def scan_def [symmetric] by (auto simp: bind_def split: prod.splits sum.splits)
  have "preserves (\<lambda>s. 0 \<le> last_rate s) get_total_events"
    unfolding get_total_events_def by (intro preserves_intros rate_kept_fetch)
  then have "0 \<le> last_rate s2"
    using preservesD [OF rate_kept_fetch [of "(\<le>) 0"], of s scan] assms(2) f e by (metis preservesD snd_conv)
  then obtain rate where r: "observe_ingestion_rate ev s2 = (Inr rate, s')" "0 \<le> rate" "0 \<le> last_rate s'" "k = kpis_of rs ev rate"
    using observe_rate [of s2 ev] assms(1) f e unfolding get_overview_kpis_def scan_def [symmetric]
    by (auto simp: bind_def ret_def)
  have "length rs \<le> nat FLEET_SCAN_LIMIT"
    using f by (auto simp: fetch_def bind_def ret_def node_def execute_query_def node_call_def scan_def
        split: prod.splits sum.splits fault.splits list.splits)
  then show ?thesis
    using r(2,3) stats_order unfolding r(4) kpis_of_def Let_def by (simp add: FLEET_SCAN_LIMIT_def)
qed

theorem overview_counts_agree_witness:
  "\<exists>k s'. get_overview_kpis (client_on empty_db) = (Inr k, s') \<and>
     total_drones k = active_flying_drones k + grounded_drones k \<and> 0 \<le> ingestion_rate_per_sec k"
proof -
  have rate: "0 \<le> last_rate (client_on empty_db)" by (simp add: client_on_def)
  have empty: "select_all t (tables (fnode (client_on empty_db))) = []" for t
    by (simp add: client_on_def node_world_def select_all_def empty_db_def)
  obtain r v where r: "observe_ingestion_rate 0 (client_on empty_db) = (Inr r, v)" using observe_rate [OF rate] by blast
  obtain k s' where k: "get_overview_kpis (client_on empty_db) = (Inr k, s')"
    using r by (simp add: get_overview_kpis_def get_total_events_def fetch_steady client_on_steady bind_def try_except_def
        ret_def empty)
  from overview_counts_agree [OF k rate] show ?thesis using k by blast
qed

lemma every_set: "set (every n xs) \<subseteq> set xs"
  by (induction n xs rule: every.induct) (auto dest: in_set_dropD)

lemma every_sorted: "sorted_wrt R xs \<Longrightarrow> sorted_wrt R (every n xs)"
proof (induction n xs rule: every.induct)
  case (2 n x xs)
  then show ?case using every_set [of n "drop (n - 1) xs"] by (auto simp: sorted_wrt_drop dest: in_set_dropD)
qed simp

lemma every_map: "every n (map f xs) = map f (every n xs)"
  by (induction n xs rule: every.induct) (simp_all add: drop_map)

lemma every_length: "1 \<le> n \<Longrightarrow> length (every n xs) = (length xs + n - 1) div n"
proof (induction n xs rule: every.induct)
  case (2 n x xs)
  define a where "a = length xs - (n - 1) + n - 1"
  have step: "length (every n (x # xs)) = Suc (a div n)" using 2 by (simp add: a_def)
  show ?case
  proof (cases "n - 1 \<le> length xs")
    case True
    then have "length (x # xs) + n - 1 = a + n" using 2(2) by (simp add: a_def)
    moreover have "(a + n) div n = Suc (a div n)" using 2(2) by simp
    ultimately show ?thesis by (simp only: step)
  next
    case False
    then have "length (x # xs) + n - 1 = length xs + n" "length xs < n" "a = n - 1" using 2(2) by (auto simp: a_def)
    moreover have "(length xs + n) div n = Suc (length xs div n)" using 2(2) by simp
    ultimately show ?thesis using 2(2) by (simp only: step) simp
  qed
qed simp

lemma thinned_length:
  assumes "1 \<le> p" and that: "length xs = n"
  shows "length (take p (every (max 1 (n div p)) xs)) = min p n"
proof (cases "n div p = 0")
  case True
  then have "n < p" using assms(1) by (simp add: div_eq_0_iff)
  then show ?thesis using True that every_length [of 1 xs] by simp
next
  case False
  define q where "q = n div p"
  have q: "1 \<le> q" "p * q \<le> n" using False by (simp_all add: q_def)
  then have "p * q \<le> n + q - 1" by simp
  then have "p \<le> (n + q - 1) div q" using q(1) by (simp add: less_eq_div_iff_mult_less_eq)
  moreover have "p \<le> n" using q(2) mult_le_mono2 [OF q(1), of p] by linarith
  ultimately show ?thesis using every_length [OF q(1), of xs] that q(1) by (simp add: q_def [symmetric] max_def)
qed

lemma clustered_set: "set (clustered ck rs) = set rs"
  by (induction ck) (auto simp: clustered_def split: prod.splits)

lemma clustered_desc:
  "sorted_wrt (\<lambda>a b. row_get b c \<le> row_get a c) (clustered ((c, True) # ck) rs)"
proof -
  have "sorted (map (\<lambda>r. row_get r c) (sort_key (\<lambda>r. row_get r c) xs))" for xs by simp
  then show ?thesis unfolding clustered_def by (simp add: sorted_wrt_rev sorted_wrt_map)
qed

text \<open>
  Property. A flight path is a bounded, evenly thinned part of the asset's history: of the newest 2,000
  readings as many as asked for, between 2 and 500, or all when there are fewer; each a reading
  of that asset, newest first.
\<close>

theorem trail_is_a_thinned_history:
  assumes "steady s"
  shows "\<exists>rs. get_drone_trail e points s = (Inr (map (wire_row \<circ> project [''event_time'', ''latitude'', ''longitude'',
      ''altitude_m'', ''speed_mps'', ''heading_deg'']) rs), s) \<and>
    length rs = min (nat (max 2 (min points 500)))
      (min TRAIL_SCAN_ROWS (length (filter (\<lambda>r. row_get r ''entity_id'' = CText e) (select_all ''drone_events_by_entity'' (tables (fnode s)))))) \<and>
    set rs \<subseteq> {r \<in> set (select_all ''drone_events_by_entity'' (tables (fnode s))). row_get r ''entity_id'' = CText e} \<and>
    sorted_wrt (\<lambda>a b. row_get b ''event_time'' \<le> row_get a ''event_time'') rs"
proof -
  define part where "part = partition_of drone_events_by_entity_table ''entity_id'' (CText e) (tables (fnode s))"
  define cols where "cols = [''event_time'', ''latitude'', ''longitude'', ''altitude_m'', ''speed_mps'', ''heading_deg'']"
  define p where "p = nat (max 2 (min points 500))"
  have p1: "1 \<le> p" by (simp add: p_def)
  define win where "win = take TRAIL_SCAN_ROWS part"
  define rs where "rs = take p (every (max 1 (length win div p)) win)"
  have run: "get_drone_trail e points s = (Inr (map (wire_row \<circ> project cols) rs), s)"
    unfolding get_drone_trail_def Let_def p_def [symmetric] cols_def [symmetric]
    by (simp add: bind_def fetch_steady [OF assms] ret_def part_def [symmetric] take_map win_def [symmetric] every_map rs_def)
  have set: "set part = {r \<in> set (select_all ''drone_events_by_entity'' (tables (fnode s))). row_get r ''entity_id'' = CText e}"
    by (auto simp: part_def partition_of_def clustered_set drone_events_by_entity_table_def)
  have len: "length part = length (filter (\<lambda>r. row_get r ''entity_id'' = CText e) (select_all ''drone_events_by_entity'' (tables (fnode s))))"
    by (simp add: part_def partition_of_def clustered_def drone_events_by_entity_table_def)
  have "sorted_wrt (\<lambda>a b. row_get b ''event_time'' \<le> row_get a ''event_time'') part"
    using clustered_desc by (simp add: part_def partition_of_def drone_events_by_entity_table_def)
  then have "sorted_wrt (\<lambda>a b. row_get b ''event_time'' \<le> row_get a ''event_time'') rs"
    unfolding rs_def win_def by (intro sorted_wrt_take every_sorted)
  moreover have "length rs = min p (min TRAIL_SCAN_ROWS (length part))"
    unfolding rs_def using thinned_length [OF p1, of win "length win"] by (simp add: win_def min.commute)
  moreover have "set rs \<subseteq> set part"
    unfolding rs_def win_def by (meson every_set order.trans set_take_subset)
  ultimately show ?thesis using run unfolding cols_def p_def set len by blast
qed

definition one_reading :: db where
  "one_reading = empty_db(''drone_events_by_entity'' :=
     [([CText ''a'', CTime 5, CUuid 1], [(''entity_id'', CText ''a''), (''event_time'', CTime 5), (''event_id'', CUuid 1)])])"

theorem trail_is_a_thinned_history_witness:
  "\<exists>rs. get_drone_trail ''a'' 60 (client_on one_reading) = (Inr (map (wire_row \<circ> project [''event_time'', ''latitude'', ''longitude'',
      ''altitude_m'', ''speed_mps'', ''heading_deg'']) rs), client_on one_reading) \<and> length rs = 1"
proof -
  have "length (filter (\<lambda>r. row_get r ''entity_id'' = CText ''a'')
      (select_all ''drone_events_by_entity'' (tables (fnode (client_on one_reading))))) = 1"
    by (simp add: client_on_def node_world_def one_reading_def select_all_def row_get_def)
  with trail_is_a_thinned_history [OF client_on_steady, of "''a''" 60 one_reading] show ?thesis
    by (auto simp: TRAIL_SCAN_ROWS_def)
qed

lemma alerts_loop_steady:
  assumes "steady s" and "int (length acc) \<le> limit"
  shows "\<exists>rs. alerts_loop n limit t acc s = (Inr rs, s) \<and> int (length rs) \<le> limit \<and>
    rs = take (nat limit) (acc @ concat (map (\<lambda>i. map wire_row (alerts_of (t - HOUR_US * int i) (tables (fnode s)))) [0..<n]))"
  using assms(2)
proof (induction n arbitrary: t acc)
  case 0
  then show ?case by (simp add: ret_def)
next
  case (Suc n)
  define rest where "rest = concat (map (\<lambda>i. map wire_row (alerts_of (t - HOUR_US * int i) (tables (fnode s)))) [1..<Suc n])"
  define first where "first = map wire_row (alerts_of t (tables (fnode s)))"
  have all: "concat (map (\<lambda>i. map wire_row (alerts_of (t - HOUR_US * int i) (tables (fnode s)))) [0..<Suc n]) = first @ rest"
    by (subst upt_conv_Cons) (simp_all add: first_def rest_def)
  show ?case
  proof (cases "limit - int (length acc) \<le> 0")
    case True
    then have "nat limit = length acc" using Suc.prems by simp
    then show ?thesis using True Suc.prems by (simp add: ret_def)
  next
    case False
    define more where "more = take (nat (limit - int (length acc))) first"
    have more: "int (length (acc @ more)) \<le> limit" using False by (simp add: more_def)
    have "alerts_loop (Suc n) limit t acc s = alerts_loop n limit (t - HOUR_US) (acc @ more) s"
      using False by (simp add: Let_def bind_def fetch_steady [OF assms(1)] more_def first_def take_map)
    moreover have upt: "[1..<Suc n] = map Suc [0..<n]" by (simp only: map_Suc_upt One_nat_def)
    have "rest = concat (map (\<lambda>i. map wire_row (alerts_of (t - HOUR_US - HOUR_US * int i) (tables (fnode s)))) [0..<n])"
      unfolding rest_def upt by (simp add: algebra_simps comp_def del: upt_Suc)
    moreover have "take (nat limit) ((acc @ more) @ rest) = take (nat limit) (acc @ first @ rest)"
    proof (cases "length first \<le> nat (limit - int (length acc))")
      case True
      then show ?thesis by (simp add: more_def)
    next
      case shorter: False
      then have "length (acc @ more) = nat limit" using False by (simp add: more_def)
      then show ?thesis by (simp add: more_def take_append nat_diff_distrib')
    qed
    ultimately show ?thesis using Suc.IH [OF more, of "t - HOUR_US"] all by simp
  qed
qed

text \<open>
  Property. The alerts returned are the newest: of the alerts of the current hour and of the hours before it,
  as many hours as asked for, laid end to end newest bucket first and each bucket in its own
  order, exactly the first so many as the limit says.
\<close>

theorem alerts_are_the_newest:
  assumes "steady s" and "0 \<le> limit"
  shows "\<exists>s'. get_alerts limit hours s = (Inr (take (nat limit) (concat (map (\<lambda>i. map wire_row
      (alerts_of (wall_clock (fnode s) (ticks (fnode s)) - HOUR_US * int i) (tables (fnode s)))) [0..<nat (max 1 hours)]))), s')"
proof -
  define t where "t = wall_clock (fnode s) (ticks (fnode s))"
  obtain v where v: "node now s = (Inr t, v)" "steady v" "tables (fnode v) = tables (fnode s)"
    using assms(1) by (simp add: node_def now_def t_def steady_def)
  show ?thesis
    using alerts_loop_steady [OF v(2), of "[]" limit "nat (max 1 hours)" t] assms(2) v(1,3)
    by (auto simp: get_alerts_def bind_def ret_def t_def [symmetric])
qed

theorem alerts_are_the_newest_witness:
  "\<exists>s'. get_alerts 5 6 (client_on empty_db) = (Inr [], s')"
proof -
  have "alerts_of t (tables (fnode (client_on empty_db))) = []" for t
    by (simp add: alerts_of_def partition_of_def clustered_def alerts_by_bucket_table_def client_on_def node_world_def
        select_all_def empty_db_def)
  then have none: "concat (map (\<lambda>i. map wire_row (alerts_of (w - HOUR_US * int i) (tables (fnode (client_on empty_db))))) xs) = []" for w xs
    by (simp add: concat_eq_Nil_conv)
  show ?thesis using alerts_are_the_newest [of "client_on empty_db" 5 6] client_on_steady unfolding none by simp
qed

lemma bucket_key_half_hour: "bucket_key t = bucket_for 30 t"
proof -
  have m: "0 \<le> minute (utc_fields t)" "minute (utc_fields t) < 60" 
    using time_field_bounds(4) [of t] by (simp_all add: minute_in_hour pos_imp_zdiv_nonneg_iff)
  have "minute (utc_fields t) div 30 * 30 = (if minute (utc_fields t) < 30 then 0 else 30)"
  proof (cases "minute (utc_fields t) < 30")
    case False
    moreover have "x div 30 = 1" if "30 \<le> x" "x < 60" for x :: int using that by presburger
    ultimately have "minute (utc_fields t) div 30 = 1" using m by simp
    then show ?thesis using False by simp
  qed (use m in simp)
  then show ?thesis
    by (simp add: bucket_key_def bucket_for_def bucket_start_fields strftime_minute_def strftime_hour_def)
qed

lemma earlier_half_hours:
  assumes "i < j" and "four_digit_year (t - HALF_HOUR_US * int i)" and "four_digit_year (t - HALF_HOUR_US * int j)"
  shows "bucket_key (t - HALF_HOUR_US * int j) < bucket_key (t - HALF_HOUR_US * int i)"
proof -
  have w: "bucket_start 30 (t - HALF_HOUR_US * int k) = HALF_HOUR_US * (t div HALF_HOUR_US - int k)" for k
  proof -
    have "(t - HALF_HOUR_US * int k) div HALF_HOUR_US = t div HALF_HOUR_US - int k"
      using div_mult_self2 [of HALF_HOUR_US t "- int k"] by (simp add: HALF_HOUR_US_def)
    then show ?thesis using bucket_start_floor [of 30 "t - HALF_HOUR_US * int k"] by (simp add: HALF_HOUR_US_def)
  qed
  have "bucket_start 30 (t - HALF_HOUR_US * int j) < bucket_start 30 (t - HALF_HOUR_US * int i)"
    using assms(1) unfolding w by (simp add: HALF_HOUR_US_def)
  then show ?thesis unfolding bucket_key_half_hour using bucket_for_order(1) [OF assms(3,2)] by blast
qed

lemma count_of_wire: "count_or_0 (row_get (wire_row (project [c] r)) c) = count_or_0 (row_get r c)"
  by (cases "row_get r c") (simp_all add: wire_row_def project_def row_get_def [of "[_]"])

definition counted :: "db \<Rightarrow> string \<Rightarrow> int" where
  "counted d key = (case filter (\<lambda>r. row_get r ''bucket'' = CText key) (select_all ''ingestion_counts'' d) of
     [] \<Rightarrow> 0 | r # _ \<Rightarrow> count_or_0 (row_get r ''record_count''))"

lemma bucket_count_steady: "steady s \<Longrightarrow> bucket_count t s = (Inr (counted (tables (fnode s)) (bucket_key t)), s)"
  by (simp add: bucket_count_def try_except_def bind_def fetch_steady ret_def counted_def count_of_wire split: list.splits)

lemma map_pm_steady:
  "(\<And>x. f x s = (Inr (g x), s)) \<Longrightarrow> map_pm f xs s = (Inr (map g xs), s)"
  by (induction xs) (simp_all add: bind_def ret_def)

text \<open>
  Property. The ingestion history has one entry for every half hour of the hours asked for, oldest first: its
  keys are those of successive half-hour windows ending with the current one, all different and in
  the order of time, each with the count the sink has stored under it, or 0.
\<close>

theorem history_covers_the_hours:
  assumes "steady s" and "\<forall>i < nat (hours * 2). four_digit_year (wall_clock (fnode s) (ticks (fnode s)) - HALF_HOUR_US * int i)"
  shows "\<exists>bs s'. get_ingestion_history hours s = (Inr bs, s') \<and> length bs = nat (hours * 2) \<and>
    sorted_wrt (<) (map timestamp bs) \<and>
    (\<forall>b \<in> set bs. bcount b = counted (tables (fnode s)) (timestamp b) \<and> time b = drop 11 (timestamp b)) \<and>
    (\<forall>i < nat (hours * 2). timestamp (rev bs ! i) = bucket_key (wall_clock (fnode s) (ticks (fnode s)) - HALF_HOUR_US * int i))"
proof -
  define t where "t = wall_clock (fnode s) (ticks (fnode s))"
  define entry where "entry = (\<lambda>i. let key = bucket_key (t - HALF_HOUR_US * int i) in
      \<lparr>time = drop 11 key, timestamp = key, bcount = counted (tables (fnode s)) key\<rparr>)"
  obtain v where v: "node now s = (Inr t, v)" "steady v" "tables (fnode v) = tables (fnode s)"
    using assms(1) by (simp add: node_def now_def t_def steady_def)
  have "get_ingestion_history hours s = (Inr (map entry (rev [0..<nat (hours * 2)])), v)"
    unfolding get_ingestion_history_def
    by (simp add: bind_def [of "node now"] v(1), rule map_pm_steady)
      (simp add: bind_def bucket_count_steady [OF v(2)] ret_def entry_def v(3) Let_def)
  moreover have "sorted_wrt (<) (map timestamp (map entry (rev [0..<nat (hours * 2)])))"
    using assms(2) earlier_half_hours [of _ _ t]
    by (auto simp: sorted_wrt_map rev_map [symmetric] sorted_wrt_rev entry_def t_def [symmetric] Let_def
        intro!: sorted_wrt_mono_rel [OF _ sorted_wrt_upt])
  ultimately show ?thesis by (auto simp: entry_def Let_def t_def [symmetric] rev_map)
qed

theorem history_covers_the_hours_witness:
  "\<exists>bs s'. get_ingestion_history 8 (client_on empty_db) = (Inr bs, s') \<and> length bs = 16"
proof -
  have "\<forall>i < nat (8 * 2). four_digit_year (wall_clock (fnode (client_on empty_db)) (ticks (fnode (client_on empty_db))) - HALF_HOUR_US * int i)"
  proof -
    have "list_all (\<lambda>i. four_digit_year (0 - HALF_HOUR_US * int i)) [0..<16]" by code_simp
    then show ?thesis by (simp add: list_all_iff client_on_def node_world_def)
  qed
  from history_covers_the_hours [OF client_on_steady this] show ?thesis by auto
qed

lemma py_round_int: "py_round n (of_int k) = of_int k"
proof -
  have "round_half_even (of_int j) = j" for j by (simp add: round_half_even_def)
  from this [of "k * 10 ^ n"] show ?thesis by (simp add: py_round_def)
qed

text \<open>Which of the rows are near, and how far.\<close>

definition near_result :: "string \<Rightarrow> real \<Rightarrow> real \<Rightarrow> real \<Rightarrow> row \<Rightarrow> nearby_drone_result \<Rightarrow> bool" where
  "near_result e meters tlat tlon r n \<longleftrightarrow> row_get r ''entity_id'' \<noteq> CText e \<and>
     (\<exists>lat lon. number (row_get r ''latitude'') = Some lat \<and> number (row_get r ''longitude'') = Some lon \<and>
        api_haversine_distance_m tlat tlon lat lon \<le> meters \<and>
        n = \<lparr>n_entity_id = str_of r ''entity_id'', n_event_time = str_or_empty r ''event_time'', n_latitude = lat,
          n_longitude = lon, n_altitude_m = float_or_0 r ''altitude_m'',
          n_distance_m = py_round 1 (api_haversine_distance_m tlat tlon lat lon)\<rparr>)"

lemma nearby_loop_result:
  "nearby_loop e meters tlat tlon rs acc s = (Inr ns, s') \<Longrightarrow>
     set ns = set acc \<union> {n. \<exists>r \<in> set rs. near_result e meters tlat tlon r n} \<and> s' = s"
proof (induction rs arbitrary: acc)
  case Nil
  then show ?case by (simp add: ret_def)
next
  case (Cons r rs)
  show ?case
  proof (cases "row_get r ''entity_id'' = CText e \<or> row_get r ''latitude'' = CNull")
    case True
    then have "near_result e meters tlat tlon r n = False" for n by (auto simp: near_result_def)
    then show ?thesis using Cons True by auto
  next
    case False
    then obtain lat lon where l: "number (row_get r ''latitude'') = Some lat" "number (row_get r ''longitude'') = Some lon"
      using Cons.prems by (auto simp: float_of_def bind_def raise_def ret_def split: option.splits)
    then show ?thesis
      using Cons.IH Cons.prems False
      by (fastforce simp: float_of_def bind_def ret_def Let_def near_result_def split: if_splits)
  qed
qed

text \<open>
  Property. The assets near one: a list in order of distance of exactly the flying assets with a position,
  other than the one asked about, within the radius, which is at least 1 m and at most 5 km.
\<close>

theorem nearby_is_every_asset_in_reach:
  assumes "steady s" and "get_drone_detail e s = (Inr (Some target), s)"
    and "number (row_get target ''latitude'') = Some tlat" and "number (row_get target ''longitude'') = Some tlon"
    and "get_drones FLEET_SCAN_LIMIT True s = (Inr fleet, s)" and "get_nearby_drones e meters s = (Inr ns, s')"
  shows "sorted (map n_distance_m ns) \<and> s' = s \<and>
    set ns = {n. \<exists>r \<in> set fleet. near_result e (of_int (max 1 (min meters NEARBY_MAX_METRES))) tlat tlon r n} \<and>
    (\<forall>n \<in> set ns. n_distance_m n \<le> of_int (max 1 (min meters NEARBY_MAX_METRES)) \<and> n_distance_m n \<le> 5000)"
proof -
  let ?m = "of_int (max 1 (min meters NEARBY_MAX_METRES)) :: real"
  have "row_get target ''latitude'' \<noteq> CNull" using assms(3) by auto
  then have "bind (nearby_loop e ?m tlat tlon fleet []) (\<lambda>near. ret (sort_key n_distance_m near)) s = (Inr ns, s')"
    using assms(1,6) unfolding get_nearby_drones_def Let_def steady_def
    by (simp add: bind_Inr [where m = "get_drone_detail e"] bind_Inr [where m = "get_drones FLEET_SCAN_LIMIT True"]
        bind_Inr [where m = "gets is_connected"] gets_run assms(2,5) float_of_def assms(3,4) bind_ret_left)
  then obtain near where near: "nearby_loop e ?m tlat tlon fleet [] s = (Inr near, s')" "ns = sort_key n_distance_m near"
    unfolding bind_def ret_def by (auto split: prod.splits sum.splits)
  have set: "set near = {n. \<exists>r \<in> set fleet. near_result e ?m tlat tlon r n}" "s' = s"
    using nearby_loop_result [OF near(1)] by auto
  have le: "n_distance_m n \<le> ?m" if n: "n \<in> set near" for n
  proof -
    obtain d where "d \<le> ?m" "n_distance_m n = py_round 1 d"
      using n unfolding set(1) near_result_def by fastforce
    then show ?thesis
      using py_round_mono [of d ?m 1] py_round_int [of 1 "max 1 (min meters NEARBY_MAX_METRES)"] by simp
  qed
  have "?m \<le> 5000" by (simp add: NEARBY_MAX_METRES_def)
  then have "n_distance_m n \<le> 5000" if "n \<in> set near" for n
    using order.trans [OF le [OF that]] by blast
  then show ?thesis using set le by (simp add: near(2))
qed

lemma row_get_wire: "row_get (wire_row r) c = wire (row_get r c)"
  by (induction r) (auto simp: wire_row_def row_get_def)

lemma row_get_project: "row_get (project cs r) c = (if c \<in> set cs then row_get r c else CNull)"
  by (induction cs) (auto simp: project_def row_get_def)

lemma status_columns: "{''entity_id'', ''latitude'', ''longitude''} \<subseteq> set LATEST_STATUS_COLUMNS"
  by code_simp

definition asset_a :: row where
  "asset_a = [(''entity_id'', CText ''a''), (''latitude'', CDouble 1), (''longitude'', CDouble 1), (''is_flying'', CBool True)]"

definition lone_asset :: db where
  "lone_asset = empty_db(''drone_latest_status'' := [([CText ''a''], asset_a)])"

theorem nearby_is_every_asset_in_reach_witness:
  "\<exists>ns. get_nearby_drones ''a'' 500 (client_on lone_asset) = (Inr ns, client_on lone_asset) \<and>
     set ns = {n. near_result ''a'' 500 1 1 (wire_row (project LATEST_STATUS_COLUMNS asset_a)) n}"
proof -
  define s where "s = client_on lone_asset"
  have steady: "steady s" and up: "is_connected s" unfolding s_def using client_on_steady by (simp_all add: client_on_def)
  have a: "row_get asset_a ''entity_id'' = CText ''a''" "row_get asset_a ''latitude'' = CDouble 1"
      "row_get asset_a ''longitude'' = CDouble 1" "row_get asset_a ''is_flying'' = CBool True"
    by (simp_all add: asset_a_def row_get_def)
  have t: "select_all ''drone_latest_status'' (tables (fnode s)) = [asset_a]"
    by (simp add: s_def client_on_def node_world_def lone_asset_def select_all_def)
  define w where "w = wire_row (project LATEST_STATUS_COLUMNS asset_a)"
  have c: "''entity_id'' \<in> set LATEST_STATUS_COLUMNS" "''latitude'' \<in> set LATEST_STATUS_COLUMNS" "''longitude'' \<in> set LATEST_STATUS_COLUMNS"
    using status_columns by blast+
  have w: "number (row_get w ''latitude'') = Some 1" "number (row_get w ''longitude'') = Some 1"
      "row_get w ''entity_id'' = CText ''a''" "row_get w ''latitude'' \<noteq> CNull"
    by (simp_all add: w_def row_get_wire row_get_project c a)
  have d: "get_drone_detail ''a'' s = (Inr (Some w), s)"
    by (simp add: get_drone_detail_def bind_def fetch_steady [OF steady] t a w_def ret_def)
  have f: "get_drones FLEET_SCAN_LIMIT True s = (Inr [w], s)"
    by (simp add: get_drones_def fetch_steady [OF steady] t a w_def FLEET_SCAN_LIMIT_def)
  have run: "get_nearby_drones ''a'' 500 s = (Inr [], s)"
    unfolding get_nearby_drones_def Let_def
    by (simp add: bind_def gets_def up d f w float_of_def ret_def)
  from nearby_is_every_asset_in_reach [OF steady d w(1,2) f run] show ?thesis
    using run by (auto simp: s_def w_def NEARBY_MAX_METRES_def)
qed

definition lost_longitude :: db where
  "lost_longitude = empty_db(''drone_latest_status'' :=
     [([CText ''a''], [(''entity_id'', CText ''a''), (''latitude'', CDouble 1), (''longitude'', CDouble 1), (''is_flying'', CBool True)]),
      ([CText ''b''], [(''entity_id'', CText ''b''), (''latitude'', CDouble 1), (''is_flying'', CBool True)])])"

text \<open>
  Property. One asset with a latitude and no longitude makes the question about its neighbours fail for every
  asset: the route checks the latitude alone and the conversion of the missing longitude raises.
\<close>

theorem nearby_fails_on_a_lost_longitude:
  "fst (get_nearby_drones ''a'' 500 (client_on lost_longitude)) =
     Inl (Exn ''float() argument must be a string or a real number'')"
proof -
  define a :: row where "a = [(''entity_id'', CText ''a''), (''latitude'', CDouble 1), (''longitude'', CDouble 1), (''is_flying'', CBool True)]"
  define b :: row where "b = [(''entity_id'', CText ''b''), (''latitude'', CDouble 1), (''is_flying'', CBool True)]"
  have a: "row_get a ''entity_id'' = CText ''a''" "row_get a ''latitude'' = CDouble 1" "row_get a ''longitude'' = CDouble 1"
      "row_get a ''is_flying'' = CBool True" by (simp_all add: a_def row_get_def)
  have b: "row_get b ''entity_id'' = CText ''b''" "row_get b ''latitude'' = CDouble 1" "row_get b ''longitude'' = CNull"
      "row_get b ''is_flying'' = CBool True" by (simp_all add: b_def row_get_def)
  have t: "select_all ''drone_latest_status'' (tables (fnode (client_on lost_longitude))) = [a, b]"
    by (simp add: client_on_def node_world_def lost_longitude_def select_all_def a_def b_def)
  have up: "is_connected (client_on lost_longitude)" by (simp add: client_on_def)
  define s where "s = client_on lost_longitude"
  note t = t [folded s_def] and up = up [folded s_def] and steady = client_on_steady [of lost_longitude, folded s_def]
  have d: "get_drone_detail ''a'' s = (Inr (Some (wire_row (project LATEST_STATUS_COLUMNS a))), s)"
    by (simp add: get_drone_detail_def bind_def fetch_steady [OF steady] t a b ret_def)
  have f: "get_drones FLEET_SCAN_LIMIT True s = (Inr (map (wire_row \<circ> project LATEST_STATUS_COLUMNS) [a, b]), s)"
    by (simp add: get_drones_def fetch_steady [OF steady] t a b FLEET_SCAN_LIMIT_def)
  have c: "''entity_id'' \<in> set LATEST_STATUS_COLUMNS" "''latitude'' \<in> set LATEST_STATUS_COLUMNS" "''longitude'' \<in> set LATEST_STATUS_COLUMNS"
    using status_columns by blast+
  show ?thesis
    unfolding get_nearby_drones_def Let_def s_def [symmetric]
    by (simp add: bind_def gets_def up d f row_get_wire row_get_project c a b float_of_def ret_def raise_def)
qed

section \<open>Demo controls, in any order\<close>

datatype control = Update demo_settings | Toggle

text \<open>A body that fails validation is answered 422 and changes nothing.\<close>

definition control_step :: "demo_env \<Rightarrow> control \<Rightarrow> demo_settings \<Rightarrow> demo_settings" where
  "control_step env c s = (case c of
     Update new \<Rightarrow> if settings_valid new then snd (update_demo_settings env new s) else s
   | Toggle \<Rightarrow> snd (toggle_pause s))"

text \<open>
  Property. The demo's settings stay in range: from valid defaults, with a cap of at least one asset, any
  sequence of updates and pauses keeps every setting within its bounds and the fleet within the
  cap.
\<close>

theorem settings_stay_in_range:
  assumes "1 \<le> demo_max_entities env" and "settings_valid (default_settings env)"
  shows "settings_valid (fold (control_step env) cs (default_settings env)) \<and>
    drones_enabled (fold (control_step env) cs (default_settings env)) \<le> demo_max_entities env"
proof -
  define ok where "ok = (\<lambda>s. settings_valid s \<and> drones_enabled s \<le> demo_max_entities env)"
  have "step_system (control_step env) ok"
    using assms(1) by (intro step_system.intro)
      (auto simp: ok_def control_step_def update_demo_settings_def toggle_pause_def settings_valid_def Let_def split: control.splits)
  moreover have "ok (default_settings env)" using assms(2) by (simp add: ok_def default_settings_def)
  ultimately have "ok (fold (control_step env) cs (default_settings env))" by (rule step_system.run_inv)
  then show ?thesis by (simp add: ok_def)
qed

definition demo_env_default :: demo_env where
  "demo_env_default = \<lparr>demo_n_entities = 100, demo_max_entities = 2000, demo_events_per_sec = 5, demo_outlier_percent = 5\<rparr>"

theorem settings_stay_in_range_witness:
  "drones_enabled (fold (control_step demo_env_default)
     [Update \<lparr>drones_enabled = 5000, events_per_sec = 10, outlier_percent = 0, paused = False\<rparr>, Toggle]
     (default_settings demo_env_default)) \<le> 2000"
  using settings_stay_in_range [of demo_env_default
      "[Update \<lparr>drones_enabled = 5000, events_per_sec = 10, outlier_percent = 0, paused = False\<rparr>, Toggle]"]
  by (simp add: demo_env_default_def settings_valid_def default_settings_def)

end
