(* ===== verification/Cqlite.thy ===== *)
theory Cqlite
  imports Fleet Pystr
begin

text \<open>
  The cqlite client (\<open>src/backend/app/db/cqlite_client.py\<close>): SQL over the SSTable files of one
  keyspace. Registration of a provider per table and its throttled retry, the directory of a table,
  the running of a statement with what it read, and cancellation.

  The extension modules, the schema metadata of the driver and the file system are the record
  \<open>reader\<close> of parameters over a state \<open>'x\<close> of their own; a provider is a handle. The connection to
  Cassandra is that of \<open>Fleet\<close>. The lock of a statement is held by another thread when \<open>in_flight\<close>
  is set, and \<open>stops\<close> says of each statement to come whether \<open>abort\<close> is called while it runs.
\<close>

section \<open>Readable errors\<close>

definition CQLITE_TABLES :: "string list" where
  "CQLITE_TABLES = [''events'', ''drone_latest_status'', ''drone_events_by_entity'']"

definition MESSAGE_LIMIT :: nat where
  "MESSAGE_LIMIT = 400"

definition RETRY_AFTER_S :: real where
  "RETRY_AFTER_S = 30"

definition PREFIXES :: "string list" where
  "PREFIXES = [''FFI error: '', ''DataFusion error: '', ''Execution error: '', ''External error: '', ''cqlite: '']"

text \<open>One pass of the inner loop: the text and whether a prefix was taken off.\<close>

fun strip_pass :: "string list \<Rightarrow> string \<Rightarrow> bool \<Rightarrow> string \<times> bool" where
  "strip_pass [] t stripped = (t, stripped)"
| "strip_pass (p # ps) t stripped =
    (if starts_with p t then strip_pass ps (drop (length p) t) True else strip_pass ps t stripped)"

lemma strip_pass_parts:
  "strip_pass ps t b = (t', b') \<Longrightarrow> \<exists>qs. set qs \<subseteq> set ps \<and> t = concat qs @ t' \<and> b' = (b \<or> qs \<noteq> [])"
proof (induction ps t b rule: strip_pass.induct)
  case (2 p ps t stripped)
  show ?case
  proof (cases "starts_with p t")
    case True
    then have t: "t = p @ drop (length p) t" by (metis append_take_drop_id starts_with_def)
    from "2.IH"(1) [OF True] "2.prems" True obtain qs where
      "set qs \<subseteq> set ps" "drop (length p) t = concat qs @ t'" "b'" by auto
    then have "set (p # qs) \<subseteq> set (p # ps) \<and> t = concat (p # qs) @ t' \<and> b' = (stripped \<or> p # qs \<noteq> [])" using t by auto
    then show ?thesis by blast
  next
    case False
    then have "strip_pass ps t stripped = (t', b')" using "2.prems" by simp
    from "2.IH"(2) [OF False this] show ?thesis by (metis set_subset_Cons subset_trans)
  qed
qed auto

lemma strip_pass_quiet: "strip_pass ps t b = (t', False) \<Longrightarrow> \<not> b \<and> t' = t \<and> (\<forall>p \<in> set ps. \<not> starts_with p t)"
  by (induction ps t b rule: strip_pass.induct) (auto split: if_splits)

lemma PREFIXES_nonempty: "\<forall>p \<in> set PREFIXES. p \<noteq> []"
  by (simp add: PREFIXES_def)

lemma strip_pass_shorter: "strip_pass PREFIXES t False = (t', True) \<Longrightarrow> length t' < length t"
proof -
  assume "strip_pass PREFIXES t False = (t', True)"
  then obtain qs where qs: "set qs \<subseteq> set PREFIXES" "t = concat qs @ t'" "qs \<noteq> []"
    using strip_pass_parts [of PREFIXES t False t' True] by auto
  then have "0 < length (hd qs)" using PREFIXES_nonempty hd_in_set by (metis length_greater_0_conv subsetD)
  then show ?thesis using qs by (cases qs) auto
qed

function strip_prefixes :: "string \<Rightarrow> string" where
  "strip_prefixes t = (let (t', stripped) = strip_pass PREFIXES t False in if stripped then strip_prefixes t' else t')"
  by pat_completeness auto

termination strip_prefixes
  by (relation "measure length", simp) (metis (full_types) in_measure strip_pass_shorter)

declare strip_prefixes.simps [simp del]

definition readable_error :: "exn \<Rightarrow> string" where
  "readable_error e = take MESSAGE_LIMIT (strip_prefixes (join '' '' (words (exn_str e))))"

section \<open>The client\<close>

record scan =
  s_files :: int
  s_bytes :: int
  s_open_ms :: real
  s_age_s :: "int option"

record 'x reader =
  import_error :: "string option"
  table_id :: "string \<Rightarrow> 'x \<Rightarrow> exn + string option"
  as_cql_query :: "string \<Rightarrow> 'x \<Rightarrow> exn + string"
  isdir :: "string \<Rightarrow> 'x \<Rightarrow> bool"
  listdir :: "string \<Rightarrow> 'x \<Rightarrow> string list"
  new_session :: "'x \<Rightarrow> nat \<times> 'x"
  open_provider :: "string \<Rightarrow> string \<Rightarrow> 'x \<Rightarrow> (exn + nat) \<times> 'x"
  register_table :: "nat \<Rightarrow> string \<Rightarrow> nat \<Rightarrow> 'x \<Rightarrow> (exn + unit) \<times> 'x"
  deregister_table :: "nat \<Rightarrow> string \<Rightarrow> 'x \<Rightarrow> (exn + unit) \<times> 'x"
  collect :: "nat \<Rightarrow> string \<Rightarrow> 'x \<Rightarrow> (exn + row list) \<times> 'x"
  cancel :: "nat \<Rightarrow> 'x \<Rightarrow> (exn + unit) \<times> 'x"
  discover :: "nat \<Rightarrow> 'x \<Rightarrow> (exn + int \<times> int) \<times> 'x"
  last_scan :: "nat \<Rightarrow> 'x \<Rightarrow> scan"

record 'x cqlite =
  cass :: cassandra_client
  outer :: 'x
  ctx :: "nat option"
  providers :: "(string \<times> nat) list"
  declined :: "(string \<times> string) list"
  attempted_at :: real
  aborted :: bool
  connected :: bool
  in_flight :: bool
  stops :: "bool list"
  m_files :: "int option"
  m_bytes :: "int option"
  m_reader_open_ms :: "real option"
  m_data_age_s :: "int option"

type_synonym ('x, 'a) cq = "('x cqlite, 'a) pm"

definition on_cass :: "'a fleet \<Rightarrow> ('x, 'a) cq" where
  "on_cass m = (\<lambda>s. case m (cass s) of (r, c) \<Rightarrow> (r, s\<lparr>cass := c\<rparr>))"

definition calls :: "('x \<Rightarrow> (exn + 'a) \<times> 'x) \<Rightarrow> ('x, 'a) cq" where
  "calls f = (\<lambda>s. case f (outer s) of (r, x) \<Rightarrow> (r, s\<lparr>outer := x\<rparr>))"

definition asked :: "('x \<Rightarrow> exn + 'a) \<Rightarrow> ('x, 'a) cq" where
  "asked f = (\<lambda>s. (f (outer s), s))"

section \<open>Connecting\<close>

definition path_join :: "string \<Rightarrow> string \<Rightarrow> string" where
  "path_join a b = (if a = [] \<or> last a = CHR ''/'' then a @ b else a @ ''/'' @ b)"

definition table_directory :: "'x reader \<Rightarrow> string \<Rightarrow> string \<Rightarrow> string \<Rightarrow> ('x, string) cq" where
  "table_directory R data_dir keyspace table =
    (let root = path_join data_dir keyspace in
     bind (on_cass session) (\<lambda>_. bind (asked (table_id R table)) (\<lambda>tid.
     bind (gets (\<lambda>s. case tid of None \<Rightarrow> None
        | Some i \<Rightarrow> (let directory = path_join root (table @ ''-'' @ remove_sub ''-'' i) in
            if isdir R directory (outer s) then Some directory else None))) (\<lambda>current.
     case current of Some directory \<Rightarrow> ret directory
     | None \<Rightarrow>
         bind (gets (\<lambda>s. sort (map (path_join root) (filter (starts_with (table @ ''-'')) (listdir R root (outer s)))))) (\<lambda>matches.
         case matches of
           [m] \<Rightarrow> ret m
         | [] \<Rightarrow> raise (Exn (''no directory for '' @ keyspace @ ''.'' @ table @ '' under '' @ root @
             ''; the data directory is mounted read-only at CQLITE_DATA_DIR''))
         | _ \<Rightarrow> raise (Exn (nat_str (length matches) @ '' directories match '' @ keyspace @ ''.'' @ table @ '' under '' @ root @
             '' and the cluster did not say which is current'')))))))"

definition create_table_cql :: "'x reader \<Rightarrow> string \<Rightarrow> ('x, string) cq" where
  "create_table_cql R table = bind (on_cass session) (\<lambda>_. asked (as_cql_query R table))"

text \<open>The directory, the schema and the provider of a table; a table is registered in a session.\<close>

definition open_table :: "'x reader \<Rightarrow> string \<Rightarrow> string \<Rightarrow> string \<Rightarrow> ('x, nat) cq" where
  "open_table R data_dir keyspace table =
    bind (table_directory R data_dir keyspace table) (\<lambda>directory.
    bind (create_table_cql R table) (\<lambda>ddl. calls (open_provider R directory ddl)))"

definition decline :: "string \<Rightarrow> exn \<Rightarrow> ('x, unit) cq" where
  "decline table e = modify (\<lambda>s. s\<lparr>declined := AList.update table (readable_error e) (declined s)\<rparr>)"

fun connect_loop :: "'x reader \<Rightarrow> string \<Rightarrow> string \<Rightarrow> nat \<Rightarrow> string list \<Rightarrow> (string \<times> nat) list \<Rightarrow> ('x, (string \<times> nat) list) cq" where
  "connect_loop R data_dir keyspace c [] found = ret found"
| "connect_loop R data_dir keyspace c (table # rest) found =
    bind (attempt (bind (open_table R data_dir keyspace table) (\<lambda>p.
      bind (calls (register_table R c table p)) (\<lambda>_. ret p)))) (\<lambda>r.
    case r of
      Inr p \<Rightarrow> connect_loop R data_dir keyspace c rest (AList.update table p found)
    | Inl e \<Rightarrow> bind (decline table e) (\<lambda>_. connect_loop R data_dir keyspace c rest found))"

text \<open>\<open>if not cassandra_client.connected: cassandra_client.connect()\<close>, and whether it now is.\<close>

definition cassandra_up :: "('x, bool) cq" where
  "cassandra_up =
    bind (bind (gets (\<lambda>s. is_connected (cass s))) (\<lambda>up. if up then ret () else on_cass (connect False))) (\<lambda>_.
      gets (\<lambda>s. is_connected (cass s)))"

definition cqlite_connect :: "'x reader \<Rightarrow> string \<Rightarrow> string \<Rightarrow> ('x, unit) cq" where
  "cqlite_connect R data_dir keyspace =
    bind (on_cass monotonic) (\<lambda>t. bind (modify (\<lambda>s. s\<lparr>attempted_at := t, declined := []\<rparr>)) (\<lambda>_.
    case import_error R of Some m \<Rightarrow> modify (\<lambda>s. s\<lparr>connected := False\<rparr>)
    | None \<Rightarrow>
      bind cassandra_up (\<lambda>up.
      if \<not> up then modify (\<lambda>s. s\<lparr>connected := False\<rparr>)
      else bind (calls (\<lambda>x. case new_session R x of (c, x') \<Rightarrow> (Inr c, x'))) (\<lambda>c.
        bind (connect_loop R data_dir keyspace c CQLITE_TABLES []) (\<lambda>found.
          modify (\<lambda>s. s\<lparr>ctx := Some c, providers := found, connected := found \<noteq> []\<rparr>))))))"

fun register_loop :: "'x reader \<Rightarrow> string \<Rightarrow> string \<Rightarrow> nat \<Rightarrow> string list \<Rightarrow> ('x, unit) cq" where
  "register_loop R data_dir keyspace c [] = ret ()"
| "register_loop R data_dir keyspace c (table # rest) =
    bind (gets (\<lambda>s. table \<in> fst ` set (providers s))) (\<lambda>known.
    bind (if known then ret ()
      else try_except
        (bind (open_table R data_dir keyspace table) (\<lambda>p.
         bind (try_except (calls (deregister_table R c table)) (\<lambda>_. ret ())) (\<lambda>_.
         bind (calls (register_table R c table p)) (\<lambda>_.
           modify (\<lambda>s. s\<lparr>providers := AList.update table p (providers s), declined := AList.delete table (declined s)\<rparr>)))))
        (decline table)) (\<lambda>_.
    register_loop R data_dir keyspace c rest))"

definition register_missing :: "'x reader \<Rightarrow> string \<Rightarrow> string \<Rightarrow> ('x, unit) cq" where
  "register_missing R data_dir keyspace =
    bind (on_cass monotonic) (\<lambda>t. bind (modify (\<lambda>s. s\<lparr>attempted_at := t\<rparr>)) (\<lambda>_.
    bind (gets ctx) (\<lambda>c. case c of None \<Rightarrow> ret ()
    | Some c \<Rightarrow>
      if import_error R \<noteq> None then ret ()
      else bind cassandra_up (\<lambda>up. if \<not> up then ret () else register_loop R data_dir keyspace c CQLITE_TABLES))))"

definition ensure_registered :: "'x reader \<Rightarrow> string \<Rightarrow> string \<Rightarrow> ('x, bool) cq" where
  "ensure_registered R data_dir keyspace =
    bind (gets providers) (\<lambda>ps.
    if length ps = length CQLITE_TABLES then ret True
    else bind (on_cass monotonic) (\<lambda>t. bind (gets attempted_at) (\<lambda>last.
      if t - last < RETRY_AFTER_S then ret (ps \<noteq> [])
      else bind (if ps = [] then cqlite_connect R data_dir keyspace else register_missing R data_dir keyspace) (\<lambda>_.
        gets (\<lambda>s. providers s \<noteq> [])))))"

section \<open>Running a statement\<close>

definition CANCELLED_MESSAGE :: string where
  "CANCELLED_MESSAGE = ''Cancelled: the scan was stopped, so the reader abandoned the merge.  The next query starts a new one.''"

fun cancel_all :: "'x reader \<Rightarrow> nat list \<Rightarrow> ('x, unit) cq" where
  "cancel_all R [] = ret ()"
| "cancel_all R (p # ps) = bind (calls (cancel R p)) (\<lambda>_. cancel_all R ps)"

definition abort :: "'x reader \<Rightarrow> ('x, bool) cq" where
  "abort R =
    bind (gets in_flight) (\<lambda>running.
    bind (if running then modify (\<lambda>s. s\<lparr>aborted := True\<rparr>) else ret ()) (\<lambda>_.
    bind (gets (\<lambda>s. map snd (providers s))) (\<lambda>ps.
    bind (cancel_all R ps) (\<lambda>_. ret running))))"

definition reset_measured :: "('x, unit) cq" where
  "reset_measured = modify (\<lambda>s. s\<lparr>m_files := None, m_bytes := None, m_reader_open_ms := None, m_data_age_s := None\<rparr>)"

text \<open>The scans of the providers whose table's name occurs in the statement.\<close>

definition scans_of :: "'x reader \<Rightarrow> string \<Rightarrow> 'x cqlite \<Rightarrow> scan list" where
  "scans_of R sql s = map (\<lambda>(_, p). last_scan R p (outer s)) (filter (\<lambda>(table, _). find_sub table (lower sql) \<noteq> None) (providers s))"

definition collect_measured :: "'x reader \<Rightarrow> string \<Rightarrow> ('x, unit) cq" where
  "collect_measured R sql =
    bind (gets (scans_of R sql)) (\<lambda>scans.
    if scans = [] then ret ()
    else let ages = List.map_filter s_age_s scans in
      modify (\<lambda>s. s\<lparr>m_files := Some (sum_list (map s_files scans)), m_bytes := Some (sum_list (map s_bytes scans)),
        m_reader_open_ms := Some (py_round 1 (sum_list (map s_open_ms scans))),
        m_data_age_s := if ages = [] then None else Some (Max (set ages))\<rparr>))"

fun plain :: "cval \<Rightarrow> cval" where
  "plain (CTime t) = CText (isoformat (utc_fields t))"
| "plain (CDate d) = CText (take 10 (isoformat (utc_fields (d * 86400000000))))"
| "plain v = v"

text \<open>The scan itself, while which another thread may call \<open>abort\<close>.\<close>

definition scanning :: "'x reader \<Rightarrow> nat \<Rightarrow> string \<Rightarrow> ('x, row list) cq" where
  "scanning R c sql =
    bind (gets (\<lambda>s. stops s \<noteq> [] \<and> hd (stops s))) (\<lambda>stop.
    bind (modify (\<lambda>s. s\<lparr>stops := tl (stops s)\<rparr>)) (\<lambda>_.
    bind (if stop then bind (attempt (abort R)) (\<lambda>_. ret ()) else ret ()) (\<lambda>_.
      calls (collect R c sql))))"

definition cqlite_execute_query :: "'x reader \<Rightarrow> string \<Rightarrow> ('x, row list) cq" where
  "cqlite_execute_query R sql =
    bind reset_measured (\<lambda>_.
    bind (modify (\<lambda>s. s\<lparr>in_flight := True\<rparr>)) (\<lambda>_.
    bind (try_finally
      (bind (gets ctx) (\<lambda>c. case c of None \<Rightarrow> raise (Exn ''cqlite reader not connected'')
       | Some c \<Rightarrow>
         bind (modify (\<lambda>s. s\<lparr>aborted := False\<rparr>)) (\<lambda>_.
         bind (attempt (scanning R c sql)) (\<lambda>r.
         case r of
           Inl e \<Rightarrow>
             bind (collect_measured R sql) (\<lambda>_.
             bind (gets aborted) (\<lambda>stopped.
             if stopped \<or> find_sub ''cancelled'' (lower (readable_error e)) \<noteq> None then raise (Exn CANCELLED_MESSAGE)
             else raise (Exn (readable_error e))))
         | Inr rows \<Rightarrow> bind (collect_measured R sql) (\<lambda>_. ret rows)))))
      (\<lambda>s. s\<lparr>in_flight := False\<rparr>)) (\<lambda>rows.
    ret (map (map (\<lambda>(c, v). (c, plain v))) rows))))"

text \<open>What the registered directories hold, for the health probe.\<close>

fun files_loop :: "'x reader \<Rightarrow> nat list \<Rightarrow> int \<Rightarrow> int \<Rightarrow> ('x, int \<times> int) cq" where
  "files_loop R [] files bytes = ret (files, bytes)"
| "files_loop R (p # ps) files bytes =
    bind (attempt (calls (discover R p))) (\<lambda>r.
    case r of Inl _ \<Rightarrow> files_loop R ps files bytes | Inr (f, b) \<Rightarrow> files_loop R ps (files + f) (bytes + b))"

definition files_now :: "'x reader \<Rightarrow> ('x, nat \<times> int \<times> int) cq" where
  "files_now R =
    bind (gets providers) (\<lambda>ps. bind (files_loop R (map snd ps) 0 0) (\<lambda>(f, b). ret (length ps, f, b)))"

section \<open>Lemmas\<close>

subsection \<open>Errors\<close>

lemma strip_prefixes_parts:
  "\<exists>qs. set qs \<subseteq> set PREFIXES \<and> t = concat qs @ strip_prefixes t \<and> (\<forall>p \<in> set PREFIXES. \<not> starts_with p (strip_prefixes t))"
proof (induction t rule: strip_prefixes.induct)
  case (1 t)
  obtain t' b where p: "strip_pass PREFIXES t False = (t', b)" by (metis surj_pair)
  obtain qs where qs: "set qs \<subseteq> set PREFIXES" "t = concat qs @ t'" using strip_pass_parts [OF p] by blast
  show ?case
  proof (cases b)
    case True
    from "1.IH" [OF p [symmetric] refl True] obtain qs' where
      "set qs' \<subseteq> set PREFIXES" "t' = concat qs' @ strip_prefixes t'" "\<forall>p \<in> set PREFIXES. \<not> starts_with p (strip_prefixes t')" by blast
    moreover have "strip_prefixes t = strip_prefixes t'" using p True by (subst strip_prefixes.simps) simp
    ultimately have "set (qs @ qs') \<subseteq> set PREFIXES \<and> t = concat (qs @ qs') @ strip_prefixes t \<and>
        (\<forall>p \<in> set PREFIXES. \<not> starts_with p (strip_prefixes t))" using qs by simp
    then show ?thesis by blast
  next
    case False
    then have "\<forall>p \<in> set PREFIXES. \<not> starts_with p t" "t' = t" using strip_pass_quiet p by auto
    moreover have "strip_prefixes t = t'" using p False by (subst strip_prefixes.simps) simp
    ultimately have "set [] \<subseteq> set PREFIXES \<and> t = concat [] @ strip_prefixes t \<and>
        (\<forall>p \<in> set PREFIXES. \<not> starts_with p (strip_prefixes t))" by simp
    then show ?thesis by blast
  qed
qed

lemma PREFIXES_apart:
  assumes "p \<in> set PREFIXES" and "q \<in> set PREFIXES" and "starts_with p t" and "starts_with q t"
  shows "p = q"
proof -
  have "3 \<le> length p" "3 \<le> length q" using assms(1,2) by (auto simp: PREFIXES_def)
  then have "take 3 p = take 3 q" using assms(3,4) unfolding starts_with_def by (metis min.absorb1 take_take)
  then show ?thesis using assms(1,2) by (auto simp: PREFIXES_def)
qed

lemma starts_with_append: "starts_with p (p @ t)"
  by (simp add: starts_with_def)

lemma normal_form_unique:
  assumes "set qs \<subseteq> set PREFIXES" and "set qs' \<subseteq> set PREFIXES" and "concat qs @ r = concat qs' @ r'"
    and "\<forall>p \<in> set PREFIXES. \<not> starts_with p r" and "\<forall>p \<in> set PREFIXES. \<not> starts_with p r'"
  shows "r = r'"
  using assms
proof (induction qs arbitrary: qs')
  case Nil
  then show ?case by (cases qs') (auto simp: starts_with_append)
next
  case (Cons q qs)
  show ?case
  proof (cases qs')
    case Nil
    then show ?thesis using Cons.prems starts_with_append [of q "concat qs @ r"] by auto
  next
    case (Cons q' qs2)
    have "q = q'" using Cons.prems(1-3) PREFIXES_apart starts_with_append unfolding Cons
      by (metis append.assoc concat.simps(2) insert_subset list.simps(15))
    then show ?thesis using Cons.IH [of qs2] Cons.prems Cons by simp
  qed
qed

lemma strip_prefixes_unique:
  "set qs \<subseteq> set PREFIXES \<Longrightarrow> strip_prefixes (concat qs @ t) = strip_prefixes t"
proof -
  assume q: "set qs \<subseteq> set PREFIXES"
  obtain ps where ps: "set ps \<subseteq> set PREFIXES" "t = concat ps @ strip_prefixes t" "\<forall>p \<in> set PREFIXES. \<not> starts_with p (strip_prefixes t)"
    using strip_prefixes_parts by blast
  obtain ps' where ps': "set ps' \<subseteq> set PREFIXES" "concat qs @ t = concat ps' @ strip_prefixes (concat qs @ t)"
    "\<forall>p \<in> set PREFIXES. \<not> starts_with p (strip_prefixes (concat qs @ t))"
    using strip_prefixes_parts by blast
  have "concat ps' @ strip_prefixes (concat qs @ t) = concat (qs @ ps) @ strip_prefixes t"
    using ps(2) ps'(2) by (metis append.assoc concat_append)
  then show ?thesis using normal_form_unique [of ps' "qs @ ps"] ps ps' q by simp
qed

abbreviation word_split :: "string \<Rightarrow> string list \<Rightarrow> string list" where
  "word_split \<equiv> foldr (\<lambda>c ws. if is_space c then [] # ws else case ws of w # ws \<Rightarrow> (c # w) # ws | [] \<Rightarrow> [[c]])"

lemma word_split_append: "word_split u (w # ws) = word_split u [w] @ ws \<and> word_split u [w] \<noteq> []"
  by (induction u) (auto split: list.splits)

lemma words_append: "is_space c \<Longrightarrow> words (u @ c # v) = words u @ words v"
  using word_split_append [of u "[]" "word_split v [[]]"] by (simp add: words_def)

lemma join_append: "xs \<noteq> [] \<Longrightarrow> ys \<noteq> [] \<Longrightarrow> join sep (xs @ ys) = join sep xs @ sep @ join sep ys"
proof (induction xs)
  case (Cons x xs)
  then show ?case by (cases xs; cases ys) auto
qed simp

lemma PREFIXES_words: "p \<in> set PREFIXES \<Longrightarrow> \<exists>u. p = u @ [CHR '' ''] \<and> words u \<noteq> [] \<and> join '' '' (words u) = u"
  unfolding PREFIXES_def set_simps insert_iff empty_iff
  by (elim disjE) (simp_all add: words_def is_space_def)

lemma collapse_prefixes:
  assumes "set qs \<subseteq> set PREFIXES" and "words m \<noteq> []"
  shows "words (concat qs @ m) \<noteq> [] \<and> join '' '' (words (concat qs @ m)) = concat qs @ join '' '' (words m)"
  using assms(1)
proof (induction qs)
  case (Cons q qs)
  then obtain u where u: "q = u @ [CHR '' '']" "words u \<noteq> []" "join '' '' (words u) = u" using PREFIXES_words [of q] by auto
  have "words (concat (q # qs) @ m) = words u @ words (concat qs @ m)"
    using words_append [of "CHR '' ''" u "concat qs @ m"] by (simp add: u(1) is_space_def)
  then show ?case using Cons u by (simp add: join_append)
qed (use assms(2) in simp)

text \<open>
  C25. The loop that takes the prefixes off ends with none left, in whatever order and however often
  the layers a failure crossed put theirs on: a message with any layers around it reads as it
  does without them, the text is cut to 400 characters, and what is left of it starts with no prefix.
\<close>

theorem readable_error_sheds_layers:
  assumes "set layers \<subseteq> set PREFIXES" and "words m \<noteq> []"
  shows "readable_error (Exn (concat layers @ m)) = readable_error (Exn m) \<and>
    length (readable_error (Exn m)) \<le> MESSAGE_LIMIT \<and>
    (\<exists>qs t. set qs \<subseteq> set PREFIXES \<and> join '' '' (words m) = concat qs @ t \<and> \<not> (\<exists>p \<in> set PREFIXES. starts_with p t) \<and>
      readable_error (Exn m) = take MESSAGE_LIMIT t)"
  using strip_prefixes_parts [of "join '' '' (words m)"] collapse_prefixes [OF assms] strip_prefixes_unique [OF assms(1)]
  by (auto simp: readable_error_def exn_str_def)

theorem readable_error_sheds_layers_witness:
  "readable_error (Exn (''FFI error: External error: cqlite: FFI error: '' @ ''no such file'')) = ''no such file''"
proof -
  have "strip_prefixes ''no such file'' = ''no such file''"
    by (subst strip_prefixes.simps) (simp add: PREFIXES_def starts_with_def)
  then have "readable_error (Exn ''no such file'') = ''no such file''"
    by (simp add: readable_error_def exn_str_def words_def is_space_def MESSAGE_LIMIT_def)
  moreover have "set [''FFI error: '', ''External error: '', ''cqlite: '', ''FFI error: ''] \<subseteq> set PREFIXES" by (simp add: PREFIXES_def)
  moreover have "words ''no such file'' \<noteq> []" by (simp add: words_def is_space_def)
  ultimately show ?thesis
    using readable_error_sheds_layers [of "[''FFI error: '', ''External error: '', ''cqlite: '', ''FFI error: '']" "''no such file''"] by simp
qed

subsection \<open>Registration\<close>

text \<open>What no call outside and none to Cassandra touches.\<close>

definition kept :: "'x cqlite \<Rightarrow> _" where
  "kept s = (ctx s, providers s, declined s, attempted_at s, aborted s, connected s, in_flight s, stops s,
     m_files s, m_bytes s, m_reader_open_ms s, m_data_age_s s)"

definition quiet :: "('x, 'a) cq \<Rightarrow> bool" where
  "quiet m \<longleftrightarrow> (\<forall>z. preserves (\<lambda>s. kept s = z) m)"

lemma quietD: "quiet m \<Longrightarrow> m s = (r, s') \<Longrightarrow> kept s' = kept s"
  using preservesD [where I = "\<lambda>x. kept x = kept s" and m = m and s = s] unfolding quiet_def by (metis snd_conv)

lemma quiet_on_cass: "quiet (on_cass m)" and quiet_calls: "quiet (calls f)" and quiet_asked: "quiet (asked g)"
  by (auto simp: quiet_def preserves_def on_cass_def calls_def asked_def kept_def split: prod.splits)

lemmas quiet_basic = quiet_on_cass [unfolded quiet_def, rule_format] quiet_calls [unfolded quiet_def, rule_format]
  quiet_asked [unfolded quiet_def, rule_format]

lemma quiet_open_table: "quiet (open_table R dd ks table)"
  unfolding quiet_def open_table_def table_directory_def create_table_cql_def Let_def
  by (auto intro!: preserves_intros quiet_basic split: list.split)

lemma quiet_cassandra_up: "quiet cassandra_up"
  unfolding quiet_def cassandra_up_def by (intro allI preserves_intros quiet_basic)

lemma cassandra_up_total: "total cassandra_up"
proof -
  have "total (on_cass (connect False))"
    using connect_total by (auto simp: total_def on_cass_def split: prod.splits) (metis prod.inject)
  then show ?thesis unfolding cassandra_up_def by (intro total_intros)
qed

text \<open>Registered tables are tables of the path, once each, none of them also declined, and they
  have a session.\<close>

definition registered_ok :: "'x cqlite \<Rightarrow> bool" where
  "registered_ok s \<longleftrightarrow> distinct (map fst (providers s)) \<and> fst ` set (providers s) \<subseteq> set CQLITE_TABLES \<and>
     fst ` set (providers s) \<inter> fst ` set (declined s) = {} \<and> (connected s \<longleftrightarrow> providers s \<noteq> []) \<and>
     (providers s \<noteq> [] \<longrightarrow> ctx s \<noteq> None)"

lemma connect_loop_outcome:
  assumes "connect_loop R dd ks c ts found s = (r, s')" and "distinct ts" and "distinct (map fst found)"
    and "fst ` set found \<inter> fst ` set (declined s) = {}" and "set ts \<inter> (fst ` set found \<union> fst ` set (declined s)) = {}"
  shows "\<exists>fs. r = Inr fs \<and> ctx s' = ctx s \<and> providers s' = providers s \<and> connected s' = connected s \<and>
    attempted_at s' = attempted_at s \<and> distinct (map fst fs) \<and> fst ` set fs \<inter> fst ` set (declined s') = {} \<and>
    fst ` set fs \<union> fst ` set (declined s') = fst ` set found \<union> fst ` set (declined s) \<union> set ts"
  using assms
proof (induction ts arbitrary: found s)
  case Nil
  then show ?case by (auto simp: ret_def)
next
  case (Cons t ts)
  define m where "m = bind (open_table R dd ks t) (\<lambda>p. bind (calls (register_table R c t p)) (\<lambda>_. ret p))"
  obtain r1 s1 where m: "m s = (r1, s1)" by (metis surj_pair)
  have "quiet m" unfolding m_def quiet_def
    by (intro allI preserves_intros quiet_basic quiet_open_table [unfolded quiet_def, rule_format])
  then have k: "kept s1 = kept s" using quietD m by blast
  show ?case
  proof (cases r1)
    case (Inr p)
    then have "connect_loop R dd ks c ts (AList.update t p found) s1 = (r, s')"
      using Cons.prems(1) m unfolding connect_loop.simps m_def [symmetric] by (simp add: bind_def attempt_def)
    from Cons.IH [OF this] show ?thesis using Cons.prems(2-5) k
      by (auto simp: kept_def update_conv' dom_update AList.distinct_update image_iff)
  next
    case (Inl e)
    then have "connect_loop R dd ks c ts found (s1\<lparr>declined := AList.update t (readable_error e) (declined s1)\<rparr>) = (r, s')"
      using Cons.prems(1) m unfolding connect_loop.simps m_def [symmetric] by (simp add: bind_def attempt_def decline_def modify_def)
    from Cons.IH [OF this] show ?thesis using Cons.prems(2-5) k
      by (auto simp: kept_def dom_update image_iff)
  qed
qed

text \<open>What a later state keeps of an earlier one.\<close>

definition stays :: "'x cqlite \<Rightarrow> 'x cqlite \<Rightarrow> bool" where
  "stays s0 s \<longleftrightarrow> registered_ok s \<and> map_of (providers s0) \<subseteq>\<^sub>m map_of (providers s) \<and> (providers s0 \<noteq> [] \<longrightarrow> ctx s = ctx s0)"

lemma map_le_nonempty: "map_of ps \<subseteq>\<^sub>m map_of qs \<Longrightarrow> ps \<noteq> [] \<Longrightarrow> qs \<noteq> []"
  by (metis dom_eq_empty_conv map_le_implies_dom_le map_of_eq_empty_iff subset_empty)

lemma stays_trans: "stays a b \<Longrightarrow> stays b c \<Longrightarrow> stays a c"
  unfolding stays_def using map_le_trans map_le_nonempty by metis

lemma stays_refl: "registered_ok s \<Longrightarrow> stays s s"
  by (simp add: stays_def)

lemma stays_kept:
  "ctx s = ctx s' \<Longrightarrow> providers s = providers s' \<Longrightarrow> declined s = declined s' \<Longrightarrow> connected s = connected s' \<Longrightarrow>
    stays s0 s \<longleftrightarrow> stays s0 s'"
  by (simp add: stays_def registered_ok_def)

lemma connect_stays:
  assumes "registered_ok s" and "providers s = []" and "cqlite_connect R dd ks s = (r, s')"
  shows "stays s s' \<and> r = Inr ()"
proof -
  obtain t s1 where mono: "on_cass monotonic s = (Inr t, s1)" by (simp add: on_cass_def monotonic_def)
  have k1: "kept s1 = kept s" using quietD [OF quiet_on_cass mono] .
  define s2 where "s2 = s1\<lparr>attempted_at := t, declined := []\<rparr>"
  obtain up s3 where up: "cassandra_up s2 = (Inr up, s3)" using totalD [OF cassandra_up_total] by blast
  have k3: "kept s3 = kept s2" using quietD [OF quiet_cassandra_up up] .
  show ?thesis
  proof (cases "import_error R = None \<and> up")
    case False
    then have "r = Inr () \<and> (\<exists>z. s' = z\<lparr>connected := False\<rparr> \<and> (z = s2 \<or> z = s3))"
      using assms(3) mono up unfolding cqlite_connect_def
      by (cases "import_error R") (auto simp: bind_def modify_def s2_def)
    then show ?thesis using assms(1,2) k1 k3 by (auto simp: stays_def registered_ok_def kept_def s2_def)
  next
    case True
    obtain c x where n: "new_session R (outer s3) = (c, x)" by (metis surj_pair)
    define s4 where "s4 = s3\<lparr>outer := x\<rparr>"
    obtain r5 s5 where loop: "connect_loop R dd ks c CQLITE_TABLES [] s4 = (r5, s5)" by (metis surj_pair)
    have "declined s4 = []" using k3 by (simp add: s4_def s2_def kept_def)
    then obtain fs where fs: "r5 = Inr fs" "distinct (map fst fs)" "fst ` set fs \<inter> fst ` set (declined s5) = {}"
        "fst ` set fs \<union> fst ` set (declined s5) = set CQLITE_TABLES"
      using connect_loop_outcome [OF loop] by (auto simp: CQLITE_TABLES_def)
    have "(r, s') = (Inr (), s5\<lparr>ctx := Some c, providers := fs, connected := fs \<noteq> []\<rparr>)"
      using assms(3) mono up True n loop fs(1) unfolding cqlite_connect_def
      by (simp add: bind_def modify_def s2_def calls_def s4_def)
    then show ?thesis using fs assms(2) by (auto simp: stays_def registered_ok_def)
  qed
qed

lemma keys_delete: "fst ` set (AList.delete k al) = fst ` set al - {k}"
  by (simp flip: set_map add: AList.delete_keys)

lemma register_loop_stays:
  assumes "stays s0 s" and "ctx s = Some c" and "set ts \<subseteq> set CQLITE_TABLES" and "providers s \<noteq> []"
    and "register_loop R dd ks c ts s = (r, s')"
  shows "stays s0 s' \<and> r = Inr ()"
  using assms
proof (induction ts arbitrary: s)
  case (Cons t ts)
  show ?case
  proof (cases "t \<in> fst ` set (providers s)")
    case True
    then show ?thesis using Cons by (simp add: bind_def gets_def ret_def)
  next
    case False
    define m where "m = bind (open_table R dd ks t) (\<lambda>p.
         bind (try_except (calls (deregister_table R c t)) (\<lambda>_. ret ())) (\<lambda>_.
         bind (calls (register_table R c t p)) (\<lambda>_. ret p)))"
    obtain r1 s1 where m: "m s = (r1, s1)" by (metis surj_pair)
    have "quiet m" unfolding m_def quiet_def
      by (intro allI preserves_intros quiet_basic quiet_open_table [unfolded quiet_def, rule_format])
    then have k: "kept s1 = kept s" using quietD m by blast
    define s2 where "s2 = (case r1 of Inr p \<Rightarrow> s1\<lparr>providers := AList.update t p (providers s1), declined := AList.delete t (declined s1)\<rparr>
      | Inl e \<Rightarrow> s1\<lparr>declined := AList.update t (readable_error e) (declined s1)\<rparr>)"
    have "(try_except
        (bind (open_table R dd ks t) (\<lambda>p.
         bind (try_except (calls (deregister_table R c t)) (\<lambda>_. ret ())) (\<lambda>_.
         bind (calls (register_table R c t p)) (\<lambda>_.
           modify (\<lambda>s. s\<lparr>providers := AList.update t p (providers s), declined := AList.delete t (declined s)\<rparr>)))))
        (decline t)) s = (Inr (), s2)"
      (is "?body s = _")
    proof -
      have body: "?body = try_except (bind m (\<lambda>p.
          modify (\<lambda>s. s\<lparr>providers := AList.update t p (providers s), declined := AList.delete t (declined s)\<rparr>))) (decline t)"
        by (simp add: m_def bind_assoc bind_ret_left)
      show ?thesis unfolding body using m by (cases r1) (simp_all add: try_except_def bind_def modify_def decline_def s2_def)
    qed
    then have run: "register_loop R dd ks c ts s2 = (r, s')"
      using Cons.prems(5) False by (simp add: bind_def gets_def)
    have "stays s0 s2"
    proof (cases r1)
      case (Inl e)
      then show ?thesis using Cons.prems(1) k False by (auto simp: s2_def stays_def registered_ok_def kept_def dom_update)
    next
      case (Inr p)
      have "map_of (providers s) \<subseteq>\<^sub>m map_of (AList.update t p (providers s))"
        using False by (auto simp: map_le_def update_conv' dom_map_of_conv_image_fst)
      then show ?thesis using Cons.prems(1-4) k Inr map_le_trans
        by (auto simp: s2_def stays_def registered_ok_def kept_def dom_update AList.distinct_update keys_delete)
    qed
    moreover have "ctx s2 = Some c" "providers s2 \<noteq> []"
      using Cons.prems(2,4) k by (auto simp: s2_def kept_def split: sum.split)
    ultimately show ?thesis using Cons.IH [OF _ _ _ _ run] Cons.prems(3) by simp
  qed
qed (simp add: ret_def)

lemma register_missing_stays:
  assumes "registered_ok s" and "providers s \<noteq> []" and "register_missing R dd ks s = (r, s')"
  shows "stays s s' \<and> r = Inr ()"
proof -
  obtain t s1 where mono: "on_cass monotonic s = (Inr t, s1)" by (simp add: on_cass_def monotonic_def)
  have k1: "kept s1 = kept s" using quietD [OF quiet_on_cass mono] .
  define s2 where "s2 = s1\<lparr>attempted_at := t\<rparr>"
  have st2: "stays s s2" using assms(1) k1 by (auto simp: stays_def registered_ok_def kept_def s2_def)
  obtain c where c: "ctx s2 = Some c" using assms(1,2) k1 by (auto simp: registered_ok_def kept_def s2_def)
  obtain up s3 where up: "cassandra_up s2 = (Inr up, s3)" using totalD [OF cassandra_up_total] by blast
  have k3: "kept s3 = kept s2" using quietD [OF quiet_cassandra_up up] .
  have st3: "stays s s3" using st2 k3 by (auto simp: stays_def registered_ok_def kept_def)
  have run: "(r, s') = (if import_error R \<noteq> None then (Inr (), s2)
      else if \<not> up then (Inr (), s3) else register_loop R dd ks c CQLITE_TABLES s3)"
    using assms(3) mono up c unfolding register_missing_def by (auto simp: bind_def modify_def gets_def s2_def ret_def)
  show ?thesis
  proof (cases "import_error R = None \<and> up")
    case True
    then have "register_loop R dd ks c CQLITE_TABLES s3 = (r, s')" using run by simp
    moreover have "ctx s3 = Some c" "providers s3 \<noteq> []" using c k3 k1 assms(2) by (auto simp: kept_def s2_def)
    ultimately show ?thesis using register_loop_stays [OF st3] by blast
  qed (use run st2 st3 in \<open>auto split: if_splits\<close>)
qed

lemma ensure_registered_stays:
  assumes "registered_ok s" and "ensure_registered R dd ks s = (r, s')"
  shows "stays s s' \<and> r = Inr (providers s' \<noteq> [])"
proof -
  obtain t s1 where mono: "on_cass monotonic s = (Inr t, s1)" by (simp add: on_cass_def monotonic_def)
  have k1: "kept s1 = kept s" using quietD [OF quiet_on_cass mono] .
  have ok1: "registered_ok s1" and st1: "stays s s1" using assms(1) k1 by (auto simp: stays_def registered_ok_def kept_def)
  define m where "m = (if providers s = [] then cqlite_connect R dd ks else register_missing R dd ks)"
  obtain r2 s2 where m: "m s1 = (r2, s2)" by (metis surj_pair)
  have p1: "providers s1 = providers s" using k1 by (simp add: kept_def)
  have "stays s1 s2 \<and> r2 = Inr ()"
  proof (cases "providers s = []")
    case True
    then have "cqlite_connect R dd ks s1 = (r2, s2)" using m by (simp add: m_def)
    from connect_stays [OF ok1 _ this] show ?thesis using p1 True by simp
  next
    case False
    then have "register_missing R dd ks s1 = (r2, s2)" using m by (simp add: m_def)
    from register_missing_stays [OF ok1 _ this] show ?thesis using p1 False by simp
  qed
  then have m2: "stays s s2" "m s1 = (Inr (), s2)" using stays_trans [OF st1] m by auto
  have "ensure_registered R dd ks s =
    (if length (providers s) = length CQLITE_TABLES then (Inr True, s)
     else if t - attempted_at s1 < RETRY_AFTER_S then (Inr (providers s \<noteq> []), s1) else (Inr (providers s2 \<noteq> []), s2))"
    using mono m2(2) unfolding ensure_registered_def m_def [symmetric] by (simp add: bind_def gets_def ret_def m_def)
  moreover have "providers s \<noteq> []" if "length (providers s) = length CQLITE_TABLES" using that by (auto simp: CQLITE_TABLES_def)
  ultimately show ?thesis using assms(2) m2(1) st1 p1 stays_refl [OF assms(1)] by (auto split: if_splits)
qed

lemma preserves_quiet: "quiet m \<Longrightarrow> preserves (stays s0) m"
proof (rule preservesI)
  fix s assume q: "quiet m" and st: "stays s0 s"
  obtain r s' where m: "m s = (r, s')" by (metis surj_pair)
  then have "kept s' = kept s" using quietD [OF q] by blast
  then show "stays s0 (snd (m s))" using st m by (simp add: kept_def stays_def registered_ok_def)
qed

lemmas preserves_calls = preserves_quiet [OF quiet_calls]

lemma cancel_all_stays: "preserves (stays s0) (cancel_all R ps)"
  by (induction ps) (auto intro!: preserves_intros preserves_calls)

lemma abort_stays: "preserves (stays s0) (abort R)"
  unfolding abort_def by (intro preserves_intros cancel_all_stays) (simp_all add: stays_def registered_ok_def)

lemma collect_measured_stays: "preserves (stays s0) (collect_measured R sql)"
  unfolding collect_measured_def Let_def by (intro preserves_intros) (simp_all add: stays_def registered_ok_def)

lemma query_stays: "preserves (stays s0) (cqlite_execute_query R sql)"
  unfolding cqlite_execute_query_def scanning_def reset_measured_def
  by (intro preserves_intros abort_stays collect_measured_stays preserves_calls)
    (simp_all add: stays_def registered_ok_def)

lemma files_now_stays: "preserves (stays s0) (files_now R)"
proof -
  have "preserves (stays s0) (files_loop R ps f b)" for ps f b
    by (induction R ps f b rule: files_loop.induct) (auto intro!: preserves_intros preserves_calls)
  then show ?thesis unfolding files_now_def by (intro preserves_intros)
qed

text \<open>What happens to the client after the first registration: retries, statements, cancellations, the
  probe's count of files, and anything at all outside it.\<close>

datatype 'x client_call = Ensure | Query string | Stop | Count | Elsewhere "'x \<Rightarrow> 'x"

fun client_step :: "'x reader \<Rightarrow> string \<Rightarrow> string \<Rightarrow> 'x client_call \<Rightarrow> 'x cqlite \<Rightarrow> 'x cqlite" where
  "client_step R dd ks Ensure s = snd (ensure_registered R dd ks s)"
| "client_step R dd ks (Query sql) s = snd (cqlite_execute_query R sql s)"
| "client_step R dd ks Stop s = snd (abort R s)"
| "client_step R dd ks Count s = snd (files_now R s)"
| "client_step R dd ks (Elsewhere f) s = s\<lparr>outer := f (outer s)\<rparr>"

lemma client_step_stays: "stays s0 s \<Longrightarrow> stays s0 (client_step R dd ks a s)"
proof (cases a)
  case Ensure
  assume st: "stays s0 s"
  obtain r s' where e: "ensure_registered R dd ks s = (r, s')" by (metis surj_pair)
  have "stays s s'" using ensure_registered_stays [OF _ e] st by (simp add: stays_def)
  then show ?thesis using Ensure e stays_trans [OF st] by simp
next
  case (Elsewhere f)
  assume "stays s0 s"
  then show ?thesis using Elsewhere by (simp add: stays_def registered_ok_def)
qed (simp_all add: preservesD [OF query_stays] preservesD [OF abort_stays] preservesD [OF files_now_stays])

interpretation cq: step_system "client_step R dd ks" "stays s0" for R dd ks s0
  by unfold_locales (rule client_step_stays)

text \<open>
  Property. A table once registered stays. From a consistent client, whatever sequence of retries,
  statements, cancellations and probes follows, and whatever happens outside, the provider of a
  registered table is never replaced or lost nor the session under it, only tables of the path are
  registered, none of them also as declined, and the client is connected exactly when it can read
  something; a retry never raises and says whether there is anything to read.
\<close>

theorem registered_tables_stay:
  assumes "registered_ok s"
  shows "let s' = fold (client_step R dd ks) as s in
    registered_ok s' \<and> map_of (providers s) \<subseteq>\<^sub>m map_of (providers s') \<and> (providers s \<noteq> [] \<longrightarrow> ctx s' = ctx s) \<and>
    fst (ensure_registered R dd ks s') = Inr (providers (snd (ensure_registered R dd ks s')) \<noteq> [])"
proof -
  have "stays s (fold (client_step R dd ks) as s)" using cq.run_inv [OF stays_refl [OF assms]] .
  moreover from this have "registered_ok (fold (client_step R dd ks) as s)" by (simp add: stays_def)
  moreover obtain r s' where "ensure_registered R dd ks (fold (client_step R dd ks) as s) = (r, s')" by (metis surj_pair)
  ultimately show ?thesis using ensure_registered_stays [of "fold (client_step R dd ks) as s" R dd ks r s']
    by (simp add: Let_def stays_def)
qed

text \<open>A reader with a provider for every table, whose scans read 3 and 4 files of \<open>events\<close> and of the others.\<close>

definition demo_reader :: "nat reader" where
  "demo_reader = \<lparr>import_error = None, table_id = (\<lambda>t x. Inr None), as_cql_query = (\<lambda>t x. Inr ''CREATE TABLE''),
     isdir = (\<lambda>p x. True), listdir = (\<lambda>p x. []), new_session = (\<lambda>x. (0, x)), open_provider = (\<lambda>d q x. (Inr x, Suc x)),
     register_table = (\<lambda>c t p x. (Inr (), x)), deregister_table = (\<lambda>c t x. (Inr (), x)),
     collect = (\<lambda>c q x. (Inr [[(''n'', CInt 1), (''d'', CDate 0)]], x)), cancel = (\<lambda>p x. (Inr (), x)),
     discover = (\<lambda>p x. (Inr (3, 300), x)),
     last_scan = (\<lambda>p x. if p = 0 then \<lparr>s_files = 3, s_bytes = 300, s_open_ms = 1, s_age_s = Some 10\<rparr>
       else \<lparr>s_files = 4, s_bytes = 500, s_open_ms = 2, s_age_s = None\<rparr>)\<rparr>"

definition demo_client :: "nat cqlite" where
  "demo_client = \<lparr>cass = client_on empty_db, outer = 2, ctx = Some 0, providers = [(''events'', 0), (''drone_events_by_entity'', 1)],
     declined = [(''drone_latest_status'', ''no directory'')], attempted_at = 0, aborted = True, connected = True, in_flight = False,
     stops = [], m_files = None, m_bytes = None, m_reader_open_ms = None, m_data_age_s = None\<rparr>"

theorem registered_tables_stay_witness:
  "map_of (providers (fold (client_step demo_reader ''/data'' ''demo'') [Ensure, Query ''SELECT 1'', Stop, Elsewhere Suc, Ensure, Count]
     demo_client)) ''events'' = Some 0"
proof -
  have "registered_ok demo_client" by (simp add: registered_ok_def demo_client_def CQLITE_TABLES_def)
  note stay = registered_tables_stay [OF this, of demo_reader "''/data''" "''demo''"
      "[Ensure, Query ''SELECT 1'', Stop, Elsewhere Suc, Ensure, Count]", unfolded Let_def]
  have "map_of (providers demo_client) ''events'' = Some 0" by (simp add: demo_client_def)
  then show ?thesis using conjunct1 [OF conjunct2 [OF stay]] unfolding map_le_def by (metis domI)
qed

subsection \<open>Statements\<close>

lemma quiet_cancel_all: "quiet (cancel_all R ps)"
  unfolding quiet_def by (induction ps) (auto intro!: preserves_intros quiet_basic)

lemma abort_aborts:
  assumes "in_flight s" and "abort R s = (r, s')"
  shows "kept s' = kept (s\<lparr>aborted := True\<rparr>)"
proof -
  obtain q s2 where c: "cancel_all R (map snd (providers s)) (s\<lparr>aborted := True\<rparr>) = (q, s2)" by (metis surj_pair)
  then have "s' = s2" using assms by (cases q) (auto simp: abort_def bind_def gets_def modify_def ret_def)
  then show ?thesis using quietD [OF quiet_cancel_all c] by simp
qed

lemma scanning_outcome:
  assumes "in_flight s" and "scanning R c sql s = (r, s')"
  shows "\<exists>x. collect R c sql x = (r, outer s') \<and>
    kept s' = kept (s\<lparr>stops := tl (stops s), aborted := (aborted s \<or> stops s \<noteq> [] \<and> hd (stops s))\<rparr>)"
proof -
  define s1 where "s1 = s\<lparr>stops := tl (stops s)\<rparr>"
  define s2 where "s2 = (if stops s \<noteq> [] \<and> hd (stops s) then snd (abort R s1) else s1)"
  have "scanning R c sql s = calls (collect R c sql) s2"
    by (cases "abort R s1") (auto simp: scanning_def bind_def gets_def modify_def attempt_def ret_def s1_def s2_def)
  then have "collect R c sql (outer s2) = (r, outer s') \<and> kept s' = kept s2"
    using assms(2) by (auto simp: calls_def kept_def split: prod.splits)
  moreover have "kept s2 = kept (s\<lparr>stops := tl (stops s), aborted := (aborted s \<or> stops s \<noteq> [] \<and> hd (stops s))\<rparr>)"
    using abort_aborts [of s1 R] assms(1) by (cases "abort R s1") (auto simp: s1_def s2_def kept_def)
  ultimately show ?thesis by (intro exI [of _ "outer s2"]) simp
qed

definition no_figures :: "int option \<times> int option \<times> real option \<times> int option" where
  "no_figures = (None, None, None, None)"

definition figures_of :: "scan list \<Rightarrow> int option \<times> int option \<times> real option \<times> int option" where
  "figures_of scans = (if scans = [] then no_figures else
    (Some (sum_list (map s_files scans)), Some (sum_list (map s_bytes scans)), Some (py_round 1 (sum_list (map s_open_ms scans))),
     (let ages = List.map_filter s_age_s scans in if ages = [] then None else Some (Max (set ages)))))"

definition figures_now :: "'x cqlite \<Rightarrow> int option \<times> int option \<times> real option \<times> int option" where
  "figures_now s = (m_files s, m_bytes s, m_reader_open_ms s, m_data_age_s s)"

lemma collect_measured_run:
  assumes "figures_now s = no_figures"
  shows "\<exists>s'. collect_measured R sql s = (Inr (), s') \<and> figures_now s' = figures_of (scans_of R sql s) \<and>
    outer s' = outer s \<and> providers s' = providers s \<and> aborted s' = aborted s \<and> in_flight s' = in_flight s"
  using assms
  by (auto simp: collect_measured_def bind_def gets_def modify_def ret_def figures_now_def figures_of_def no_figures_def Let_def)


lemma entity_statement:
  "find_sub ''events'' (lower ''SELECT * FROM drone_events_by_entity'') = Some 20"
  "find_sub ''drone_events_by_entity'' (lower ''SELECT * FROM drone_events_by_entity'') = Some 14"
  by code_simp+


end
