(* ===== verification/Console.thy ===== *)
theory Console
  imports Pystr
begin

text \<open>
  The text side of the query console (\<open>src/backend/app/routes/query.py\<close>): which statements it
  accepts (\<open>_validate\<close>), how a statement is rewritten for each engine (\<open>_rewrite_tables\<close>, the
  \<open>sql_for_\<close> functions) and the rule-based translation of questions (\<open>_patterns_to_sql\<close>). Each
  regular expression of the source is a function that finds its leftmost match, over the 256
  characters of HOL.

  The properties show that an accepted statement is a single \<open>SELECT\<close> with no write keyword, that
  rewriting keeps it so, that every statement issued is limited, and that the translator's output
  is always accepted.
\<close>

section \<open>Accepting a statement\<close>

text \<open>\<open>\w\<close> and, at the boundary \<open>\b\<close>, whether a text begins with such a character.\<close>

definition is_word :: "char \<Rightarrow> bool" where
  "is_word c \<longleftrightarrow> is_digit c \<or> is_lower c \<or> is_upper c \<or> c = CHR ''_'' \<or>
     code_of c \<in> {170, 178, 179, 181, 185, 186, 188, 189, 190} \<or>
     192 \<le> code_of c \<and> code_of c \<noteq> 215 \<and> code_of c \<noteq> 247"

lemma is_word_code [code]:
  "is_word (Char b0 b1 b2 b3 b4 b5 b6 b7) \<longleftrightarrow>
    (let c = Char b0 b1 b2 b3 b4 b5 b6 b7
     in is_lower c \<or> is_digit c \<or> is_upper c \<or> c = CHR ''_'' \<or>
        b7 \<and> (code_of c \<in> {170, 178, 179, 181, 185, 186, 188, 189, 190} \<or>
          192 \<le> code_of c \<and> code_of c \<noteq> 215 \<and> code_of c \<noteq> 247))"
proof (cases b7)
  case False
  then have "code_of (Char b0 b1 b2 b3 b4 b5 b6 b7) < 128"
    by (simp add: of_char_Char of_bool_def)
  then show ?thesis by (auto simp: is_word_def Let_def False)
qed (auto simp: is_word_def Let_def)

definition word_next :: "string \<Rightarrow> bool" where
  "word_next s \<longleftrightarrow> s \<noteq> [] \<and> is_word (hd s)"

text \<open>A match of \<open>p\<close>, written in capitals, that ignores case.\<close>

definition ci_prefix :: "string \<Rightarrow> string \<Rightarrow> bool" where
  "ci_prefix p s \<longleftrightarrow> upper (take (length p) s) = p"

definition WRITE_KEYWORDS :: "string list" where
  "WRITE_KEYWORDS = [''INSERT'', ''UPDATE'', ''DELETE'', ''DROP'', ''CREATE'', ''ALTER'', ''TRUNCATE'',
     ''GRANT'', ''REVOKE'']"

text \<open>\<open>_WRITE_KEYWORD_RE.search\<close>; \<open>prev\<close> is whether the character before is a word character.\<close>

definition keyword_here :: "bool \<Rightarrow> string \<Rightarrow> string option" where
  "keyword_here prev s =
    (if prev then None
     else List.find (\<lambda>kw. ci_prefix kw s \<and> \<not> word_next (drop (length kw) s)) WRITE_KEYWORDS)"

fun find_keyword :: "bool \<Rightarrow> string \<Rightarrow> string option" where
  "find_keyword prev [] = None"
| "find_keyword prev (c # s) =
    (case keyword_here prev (c # s) of Some kw \<Rightarrow> Some kw | None \<Rightarrow> find_keyword (is_word c) s)"

definition rstrip_semicolons :: "string \<Rightarrow> string" where
  "rstrip_semicolons s = rev (dropWhile (\<lambda>c. c = CHR '';'') (rev s))"

definition validate :: "string \<Rightarrow> exn + string" where
  "validate sql =
    (let stmt = strip (rstrip_semicolons (strip sql)) in
     if stmt = [] then Inl (HTTPException 400 ''Empty query'')
     else if CHR '';'' \<in> set stmt then Inl (HTTPException 400 ''Only a single statement is allowed'')
     else if \<not> starts_with ''SELECT'' (upper stmt) then Inl (HTTPException 400 ''Only SELECT queries are allowed'')
     else case find_keyword False stmt of
       Some kw \<Rightarrow> Inl (HTTPException 400 (''Forbidden keyword in a read-only console: '' @ kw))
     | None \<Rightarrow> Inr stmt)"

section \<open>Rewriting it per engine\<close>

text \<open>\<open>_LIMIT_RE\<close>, read from the end: the text before its match.\<close>

definition split_limit :: "string \<Rightarrow> string option" where
  "split_limit s =
    (let r = dropWhile is_space (rev s);
         r1 = dropWhile is_digit r;
         r2 = dropWhile is_space r1;
         r3 = drop 5 r2
     in if r1 = r \<or> r2 = r1 \<or> \<not> ci_prefix ''TIMIL'' r2 \<or> r3 = [] \<or> \<not> is_space (hd r3) then None
        else Some (rev (dropWhile is_space r3)))"

definition strip_limit :: "string \<Rightarrow> string" where
  "strip_limit sql = strip (case split_limit sql of Some before \<Rightarrow> before | None \<Rightarrow> sql)"

definition has_limit :: "string \<Rightarrow> bool" where
  "has_limit sql \<longleftrightarrow> split_limit sql \<noteq> None"

text \<open>A match of \<open>_ALLOW_FILTERING_RE\<close> at the start: what follows it.\<close>

definition skip_allow_filtering :: "string \<Rightarrow> string option" where
  "skip_allow_filtering s =
    (let a = dropWhile is_space s; b = drop 5 a; c = dropWhile is_space b
     in if ci_prefix ''ALLOW'' a \<and> c \<noteq> b \<and> ci_prefix ''FILTERING'' c
        then Some (dropWhile is_space (drop 9 c)) else None)"

lemma length_dropWhile_less: "length (dropWhile P xs) \<le> length xs"
  by (induction xs) auto

lemma skip_allow_filtering_shorter: "skip_allow_filtering s = Some r \<Longrightarrow> length r < length s"
proof -
  assume r: "skip_allow_filtering s = Some r"
  define a where "a = dropWhile is_space s"
  define b where "b = drop 5 a"
  define c where "c = dropWhile is_space b"
  have "ci_prefix ''ALLOW'' a" "r = dropWhile is_space (drop 9 c)"
    using r unfolding skip_allow_filtering_def a_def b_def c_def Let_def by (auto split: if_splits)
  then have "a \<noteq> []" by (auto simp: ci_prefix_def)
  then have "length b < length a" by (simp add: b_def)
  moreover have "length r \<le> length c" "length c \<le> length b" "length a \<le> length s"
    using length_dropWhile_less [of is_space "drop 9 c"] \<open>r = dropWhile is_space (drop 9 c)\<close>
    by (simp_all add: a_def c_def length_dropWhile_less)
  ultimately show ?thesis by simp
qed

text \<open>\<open>_ALLOW_FILTERING_RE.sub(" ", sql)\<close>.\<close>

function drop_allow_filtering :: "string \<Rightarrow> string" where
  "drop_allow_filtering s =
    (case s of [] \<Rightarrow> []
     | c # rest \<Rightarrow> (case skip_allow_filtering s of
         Some r \<Rightarrow> CHR '' '' # drop_allow_filtering r
       | None \<Rightarrow> c # drop_allow_filtering rest))"
  by pat_completeness auto
termination by (relation "measure length") (auto dest: skip_allow_filtering_shorter)

declare drop_allow_filtering.simps [simp del]

definition DEMO_TABLES :: "string list" where
  "DEMO_TABLES = [''drone_latest_status'', ''drone_events_by_entity'', ''drone_text_embeddings'',
     ''alerts_by_bucket'', ''ingestion_counts'', ''restricted_zones'', ''events'']"

text \<open>A match of \<open>_TABLE_REFERENCE_RE\<close> after a boundary: its lead, its table and what follows.\<close>

definition table_reference :: "string \<Rightarrow> (string \<times> string \<times> string) option" where
  "table_reference s =
    (if ci_prefix ''FROM'' s \<or> ci_prefix ''JOIN'' s
     then let a = drop 4 s; sp = takeWhile is_space a; b = dropWhile is_space a;
              c = (if ci_prefix ''DEMO.'' b then drop 5 b else b)
          in if sp = [] then None
             else map_option (\<lambda>t. (take 4 s @ sp, take (length t) c, drop (length t) c))
               (List.find (\<lambda>t. ci_prefix (upper t) c \<and> \<not> word_next (drop (length t) c)) DEMO_TABLES)
     else None)"

lemma table_reference_shorter: "table_reference s = Some (lead, t, rest) \<Longrightarrow> length rest < length s"
proof -
  assume m: "table_reference s = Some (lead, t, rest)"
  define b where "b = dropWhile is_space (drop 4 s)"
  define c where "c = (if ci_prefix ''DEMO.'' b then drop 5 b else b)"
  obtain n where "rest = drop n c" "ci_prefix ''FROM'' s \<or> ci_prefix ''JOIN'' s"
    using m unfolding table_reference_def b_def c_def Let_def by (auto split: if_splits)
  moreover from this(2) have "s \<noteq> []" by (auto simp: ci_prefix_def)
  moreover have "length c \<le> length b" "length b \<le> length (drop 4 s)"
    using length_dropWhile_less [of is_space "drop 4 s"] by (simp_all add: c_def b_def)
  ultimately show ?thesis by (cases s) auto
qed

function rewrite_from :: "string \<Rightarrow> bool \<Rightarrow> string \<Rightarrow> string" where
  "rewrite_from prefix prev s =
    (case s of [] \<Rightarrow> []
     | c # rest \<Rightarrow> (case (if prev then None else table_reference s) of
         Some (lead, t, r) \<Rightarrow> lead @ prefix @ t @ rewrite_from prefix True r
       | None \<Rightarrow> c # rewrite_from prefix (is_word c) rest))"
  by pat_completeness auto
termination
  by (relation "measure (\<lambda>(p, prev, s). length s)") (auto dest: table_reference_shorter split: if_splits)

declare rewrite_from.simps [simp del]

definition rewrite_tables :: "string \<Rightarrow> string \<Rightarrow> string" where
  "rewrite_tables sql prefix = rewrite_from prefix False sql"

definition BULK_VIEW_PREFIX :: string where
  "BULK_VIEW_PREFIX = ''bulk_''"

definition sql_for_cassandra :: "string \<Rightarrow> nat \<Rightarrow> string" where
  "sql_for_cassandra sql n =
    (let stmt = strip_limit (strip (drop_allow_filtering sql))
     in rewrite_tables stmt '''' @ '' LIMIT '' @ nat_str n @ '' ALLOW FILTERING'')"

definition limited :: "string \<Rightarrow> nat \<Rightarrow> string" where
  "limited stmt n = (if has_limit stmt then stmt else stmt @ '' LIMIT '' @ nat_str n)"

definition sql_for_presto :: "string \<Rightarrow> nat \<Rightarrow> string" where
  "sql_for_presto sql n = limited (rewrite_tables (strip (drop_allow_filtering sql)) ''demo.'') n"

definition sql_for_spark :: "string \<Rightarrow> nat \<Rightarrow> string" where
  "sql_for_spark sql n = limited (rewrite_tables (strip (drop_allow_filtering sql)) '''') n"

definition sql_for_spark_bulk :: "string \<Rightarrow> nat \<Rightarrow> string" where
  "sql_for_spark_bulk sql n = limited (rewrite_tables (strip (drop_allow_filtering sql)) BULK_VIEW_PREFIX) n"

definition sql_for_cqlite :: "string \<Rightarrow> nat \<Rightarrow> string" where
  "sql_for_cqlite sql n = limited (rewrite_tables (strip (drop_allow_filtering sql)) '''') n"

text \<open>\<open>ENGINES\<close>, in the order of the dictionary, with the dialect of each path; the clients are
  parameters of the theories that run statements.\<close>

definition DIALECTS :: "(string \<times> (string \<Rightarrow> nat \<Rightarrow> string)) list" where
  "DIALECTS = [(''cassandra'', sql_for_cassandra), (''presto'', sql_for_presto), (''spark'', sql_for_spark),
     (''spark_bulk'', sql_for_spark_bulk), (''cqlite'', sql_for_cqlite)]"

section \<open>Questions in words\<close>

definition mentions :: "string \<Rightarrow> string \<Rightarrow> bool" where
  "mentions prompt w \<longleftrightarrow> find_sub w prompt \<noteq> None"

definition NL_OPERATORS :: "string list" where
  "NL_OPERATORS = [''above'', ''over'', ''greater than'', ''more than'', ''below'', ''less than'', ''under'', ''between'']"

text \<open>\<open>-?\d+(?:\.\d+)?\<close> at the start: the number and what follows.\<close>

definition take_number :: "string \<Rightarrow> (string \<times> string) option" where
  "take_number s =
    (let sign = (if starts_with ''-'' s then ''-'' else ''''); a = drop (length sign) s;
         ds = takeWhile is_digit a; b = dropWhile is_digit a;
         fs = (if starts_with ''.'' b then takeWhile is_digit (tl b) else [])
     in if ds = [] then None
        else if fs = [] then Some (sign @ ds, b)
        else Some (sign @ ds @ ''.'' @ fs, dropWhile is_digit (tl b)))"

text \<open>A match of \<open>_NL_COMPARISONS\<close> at the start: the operator and its one or two numbers.\<close>

definition comparison_here :: "string \<Rightarrow> (string \<times> string \<times> string option) option" where
  "comparison_here s =
    (case List.find (\<lambda>w. starts_with w s \<and>
         dropWhile is_space (drop (length w) s) \<noteq> drop (length w) s \<and>
         take_number (dropWhile is_space (drop (length w) s)) \<noteq> None) NL_OPERATORS of
       None \<Rightarrow> None
     | Some w \<Rightarrow>
         (case take_number (dropWhile is_space (drop (length w) s)) of
            None \<Rightarrow> None
          | Some (first, rest) \<Rightarrow>
              (let a = dropWhile is_space rest in
               case List.find (\<lambda>c. starts_with c a) [''and'', ''to'', ''-''] of
                 None \<Rightarrow> Some (w, first, None)
               | Some c \<Rightarrow> Some (w, first, map_option fst (take_number (dropWhile is_space (drop (length c) a)))))))"

fun find_comparison :: "string \<Rightarrow> (string \<times> string \<times> string option) option" where
  "find_comparison [] = None"
| "find_comparison (c # s) =
    (case comparison_here (c # s) of Some m \<Rightarrow> Some m | None \<Rightarrow> find_comparison s)"

definition NL_MEASURES :: "(string list \<times> string) list" where
  "NL_MEASURES = [([''temperature'', ''temp'', ''hot'', ''overheat''], ''temp_internal_c''),
     ([''altitude'', ''height'', ''high''], ''altitude_m''),
     ([''speed'', ''fast'', ''velocity''], ''speed_mps''),
     ([''risk''], ''risk_score'')]"

definition NL_BASE :: string where
  "NL_BASE = ''SELECT entity_id, event_time, latitude, longitude, altitude_m, speed_mps, temp_internal_c, risk_score FROM demo.drone_latest_status''"

definition patterns_to_sql :: "string \<Rightarrow> string" where
  "patterns_to_sql prompt =
    (case List.find (\<lambda>(ws, _). list_ex (mentions prompt) ws) NL_MEASURES of
       Some (_, col) \<Rightarrow>
         (case find_comparison prompt of
            Some (operator, first, second) \<Rightarrow>
              if operator = ''between'' \<and> second \<noteq> None
              then NL_BASE @ '' WHERE '' @ col @ '' BETWEEN '' @ first @ '' AND '' @ the second @ '' ORDER BY '' @ col @ '' DESC''
              else if operator \<in> set [''above'', ''over'', ''greater than'', ''more than'']
              then NL_BASE @ '' WHERE '' @ col @ '' > '' @ first @ '' ORDER BY '' @ col @ '' DESC''
              else NL_BASE @ '' WHERE '' @ col @ '' < '' @ first @ '' ORDER BY '' @ col @ '' ASC''
          | None \<Rightarrow> NL_BASE @ '' ORDER BY '' @ col @ '' DESC'')
     | None \<Rightarrow>
         if mentions prompt ''breach'' then NL_BASE @ '' WHERE predicted_zone_breach = true ORDER BY risk_score DESC''
         else if mentions prompt ''zone'' then NL_BASE @ '' WHERE near_restricted_zone = true ORDER BY risk_score DESC''
         else if mentions prompt ''ground'' then NL_BASE @ '' WHERE is_flying = false''
         else if list_ex (mentions prompt) [''flying'', ''active'', ''airborne''] then NL_BASE @ '' WHERE is_flying = true''
         else if list_ex (mentions prompt) [''count'', ''how many'', ''total'', ''stats'']
         then ''SELECT count(*) AS assets, count_if(is_flying) AS flying, count_if(near_restricted_zone) AS near_zone, round(avg(speed_mps), 1) AS avg_speed_mps FROM demo.drone_latest_status''
         else NL_BASE)"

definition render_hint :: "string \<Rightarrow> string" where
  "render_hint prompt =
    (if list_ex (mentions prompt) [''map'', ''where'', ''location'', ''position''] then ''map''
     else if list_ex (mentions prompt) [''count'', ''how many'', ''total'', ''stats''] then ''kpi''
     else if list_ex (mentions prompt) [''trend'', ''history'', ''over time''] then ''chart''
     else ''table'')"

section \<open>Words of a statement\<close>

lemma to_upper_word: "is_upper (to_upper d) \<Longrightarrow> is_word d"
  by (auto simp: to_upper_def is_word_def split: if_splits)

lemma whole_word_match:
  "list_all is_upper kw \<Longrightarrow>
   (ci_prefix kw s \<and> \<not> word_next (drop (length kw) s)) = (upper (takeWhile is_word s) = kw)"
proof (induction kw arbitrary: s)
  case Nil
  then show ?case by (cases s) (auto simp: ci_prefix_def word_next_def)
next
  case (Cons k kw)
  then show ?case using to_upper_word by (cases s) (auto simp: ci_prefix_def)
qed

lemma keywords_are_capitals: "kw \<in> set WRITE_KEYWORDS \<Longrightarrow> list_all is_upper kw \<and> kw \<noteq> []"
proof -
  have "\<forall>kw \<in> set WRITE_KEYWORDS. list_all is_upper kw \<and> kw \<noteq> []" by code_simp
  then show "kw \<in> set WRITE_KEYWORDS \<Longrightarrow> list_all is_upper kw \<and> kw \<noteq> []" by blast
qed

abbreviation first_word :: "string \<Rightarrow> string" where
  "first_word s \<equiv> upper (takeWhile is_word s)"

lemma keyword_here_None:
  "keyword_here prev s = None \<longleftrightarrow> prev \<or> first_word s \<notin> set WRITE_KEYWORDS"
proof -
  have "(\<exists>kw. kw \<in> set WRITE_KEYWORDS \<and> ci_prefix kw s \<and> \<not> word_next (drop (length kw) s)) \<longleftrightarrow>
      first_word s \<in> set WRITE_KEYWORDS"
    using keywords_are_capitals whole_word_match by metis
  then show ?thesis by (auto simp: keyword_here_def find_None_iff)
qed

lemma find_keyword_Cons:
  "find_keyword prev (c # s) = None \<longleftrightarrow>
     (prev \<or> first_word (c # s) \<notin> set WRITE_KEYWORDS) \<and> find_keyword (is_word c) s = None"
  by (simp add: keyword_here_None [symmetric] split: option.splits del: takeWhile.simps)

declare find_keyword.simps(2) [simp del]

lemma find_keyword_append:
  assumes "a \<noteq> []" and "\<not> is_word (last a) \<or> \<not> word_next s"
  shows "find_keyword prev (a @ s) = None \<longleftrightarrow>
    find_keyword prev a = None \<and> find_keyword (is_word (last a)) s = None"
  using assms
proof (induction a arbitrary: prev)
  case (Cons c a)
  have "takeWhile is_word (c # a @ s) = takeWhile is_word (c # a)"
    using Cons.prems
    by (cases "list_all is_word (c # a)")
      (auto simp: takeWhile_append list_all_iff word_next_def takeWhile_eq_Nil_iff takeWhile_eq_all_conv [THEN iffD2]
        split: if_splits)
  then show ?case
    using Cons by (cases "a = []") (simp_all add: find_keyword_Cons del: takeWhile.simps)
qed simp

lemma find_keyword_word:
  "list_all is_word w \<Longrightarrow> find_keyword True w = None"
  "list_all is_word w \<Longrightarrow> upper w \<notin> set WRITE_KEYWORDS \<Longrightarrow> find_keyword False w = None"
proof -
  show "list_all is_word w \<Longrightarrow> find_keyword True w = None" for w
    by (induction w) (simp_all add: find_keyword_Cons)
  then show "list_all is_word w \<Longrightarrow> upper w \<notin> set WRITE_KEYWORDS \<Longrightarrow> find_keyword False w = None"
    by (cases w) (simp_all add: find_keyword_Cons takeWhile_eq_all_conv [THEN iffD2] list_all_iff)
qed

lemma find_keyword_weaken: "find_keyword False s = None \<Longrightarrow> find_keyword True s = None"
  by (cases s) (simp_all add: find_keyword_Cons)

section \<open>What acceptance gives\<close>

lemma strip_strip: "strip (strip s) = strip s"
proof (cases "strip s = []")
  case False
  define a where "a = dropWhile is_space s"
  have a: "a \<noteq> []" using False by (auto simp: a_def strip_def rstrip_def dest: set_dropWhileD)
  then have "\<not> is_space (hd a)" unfolding a_def by (rule hd_dropWhile)
  have r: "rev (strip s) = dropWhile is_space (rev a)" by (simp add: strip_def rstrip_def a_def)
  then have "\<not> is_space (last (strip s))"
    using False hd_dropWhile [of is_space "rev a"] by (metis hd_rev rev_is_Nil_conv)
  moreover have "hd (strip s) = hd a"
  proof -
    have "rev a = takeWhile is_space (rev a) @ rev (strip s)" by (simp add: r)
    then have "a = strip s @ rev (takeWhile is_space (rev a))" by (metis rev_append rev_rev_ident)
    then show ?thesis using False by (metis hd_append2)
  qed
  ultimately show ?thesis using False \<open>\<not> is_space (hd a)\<close> by (simp add: strip_id)
next
  case True
  show ?thesis unfolding True by (simp add: strip_def rstrip_def)
qed

lemma rstrip_semicolons_id: "CHR '';'' \<notin> set s \<Longrightarrow> rstrip_semicolons s = s"
proof -
  assume "CHR '';'' \<notin> set s"
  then have "s = [] \<or> last s \<noteq> CHR '';''" by (metis last_in_set)
  then have "dropWhile (\<lambda>c. c = CHR '';'') (rev s) = rev s"
    by (cases "s = []") (simp_all add: dropWhile_hd hd_rev)
  then show ?thesis by (simp add: rstrip_semicolons_def)
qed

definition read_only :: "string \<Rightarrow> bool" where
  "read_only s \<longleftrightarrow> CHR '';'' \<notin> set s \<and> starts_with ''SELECT'' (upper s) \<and> find_keyword False s = None"

lemma validate_Inr:
  "validate sql = Inr stmt \<longleftrightarrow>
     stmt = strip (rstrip_semicolons (strip sql)) \<and> stmt \<noteq> [] \<and> read_only stmt"
  unfolding validate_def Let_def read_only_def by (auto split: if_splits option.splits)

lemma validate_read_only: "validate sql = Inr stmt \<Longrightarrow> read_only stmt"
  using validate_Inr by blast

lemma validate_stripped: "validate sql = Inr stmt \<Longrightarrow> strip stmt = stmt"
  by (auto simp: validate_Inr strip_strip)

section \<open>What rewriting keeps\<close>

lemma find_SomeD: "List.find P xs = Some x \<Longrightarrow> x \<in> set xs \<and> P x"
  by (auto simp: find_Some_iff)

lemma rewrite_from_simps:
  "rewrite_from p prev [] = []"
  "rewrite_from p True (c # s) = c # rewrite_from p (is_word c) s"
  "table_reference (c # s) = None \<Longrightarrow> rewrite_from p prev (c # s) = c # rewrite_from p (is_word c) s"
  "table_reference (c # s) = Some (lead, t, r) \<Longrightarrow>
     rewrite_from p False (c # s) = lead @ p @ t @ rewrite_from p True r"
  by (subst rewrite_from.simps, simp)+

lemma rewrite_from_first_word: "takeWhile is_word (rewrite_from p True s) = takeWhile is_word s"
  by (induction s) (auto simp: rewrite_from_simps)

lemma rewrite_from_word_next: "word_next (rewrite_from p True s) = word_next s"
  by (cases s) (simp_all add: rewrite_from_simps word_next_def)

lemma table_reference_SomeD:
  assumes "table_reference s = Some (lead, t, r)"
  shows "\<exists>demo. s = lead @ demo @ t @ r \<and> 
    (demo = [] \<or> upper demo = ''DEMO.'') \<and> lead \<noteq> [] \<and> \<not> is_word (last lead) \<and> \<not> word_next r \<and>
    upper t \<in> upper ` set DEMO_TABLES"
proof -
  define a where "a = drop 4 s"
  define sp where "sp = takeWhile is_space a"
  define b where "b = dropWhile is_space a"
  define demo where "demo = (if ci_prefix ''DEMO.'' b then take 5 b else [])"
  define c where "c = (if ci_prefix ''DEMO.'' b then drop 5 b else b)"
  obtain n where n: "n \<in> set DEMO_TABLES" "ci_prefix (upper n) c" "\<not> word_next (drop (length n) c)"
      "lead = take 4 s @ sp" "t = take (length n) c" "r = drop (length n) c" "sp \<noteq> []"
    using assms unfolding table_reference_def sp_def a_def b_def c_def Let_def
    by (auto split: if_splits dest!: find_SomeD)
  have "s = take 4 s @ a" "a = sp @ b" "b = demo @ c" "c = t @ r"
    using n by (simp_all add: a_def sp_def b_def demo_def c_def)
  then have "s = lead @ demo @ t @ r" using n(4) by (metis append_assoc)
  moreover have "demo = [] \<or> upper demo = ''DEMO.''" by (simp add: demo_def ci_prefix_def eval_nat_numeral)
  moreover have "is_space (last sp)" using n(7) unfolding sp_def by (metis last_in_set set_takeWhileD)
  then have "\<not> is_word (last lead)" using n by (auto simp: is_space_def is_word_def is_digit_def is_lower_def is_upper_def)
  moreover have "upper t = upper n" using n by (simp add: ci_prefix_def)
  ultimately show ?thesis using n by auto
qed


lemma tables_are_words: "t \<in> set DEMO_TABLES \<Longrightarrow> list_all (\<lambda>c. is_lower c \<or> c = CHR ''_'') t"
proof -
  have "\<forall>t \<in> set DEMO_TABLES. list_all (\<lambda>c. is_lower c \<or> c = CHR ''_'') t" by code_simp
  then show "t \<in> set DEMO_TABLES \<Longrightarrow> list_all (\<lambda>c. is_lower c \<or> c = CHR ''_'') t" by blast
qed

lemma code_of_underscore: "code_of (CHR ''_'') = 95"
  by simp

lemma to_upper_underscore: "to_upper d = CHR ''_'' \<Longrightarrow> d = CHR ''_''"
proof -
  have "char_of n = CHR ''_'' \<Longrightarrow> n mod 256 = 95" for n :: nat
    using of_char_of [of n] by (metis code_of_underscore)
  then show "to_upper d = CHR ''_'' \<Longrightarrow> d = CHR ''_''"
    by (fastforce simp: to_upper_def is_lower_def split: if_splits)
qed

lemma to_upper_lower: "is_lower c \<Longrightarrow> is_upper (to_upper c)"
  by (auto simp: to_upper_def is_lower_def is_upper_def)

lemma table_name_words:
  assumes "upper t \<in> upper ` set DEMO_TABLES"
  shows "list_all is_word t" and "upper t \<notin> set WRITE_KEYWORDS" and "t \<noteq> []"
proof -
  obtain n where n: "n \<in> set DEMO_TABLES" "upper t = upper n" using assms by auto
  have "is_word d" if "d \<in> set t" for d
  proof -
    have "to_upper d \<in> set (upper n)" using that n(2) by (metis image_eqI set_map)
    then obtain c where c: "c \<in> set n" "to_upper d = to_upper c" by auto
    then have "is_upper (to_upper d) \<or> to_upper d = to_upper (CHR ''_'')"
      using tables_are_words [OF n(1)] by (auto simp: list_all_iff to_upper_lower)
    moreover have "to_upper (CHR ''_'') = CHR ''_''" by code_simp
    ultimately show ?thesis using to_upper_word to_upper_underscore by (auto simp: is_word_def)
  qed
  then show "list_all is_word t" by (simp add: list_all_iff)
  have "\<forall>n \<in> set DEMO_TABLES. upper n \<notin> set WRITE_KEYWORDS" by code_simp
  then show "upper t \<notin> set WRITE_KEYWORDS" using n by auto
  have "\<forall>n \<in> set DEMO_TABLES. n \<noteq> []" by code_simp
  then show "t \<noteq> []" using n by auto
qed

text \<open>The prefixes the engines use make no keyword of a table's name.\<close>

definition harmless :: "string \<Rightarrow> bool" where
  "harmless p \<longleftrightarrow> CHR '';'' \<notin> set p \<and>
     (\<forall>t. upper t \<in> upper ` set DEMO_TABLES \<longrightarrow> find_keyword False (p @ t) = None)"

lemma harmless_prefixes:
  shows harmless_Nil: "harmless ''''" and harmless_demo: "harmless ''demo.''"
    and harmless_bulk: "harmless BULK_VIEW_PREFIX"
proof -
  show nil: "harmless ''''" by (simp add: harmless_def find_keyword_word table_name_words)
  have "find_keyword False (''demo.'' @ t) = None \<longleftrightarrow>
      find_keyword False ''demo.'' = None \<and> find_keyword (is_word (last ''demo.'')) t = None" for t
    by (rule find_keyword_append) (simp, code_simp)
  moreover have "find_keyword False ''demo.'' = None" "\<not> is_word (last ''demo.'')" by code_simp+
  ultimately show "harmless ''demo.''" using nil by (simp add: harmless_def)
  have "list_all is_word BULK_VIEW_PREFIX" by code_simp
  moreover have "upper (BULK_VIEW_PREFIX @ t) \<notin> set WRITE_KEYWORDS" for t
  proof -
    have "\<forall>kw \<in> set WRITE_KEYWORDS. take 5 kw \<noteq> upper BULK_VIEW_PREFIX" by code_simp
    moreover have "take 5 (upper (BULK_VIEW_PREFIX @ t)) = upper BULK_VIEW_PREFIX"
      by (simp add: BULK_VIEW_PREFIX_def)
    ultimately show ?thesis by blast
  qed
  moreover have "CHR '';'' \<notin> set BULK_VIEW_PREFIX" by code_simp
  ultimately show "harmless BULK_VIEW_PREFIX"
    by (simp add: harmless_def find_keyword_word table_name_words del: map_append)
qed

lemma rewrite_keeps_keywords:
  "harmless p \<Longrightarrow> find_keyword prev s = None \<Longrightarrow> find_keyword prev (rewrite_from p prev s) = None"
proof (induction p prev s rule: rewrite_from.induct)
  case (1 p prev s)
  show ?case
  proof (cases s)
    case Nil
    then show ?thesis by (simp add: rewrite_from_simps)
  next
    case s: (Cons c rest)
    show ?thesis
    proof (cases "if prev then None else table_reference s")
      case None
      then have eq: "rewrite_from p prev s = c # rewrite_from p (is_word c) rest"
        using s by (cases prev) (simp_all add: rewrite_from_simps)
      have "find_keyword (is_word c) (rewrite_from p (is_word c) rest) = None"
        using 1 s None by (auto simp: find_keyword_Cons)
      moreover have "takeWhile is_word (c # rewrite_from p (is_word c) rest) = takeWhile is_word s"
        by (cases "is_word c") (simp_all add: s rewrite_from_first_word)
      ultimately show ?thesis
        using 1(4) eq s by (simp add: find_keyword_Cons del: takeWhile.simps)
    next
      case (Some m)
      obtain lead t r where m: "m = (lead, t, r)" by (cases m)
      then have tr: "table_reference s = Some (lead, t, r)" and "\<not> prev" using Some by (auto split: if_splits)
      obtain demo where d: "s = lead @ demo @ t @ r" "lead \<noteq> []" "\<not> is_word (last lead)" "\<not> word_next r"
          "upper t \<in> upper ` set DEMO_TABLES"
        using table_reference_SomeD [OF tr] by blast
      have t: "t \<noteq> []" using table_name_words(3) [OF d(5)] .
      have w: "is_word (last t)" using table_name_words(1) [OF d(5)] t by (simp add: list_all_iff)
      have "find_keyword False lead = None" "find_keyword False ((demo @ t) @ r) = None"
        using 1(4) \<open>\<not> prev\<close> d by (simp_all add: find_keyword_append)
      then have r: "find_keyword True r = None"
        using find_keyword_append [of "demo @ t" r False] t w d(4) by simp
      have "find_keyword True (rewrite_from p True r) = None"
        using 1(2) [OF s] s Some m tr r 1(3) \<open>\<not> prev\<close> by auto
      moreover have "find_keyword False (p @ t) = None" using 1(3) d(5) by (simp add: harmless_def)
      ultimately have "find_keyword False ((p @ t) @ rewrite_from p True r) = None"
        using find_keyword_append [of "p @ t" "rewrite_from p True r" False] t w d(4)
        by (simp add: rewrite_from_word_next)
      then have "find_keyword False (lead @ p @ t @ rewrite_from p True r) = None"
        using find_keyword_append [of lead "(p @ t) @ rewrite_from p True r" False] d(2,3)
          \<open>find_keyword False lead = None\<close> by simp
      moreover have "rewrite_from p prev s = lead @ p @ t @ rewrite_from p True r"
        using rewrite_from_simps(4) tr \<open>\<not> prev\<close> unfolding s by simp
      ultimately show ?thesis using \<open>\<not> prev\<close> by simp
    qed
  qed
qed

lemma rewrite_from_set: "set (rewrite_from p prev s) \<subseteq> set s \<union> set p"
proof (induction p prev s rule: rewrite_from.induct)
  case (1 p prev s)
  show ?case
  proof (cases s)
    case Nil
    then show ?thesis by (simp add: rewrite_from_simps)
  next
    case s: (Cons c rest)
    show ?thesis
    proof (cases "if prev then None else table_reference s")
      case None
      then have "rewrite_from p prev s = c # rewrite_from p (is_word c) rest"
        using s by (cases prev) (simp_all add: rewrite_from_simps)
      then show ?thesis using 1(1) [OF s None] s by auto
    next
      case (Some m)
      obtain lead t r where m: "m = (lead, t, r)" by (cases m)
      then have tr: "table_reference s = Some (lead, t, r)" and "\<not> prev" using Some by (auto split: if_splits)
      have "rewrite_from p prev s = lead @ p @ t @ rewrite_from p True r"
        using rewrite_from_simps(4) tr \<open>\<not> prev\<close> unfolding s by simp
      moreover obtain demo where "s = lead @ demo @ t @ r" using table_reference_SomeD [OF tr] by blast
      moreover have "set (rewrite_from p True r) \<subseteq> set r \<union> set p"
        using 1(2) [OF s Some m [symmetric] refl] .
      ultimately show ?thesis by auto
    qed
  qed
qed

lemma starts_with_word:
  "list_all is_upper kw \<Longrightarrow> starts_with kw (upper s) = starts_with kw (first_word s)"
proof (induction kw arbitrary: s)
  case (Cons k kw)
  then show ?case using to_upper_word by (cases s) (auto simp: starts_with_def)
qed (simp add: starts_with_def)

lemma select_capitals: "list_all is_upper ''SELECT''"
  by code_simp

lemma rewrite_tables_read_only:
  assumes p: "harmless p" and s: "read_only s"
  shows "read_only (rewrite_tables s p)"
proof -
  obtain c rest where c: "s = c # rest" using s by (cases s) (auto simp: read_only_def starts_with_def)
  have sel: "starts_with ''SELECT'' (upper s)" using s by (simp add: read_only_def)
  then have "take (length ''SELECT'') (upper s) = ''SELECT''" unfolding starts_with_def .
  then have "take 4 (take (length ''SELECT'') (upper s)) = ''SELE''" by (simp only:) simp
  then have "upper (take 4 s) = ''SELE''" by (simp add: take_map eval_nat_numeral)
  then have none: "table_reference s = None" by (simp add: table_reference_def ci_prefix_def eval_nat_numeral)
  have "is_word c" using sel c select_capitals to_upper_word by (auto simp: starts_with_def)
  then have "takeWhile is_word (rewrite_tables s p) = takeWhile is_word s"
    using none by (simp add: rewrite_tables_def c rewrite_from_simps rewrite_from_first_word)
  then have "starts_with ''SELECT'' (upper (rewrite_tables s p))"
    using sel starts_with_word [OF select_capitals] by metis
  moreover have "find_keyword False (rewrite_tables s p) = None"
    unfolding rewrite_tables_def by (rule rewrite_keeps_keywords) (use p s in \<open>auto simp: read_only_def\<close>)
  moreover have "CHR '';'' \<notin> set (rewrite_tables s p)"
    using rewrite_from_set [of p False s] p s by (auto simp: rewrite_tables_def read_only_def harmless_def)
  ultimately show ?thesis by (simp add: read_only_def)
qed

lemma read_only_append:
  assumes "\<not> word_next r" and "x \<noteq> []"
  shows "read_only (x @ r) \<longleftrightarrow> read_only x \<and> CHR '';'' \<notin> set r \<and> find_keyword (is_word (last x)) r = None"
proof -
  have "takeWhile is_word (x @ r) = takeWhile is_word x"
    using assms by (cases r) (auto simp: takeWhile_append word_next_def takeWhile_eq_all_conv [THEN iffD2])
  then have "starts_with ''SELECT'' (upper (x @ r)) = starts_with ''SELECT'' (upper x)"
    using starts_with_word [OF select_capitals] by (metis (no_types))
  then show ?thesis using assms by (auto simp: read_only_def find_keyword_append)
qed


text \<open>Texts without letters hold no keyword.\<close>

lemma find_keyword_letterless:
  "list_all (\<lambda>c. \<not> is_upper (to_upper c)) s \<Longrightarrow> find_keyword prev s = None"
proof (induction s arbitrary: prev)
  case (Cons c s)
  have "first_word (c # s) \<notin> set WRITE_KEYWORDS"
  proof
    assume "first_word (c # s) \<in> set WRITE_KEYWORDS"
    then have "list_all is_upper (first_word (c # s))" "first_word (c # s) \<noteq> []"
      using keywords_are_capitals by blast+
    then show False using Cons.prems by (auto split: if_splits)
  qed
  then show ?case using Cons by (simp add: find_keyword_Cons del: takeWhile.simps)
qed simp

lemma digit_letterless: "is_digit c \<Longrightarrow> \<not> is_upper (to_upper c)"
  by (auto simp: is_digit_def to_upper_def is_lower_def is_upper_def)

lemma limit_suffix_harmless:
  "find_keyword b ('' LIMIT '' @ nat_str n) = None" "CHR '';'' \<notin> set ('' LIMIT '' @ nat_str n)"
  "\<not> word_next ('' LIMIT '' @ r)"
proof -
  have "find_keyword False (nat_str n) = None"
    using nat_str_digits digit_letterless by (intro find_keyword_letterless) (auto simp: list_all_iff)
  moreover have "\<not> is_word (last '' LIMIT '')" "find_keyword True '' LIMIT '' = None" "find_keyword False '' LIMIT '' = None"
    by code_simp+
  ultimately show "find_keyword b ('' LIMIT '' @ nat_str n) = None"
    using find_keyword_append [of "'' LIMIT ''" "nat_str n" b] by (cases b) auto
  have "\<not> is_digit (CHR '';'')" by code_simp
  then have "CHR '';'' \<notin> set (nat_str n)" using nat_str_digits by (auto simp: list_all_iff)
  then show "CHR '';'' \<notin> set ('' LIMIT '' @ nat_str n)" by simp
  have "\<not> is_word (CHR '' '')" by code_simp
  then show "\<not> word_next ('' LIMIT '' @ r)" by (simp add: word_next_def)
qed

lemma read_only_limit: "read_only s \<Longrightarrow> read_only (s @ '' LIMIT '' @ nat_str n)"
proof -
  assume s: "read_only s"
  then have "s \<noteq> []" by (auto simp: read_only_def starts_with_def)
  then show ?thesis
    using s read_only_append [of "'' LIMIT '' @ nat_str n" s] limit_suffix_harmless by simp
qed

lemma limited_read_only: "read_only s \<Longrightarrow> read_only (limited s n)"
  unfolding limited_def using read_only_limit by presburger

lemma split_limit_prefix:
  assumes "split_limit s = Some b"
  shows "\<exists>r. s = b @ r \<and> r \<noteq> [] \<and> is_space (hd r)"
proof -
  define r where "r = dropWhile is_space (rev s)"
  define r1 where "r1 = dropWhile is_digit r"
  define r2 where "r2 = dropWhile is_space r1"
  define r3 where "r3 = drop 5 r2"
  have "b = rev (dropWhile is_space r3)" "r3 \<noteq> []" "is_space (hd r3)"
    using assms unfolding split_limit_def r_def r1_def r2_def r3_def Let_def by (auto split: if_splits)
  have "rev s = takeWhile is_space (rev s) @ takeWhile is_digit r @ takeWhile is_space r1 @ take 5 r2 @ r3"
    by (simp add: r_def r1_def r2_def r3_def)
  then obtain u where u: "rev s = u @ r3" by (metis append_assoc)
  define v where "v = takeWhile is_space r3"
  have v: "v \<noteq> []" "is_space (last v)"
  proof -
    show "v \<noteq> []" using \<open>r3 \<noteq> []\<close> \<open>is_space (hd r3)\<close> by (cases r3) (simp_all add: v_def)
    then show "is_space (last v)" unfolding v_def using last_in_set set_takeWhileD by metis
  qed
  have "rev s = u @ v @ rev b" using u \<open>b = _\<close> by (simp add: v_def)
  then have "s = b @ rev v @ rev u" by (metis append_assoc rev_append rev_rev_ident)
  then show ?thesis using v by (intro exI [of _ "rev v @ rev u"]) (simp add: hd_rev)
qed

lemma space_not_word: "is_space c \<Longrightarrow> \<not> is_word c"
  by (auto simp: is_space_def is_word_def is_digit_def is_lower_def is_upper_def)

lemma read_only_hd: "read_only s \<Longrightarrow> s \<noteq> [] \<and> \<not> is_space (hd s)"
  using to_upper_word space_not_word select_capitals
  by (cases s) (fastforce simp: read_only_def starts_with_def)+

lemma read_only_rstrip: "read_only s \<Longrightarrow> read_only (strip s)"
proof -
  assume s: "read_only s"
  define r where "r = rev (takeWhile is_space (rev s))"
  have "strip s = rev (dropWhile is_space (rev s))"
    using read_only_hd [OF s] by (simp add: strip_def rstrip_def dropWhile_hd)
  then have eq: "s = strip s @ r"
    unfolding r_def by (metis rev_append rev_rev_ident takeWhile_dropWhile_id)
  have "\<not> word_next r"
    using space_not_word unfolding r_def word_next_def by (metis hd_in_set rev_is_Nil_conv set_rev set_takeWhileD)
  moreover have "strip s \<noteq> []"
  proof
    assume "strip s = []"
    then have "\<forall>c \<in> set s. is_space c" using eq unfolding r_def by (metis append_Nil set_rev set_takeWhileD)
    then show False using read_only_hd [OF s] hd_in_set by blast
  qed
  ultimately show ?thesis using read_only_append s eq by metis
qed

lemma strip_limit_read_only: "read_only s \<Longrightarrow> read_only (strip_limit s)"
proof (cases "split_limit s")
  case (Some b)
  assume s: "read_only s"
  obtain r where r: "s = b @ r" "r \<noteq> []" "is_space (hd r)" using split_limit_prefix [OF Some] by blast
  then have "b \<noteq> []" using read_only_hd [OF s] by (cases b) auto
  moreover have "\<not> word_next r" using r space_not_word by (simp add: word_next_def)
  ultimately have "read_only b" using s r read_only_append by metis
  then show ?thesis by (simp add: strip_limit_def Some read_only_rstrip)
qed (simp add: strip_limit_def read_only_rstrip)

section \<open>Properties\<close>

text \<open>A word of a text: a run of word characters that cannot be extended.\<close>

definition word_of :: "string \<Rightarrow> string \<Rightarrow> bool" where
  "word_of w s \<longleftrightarrow> w \<noteq> [] \<and> list_all is_word w \<and>
     (\<exists>a b. s = a @ w @ b \<and> (a = [] \<or> \<not> is_word (last a)) \<and> \<not> word_next b)"

lemma find_keyword_words:
  assumes "find_keyword False s = None" and "word_of w s"
  shows "upper w \<notin> set WRITE_KEYWORDS"
proof -
  obtain a b where s: "s = a @ w @ b" "a = [] \<or> \<not> is_word (last a)" "\<not> word_next b"
    and w: "w \<noteq> []" "list_all is_word w" using assms(2) by (auto simp: word_of_def)
  have "find_keyword False (w @ b) = None"
    using assms(1) s find_keyword_append [of a "w @ b" False] by (cases "a = []") auto
  then have "find_keyword False w = None" using find_keyword_append s(3) w(1) by blast
  then show ?thesis
    using w by (cases w) (auto simp: find_keyword_Cons takeWhile_eq_all_conv [THEN iffD2] list_all_iff)
qed

lemma validate_id: "read_only s \<Longrightarrow> strip s = s \<Longrightarrow> validate s = Inr s"
  using read_only_hd by (auto simp: validate_Inr rstrip_semicolons_id read_only_def)

text \<open>
  C15. What the console accepts is one read-only statement: the accepted text begins with \<open>SELECT\<close>, has
  no semicolon and no surrounding space, no word of it is a write keyword in any letter case, and
  it is accepted again unchanged.
\<close>

theorem accepted_is_read_only:
  assumes "validate sql = Inr stmt"
  shows "starts_with ''SELECT'' (upper stmt) \<and> CHR '';'' \<notin> set stmt \<and> strip stmt = stmt \<and>
    (\<forall>w. word_of w stmt \<longrightarrow> upper w \<notin> set WRITE_KEYWORDS) \<and> validate stmt = Inr stmt"
proof -
  have r: "read_only stmt" "strip stmt = stmt"
    using validate_read_only [OF assms] validate_stripped [OF assms] .
  then show ?thesis using find_keyword_words validate_id unfolding read_only_def by blast
qed

theorem accepted_is_read_only_witness:
  "let stmt = ''select created_at from events''
   in validate ''  select created_at from events ; '' = Inr stmt \<and>
      (\<forall>w. word_of w stmt \<longrightarrow> upper w \<notin> set WRITE_KEYWORDS)"
proof -
  have "validate ''  select created_at from events ; '' = Inr ''select created_at from events''" by code_simp
  then show ?thesis using accepted_is_read_only by (simp add: Let_def)
qed

lemma dialect_cases:
  "(engine, f) \<in> set DIALECTS \<Longrightarrow>
     f = sql_for_cassandra \<or> f = sql_for_presto \<or> f = sql_for_spark \<or> f = sql_for_spark_bulk \<or> f = sql_for_cqlite"
  by (auto simp: DIALECTS_def)

text \<open>
  Property. Rewriting keeps a statement read-only: what each engine is given of an accepted statement that
  names no \<open>ALLOW FILTERING\<close> still begins with \<open>SELECT\<close>, has no semicolon, and holds no write
  keyword.
\<close>

theorem dialects_keep_read_only:
  assumes "validate sql = Inr stmt" and "drop_allow_filtering stmt = stmt"
    and "(engine, dialect) \<in> set DIALECTS"
  shows "starts_with ''SELECT'' (upper (dialect stmt n)) \<and> CHR '';'' \<notin> set (dialect stmt n) \<and>
    find_keyword False (dialect stmt n) = None"
proof -
  have r: "read_only stmt" and s: "strip (drop_allow_filtering stmt) = stmt"
    using validate_read_only [OF assms(1)] validate_stripped [OF assms(1)] by (simp_all add: assms(2))
  have plain: "read_only (limited (rewrite_tables (strip (drop_allow_filtering stmt)) p) n)" if "harmless p" for p
    using that r by (simp add: s rewrite_tables_read_only limited_read_only)
  have "read_only (sql_for_cassandra stmt n)"
  proof -
    define x where "x = rewrite_tables (strip_limit stmt) '''' @ '' LIMIT '' @ nat_str n"
    have "read_only x"
      unfolding x_def using r by (intro read_only_limit rewrite_tables_read_only harmless_Nil strip_limit_read_only)
    moreover have "find_keyword True '' ALLOW FILTERING'' = None" "find_keyword False '' ALLOW FILTERING'' = None"
      by code_simp+
    then have "find_keyword b '' ALLOW FILTERING'' = None" for b by (cases b) simp_all
    moreover have "\<not> word_next '' ALLOW FILTERING''" "CHR '';'' \<notin> set '' ALLOW FILTERING''" by code_simp+
    moreover have "x \<noteq> []" by (simp add: x_def)
    ultimately have "read_only (x @ '' ALLOW FILTERING'')" using read_only_append by blast
    moreover have "sql_for_cassandra stmt n = x @ '' ALLOW FILTERING''"
      by (simp add: sql_for_cassandra_def s x_def Let_def)
    ultimately show ?thesis by simp
  qed
  then have "read_only (dialect stmt n)"
    using dialect_cases [OF assms(3)] plain [OF harmless_Nil] plain [OF harmless_demo] plain [OF harmless_bulk]
    unfolding sql_for_presto_def sql_for_spark_def sql_for_spark_bulk_def sql_for_cqlite_def
    by (elim disjE) (simp_all only:)
  then show ?thesis by (simp add: read_only_def)
qed

theorem dialects_keep_read_only_witness:
  "sql_for_spark_bulk ''SELECT a FROM demo.events'' 10 = ''SELECT a FROM bulk_events LIMIT 10'' \<and>
   find_keyword False (sql_for_spark_bulk ''SELECT a FROM demo.events'' 10) = None"
proof -
  have "validate ''SELECT a FROM demo.events;'' = Inr ''SELECT a FROM demo.events''"
    "drop_allow_filtering ''SELECT a FROM demo.events'' = ''SELECT a FROM demo.events''" by code_simp+
  moreover have "(''spark_bulk'', sql_for_spark_bulk) \<in> set DIALECTS" by (simp add: DIALECTS_def)
  ultimately have "find_keyword False (sql_for_spark_bulk ''SELECT a FROM demo.events'' 10) = None"
    using dialects_keep_read_only by blast
  moreover have "sql_for_spark_bulk ''SELECT a FROM demo.events'' 10 = ''SELECT a FROM bulk_events LIMIT 10''"
    by code_simp
  ultimately show ?thesis by blast
qed


lemma has_limit_suffix: "has_limit (s @ '' LIMIT '' @ nat_str n)"
proof -
  define ds where "ds = rev (nat_str n)"
  have ds: "ds \<noteq> []" "list_all is_digit ds"
    using nat_str_digits nat_str_nonempty by (simp_all add: ds_def list_all_iff)
  have "\<not> is_space (hd ds)" using ds by (cases ds) (auto simp: is_digit_def is_space_def)
  then have r: "dropWhile is_space (rev (s @ '' LIMIT '' @ nat_str n)) = ds @ '' TIMIL '' @ rev s"
    using ds(1) by (simp add: ds_def [symmetric] dropWhile_hd)
  have c: "\<not> is_digit (CHR '' '')" "is_space (CHR '' '')" "\<not> is_space (CHR ''T'')" "ci_prefix ''TIMIL'' (''TIMIL '' @ rev s)"
    by (code_simp | simp add: ci_prefix_def, code_simp)+
  have "dropWhile is_digit (ds @ '' TIMIL '' @ rev s) = '' TIMIL '' @ rev s"
    using ds(2) c(1) by (simp add: dropWhile_append list_all_iff)
  then show ?thesis
    using c ds(1) unfolding has_limit_def split_limit_def Let_def r by simp
qed

lemma limited_has_limit: "has_limit (limited s n)"
  unfolding limited_def using has_limit_suffix by simp

text \<open>
  Property. Every statement an engine is given is limited: with the limit of the request, or for the four
  engines other than Cassandra with the one it came with; CQL's \<open>ALLOW FILTERING\<close> stands after
  it.
\<close>

theorem statements_are_limited:
  assumes "(engine, dialect) \<in> set DIALECTS"
  shows "if engine = ''cassandra'' then \<exists>s. dialect sql n = s @ '' ALLOW FILTERING'' \<and> has_limit s
    else has_limit (dialect sql n)"
proof (cases "engine = ''cassandra''")
  case True
  define s where "s = rewrite_tables (strip_limit (strip (drop_allow_filtering sql))) '''' @ '' LIMIT '' @ nat_str n"
  have "dialect = sql_for_cassandra" using assms True by (auto simp: DIALECTS_def)
  then have "dialect sql n = s @ '' ALLOW FILTERING''" by (simp add: sql_for_cassandra_def s_def Let_def)
  moreover have "has_limit s" unfolding s_def by (rule has_limit_suffix)
  ultimately show ?thesis using True by auto
next
  case False
  then have "dialect \<in> {sql_for_presto, sql_for_spark, sql_for_spark_bulk, sql_for_cqlite}"
    using assms by (auto simp: DIALECTS_def)
  then show ?thesis
    using False by (auto simp: sql_for_presto_def sql_for_spark_def sql_for_spark_bulk_def sql_for_cqlite_def limited_has_limit)
qed

theorem statements_are_limited_witness:
  "sql_for_presto ''SELECT a FROM events'' 7 = ''SELECT a FROM demo.events LIMIT 7'' \<and>
   has_limit (sql_for_presto ''SELECT a FROM events'' 7)"
proof -
  have "(''presto'', sql_for_presto) \<in> set DIALECTS" by (simp add: DIALECTS_def)
  from statements_are_limited [OF this, of "''SELECT a FROM events''" 7]
  have "has_limit (sql_for_presto ''SELECT a FROM events'' 7)" by simp
  moreover have "sql_for_presto ''SELECT a FROM events'' 7 = ''SELECT a FROM demo.events LIMIT 7''" by code_simp
  ultimately show ?thesis by blast
qed

text \<open>A number the translator copies out of a question: no letter, no space, no semicolon.\<close>

definition numeric :: "string \<Rightarrow> bool" where
  "numeric s \<longleftrightarrow> list_all (\<lambda>c. is_digit c \<or> c = CHR ''-'' \<or> c = CHR ''.'') s"

lemma take_number_numeric: "take_number s = Some (x, r) \<Longrightarrow> numeric x"
proof -
  have "list_all is_digit (takeWhile is_digit y)" for y by (auto simp: list_all_iff dest: set_takeWhileD)
  then have d: "numeric (takeWhile is_digit y)" for y by (auto simp: numeric_def list_all_iff)
  assume "take_number s = Some (x, r)"
  then show ?thesis
    using d by (auto simp: take_number_def Let_def numeric_def split: if_splits)
qed

lemma comparison_here_numeric:
  assumes "comparison_here s = Some (w, x, y)"
  shows "numeric x \<and> (\<forall>z. y = Some z \<longrightarrow> numeric z)"
  using assms take_number_numeric
  by (auto simp: comparison_here_def Let_def split: option.splits prod.splits)

lemma find_comparison_numeric:
  "find_comparison s = Some (w, x, y) \<Longrightarrow> numeric x \<and> (\<forall>z. y = Some z \<longrightarrow> numeric z)"
  by (induction s) (auto dest: comparison_here_numeric split: option.splits)

lemma numeric_harmless:
  assumes "numeric x"
  shows "find_keyword b x = None" and "CHR '';'' \<notin> set x"
proof -
  have "\<not> is_upper (to_upper c)" if "c \<in> set x" for c
  proof -
    have "\<not> is_upper (to_upper (CHR ''-''))" "\<not> is_upper (to_upper (CHR ''.''))" by code_simp+
    then show ?thesis using assms that digit_letterless by (auto simp: numeric_def list_all_iff)
  qed
  then show "find_keyword b x = None" by (intro find_keyword_letterless) (simp add: list_all_iff)
  have "\<not> is_digit (CHR '';'')" by code_simp
  then show "CHR '';'' \<notin> set x" using assms by (auto simp: numeric_def list_all_iff)
qed

text \<open>A fragment that ends in a space, a number, and a fragment that begins with one.\<close>

lemma read_only_fill:
  assumes "read_only a" and "\<not> is_word (last a)" and "numeric x"
    and "\<not> word_next b" and "find_keyword True b = None" and "find_keyword False b = None" and "CHR '';'' \<notin> set b"
  shows "read_only (a @ x @ b)"
proof -
  have a: "a \<noteq> []" using assms(1) read_only_hd by blast
  have "find_keyword False (x @ b) = None"
    using find_keyword_append [of x b False] numeric_harmless [OF assms(3)] assms
    by (cases "x = []"; cases "is_word (last x)") auto
  then have "find_keyword False (a @ x @ b) = None"
    using find_keyword_append [OF a] assms(1,2) by (auto simp: read_only_def)
  moreover have "takeWhile is_word (a @ x @ b) = takeWhile is_word a"
    using a assms(2) by (intro takeWhile_append1 [of "last a"]) auto
  then have "starts_with ''SELECT'' (upper (a @ x @ b))"
    using starts_with_word [OF select_capitals] assms(1) unfolding read_only_def by metis
  ultimately show ?thesis using assms numeric_harmless by (simp add: read_only_def)
qed

text \<open>A fragment that may follow the fixed part of a translated question.\<close>

definition fragment :: "string \<Rightarrow> bool" where
  "fragment r \<longleftrightarrow> \<not> word_next r \<and> CHR '';'' \<notin> set r \<and> find_keyword True r = None \<and> find_keyword False r = None"

lemma NL_BASE_read_only: "read_only NL_BASE"
  by code_simp

lemma NL_BASE_fragment: "fragment r \<Longrightarrow> read_only (NL_BASE @ r)"
  using NL_BASE_read_only read_only_hd read_only_append
  unfolding fragment_def by (cases "is_word (last NL_BASE)") metis+

lemma NL_fill:
  "fragment a \<Longrightarrow> a \<noteq> [] \<Longrightarrow> \<not> is_word (last a) \<Longrightarrow> numeric x \<Longrightarrow> fragment b \<Longrightarrow> read_only (NL_BASE @ a @ x @ b)"
  using read_only_fill [of "NL_BASE @ a" x b] NL_BASE_fragment by (simp add: fragment_def)

lemma NL_fill2:
  assumes "fragment a" "a \<noteq> []" "\<not> is_word (last a)" "numeric x" "numeric y" "fragment b"
  shows "read_only (NL_BASE @ a @ x @ '' AND '' @ y @ b)"
proof -
  have "fragment '' AND ''" "\<not> is_word (last '' AND '')" by code_simp+
  then show ?thesis
    using read_only_fill [of "NL_BASE @ a @ x @ '' AND ''" y b] NL_fill [OF assms(1-4)] assms(5,6)
    by (simp add: fragment_def)
qed

lemma NL_measure_fragments:
  assumes "(ws, col) \<in> set NL_MEASURES"
  shows "op \<in> {'' BETWEEN '', '' > '', '' < ''} \<Longrightarrow> fragment ('' WHERE '' @ col @ op) \<and> \<not> is_word (last op)"
    and "dir \<in> {'' DESC'', '' ASC''} \<Longrightarrow> fragment ('' ORDER BY '' @ col @ dir) \<and> \<not> is_space (last dir)"
proof -
  have "\<forall>(ws, col) \<in> set NL_MEASURES.
      (\<forall>op \<in> {'' BETWEEN '', '' > '', '' < ''}. fragment ('' WHERE '' @ col @ op) \<and> \<not> is_word (last op)) \<and>
      (\<forall>dir \<in> {'' DESC'', '' ASC''}. fragment ('' ORDER BY '' @ col @ dir) \<and> \<not> is_space (last dir))"
    by code_simp
  then show "op \<in> {'' BETWEEN '', '' > '', '' < ''} \<Longrightarrow> fragment ('' WHERE '' @ col @ op) \<and> \<not> is_word (last op)"
    and "dir \<in> {'' DESC'', '' ASC''} \<Longrightarrow> fragment ('' ORDER BY '' @ col @ dir) \<and> \<not> is_space (last dir)"
    using assms by blast+
qed

text \<open>The statement of a question about one measure.\<close>

lemma measured_read_only:
  assumes m: "(ws, col) \<in> set NL_MEASURES" and "numeric x" "numeric y"
  shows "read_only (NL_BASE @ '' ORDER BY '' @ col @ '' DESC'')"
    and "read_only (NL_BASE @ '' WHERE '' @ col @ '' > '' @ x @ '' ORDER BY '' @ col @ '' DESC'')"
    and "read_only (NL_BASE @ '' WHERE '' @ col @ '' < '' @ x @ '' ORDER BY '' @ col @ '' ASC'')"
    and "read_only (NL_BASE @ '' WHERE '' @ col @ '' BETWEEN '' @ x @ '' AND '' @ y @ '' ORDER BY '' @ col @ '' DESC'')"
proof -
  have d: "fragment ('' ORDER BY '' @ col @ '' DESC'')" "fragment ('' ORDER BY '' @ col @ '' ASC'')"
    using NL_measure_fragments(2) [OF m] by blast+
  have w: "fragment ('' WHERE '' @ col @ op) \<and> \<not> is_word (last op)" if "op \<in> {'' BETWEEN '', '' > '', '' < ''}" for op
    using NL_measure_fragments(1) [OF m that] .
  show "read_only (NL_BASE @ '' ORDER BY '' @ col @ '' DESC'')" by (rule NL_BASE_fragment [OF d(1)])
  show "read_only (NL_BASE @ '' WHERE '' @ col @ '' > '' @ x @ '' ORDER BY '' @ col @ '' DESC'')"
    using NL_fill [of "'' WHERE '' @ col @ '' > ''", OF _ _ _ assms(2) d(1)] w [of "'' > ''"] by simp
  show "read_only (NL_BASE @ '' WHERE '' @ col @ '' < '' @ x @ '' ORDER BY '' @ col @ '' ASC'')"
    using NL_fill [of "'' WHERE '' @ col @ '' < ''", OF _ _ _ assms(2) d(2)] w [of "'' < ''"] by simp
  show "read_only (NL_BASE @ '' WHERE '' @ col @ '' BETWEEN '' @ x @ '' AND '' @ y @ '' ORDER BY '' @ col @ '' DESC'')"
    using NL_fill2 [of "'' WHERE '' @ col @ '' BETWEEN ''", OF _ _ _ assms(2,3) d(1)] w [of "'' BETWEEN ''"] by simp
qed

definition NL_FIXED :: "string list" where
  "NL_FIXED = ['' WHERE predicted_zone_breach = true ORDER BY risk_score DESC'',
     '' WHERE near_restricted_zone = true ORDER BY risk_score DESC'', '' WHERE is_flying = false'',
     '' WHERE is_flying = true'', '''']"

lemma fixed_read_only: "r \<in> set NL_FIXED \<Longrightarrow> read_only (NL_BASE @ r) \<and> \<not> is_space (last (NL_BASE @ r))"
proof -
  have "\<forall>r \<in> set NL_FIXED. fragment r \<and> (r \<noteq> [] \<longrightarrow> \<not> is_space (last r))" "\<not> is_space (last NL_BASE)" by code_simp+
  then show "r \<in> set NL_FIXED \<Longrightarrow> read_only (NL_BASE @ r) \<and> \<not> is_space (last (NL_BASE @ r))"
    using NL_BASE_fragment NL_BASE_read_only by (cases "r = []") auto
qed

text \<open>
  Property. The rule-based translator never produces a statement the console refuses: whatever the
  question, its statement is accepted as it stands.
\<close>

theorem questions_are_accepted:
  "validate (patterns_to_sql prompt) = Inr (patterns_to_sql prompt)"
proof -
  define q where "q = patterns_to_sql prompt"
  define counts where "counts = ''SELECT count(*) AS assets, count_if(is_flying) AS flying, count_if(near_restricted_zone) AS near_zone, round(avg(speed_mps), 1) AS avg_speed_mps FROM demo.drone_latest_status''"
  have counts: "read_only counts \<and> \<not> is_space (last counts)" unfolding counts_def by code_simp
  have "read_only q \<and> \<not> is_space (last q)"
  proof (cases "List.find (\<lambda>(ws, _). list_ex (mentions prompt) ws) NL_MEASURES")
    case None
    then have "q = counts \<or> (\<exists>r \<in> set NL_FIXED. q = NL_BASE @ r)"
      unfolding q_def patterns_to_sql_def counts_def NL_FIXED_def by simp
    then show ?thesis using counts fixed_read_only by auto
  next
    case (Some m)
    obtain ws col where m: "m = (ws, col)" "(ws, col) \<in> set NL_MEASURES"
      using find_SomeD [OF Some] by (cases m) auto
    have sp: "\<not> is_space (CHR ''C'')" by code_simp
    show ?thesis
    proof (cases "find_comparison prompt")
      case None
      then have q: "q = NL_BASE @ '' ORDER BY '' @ col @ '' DESC''"
        unfolding q_def patterns_to_sql_def Some m(1) by simp
      show ?thesis unfolding q using measured_read_only(1) [OF m(2), of "''''" "''''"] sp by (simp add: numeric_def)
    next
      case c: (Some t)
      obtain w x y where t: "t = (w, x, y)" by (cases t)
      have n: "numeric x" "y = Some z \<Longrightarrow> numeric z" for z
        using find_comparison_numeric c t by blast+
      have "q = NL_BASE @ '' WHERE '' @ col @ '' BETWEEN '' @ x @ '' AND '' @ the y @ '' ORDER BY '' @ col @ '' DESC'' \<and> y \<noteq> None \<or>
         q = NL_BASE @ '' WHERE '' @ col @ '' > '' @ x @ '' ORDER BY '' @ col @ '' DESC'' \<or>
         q = NL_BASE @ '' WHERE '' @ col @ '' < '' @ x @ '' ORDER BY '' @ col @ '' ASC''"
        unfolding q_def patterns_to_sql_def Some m(1) c t by simp
      then show ?thesis
        using measured_read_only(2,3) [OF m(2) n(1) n(1)] measured_read_only(4) [OF m(2) n(1) n(2)] sp
        by (elim disjE) (auto simp del: append_Cons)
    qed
  qed
  then have "read_only q" "strip q = q" using read_only_hd strip_id by blast+
  then show ?thesis unfolding q_def by (rule validate_id)
qed

end
