(* ===== verification/Spark.thy ===== *)
theory Spark
  imports Console Json Cql
begin

text \<open>
  The two batch paths (\<open>src/backend/app/db/spark_client.py\<close>): the HiveServer2 connection with its
  retry and its cancellation, and the bulk reader, which names, ages, reuses and sizes the snapshots
  it reads. With them the size of a snapshot as the Sidecar lists it (\<open>sidecar.py\<close>) and the killing
  of jobs at the application UI (\<open>spark_ui.py\<close>).

  The Thrift driver, the Sidecar's and the UI's answers are the record \<open>hive\<close> of parameters over a state
  \<open>'x\<close>. \<open>cuts\<close> says of each statement to come whether \<open>abort\<close> is called while it runs. A TTL and a
  timeout are whole seconds; both clocks are functions of the number of readings.
\<close>

section \<open>Readable errors\<close>

text \<open>\<open>_HIVE_MESSAGE_RE\<close>: the body of the first quoted \<open>errorMessage\<close>, escapes kept.\<close>

fun quoted_body :: "string \<Rightarrow> string option" where
  "quoted_body [] = None"
| "quoted_body [c] = (if c = CHR 34 then Some [] else None)"
| "quoted_body (c # d # s) =
    (if c = CHR 34 then Some []
     else if c = CHR 92 then (if d = CHR 10 then None else map_option (\<lambda>b. c # d # b) (quoted_body s))
     else map_option ((#) c) (quoted_body (d # s)))"

definition MESSAGE_OPEN :: string where
  "MESSAGE_OPEN = ''errorMessage='' @ [CHR 34]"

fun hive_message :: "string \<Rightarrow> string option" where
  "hive_message [] = None"
| "hive_message (c # s) =
    (case (if starts_with MESSAGE_OPEN (c # s) then quoted_body (drop (length MESSAGE_OPEN) (c # s)) else None) of
       Some b \<Rightarrow> Some b | None \<Rightarrow> hive_message s)"

text \<open>\<open>_HIVE_EXCEPTION_RE\<close>: the first word that ends in \<open>Exception\<close> or \<open>Error\<close> and stands before a colon, and
  what follows up to a colon, a quote or 300 characters. The word so far is the first argument.\<close>

definition exception_name :: "string \<Rightarrow> bool" where
  "exception_name w \<longleftrightarrow> (\<exists>suffix \<in> set [''Exception'', ''Error'']. length suffix < length w \<and> drop (length w - length suffix) w = suffix)"

fun hive_exception :: "string \<Rightarrow> string \<Rightarrow> (string \<times> string) option" where
  "hive_exception w [] = None"
| "hive_exception w (c # s) =
    (if is_word c then hive_exception (w @ [c]) s
     else if c = CHR '':'' \<and> exception_name w
     then Some (w, takeWhile (\<lambda>d. d \<noteq> CHR '':'' \<and> d \<noteq> CHR 39) (take 300 s))
     else hive_exception [] s)"

text \<open>\<open>s.replace("\\n", " ")\<close>: a backslash before an n.\<close>

fun unescape_newlines :: "string \<Rightarrow> string" where
  "unescape_newlines (c # d # s) =
    (if c = CHR 92 \<and> d = CHR ''n'' then CHR '' '' # unescape_newlines s else c # unescape_newlines (d # s))"
| "unescape_newlines s = s"

definition hive_readable_error :: "exn \<Rightarrow> string" where
  "hive_readable_error e =
    (let t = exn_str e in
     case hive_message t of Some m \<Rightarrow> strip (unescape_newlines m)
     | None \<Rightarrow> (case hive_exception [] t of Some (name, rest) \<Rightarrow> name @ '': '' @ strip rest
       | None \<Rightarrow> take 400 t))"

section \<open>The connection\<close>

definition REGISTERED_TABLES :: "string list" where
  "REGISTERED_TABLES = [''drone_latest_status'', ''drone_events_by_entity'', ''events'']"

definition STALE_VIEW_MARKERS :: "string list" where
  "STALE_VIEW_MARKERS = [''TABLE_OR_VIEW_NOT_FOUND'', ''cannot be found'', ''does not exist'', ''UNRESOLVED_'']"

text \<open>\<open>datetime.fromisoformat\<close>, where it does not raise: a moment with an offset or a naive one, which cannot be
  subtracted from it.\<close>

datatype moment = Aware instant | Naive

record 'x hive =
  hive_connect :: "'x \<Rightarrow> (exn + nat) \<times> 'x"
  hive_run :: "nat \<Rightarrow> string \<Rightarrow> 'x \<Rightarrow> (exn + (string list \<times> cval list list)) \<times> 'x"
  hive_ddl :: "nat \<Rightarrow> string \<Rightarrow> 'x \<Rightarrow> (exn + unit) \<times> 'x"
  hive_close :: "nat \<Rightarrow> 'x \<Rightarrow> 'x"
  cut_socket :: "'x \<Rightarrow> 'x"
  is_transport :: "exn \<Rightarrow> bool"
  sidecar_get :: "string \<Rightarrow> 'x \<Rightarrow> exn + json"
  ui_get :: "string \<Rightarrow> 'x \<Rightarrow> exn + json"
  ui_post :: "string \<Rightarrow> string \<Rightarrow> 'x \<Rightarrow> (exn + int) \<times> 'x"
  repr_of :: "json \<Rightarrow> string"
  iso_time :: "string \<Rightarrow> moment option"
  utc_now :: "'x \<Rightarrow> instant"

text \<open>What the clients read of the settings.\<close>

record spark_settings =
  spark_query_timeout_s :: int
  cassandra_host :: string
  cassandra_keyspace :: string
  cassandra_datacenter :: string
  sidecar_port :: nat
  ui_base :: string

record 'x thrift =
  register_connector_views :: bool
  t_conn :: "nat option"
  t_socket :: bool
  t_aborted :: bool
  t_connected :: bool
  cuts :: "bool list"
  beyond :: 'x

type_synonym ('x, 'a) tm = "('x thrift, 'a) pm"

definition beyond_call :: "('x \<Rightarrow> (exn + 'a) \<times> 'x) \<Rightarrow> ('x, 'a) tm" where
  "beyond_call f = (\<lambda>s. case f (beyond s) of (r, x) \<Rightarrow> (r, s\<lparr>beyond := x\<rparr>))"

definition CANCELLED :: string where
  "CANCELLED = ''Cancelled: the connection was taken away, so Spark stopped work on this statement.  It reconnects on the next query.''"

text \<open>Closing swallows what the driver raises.\<close>

definition close_locked :: "'x hive \<Rightarrow> ('x, unit) tm" where
  "close_locked H = modify (\<lambda>s. (case t_conn s of None \<Rightarrow> s | Some c \<Rightarrow> s\<lparr>beyond := hive_close H c (beyond s)\<rparr>)
     \<lparr>t_conn := None, t_socket := False, t_connected := False\<rparr>)"

definition thrift_abort :: "'x hive \<Rightarrow> ('x, bool) tm" where
  "thrift_abort H =
    bind (gets t_socket) (\<lambda>open_socket. if \<not> open_socket then ret False
    else bind (modify (\<lambda>s. s\<lparr>t_aborted := True, t_connected := False, beyond := cut_socket H (beyond s)\<rparr>)) (\<lambda>_. ret True))"

text \<open>\<open>dict(zip(columns, row))\<close>, a repeated name keeping its first place and its last value.\<close>

definition dict_zip :: "string list \<Rightarrow> cval list \<Rightarrow> row" where
  "dict_zip cs vs = fold (\<lambda>(c, v) m. AList.update c v m) (zip cs vs) []"

definition bare :: "string \<Rightarrow> string" where
  "bare c = last (split_on CHR ''.'' c)"

definition interrupted :: "'x hive \<Rightarrow> ('x, unit) tm" where
  "interrupted H =
    bind (gets (\<lambda>s. cuts s \<noteq> [] \<and> hd (cuts s))) (\<lambda>cut. bind (modify (\<lambda>s. s\<lparr>cuts := tl (cuts s)\<rparr>)) (\<lambda>_.
      if cut then bind (thrift_abort H) (\<lambda>_. ret ()) else ret ()))"

definition spark_execute :: "'x hive \<Rightarrow> string \<Rightarrow> ('x, row list) tm" where
  "spark_execute H sql =
    bind (gets t_conn) (\<lambda>c. case c of None \<Rightarrow> raise (Exn ''Spark Thrift Server not connected'')
    | Some c \<Rightarrow> bind (interrupted H) (\<lambda>_. bind (beyond_call (hive_run H c sql)) (\<lambda>(names, rows).
        let columns = map bare names in ret (if columns = [] then [] else map (dict_zip columns) rows))))"

definition execute_ddl :: "'x hive \<Rightarrow> string \<Rightarrow> ('x, unit) tm" where
  "execute_ddl H ddl =
    bind (gets t_conn) (\<lambda>c. case c of None \<Rightarrow> raise (Exn ''Spark Thrift Server not connected'')
    | Some c \<Rightarrow> beyond_call (hive_ddl H c ddl))"

definition view_ddl :: "spark_settings \<Rightarrow> string \<Rightarrow> string" where
  "view_ddl S table = ''CREATE OR REPLACE TEMP VIEW '' @ table @ '' USING org.apache.spark.sql.cassandra OPTIONS (keyspace '' @
     [CHR 39] @ cassandra_keyspace S @ [CHR 39] @ '', table '' @ [CHR 39] @ table @ [CHR 39] @ '')''"

definition register_views :: "'x hive \<Rightarrow> spark_settings \<Rightarrow> ('x, unit) tm" where
  "register_views H S =
    bind (map_pm (\<lambda>table. try_except (execute_ddl H (view_ddl S table)) (\<lambda>_. ret ())) REGISTERED_TABLES) (\<lambda>_. ret ())"

definition spark_connect :: "'x hive \<Rightarrow> spark_settings \<Rightarrow> ('x, unit) tm" where
  "spark_connect H S =
    bind (attempt (bind (beyond_call (hive_connect H)) (\<lambda>c.
      modify (\<lambda>s. s\<lparr>t_conn := Some c, t_socket := True, t_aborted := False, t_connected := True\<rparr>)))) (\<lambda>r.
    case r of Inl e \<Rightarrow> close_locked H
    | Inr _ \<Rightarrow> bind (gets register_connector_views) (\<lambda>views. if views then register_views H S else ret ()))"

text \<open>The beginning of the message; what it advises after that is left out, here and below.\<close>

definition stopped_answering :: "spark_settings \<Rightarrow> exn \<Rightarrow> string" where
  "stopped_answering S e =
    ''Spark stopped answering for '' @ int_str (spark_query_timeout_s S) @ ''s ('' @ exn_str e @ ''). Either the job is starved''"

definition stale :: "exn \<Rightarrow> bool" where
  "stale e \<longleftrightarrow> (\<exists>m \<in> set STALE_VIEW_MARKERS. find_sub m (exn_str e) \<noteq> None)"

definition spark_execute_query :: "'x hive \<Rightarrow> spark_settings \<Rightarrow> string \<Rightarrow> ('x, row list) tm" where
  "spark_execute_query H S sql =
    try_except (spark_execute H sql) (\<lambda>e.
      if is_transport H e
      then bind (gets t_aborted) (\<lambda>aborted. bind (close_locked H) (\<lambda>_.
        raise (Exn (if aborted then CANCELLED else stopped_answering S e))))
      else if stale e
      then bind (register_views H S) (\<lambda>_.
        try_except (spark_execute H sql) (\<lambda>retry_error. raise (Exn (hive_readable_error retry_error))))
      else raise (Exn (hive_readable_error e)))"

section \<open>The bulk reader\<close>

definition snapshot_ttl_minutes :: "spark_settings \<Rightarrow> int" where
  "snapshot_ttl_minutes S = max 15 (\<lceil>of_int (spark_query_timeout_s S) / (60 :: real)\<rceil> * 2)"

definition reuse_safety_margin_s :: "spark_settings \<Rightarrow> int" where
  "reuse_safety_margin_s S = spark_query_timeout_s S"

record 'x bulk =
  thrift_client :: "'x thrift"
  last_snapshot :: "string \<Rightarrow> string option"
  snapshot_counter :: nat
  clock :: "nat \<Rightarrow> real"
  clock_reads :: nat
  perf_clock :: "nat \<Rightarrow> real"
  perf_count :: nat
  b_snapshot_bytes :: "int option"
  b_snapshot_ms :: "real option"
  b_snapshot_reused :: bool
  b_snapshot_age_s :: "real option"

type_synonym ('x, 'a) bm = "('x bulk, 'a) pm"

definition on_thrift :: "('x, 'a) tm \<Rightarrow> ('x, 'a) bm" where
  "on_thrift m = (\<lambda>s. case m (thrift_client s) of (r, t) \<Rightarrow> (r, s\<lparr>thrift_client := t\<rparr>))"

definition time_now :: "('x, real) bm" where
  "time_now = (\<lambda>s. (Inr (clock s (clock_reads s)), s\<lparr>clock_reads := Suc (clock_reads s)\<rparr>))"

definition perf_now :: "('x, real) bm" where
  "perf_now = (\<lambda>s. (Inr (perf_clock s (perf_count s)), s\<lparr>perf_count := Suc (perf_count s)\<rparr>))"

text \<open>\<open>sidecar.snapshot_bytes\<close>: a request that fails gives None; the sum stands after the \<open>try\<close>.\<close>

definition snapshot_url :: "spark_settings \<Rightarrow> string \<Rightarrow> string \<Rightarrow> string" where
  "snapshot_url S table snapshot = ''http://'' @ cassandra_host S @ '':'' @ nat_str (sidecar_port S) @ ''/api/v1/keyspaces/'' @
     cassandra_keyspace S @ ''/tables/'' @ table @ ''/snapshots/'' @ snapshot"

fun file_sizes :: "json list \<Rightarrow> exn + int" where
  "file_sizes [] = Inr 0"
| "file_sizes (f # fs) =
    (case get_or f ''size'' JNull of Inl e \<Rightarrow> Inl e
     | Inr v \<Rightarrow> (case (if truthy v then int_of v else Inr 0) of Inl e \<Rightarrow> Inl e
       | Inr n \<Rightarrow> (case file_sizes fs of Inl e \<Rightarrow> Inl e | Inr m \<Rightarrow> Inr (n + m))))"

definition snapshot_bytes :: "'x hive \<Rightarrow> spark_settings \<Rightarrow> string \<Rightarrow> string \<Rightarrow> ('x, int option) bm" where
  "snapshot_bytes H S table snapshot =
    bind (gets (\<lambda>s. case sidecar_get H (snapshot_url S table snapshot) (beyond (thrift_client s)) of
        Inl e \<Rightarrow> None
      | Inr body \<Rightarrow> (case get_or body ''snapshotFilesInfo'' JNull of Inl e \<Rightarrow> None
          | Inr v \<Rightarrow> Some (if truthy v then v else JArr [])))) (\<lambda>files.
    case files of None \<Rightarrow> ret None
    | Some fs \<Rightarrow> bind (lift_exn (iterate_json fs)) (\<lambda>xs. bind (lift_exn (file_sizes xs)) (\<lambda>n. ret (Some n))))"

definition tables_in :: "string \<Rightarrow> string list" where
  "tables_in sql = filter (\<lambda>t. find_sub (BULK_VIEW_PREFIX @ t) (lower sql) \<noteq> None) REGISTERED_TABLES"

text \<open>\<open>_SNAPSHOT_STAMP_RE\<close>, read from the end: the clock in a snapshot's name.\<close>

definition stamp_of :: "string \<Rightarrow> nat option" where
  "stamp_of name =
    (let s = (if name \<noteq> [] \<and> last name = CHR 10 then butlast name else name);
         r = rev s; counter = takeWhile is_digit r
     in case dropWhile is_digit r of
          c # r1 \<Rightarrow> (let digits = takeWhile is_digit r1 in
            if counter \<noteq> [] \<and> c = CHR ''_'' \<and> 10 \<le> length digits \<and> starts_with ''_'' (dropWhile is_digit r1)
            then Some (str_val (rev digits)) else None)
        | [] \<Rightarrow> None)"

definition age_of :: "string \<Rightarrow> ('x, real option) bm" where
  "age_of snapshot = (case stamp_of snapshot of None \<Rightarrow> ret None
     | Some t \<Rightarrow> bind time_now (\<lambda>now_s. ret (Some (max 0 (now_s - of_nat t)))))"

definition reusable :: "'x hive \<Rightarrow> spark_settings \<Rightarrow> string \<Rightarrow> ('x, string option) bm" where
  "reusable H S table =
    bind (gets (\<lambda>s. last_snapshot s table)) (\<lambda>snap. case snap of None \<Rightarrow> ret None
    | Some snapshot \<Rightarrow>
        if snapshot = [] then ret None
        else bind (age_of snapshot) (\<lambda>age. case age of None \<Rightarrow> ret None
        | Some a \<Rightarrow>
            if of_int (snapshot_ttl_minutes S * 60) - a \<le> of_int (reuse_safety_margin_s S) then ret None
            else bind (snapshot_bytes H S table snapshot) (\<lambda>n. ret (if n = None then None else Some snapshot))))"

definition snapshot_name :: "string \<Rightarrow> int \<Rightarrow> nat \<Rightarrow> string" where
  "snapshot_name table t n = ''htap_dashboard_'' @ table @ ''_'' @ int_str t @ ''_'' @ nat_str n"

definition option_text :: "string \<Rightarrow> string \<Rightarrow> string" where
  "option_text key v = ''  '' @ key @ '' '' @ [CHR 39] @ v @ [CHR 39]"

definition bulk_ddl :: "spark_settings \<Rightarrow> string \<Rightarrow> bool \<Rightarrow> string \<Rightarrow> string" where
  "bulk_ddl S table fresh snapshot =
    ''CREATE OR REPLACE TEMP VIEW '' @ BULK_VIEW_PREFIX @ table @
    '' USING org.apache.cassandra.spark.sparksql.CassandraDataSource OPTIONS ('' @
    join '','' [option_text ''sidecar_contact_points'' (cassandra_host S), option_text ''keyspace'' (cassandra_keyspace S),
      option_text ''table'' table, option_text ''DC'' (cassandra_datacenter S),
      option_text ''createSnapshot'' (if fresh then ''true'' else ''false''), option_text ''snapshotName'' snapshot,
      option_text ''clearSnapshotStrategy''
        (if fresh then ''OnCompletionOrTTL '' @ int_str (snapshot_ttl_minutes S) @ ''m'' else ''NoOp''),
      option_text ''numCores'' ''4''] @ '')''"

definition register_bulk_view :: "'x hive \<Rightarrow> spark_settings \<Rightarrow> string \<Rightarrow> bool \<Rightarrow> ('x, string \<times> bool) bm" where
  "register_bulk_view H S table reuse =
    bind (if reuse then reusable H S table else ret None) (\<lambda>existing.
    bind (case existing of Some snapshot \<Rightarrow> ret snapshot
      | None \<Rightarrow> bind time_now (\<lambda>t. bind (gets snapshot_counter) (\<lambda>n.
          bind (modify (\<lambda>s. s\<lparr>snapshot_counter := Suc n\<rparr>)) (\<lambda>_. ret (snapshot_name table (truncate_int t) n))))) (\<lambda>snapshot.
    bind (on_thrift (execute_ddl H (bulk_ddl S table (existing = None) snapshot))) (\<lambda>_.
    bind (modify (\<lambda>s. s\<lparr>last_snapshot := (last_snapshot s)(table \<mapsto> snapshot)\<rparr>)) (\<lambda>_.
      ret (snapshot, existing \<noteq> None)))))"

text \<open>The loop over the tables: milliseconds, reuses, ages and the bytes so far.\<close>

fun prepare_tables :: "'x hive \<Rightarrow> spark_settings \<Rightarrow> bool \<Rightarrow> string list \<Rightarrow> real \<Rightarrow> bool list \<Rightarrow> real list \<Rightarrow> int option \<Rightarrow>
    ('x, real \<times> bool list \<times> real list \<times> int option) bm" where
  "prepare_tables H S reuse [] ms reused ages so_far = ret (ms, reused, ages, so_far)"
| "prepare_tables H S reuse (table # rest) ms reused ages so_far =
    bind perf_now (\<lambda>started.
    bind (register_bulk_view H S table reuse) (\<lambda>(snapshot, was_reused).
    bind perf_now (\<lambda>ended.
    bind (age_of snapshot) (\<lambda>age.
    bind (snapshot_bytes H S table snapshot) (\<lambda>measured.
      prepare_tables H S reuse rest (ms + (ended - started) * 1000) (reused @ [was_reused])
        (case age of None \<Rightarrow> ages | Some a \<Rightarrow> ages @ [a])
        (case measured of None \<Rightarrow> so_far | Some n \<Rightarrow> Some ((case so_far of None \<Rightarrow> 0 | Some m \<Rightarrow> m) + n)))))))"

definition bulk_stopped_answering :: "spark_settings \<Rightarrow> exn \<Rightarrow> string" where
  "bulk_stopped_answering S e =
    ''The bulk reader stopped answering for '' @ int_str (spark_query_timeout_s S) @ ''s ('' @ exn_str e @ '').''"

definition run_statement :: "'x hive \<Rightarrow> spark_settings \<Rightarrow> string \<Rightarrow> ('x, row list) bm" where
  "run_statement H S sql =
    try_except (on_thrift (spark_execute H sql)) (\<lambda>e.
      if is_transport H e
      then bind (gets (\<lambda>s. t_aborted (thrift_client s))) (\<lambda>aborted.
        raise (Exn (if aborted then CANCELLED else bulk_stopped_answering S e)))
      else raise (Exn (hive_readable_error e)))"

definition bulk_execute_query :: "'x hive \<Rightarrow> spark_settings \<Rightarrow> string \<Rightarrow> bool \<Rightarrow> ('x, row list) bm" where
  "bulk_execute_query H S sql reuse_snapshot =
    bind (modify (\<lambda>s. s\<lparr>b_snapshot_bytes := None, b_snapshot_ms := None, b_snapshot_reused := False, b_snapshot_age_s := None\<rparr>)) (\<lambda>_.
    bind (prepare_tables H S reuse_snapshot (tables_in sql) 0 [] [] None) (\<lambda>(ms, reused, ages, size).
    bind (modify (\<lambda>s. s\<lparr>b_snapshot_bytes := size, b_snapshot_ms := Some (py_round 1 ms),
        b_snapshot_reused := (reused \<noteq> [] \<and> list_all id reused),
        b_snapshot_age_s := (if ages = [] then None else Some (py_round 1 (Max (set ages))))\<rparr>)) (\<lambda>_.
      run_statement H S sql)))"

section \<open>Jobs at the application UI\<close>

record spark_job =
  j_id :: string
  j_state :: string
  j_sql :: string
  j_running_s :: real
  j_tasks_total :: json
  j_tasks_done :: json

definition DESCRIPTION_LIMIT :: nat where
  "DESCRIPTION_LIMIT = 300"

definition label :: "string \<Rightarrow> string" where
  "label statement = take DESCRIPTION_LIMIT (join '' '' (words statement))"

text \<open>\<open>v or w\<close>, and the text of a JSON string.\<close>

definition or_else :: "json \<Rightarrow> json \<Rightarrow> json" where
  "or_else v w = (if truthy v then v else w)"

fun text_of :: "json \<Rightarrow> exn + string" where
  "text_of (JStr s) = Inr s"
| "text_of _ = Inl (Exn ''object has no attribute split'')"

definition application_id :: "'x hive \<Rightarrow> spark_settings \<Rightarrow> 'x \<Rightarrow> exn + json" where
  "application_id H S x =
    (case ui_get H (ui_base S @ ''/api/v1/applications'') x of Inl e \<Rightarrow> Inl e
     | Inr apps \<Rightarrow> if \<not> truthy apps then Inr JNull
       else (case apps of JArr (JObj a # _) \<Rightarrow> (case map_of a ''id'' of Some i \<Rightarrow> Inr i | None \<Rightarrow> Inl (Exn ''id''))
             | _ \<Rightarrow> Inl (Exn ''list indices must be integers'')))"

fun sequence_exn :: "(exn + 'a) list \<Rightarrow> exn + 'a list" where
  "sequence_exn [] = Inr []"
| "sequence_exn (r # rs) = (case r of Inl e \<Rightarrow> Inl e | Inr a \<Rightarrow> (case sequence_exn rs of Inl e \<Rightarrow> Inl e | Inr bs \<Rightarrow> Inr (a # bs)))"

text \<open>How long ago, in seconds, an instant was: never negative.\<close>

definition elapsed_since :: "instant \<Rightarrow> instant \<Rightarrow> real" where
  "elapsed_since now_us t = max 0 (of_int (now_us - t) / 1000000)"

definition age_s :: "'x hive \<Rightarrow> 'x \<Rightarrow> json \<Rightarrow> exn + real" where
  "age_s H x submitted =
    (if \<not> truthy submitted then Inr 0
     else case submitted of
       JStr t \<Rightarrow> (case iso_time H (replace_sub ''GMT'' ''+00:00'' t) of
           None \<Rightarrow> Inr 0
         | Some Naive \<Rightarrow> Inl (Exn ''cannot subtract offset-naive and offset-aware datetimes'')
         | Some (Aware m) \<Rightarrow> Inr (py_round 1 (elapsed_since (utc_now H x) m)))
     | _ \<Rightarrow> Inl (Exn ''object has no attribute replace''))"

definition job_of :: "'x hive \<Rightarrow> 'x \<Rightarrow> json \<Rightarrow> exn + spark_job" where
  "job_of H x job = (case job of
     JObj m \<Rightarrow> (let field = (\<lambda>k. case map_of m k of None \<Rightarrow> JNull | Some v \<Rightarrow> v) in
       case text_of (or_else (field ''description'') (or_else (field ''name'') (JStr ''a Spark job''))) of Inl e \<Rightarrow> Inl e
       | Inr t \<Rightarrow> (case text_of (or_else (field ''status'') (JStr ''RUNNING'')) of Inl e \<Rightarrow> Inl e
         | Inr st \<Rightarrow> (case age_s H x (field ''submissionTime'') of Inl e \<Rightarrow> Inl e
           | Inr age \<Rightarrow> Inr \<lparr>j_id = py_str (repr_of H) (field ''jobId''), j_state = lower st, j_sql = label t, j_running_s = age,
               j_tasks_total = or_else (field ''numTasks'') (JInt 0), j_tasks_done = or_else (field ''numCompletedTasks'') (JInt 0)\<rparr>)))
   | _ \<Rightarrow> Inl (Exn ''object has no attribute get''))"

definition running_jobs :: "'x hive \<Rightarrow> spark_settings \<Rightarrow> 'x \<Rightarrow> exn + spark_job list" where
  "running_jobs H S x =
    (case application_id H S x of Inl e \<Rightarrow> Inl e
     | Inr app \<Rightarrow> if \<not> truthy app then Inr []
       else case ui_get H (ui_base S @ ''/api/v1/applications/'' @ py_str (repr_of H) app @ ''/jobs?status=running'') x of Inl e \<Rightarrow> Inl e
       | Inr body \<Rightarrow> (case iterate_json body of Inl e \<Rightarrow> Inl e | Inr js \<Rightarrow> sequence_exn (map (job_of H x) js)))"

definition kill_job :: "'x hive \<Rightarrow> spark_settings \<Rightarrow> string \<Rightarrow> 'x \<Rightarrow> (exn + unit) \<times> 'x" where
  "kill_job H S jid x =
    (case ui_post H (ui_base S @ ''/jobs/job/kill/'') jid x of (Inl e, x') \<Rightarrow> (Inl e, x')
     | (Inr code, x') \<Rightarrow> if 400 \<le> code
         then (Inl (Exn (''the Spark UI refused to kill job '' @ jid @ '' (HTTP '' @ int_str code @ ''); spark.ui.killEnabled must be on'')), x')
         else (Inr (), x'))"

fun kill_loop :: "'x hive \<Rightarrow> spark_settings \<Rightarrow> string set \<Rightarrow> spark_job list \<Rightarrow> string list \<Rightarrow> 'x \<Rightarrow> (exn + string list) \<times> 'x" where
  "kill_loop H S wanted [] killed x = (Inr killed, x)"
| "kill_loop H S wanted (j # js) killed x =
    (if j_sql j \<in> wanted
     then (case kill_job H S (j_id j) x of (Inl e, x') \<Rightarrow> (Inl e, x') | (Inr _, x') \<Rightarrow> kill_loop H S wanted js (killed @ [j_id j]) x')
     else kill_loop H S wanted js killed x)"

definition kill_jobs_for :: "'x hive \<Rightarrow> spark_settings \<Rightarrow> string list \<Rightarrow> 'x \<Rightarrow> (exn + string list) \<times> 'x" where
  "kill_jobs_for H S statements x =
    (case running_jobs H S x of Inl e \<Rightarrow> (Inl e, x) | Inr js \<Rightarrow> kill_loop H S (set (map label statements)) js [] x)"

section \<open>Lemmas\<close>

subsection \<open>The clock in a name\<close>

lemma str_val_bound: "list_all is_digit ds \<Longrightarrow> str_val ds < 10 ^ length ds"
proof (induction ds rule: rev_induct)
  case (snoc d ds)
  then have "str_val ds + 1 \<le> 10 ^ length ds" "code_of d - 48 < 10" by (auto simp: is_digit_def)
  then show ?case by (simp add: str_val_snoc)
qed (simp add: str_val_def)

lemma nat_str_length: "10 ^ k \<le> n \<Longrightarrow> Suc k \<le> length (nat_str n)"
proof (rule ccontr)
  assume n: "10 ^ k \<le> n" and "\<not> Suc k \<le> length (nat_str n)"
  then have "(10 :: nat) ^ length (nat_str n) \<le> 10 ^ k" by (intro power_increasing) auto
  moreover have "n < 10 ^ length (nat_str n)" using str_val_bound [OF nat_str_digits, of n] by (simp add: str_val_nat_str)
  ultimately show False using n by linarith
qed

lemma digits_before: "list_all is_digit ds \<Longrightarrow> \<not> is_digit c \<Longrightarrow>
    takeWhile is_digit (rev ds @ c # r) = rev ds \<and> dropWhile is_digit (rev ds @ c # r) = c # r"
  by (auto simp: list_all_iff takeWhile_append dropWhile_append)

lemma not_digits: "\<not> is_digit (CHR ''_'')" "\<not> is_digit (CHR 10)"
  by (simp_all add: is_digit_def)

lemma stamp_of_name:
  assumes "10 ^ 9 \<le> t"
  shows "stamp_of (snapshot_name table (int t) n) = Some t"
proof -
  define a where "a = ''htap_dashboard_'' @ table"
  have name: "snapshot_name table (int t) n = a @ CHR ''_'' # nat_str t @ CHR ''_'' # nat_str n"
    by (simp add: snapshot_name_def a_def int_str_def)
  have "is_digit (last (nat_str n))" using nat_str_digits nat_str_nonempty by (metis last_in_set list_all_iff)
  then have "last (a @ CHR ''_'' # nat_str t @ CHR ''_'' # nat_str n) \<noteq> CHR 10"
    using nat_str_nonempty not_digits(2) by (auto simp: last_append)
  moreover have r: "rev (a @ CHR ''_'' # nat_str t @ CHR ''_'' # nat_str n) =
      rev (nat_str n) @ CHR ''_'' # rev (nat_str t) @ CHR ''_'' # rev a" by simp
  moreover have "10 \<le> length (nat_str t)" using nat_str_length [of 9 t] assms by simp
  ultimately show ?thesis
    unfolding name stamp_of_def
    by (simp add: digits_before [OF nat_str_digits not_digits(1)] nat_str_nonempty starts_with_def str_val_nat_str Let_def
        del: rev_append)
qed

lemma name_counter: "snapshot_name table t n = snapshot_name table' t' n' \<Longrightarrow> n = n'"
proof -
  have "rev (takeWhile is_digit (rev (snapshot_name table t n))) = nat_str n" for table t n
    using digits_before [OF nat_str_digits not_digits(1), of n "rev (''htap_dashboard_'' @ table @ ''_'' @ int_str t)"]
    by (simp add: snapshot_name_def)
  then show "snapshot_name table t n = snapshot_name table' t' n' \<Longrightarrow> n = n'" by (metis nat_str_inj)
qed

subsection \<open>The snapshots a client remembers\<close>

definition snapshots_ok :: "(nat \<Rightarrow> real) \<Rightarrow> 'x bulk \<Rightarrow> bool" where
  "snapshots_ok c s \<longleftrightarrow> clock s = c \<and>
     (\<forall>table snap. last_snapshot s table = Some snap \<longrightarrow>
        (\<exists>t n. snap = snapshot_name table (int t) n \<and> 10 ^ 9 \<le> t \<and> of_nat t \<le> c (clock_reads s) \<and> n < snapshot_counter s))"

lemma snapshots_ok_mono:
  assumes "snapshots_ok c s" and "mono c" and "clock_reads s \<le> clock_reads s'" and "snapshot_counter s \<le> snapshot_counter s'"
    and "clock s' = clock s" and "last_snapshot s' = last_snapshot s"
  shows "snapshots_ok c s'"
proof -
  have "c (clock_reads s) \<le> c (clock_reads s')" using assms(2,3) by (rule monoD)
  then show ?thesis using assms unfolding snapshots_ok_def by (metis dual_order.trans order_less_le_trans)
qed

lemma snapshot_bytes_pure: "\<exists>r. snapshot_bytes H S table snapshot s = (r, s)"
  by (auto simp: snapshot_bytes_def bind_def gets_def ret_def raise_def lift_exn_def split: option.splits sum.splits)

text \<open>Whether the Sidecar lists a snapshot.\<close>

definition listed :: "'x hive \<Rightarrow> spark_settings \<Rightarrow> string \<Rightarrow> string \<Rightarrow> 'x bulk \<Rightarrow> bool" where
  "listed H S table snapshot s \<longleftrightarrow> (\<exists>n. fst (snapshot_bytes H S table snapshot s) = Inr (Some n))"

lemma reusable_outcome:
  assumes "reusable H S table s = (r, s1)"
  shows "(s1 = s \<or> s1 = s\<lparr>clock_reads := Suc (clock_reads s)\<rparr>) \<and>
    (\<forall>snap. r = Inr (Some snap) \<longrightarrow> last_snapshot s table = Some snap \<and> s1 = s\<lparr>clock_reads := Suc (clock_reads s)\<rparr> \<and>
      listed H S table snap s1 \<and>
      (\<exists>t. stamp_of snap = Some t \<and>
        of_int (reuse_safety_margin_s S) < of_int (snapshot_ttl_minutes S * 60) - max 0 (clock s (clock_reads s) - of_nat t)))"
proof (cases "last_snapshot s table")
  case None
  then show ?thesis using assms by (auto simp: reusable_def bind_def gets_def ret_def)
next
  case (Some snap)
  define s2 where "s2 = s\<lparr>clock_reads := Suc (clock_reads s)\<rparr>"
  obtain q where q: "snapshot_bytes H S table snap s2 = (q, s2)" using snapshot_bytes_pure by blast
  show ?thesis
  proof (cases "snap = [] \<or> stamp_of snap = None")
    case True
    then show ?thesis using assms Some
      by (cases "snap = []") (auto simp: reusable_def bind_def gets_def ret_def age_of_def)
  next
    case False
    then obtain t where t: "stamp_of snap = Some t" by auto
    have "reusable H S table s =
      (if of_int (snapshot_ttl_minutes S * 60) - max 0 (clock s (clock_reads s) - of_nat t) \<le> of_int (reuse_safety_margin_s S)
       then (Inr None, s2)
       else (case q of Inl e \<Rightarrow> Inl e | Inr n \<Rightarrow> Inr (if n = None then None else Some snap), s2))"
      using Some False t q by (cases q) (simp_all add: reusable_def bind_def gets_def ret_def age_of_def time_now_def s2_def)
    then show ?thesis using assms Some t q unfolding listed_def s2_def [symmetric]
      by (cases q) (auto split: if_splits)
  qed
qed

text \<open>A TTL outlasts two timeouts, and a timeout and a second.\<close>

lemma ttl_bound: "of_int (reuse_safety_margin_s S) + 1 < (of_int (snapshot_ttl_minutes S * 60) :: real)"
proof -
  have "of_int (spark_query_timeout_s S) / 60 \<le> (of_int \<lceil>of_int (spark_query_timeout_s S) / (60 :: real)\<rceil> :: real)" by simp
  then have "of_int (spark_query_timeout_s S) \<le> (of_int \<lceil>of_int (spark_query_timeout_s S) / (60 :: real)\<rceil> :: real) * 60" by linarith
  then have "(of_int (spark_query_timeout_s S) :: real) \<le> of_int (\<lceil>of_int (spark_query_timeout_s S) / (60 :: real)\<rceil> * 60)"
    unfolding of_int_mult by simp
  then have "spark_query_timeout_s S \<le> \<lceil>of_int (spark_query_timeout_s S) / (60 :: real)\<rceil> * 60" by linarith
  then have "spark_query_timeout_s S + 1 < snapshot_ttl_minutes S * 60"
    unfolding snapshot_ttl_minutes_def by (cases "spark_query_timeout_s S \<le> 450") linarith+
  then show ?thesis unfolding reuse_safety_margin_s_def by linarith
qed

lemma register_outcome:
  assumes ok: "snapshots_ok c s" and c: "mono c" "10 ^ 9 \<le> c 0" and run: "register_bulk_view H S table reuse s = (r, s')"
  shows "snapshots_ok c s' \<and>
    (\<forall>snap was. r = Inr (snap, was) \<longrightarrow>
      (\<exists>t n k. snap = snapshot_name table (int t) n \<and> clock_reads s \<le> k \<and> k < clock_reads s' \<and> of_nat t \<le> c k \<and>
        of_int (reuse_safety_margin_s S) < of_int (snapshot_ttl_minutes S * 60) - (c k - of_nat t) \<and>
        (if was then last_snapshot s table = Some snap \<and> (\<exists>s1. listed H S table snap s1)
         else snap \<notin> ran (last_snapshot s))))"
proof -
  define m where "m = (if reuse then reusable H S table else ret None)"
  obtain q s1 where m: "m s = (q, s1)" by (metis surj_pair)
  have m_out: "(s1 = s \<or> s1 = s\<lparr>clock_reads := Suc (clock_reads s)\<rparr>) \<and>
    (\<forall>snap. q = Inr (Some snap) \<longrightarrow> last_snapshot s table = Some snap \<and> s1 = s\<lparr>clock_reads := Suc (clock_reads s)\<rparr> \<and>
      listed H S table snap s1 \<and>
      (\<exists>t. stamp_of snap = Some t \<and>
        of_int (reuse_safety_margin_s S) < of_int (snapshot_ttl_minutes S * 60) - max 0 (clock s (clock_reads s) - of_nat t)))"
    using m reusable_outcome [of H S table s q s1] by (auto simp: m_def ret_def split: if_splits)
  then have ok1: "snapshots_ok c s1" by (intro snapshots_ok_mono [OF ok c(1)]) auto
  have clk: "clock s = c" using ok by (simp add: snapshots_ok_def)
  show ?thesis
  proof (cases q)
    case (Inl e)
    then have "r = Inl e" "s' = s1" using run m by (simp_all add: register_bulk_view_def m_def [symmetric] bind_def)
    then show ?thesis using ok1 by simp
  next
    case (Inr existing)
    define k where "k = clock_reads s1"
    define t where "t = nat (truncate_int (c k))"
    define n where "n = snapshot_counter s1"
    define snap where "snap = (case existing of Some x \<Rightarrow> x | None \<Rightarrow> snapshot_name table (int t) n)"
    define s2 where "s2 = (case existing of Some _ \<Rightarrow> s1
      | None \<Rightarrow> s1\<lparr>clock_reads := Suc k, snapshot_counter := Suc n\<rparr>)"
    have ck: "10 ^ 9 \<le> c k" using monoD [OF c(1), of 0 k] c(2) by simp
    then have t: "int t = truncate_int (c k)" "10 ^ 9 \<le> t" "of_nat t \<le> c k" "c k < of_nat t + 1"
      by (simp_all add: t_def truncate_int_def) linarith+
    have ok2: "snapshots_ok c s2"
      by (intro snapshots_ok_mono [OF ok1 c(1)]) (auto simp: s2_def k_def n_def split: option.split)
    obtain d th where ddl: "execute_ddl H (bulk_ddl S table (existing = None) snap) (thrift_client s2) = (d, th)" by (metis surj_pair)
    have clk1: "clock s1 = c" using ok1 by (simp add: snapshots_ok_def)
    have s': "(r, s') = (case d of Inl e \<Rightarrow> (Inl e, s2\<lparr>thrift_client := th\<rparr>)
      | Inr _ \<Rightarrow> (Inr (snap, existing \<noteq> None), s2\<lparr>thrift_client := th, last_snapshot := (last_snapshot s2)(table \<mapsto> snap)\<rparr>))"
      using run m Inr ddl t(1) clk1 unfolding register_bulk_view_def m_def [symmetric]
      by (cases existing; cases d)
        (simp_all add: bind_def ret_def gets_def modify_def time_now_def on_thrift_def snap_def s2_def k_def n_def)
    have known: "\<exists>u v. snap = snapshot_name table (int u) v \<and> 10 ^ 9 \<le> u \<and> of_nat u \<le> c (clock_reads s2) \<and> v < snapshot_counter s2"
    proof (cases existing)
      case None
      have "c k \<le> c (Suc k)" using c(1) by (simp add: monoD)
      then have "of_nat t \<le> c (clock_reads s2)" using t(3) None by (simp add: s2_def)
      then show ?thesis using t(2) None by (auto simp: snap_def s2_def)
    next
      case (Some x)
      then have "last_snapshot s1 table = Some snap" using m_out Inr by (auto simp: snap_def)
      then show ?thesis using ok1 Some by (auto simp: snapshots_ok_def s2_def)
    qed
    show ?thesis
    proof (cases d)
      case (Inl e)
      then show ?thesis using s' ok2 by (auto simp: snapshots_ok_def)
    next
      case d: (Inr u)
      then have r: "r = Inr (snap, existing \<noteq> None)"
        "s' = s2\<lparr>thrift_client := th, last_snapshot := (last_snapshot s2)(table \<mapsto> snap)\<rparr>" using s' by auto
      have "snapshots_ok c s'" using ok2 known unfolding r(2) by (auto simp: snapshots_ok_def)
      moreover have "\<exists>t n k. snap = snapshot_name table (int t) n \<and> clock_reads s \<le> k \<and> k < clock_reads s' \<and> of_nat t \<le> c k \<and>
        of_int (reuse_safety_margin_s S) < of_int (snapshot_ttl_minutes S * 60) - (c k - of_nat t) \<and>
        (if existing \<noteq> None then last_snapshot s table = Some snap \<and> (\<exists>s1. listed H S table snap s1) else snap \<notin> ran (last_snapshot s))"
      proof (cases existing)
        case None
        have "snap \<notin> ran (last_snapshot s)"
        proof
          assume "snap \<in> ran (last_snapshot s)"
          then obtain table' where "last_snapshot s table' = Some snap" by (auto simp: ran_def)
          then obtain t' n' where "snap = snapshot_name table' t' n'" "n' < snapshot_counter s"
            using ok unfolding snapshots_ok_def by blast
          moreover have "snapshot_counter s1 = snapshot_counter s" using m_out by auto
          ultimately show False using None name_counter by (fastforce simp: snap_def n_def)
        qed
        moreover have "of_int (reuse_safety_margin_s S) < of_int (snapshot_ttl_minutes S * 60) - (c k - of_nat t)"
          using ttl_bound [of S] t(4) by linarith
        moreover have "clock_reads s \<le> k" "k < clock_reads s'" using m_out None by (auto simp: k_def r(2) s2_def)
        ultimately show ?thesis using None t(3) by (intro exI [of _ t] exI [of _ n] exI [of _ k]) (simp add: snap_def)
      next
        case (Some x)
        then have x: "last_snapshot s table = Some snap" "s1 = s\<lparr>clock_reads := Suc (clock_reads s)\<rparr>" "listed H S table snap s1"
          and "\<exists>t. stamp_of snap = Some t \<and>
            of_int (reuse_safety_margin_s S) < of_int (snapshot_ttl_minutes S * 60) - max 0 (c (clock_reads s) - of_nat t)"
          using m_out Inr clk by (auto simp: snap_def)
        moreover obtain u v where u: "snap = snapshot_name table (int u) v" "10 ^ 9 \<le> u" "of_nat u \<le> c (clock_reads s)"
          using ok x(1) unfolding snapshots_ok_def by blast
        ultimately have "of_int (reuse_safety_margin_s S) < of_int (snapshot_ttl_minutes S * 60) - (c (clock_reads s) - of_nat u)"
          using stamp_of_name [OF u(2), of table v] by auto
        then show ?thesis using u x Some by (intro exI [of _ u] exI [of _ v] exI [of _ "clock_reads s"]) (auto simp: r(2) s2_def)
      qed
      ultimately show ?thesis using r(1) by auto
    qed
  qed
qed

section \<open>Properties\<close>

lemma register_keeps: "mono c \<Longrightarrow> 10 ^ 9 \<le> c 0 \<Longrightarrow> preserves (snapshots_ok c) (register_bulk_view H S table reuse)"
proof (rule preservesI)
  fix s :: "'a bulk" assume c: "mono c" "10 ^ 9 \<le> c 0" and ok: "snapshots_ok c s"
  obtain r s' where "register_bulk_view H S table reuse s = (r, s')" by (metis surj_pair)
  then show "snapshots_ok c (snd (register_bulk_view H S table reuse s))" using register_outcome [OF ok c] by simp
qed

lemma time_keeps: "mono c \<Longrightarrow> preserves (snapshots_ok c) time_now"
proof (rule preservesI)
  fix s :: "'a bulk" assume "mono c" "snapshots_ok c s"
  then show "snapshots_ok c (snd (time_now s))"
    using snapshots_ok_mono [of c s "snd (time_now s)"] by (simp add: time_now_def)
qed

lemma prepare_keeps:
  assumes "mono c" and "10 ^ 9 \<le> c 0"
  shows "preserves (snapshots_ok c) (prepare_tables H S reuse ts ms reused ages so_far)"
proof (induction ts arbitrary: ms reused ages so_far)
  case (Cons table rest)
  have perf: "preserves (snapshots_ok c) perf_now" by (auto simp: preserves_def perf_now_def snapshots_ok_def)
  have age: "preserves (snapshots_ok c) (age_of snap)" for snap
    unfolding age_of_def by (intro preserves_intros time_keeps assms(1))
  have bytes: "preserves (snapshots_ok c) (snapshot_bytes H S table snap)" for snap
  proof (rule preservesI)
    fix s :: "'a bulk" assume ok: "snapshots_ok c s"
    obtain r where "snapshot_bytes H S table snap s = (r, s)" using snapshot_bytes_pure by blast
    then show "snapshots_ok c (snd (snapshot_bytes H S table snap s))" using ok by simp
  qed
  show ?case unfolding prepare_tables.simps by (intro preserves_intros perf age bytes register_keeps assms Cons.IH)
qed (simp add: preserves_ret)

lemma bulk_query_keeps:
  assumes "mono c" and "10 ^ 9 \<le> c 0"
  shows "preserves (snapshots_ok c) (bulk_execute_query H S sql reuse)"
proof -
  have "preserves (snapshots_ok c) (on_thrift m)" for m :: "('x, row list) tm"
    by (auto simp: preserves_def on_thrift_def snapshots_ok_def split: prod.splits)
  then show ?thesis unfolding bulk_execute_query_def run_statement_def
    by (intro preserves_intros prepare_keeps assms) (simp_all add: snapshots_ok_def)
qed

text \<open>Queries over the bulk reader, and anything that happens to its connection in between.\<close>

datatype 'x bulk_call = Bulk_Query string bool | Connection "'x thrift \<Rightarrow> 'x thrift"

fun bulk_step :: "'x hive \<Rightarrow> spark_settings \<Rightarrow> 'x bulk_call \<Rightarrow> 'x bulk \<Rightarrow> 'x bulk" where
  "bulk_step H S (Bulk_Query sql reuse) s = snd (bulk_execute_query H S sql reuse s)"
| "bulk_step H S (Connection f) s = s\<lparr>thrift_client := f (thrift_client s)\<rparr>"

lemma bulk_run_keeps:
  assumes "mono c" and "10 ^ 9 \<le> c 0" and "snapshots_ok c s"
  shows "snapshots_ok c (fold (bulk_step H S) as s)"
  using assms(3)
proof (induction as arbitrary: s)
  case (Cons a as)
  have "snapshots_ok c (bulk_step H S a s)"
    using preservesD [OF bulk_query_keeps [OF assms(1,2)] Cons.prems] Cons.prems by (cases a) (auto simp: snapshots_ok_def)
  then show ?case using Cons.IH by simp
qed simp

text \<open>
  C28. A bulk read has time to finish. After any queries, with a clock that does not go back, the
  snapshot a view is pointed at carries in its name a time it was taken, and when it was chosen more
  of its TTL was left than the longest a read may take, whether it is fresh or reused; one that is
  reused is the last of its table and still listed, and a fresh one has a name that no snapshot the
  client remembers has.
\<close>

theorem snapshots_outlive_the_read:
  assumes "mono (clock s0)" and "10 ^ 9 \<le> clock s0 0" and "\<And>table. last_snapshot s0 table = None"
    and "s = fold (bulk_step H S) as s0" and "register_bulk_view H S table reuse s = (Inr (snap, was_reused), s')"
  shows "\<exists>t n k. snap = snapshot_name table (int t) n \<and> clock_reads s \<le> k \<and> k < clock_reads s' \<and> of_nat t \<le> clock s0 k \<and>
    of_int (reuse_safety_margin_s S) < of_int (snapshot_ttl_minutes S * 60) - (clock s0 k - of_nat t) \<and>
    (if was_reused then last_snapshot s table = Some snap \<and> (\<exists>s1. listed H S table snap s1) else snap \<notin> ran (last_snapshot s))"
proof -
  have "snapshots_ok (clock s0) s0" using assms(3) by (simp add: snapshots_ok_def)
  then have "snapshots_ok (clock s0) s" unfolding assms(4) using bulk_run_keeps assms(1,2) by blast
  from register_outcome [OF this assms(1,2,5)] show ?thesis by blast
qed

definition demo_hive :: "unit hive" where
  "demo_hive = \<lparr>hive_connect = (\<lambda>x. (Inr 0, x)), hive_run = (\<lambda>c q x. (Inr ([], []), x)), hive_ddl = (\<lambda>c q x. (Inr (), x)),
     hive_close = (\<lambda>c x. x), cut_socket = (\<lambda>x. x), is_transport = (\<lambda>e. False), sidecar_get = (\<lambda>u x. Inr (JObj [])),
     ui_get = (\<lambda>u x. Inr (JArr [])), ui_post = (\<lambda>u i x. (Inr 302, x)), repr_of = (\<lambda>v. []),
     iso_time = (\<lambda>t. None), utc_now = (\<lambda>x. 0)\<rparr>"

definition demo_spark :: spark_settings where
  "demo_spark = \<lparr>spark_query_timeout_s = 900, cassandra_host = ''cassandra'', cassandra_keyspace = ''demo'',
     cassandra_datacenter = ''dc1'', sidecar_port = 9043, ui_base = ''http://spark:4040''\<rparr>"

definition fresh_bulk :: "unit bulk" where
  "fresh_bulk = \<lparr>thrift_client = \<lparr>register_connector_views = False, t_conn = Some 0, t_socket = True, t_aborted = False,
       t_connected = True, cuts = [], beyond = ()\<rparr>,
     last_snapshot = (\<lambda>_. None), snapshot_counter = 1, clock = (\<lambda>n. 10 ^ 9 + of_nat n), clock_reads = 0,
     perf_clock = of_nat, perf_count = 0, b_snapshot_bytes = None, b_snapshot_ms = None, b_snapshot_reused = False, b_snapshot_age_s = None\<rparr>"

theorem snapshots_outlive_the_read_witness:
  "\<exists>snap was_reused s' t n k. register_bulk_view demo_hive demo_spark ''events'' True
      (fold (bulk_step demo_hive demo_spark) [Bulk_Query ''SELECT 1'' False] fresh_bulk) = (Inr (snap, was_reused), s') \<and>
    snap = snapshot_name ''events'' (int t) n \<and> 900 < of_int (snapshot_ttl_minutes demo_spark * 60) - (clock fresh_bulk k - of_nat t)"
proof -
  have "tables_in ''SELECT 1'' = []" by code_simp
  then have "last_snapshot (bulk_step demo_hive demo_spark (Bulk_Query ''SELECT 1'' False) fresh_bulk) = (\<lambda>_. None) \<and>
      t_conn (thrift_client (bulk_step demo_hive demo_spark (Bulk_Query ''SELECT 1'' False) fresh_bulk)) = Some 0"
    by (simp add: bulk_execute_query_def run_statement_def on_thrift_def spark_execute_def interrupted_def beyond_call_def bind_def
        gets_def modify_def ret_def try_except_def fresh_bulk_def demo_hive_def)
  then obtain snap s' where r: "register_bulk_view demo_hive demo_spark ''events'' True
      (fold (bulk_step demo_hive demo_spark) [Bulk_Query ''SELECT 1'' False] fresh_bulk) = (Inr (snap, False), s')"
    by (simp add: register_bulk_view_def reusable_def bind_def gets_def modify_def ret_def time_now_def on_thrift_def execute_ddl_def
        beyond_call_def demo_hive_def)
  have "mono (clock fresh_bulk)" "10 ^ 9 \<le> clock fresh_bulk 0" "last_snapshot fresh_bulk table = None" for table
    by (simp_all add: fresh_bulk_def mono_def)
  from snapshots_outlive_the_read [OF this refl r] obtain t n k where
    "snap = snapshot_name ''events'' (int t) n"
    "of_int (reuse_safety_margin_s demo_spark) < of_int (snapshot_ttl_minutes demo_spark * 60) - (clock fresh_bulk k - of_nat t)" by blast
  then have "snap = snapshot_name ''events'' (int t) n \<and> 900 < of_int (snapshot_ttl_minutes demo_spark * 60) - (clock fresh_bulk k - of_nat t)"
    by (simp add: reuse_safety_margin_s_def demo_spark_def)
  then show ?thesis using r by blast
qed

lemma spark_execute_run:
  assumes "t_conn s = Some c" and "t_socket s"
  shows "spark_execute H sql s =
    (let cut = (cuts s \<noteq> [] \<and> hd (cuts s));
         s1 = (if cut then s\<lparr>cuts := tl (cuts s), t_aborted := True, t_connected := False, beyond := cut_socket H (beyond s)\<rparr>
               else s\<lparr>cuts := tl (cuts s)\<rparr>)
     in case hive_run H c sql (beyond s1) of
       (Inl e, x) \<Rightarrow> (Inl e, s1\<lparr>beyond := x\<rparr>)
     | (Inr (names, rows), x) \<Rightarrow>
         (Inr (if map bare names = [] then [] else map (dict_zip (map bare names)) rows), s1\<lparr>beyond := x\<rparr>))"
  using assms
  by (auto simp: spark_execute_def interrupted_def thrift_abort_def beyond_call_def bind_def gets_def modify_def ret_def Let_def
      split: prod.splits sum.splits)

text \<open>
  Property. A cancelled statement says so and a silent server does not pass for one. On an open connection
  that was not aborted before, a statement whose transport fails reports the cancellation exactly
  when it was aborted while it ran, and the waiting otherwise; either way the connection is closed, so
  the next use dials again, and the statement is not run a second time. Every other failure is
  reported in readable words, after one more run if it spoke of a missing view and without one if
  it did not.
\<close>

theorem cancelled_statement_says_so:
  assumes "t_conn s = Some c" and "t_socket s" and "\<not> t_aborted s" and "spark_execute H sql s = (Inl e, s1)"
    and "spark_execute_query H S sql s = (r, s2)"
  shows "if is_transport H e
    then t_conn s2 = None \<and> \<not> t_connected s2 \<and> \<not> t_socket s2 \<and> cuts s2 = tl (cuts s) \<and>
      (r = Inl (Exn CANCELLED) \<longleftrightarrow> cuts s \<noteq> [] \<and> hd (cuts s)) \<and>
      (r = Inl (Exn CANCELLED) \<or> r = Inl (Exn (stopped_answering S e)))
    else if stale e
    then \<exists>z. (r, s2) = (case spark_execute H sql z of (Inr rows, z') \<Rightarrow> (Inr rows, z') | (Inl e', z') \<Rightarrow> (Inl (Exn (hive_readable_error e')), z'))
    else r = Inl (Exn (hive_readable_error e)) \<and> s2 = s1"
proof -
  have a: "t_aborted s1 \<longleftrightarrow> cuts s \<noteq> [] \<and> hd (cuts s)" "cuts s1 = tl (cuts s)"
    using assms(3,4) unfolding spark_execute_run [OF assms(1,2)]
    by (auto simp: Let_def split: prod.splits sum.splits if_splits)
  have msg: "stopped_answering S e \<noteq> CANCELLED" by (simp add: stopped_answering_def CANCELLED_def)
  show ?thesis
  proof (cases "is_transport H e")
    case True
    then have "r = Inl (Exn (if t_aborted s1 then CANCELLED else stopped_answering S e))" "s2 = snd (close_locked H s1)"
      using assms(4,5) by (auto simp: spark_execute_query_def try_except_def bind_def gets_def raise_def close_locked_def modify_def)
    then show ?thesis using True a msg by (auto simp: close_locked_def modify_def split: option.split)
  next
    case False
    have "total (register_views H S)" unfolding register_views_def by (intro total_intros)
    then obtain z where "register_views H S s1 = (Inr (), z)" using totalD [of "register_views H S" s1] by auto
    then have "(r, s2) = (if stale e
      then (case spark_execute H sql z of (Inr rows, z') \<Rightarrow> (Inr rows, z') | (Inl e', z') \<Rightarrow> (Inl (Exn (hive_readable_error e')), z'))
      else (Inl (Exn (hive_readable_error e)), s1))"
      using False assms(4,5)
      by (auto simp: spark_execute_query_def try_except_def bind_def raise_def split: prod.splits sum.splits)
    then show ?thesis using False by (auto split: if_splits)
  qed
qed

text \<open>A server that has gone quiet.\<close>

definition quiet_hive :: "unit hive" where
  "quiet_hive = demo_hive\<lparr>hive_run := (\<lambda>c q x. (Inl (Exn ''timed out''), x)), is_transport := (\<lambda>e. True)\<rparr>"

theorem cancelled_statement_says_so_witness:
  "fst (spark_execute_query quiet_hive demo_spark ''SELECT 1'' ((thrift_client fresh_bulk)\<lparr>cuts := [True]\<rparr>)) = Inl (Exn CANCELLED)"
proof -
  define s where "s = (thrift_client fresh_bulk)\<lparr>cuts := [True]\<rparr>"
  have s: "t_conn s = Some 0" "t_socket s" "\<not> t_aborted s" "cuts s = [True]" by (simp_all add: s_def fresh_bulk_def)
  obtain s1 where e: "spark_execute quiet_hive ''SELECT 1'' s = (Inl (Exn ''timed out''), s1)"
    unfolding spark_execute_run [OF s(1,2)] by (simp add: s(4) quiet_hive_def)
  obtain r s2 where q: "spark_execute_query quiet_hive demo_spark ''SELECT 1'' s = (r, s2)" by (metis surj_pair)
  have "is_transport quiet_hive (Exn ''timed out'')" by (simp add: quiet_hive_def)
  then have "r = Inl (Exn CANCELLED)"
    using cancelled_statement_says_so [OF s(1-3) e q] s(4) by simp
  then show ?thesis using q by (simp add: s_def)
qed

subsection \<open>Killing jobs\<close>

lemma kill_loop_outcome:
  "kill_loop H S wanted js killed x = (Inr ks, x') \<Longrightarrow>
    ks = killed @ map j_id (filter (\<lambda>j. j_sql j \<in> wanted) js) \<and>
    x' = fold (\<lambda>i x. snd (kill_job H S i x)) (map j_id (filter (\<lambda>j. j_sql j \<in> wanted) js)) x"
  by (induction H S wanted js killed x rule: kill_loop.induct) (auto split: if_splits prod.splits sum.splits)

text \<open>
  C29. Cancelling a comparison's Spark statements kills no work of anybody else: of the running jobs
  exactly those are asked to die whose description is that of one of the statements, white space
  and length apart, each once and in the order listed, and nothing else is asked of the UI.
\<close>

theorem only_the_named_jobs_are_killed:
  assumes "kill_jobs_for H S statements x = (Inr killed, x')"
  shows "\<exists>js. running_jobs H S x = Inr js \<and>
    killed = map j_id (filter (\<lambda>j. \<exists>q \<in> set statements. j_sql j = label q) js) \<and>
    x' = fold (\<lambda>i x. snd (kill_job H S i x)) killed x"
proof -
  obtain js where js: "running_jobs H S x = Inr js" "kill_loop H S (set (map label statements)) js [] x = (Inr killed, x')"
    using assms by (auto simp: kill_jobs_for_def split: sum.splits)
  then show ?thesis using kill_loop_outcome [OF js(2)] by (auto simp: image_iff intro!: filter_cong)
qed

definition busy_hive :: "unit hive" where
  "busy_hive = demo_hive\<lparr>ui_get := (\<lambda>u x. Inr (JArr (if u = ''http://spark:4040/api/v1/applications'' then [JObj [(''id'', JStr ''app'')]]
     else [JObj [(''jobId'', JInt 1), (''description'', JStr ''SELECT   1'')], JObj [(''jobId'', JInt 2), (''name'', JStr ''count'')]])))\<rparr>"

lemma busy_jobs:
  "running_jobs busy_hive demo_spark () = Inr
     [\<lparr>j_id = ''1'', j_state = ''running'', j_sql = ''SELECT 1'', j_running_s = 0, j_tasks_total = JInt 0, j_tasks_done = JInt 0\<rparr>,
      \<lparr>j_id = ''2'', j_state = ''running'', j_sql = ''count'', j_running_s = 0, j_tasks_total = JInt 0, j_tasks_done = JInt 0\<rparr>]"
proof -
  have "label ''SELECT   1'' = ''SELECT 1''" "label ''count'' = ''count''" "lower ''RUNNING'' = ''running''" by code_simp+
  moreover have "int_str 1 = ''1''" "int_str 2 = ''2''" by code_simp+
  ultimately show ?thesis
    by (simp add: running_jobs_def application_id_def busy_hive_def demo_hive_def demo_spark_def job_of_def or_else_def age_s_def)
qed

theorem only_the_named_jobs_are_killed_witness:
  "kill_jobs_for busy_hive demo_spark [''SELECT 1''] () = (Inr [''1''], ())"
proof -
  have l: "label ''SELECT 1'' = ''SELECT 1''" by code_simp
  have "\<exists>killed x'. kill_jobs_for busy_hive demo_spark [''SELECT 1''] () = (Inr killed, x')"
    by (simp add: kill_jobs_for_def busy_jobs l kill_job_def) (simp add: busy_hive_def demo_hive_def)
  then obtain killed x' where k: "kill_jobs_for busy_hive demo_spark [''SELECT 1''] () = (Inr killed, x')" by blast
  from only_the_named_jobs_are_killed [OF k] show ?thesis using k by (simp add: busy_jobs l)
qed

end
