(* ===== verification/Comparison.thy ===== *)
theory Comparison
  imports Console Cql
begin

text \<open>
  The running side of the query console (\<open>src/backend/app/routes/query.py\<close>, with the request and
  response classes of \<open>src/backend/app/models.py\<close>): one statement on one engine, the comparison of
  the five paths in both modes, the comparison that streams its results, the lock that keeps
  comparisons apart, its cancellation, and questions in words.

  What the routes call is a parameter, the record \<open>stack\<close>: the five clients, the probe's reads of
  Cassandra, the clock, and the calls that stop work. Each is a computation on the module's state,
  because other requests are served while it runs; \<open>only_cancels\<close> says what those can do to a run
  that is not theirs. Times are real numbers, in the units of the source.
\<close>

section \<open>Requests and results\<close>

record sql_query_request =
  q_sql :: string
  q_limit :: nat
  q_engine :: string
  q_reuse_snapshot :: bool

record sql_query_result =
  r_columns :: "string list"
  r_rows :: "cval list list"
  r_row_count :: nat
  r_query_time_ms :: real
  r_sql :: "string option"

record benchmark_request =
  b_sql :: string
  b_limit :: nat
  b_engines :: "string list option"
  b_mode :: string
  b_reuse_snapshot :: bool

record oltp_impact =
  p50_ms :: real
  p95_ms :: real
  worst_ms :: real
  samples :: nat
  failures :: nat

record figures =
  snapshot_bytes :: "int option"
  snapshot_ms :: "real option"
  snapshot_reused :: bool
  snapshot_age_s :: "real option"
  sstable_files :: "int option"
  sstable_bytes :: "int option"
  reader_open_ms :: "real option"
  data_age_s :: "real option"

record engine_result = sql_query_result +
  available :: bool
  r_error :: "string option"
  r_figures :: figures
  oltp :: "oltp_impact option"

record benchmark_response =
  br_cassandra :: "engine_result option"
  br_presto :: "engine_result option"
  br_spark :: "engine_result option"
  br_spark_bulk :: "engine_result option"
  br_cqlite :: "engine_result option"
  br_mode :: string
  oltp_baseline :: "oltp_impact option"
  oltp_combined :: "oltp_impact option"
  cancelled :: bool

record nl_query_response =
  generated_sql :: "string option"
  nl_engine :: "string option"
  nl_result :: "sql_query_result option"
  nl_error :: "string option"
  nl_render_hint :: string

record comparison_run =
  running_for_s :: real
  run_mode :: string
  run_engines :: "string list"
  run_sql :: string
  run_done :: "string list"

text \<open>The defaults of the classes.\<close>

definition no_figures :: figures where
  "no_figures = \<lparr>snapshot_bytes = None, snapshot_ms = None, snapshot_reused = False, snapshot_age_s = None,
     sstable_files = None, sstable_bytes = None, reader_open_ms = None, data_age_s = None\<rparr>"

definition engine_result_default :: engine_result where
  "engine_result_default = \<lparr>r_columns = [], r_rows = [], r_row_count = 0, r_query_time_ms = 0, r_sql = None,
     available = True, r_error = None, r_figures = no_figures, oltp = None\<rparr>"

definition nl_response_default :: nl_query_response where
  "nl_response_default = \<lparr>generated_sql = None, nl_engine = None, nl_result = None, nl_error = None,
     nl_render_hint = ''table''\<rparr>"

section \<open>State and clients\<close>

text \<open>What \<open>_in_flight\<close> holds; the results of the run are the \<open>results\<close> of the state, the dictionary
  the run fills.\<close>

record in_flight_run =
  started :: real
  f_mode :: string
  f_engines :: "string list"
  f_sql :: string
  spark_statements :: "string list"

record 'x desk =
  comparison_lock :: bool
  in_flight :: "in_flight_run option"
  cancel_requested :: bool
  results :: "(string \<times> engine_result) list"
  outside :: 'x

record 'x path =
  connected :: "'x desk \<Rightarrow> bool"
  connect :: "('x desk, unit) pm"
  query_rows :: "string \<Rightarrow> bool \<Rightarrow> ('x desk, row list) pm"
  SUPPORTS_SNAPSHOT_REUSE :: bool
  last_figures :: "'x desk \<Rightarrow> figures"

record 'x stack =
  path_of :: "string \<Rightarrow> 'x path"
  perf_s :: "'x desk \<Rightarrow> real"
  monotonic_s :: "'x desk \<Rightarrow> real"
  first_drones :: "('x desk, string list) pm"
  probe_reads :: "string \<Rightarrow> 'x desk \<Rightarrow> 'x desk \<Rightarrow> real option list"
  sleep :: "real \<Rightarrow> ('x desk, unit) pm"
  finish_order :: "string list \<Rightarrow> 'x desk \<Rightarrow> string list"
  presto_user :: string
  running_queries :: "('x desk, (string \<times> string) list) pm"
  kill_query :: "string \<Rightarrow> ('x desk, unit) pm"
  abort :: "string \<Rightarrow> ('x desk, bool) pm"
  kill_jobs_for :: "string list \<Rightarrow> ('x desk, string list) pm"
  openrouter_api_key :: string
  llm_reply :: "string \<Rightarrow> ('x desk, string) pm"

text \<open>Python's truth of an optional text.\<close>

definition truthy :: "string option \<Rightarrow> bool" where
  "truthy s \<longleftrightarrow> s \<noteq> None \<and> s \<noteq> Some ''''"

section \<open>One statement on one engine\<close>

definition unavailable :: "string \<Rightarrow> engine_result" where
  "unavailable e = engine_result_default\<lparr>available := False, r_error := Some e\<rparr>"

definition answered :: "string \<Rightarrow> row list \<Rightarrow> engine_result" where
  "answered stmt rs =
    (let cs = (case rs of [] \<Rightarrow> [] | r # _ \<Rightarrow> map fst r)
     in engine_result_default\<lparr>r_sql := Some stmt, r_columns := cs, r_rows := map (\<lambda>r. map (row_get r) cs) rs,
          r_row_count := length rs\<rparr>)"

definition run :: "'x stack \<Rightarrow> string \<Rightarrow> string \<Rightarrow> nat \<Rightarrow> bool \<Rightarrow> ('x desk, engine_result) pm" where
  "run st engine stmt n reuse =
    (case map_of DIALECTS engine of None \<Rightarrow> raise (Exn engine)
     | Some dialect \<Rightarrow>
         let client = path_of st engine in
         bind (attempt (bind (gets (connected client)) (\<lambda>up. if up then ret () else connect client))) (\<lambda>c. case c of
           Inl e \<Rightarrow> ret (unavailable (exn_str e))
         | Inr _ \<Rightarrow>
             bind (gets (connected client)) (\<lambda>up.
             if \<not> up then ret (unavailable ''Engine not connected'')
             else bind (gets (perf_s st)) (\<lambda>t0.
               bind (attempt (query_rows client (dialect stmt n) (reuse \<and> SUPPORTS_SNAPSHOT_REUSE client))) (\<lambda>ans.
               bind (gets (perf_s st)) (\<lambda>t1.
               bind (gets (last_figures client)) (\<lambda>fs.
               ret ((case ans of
                   Inl e \<Rightarrow> engine_result_default\<lparr>r_sql := Some (dialect stmt n), r_error := Some (exn_str e)\<rparr>
                 | Inr rs \<Rightarrow> answered (dialect stmt n) rs)
                 \<lparr>r_query_time_ms := py_round 1 ((t1 - t0) * 1000), r_figures := fs\<rparr>))))))))"

definition execute_sql :: "'x stack \<Rightarrow> sql_query_request \<Rightarrow> ('x desk, sql_query_result) pm" where
  "execute_sql st req =
    (if q_engine req \<notin> fst ` set DIALECTS then raise (HTTPException 400 (''Unknown engine: '' @ q_engine req))
     else case validate (q_sql req) of Inl e \<Rightarrow> raise e
     | Inr stmt \<Rightarrow>
         bind (run st (q_engine req) stmt (q_limit req) (q_reuse_snapshot req)) (\<lambda>r.
         if \<not> available r
         then raise (HTTPException 503 (if truthy (r_error r) then the (r_error r) else ''Engine unavailable''))
         else if truthy (r_error r) then raise (HTTPException 400 (the (r_error r)))
         else ret (sql_query_result.truncate r)))"

section \<open>The probe\<close>

definition PROBE_INTERVAL_S :: real where
  "PROBE_INTERVAL_S = 25 / 100"

definition BASELINE_WINDOW_S :: real where
  "BASELINE_WINDOW_S = 3"

text \<open>The loop's reads of one window, each its latency in seconds or a failure.\<close>

fun probe_loop :: "real option list \<Rightarrow> real list \<Rightarrow> nat \<Rightarrow> real list \<times> nat" where
  "probe_loop [] ls fs = (ls, fs)"
| "probe_loop (Some t # rs) ls fs = probe_loop rs (ls @ [t * 1000]) fs"
| "probe_loop (None # rs) ls fs = probe_loop rs ls (fs + 1)"

definition sample_at :: "real list \<Rightarrow> real \<Rightarrow> real" where
  "sample_at xs fraction =
    py_round 1 (xs ! min (length xs - 1) (nat (round_half_even (fraction * real (length xs - 1)))))"

definition impact :: "real list \<Rightarrow> nat \<Rightarrow> oltp_impact" where
  "impact ls fs =
    (let xs = sort ls in
     if xs = [] then \<lparr>p50_ms = 0, p95_ms = 0, worst_ms = 0, samples = 0, failures = fs\<rparr>
     else \<lparr>p50_ms = sample_at xs (1 / 2), p95_ms = sample_at xs (95 / 100), worst_ms = py_round 1 (last xs),
        samples = length xs, failures = fs\<rparr>)"

text \<open>\<open>with _OltpProbe(subject) as probe: m\<close>, and the impact of the window.\<close>

definition with_probe :: "'x stack \<Rightarrow> string \<Rightarrow> ('x desk, 'a) pm \<Rightarrow> ('x desk, 'a \<times> oltp_impact) pm" where
  "with_probe st subject m =
    (\<lambda>w. case m w of (Inl e, w') \<Rightarrow> (Inl e, w')
      | (Inr a, w') \<Rightarrow> (case probe_loop (probe_reads st subject w w') [] 0 of (ls, fs) \<Rightarrow> (Inr (a, impact ls fs), w')))"

definition probe_subject :: "'x stack \<Rightarrow> ('x desk, string option) pm" where
  "probe_subject st =
    try_except (bind (first_drones st) (\<lambda>ds. ret (case ds of [] \<Rightarrow> None | d # _ \<Rightarrow> Some d))) (\<lambda>e. ret None)"

definition sample_baseline :: "'x stack \<Rightarrow> string option \<Rightarrow> ('x desk, oltp_impact option) pm" where
  "sample_baseline st subject =
    (if truthy subject
     then bind (with_probe st (the subject) (sleep st BASELINE_WINDOW_S)) (\<lambda>(_, i). ret (Some i))
     else ret None)"

section \<open>Comparing the paths\<close>

definition requested_engines :: "string list option \<Rightarrow> bool \<Rightarrow> exn + string list" where
  "requested_engines names keep_order =
    (case names of None \<Rightarrow> Inr (map fst DIALECTS)
     | Some ns \<Rightarrow>
         let unknown = filter (\<lambda>n. n \<notin> set (map fst DIALECTS)) ns in
         if unknown \<noteq> [] then Inl (HTTPException 400 (''Unknown engine(s): '' @ join '', '' unknown))
         else let chosen =
             (if keep_order then foldl (\<lambda>seen n. if n \<in> set seen then seen else seen @ [n]) [] ns
              else filter (\<lambda>n. n \<in> set ns) (map fst DIALECTS))
           in if chosen = [] then Inl (HTTPException 400 ''Choose at least one engine to compare'')
              else Inr chosen)"

definition set_result :: "string \<Rightarrow> engine_result \<Rightarrow> ('x desk, unit) pm" where
  "set_result engine r = modify (\<lambda>w. w\<lparr>results := AList.update engine r (results w)\<rparr>)"

text \<open>The body of the loop of \<open>_run_sequence\<close>, and one \<open>next()\<close> on that generator.\<close>

definition run_leg :: "'x stack \<Rightarrow> string \<Rightarrow> nat \<Rightarrow> string option \<Rightarrow> bool \<Rightarrow> string \<Rightarrow> ('x desk, engine_result) pm" where
  "run_leg st stmt n subject reuse engine =
    (if \<not> truthy subject
     then bind (run st engine stmt n reuse) (\<lambda>r. bind (set_result engine r) (\<lambda>_. ret r))
     else bind (with_probe st (the subject)
             (bind (run st engine stmt n reuse) (\<lambda>r. bind (set_result engine r) (\<lambda>_. ret r)))) (\<lambda>(r, i).
          let r' = r\<lparr>oltp := Some i\<rparr> in bind (set_result engine r') (\<lambda>_. ret r')))"

fun next_leg :: "'x stack \<Rightarrow> string \<Rightarrow> nat \<Rightarrow> string option \<Rightarrow> bool \<Rightarrow> string list \<Rightarrow>
    ('x desk, (string \<times> engine_result) option) pm" where
  "next_leg st stmt n subject reuse [] = ret None"
| "next_leg st stmt n subject reuse (engine # es) =
    bind (gets cancel_requested) (\<lambda>c. if c then ret None
      else bind (run_leg st stmt n subject reuse engine) (\<lambda>r. ret (Some (engine, r))))"

fun run_sequentially :: "'x stack \<Rightarrow> string \<Rightarrow> nat \<Rightarrow> string option \<Rightarrow> bool \<Rightarrow> string list \<Rightarrow> ('x desk, unit) pm" where
  "run_sequentially st stmt n subject reuse [] = ret ()"
| "run_sequentially st stmt n subject reuse (engine # es) =
    bind (next_leg st stmt n subject reuse (engine # es)) (\<lambda>l. case l of
      None \<Rightarrow> ret () | Some _ \<Rightarrow> run_sequentially st stmt n subject reuse es)"

text \<open>The threads of \<open>_run_together\<close>, in the order in which they finish.\<close>

definition run_together :: "'x stack \<Rightarrow> string \<Rightarrow> nat \<Rightarrow> bool \<Rightarrow> string list \<Rightarrow> ('x desk, unit) pm" where
  "run_together st stmt n reuse engines =
    bind (gets (finish_order st engines)) (\<lambda>order.
    bind (map_pm (\<lambda>engine. bind (try_except (run st engine stmt n reuse)
        (\<lambda>e. ret (engine_result_default\<lparr>r_error := Some (exn_str e)\<rparr>))) (set_result engine)) order) (\<lambda>_. ret ()))"

definition running_comparison :: "'x stack \<Rightarrow> 'x desk \<Rightarrow> comparison_run option" where
  "running_comparison st w =
    map_option (\<lambda>f. \<lparr>running_for_s = py_round 1 (monotonic_s st w - started f), run_mode = f_mode f,
       run_engines = f_engines f, run_sql = f_sql f,
       run_done = filter (\<lambda>e. e \<in> fst ` set (results w)) (f_engines f)\<rparr>) (in_flight w)"

definition busy_detail :: "int \<Rightarrow> string" where
  "busy_detail age = ''A comparison has been running for '' @ int_str age @
     ''s.  They run one at a time, because two at once would each be timed while the other ran; a run whose '' @
     ''browser gave up carries on here until it finishes.  The Health page shows it, and can stop it.''"

definition begin_run :: "'x stack \<Rightarrow> string \<Rightarrow> string list \<Rightarrow> string \<Rightarrow> nat \<Rightarrow> ('x desk, unit) pm" where
  "begin_run st stmt engines mode n = (\<lambda>w.
    if comparison_lock w
    then (Inl (HTTPException 409 (busy_detail
            (case running_comparison st w of None \<Rightarrow> 0 | Some r \<Rightarrow> truncate_int (running_for_s r)))), w)
    else (Inr (), w\<lparr>comparison_lock := True, cancel_requested := False, results := [],
       in_flight := Some \<lparr>started = monotonic_s st w, f_mode = mode, f_engines = engines, f_sql = stmt,
         spark_statements = map (\<lambda>e. the (map_of DIALECTS e) stmt n)
           (filter (\<lambda>e. e \<in> {''spark'', ''spark_bulk''}) engines)\<rparr>\<rparr>))"

definition end_run :: "'x desk \<Rightarrow> 'x desk" where
  "end_run w = w\<lparr>in_flight := None, cancel_requested := False, comparison_lock := False\<rparr>"

definition response :: "string \<Rightarrow> oltp_impact option \<Rightarrow> oltp_impact option \<Rightarrow> 'x desk \<Rightarrow> benchmark_response" where
  "response mode baseline combined w =
    \<lparr>br_cassandra = map_of (results w) ''cassandra'', br_presto = map_of (results w) ''presto'',
     br_spark = map_of (results w) ''spark'', br_spark_bulk = map_of (results w) ''spark_bulk'',
     br_cqlite = map_of (results w) ''cqlite'', br_mode = mode, oltp_baseline = baseline,
     oltp_combined = combined, cancelled = cancel_requested w\<rparr>"

definition run_chosen :: "'x stack \<Rightarrow> benchmark_request \<Rightarrow> string \<Rightarrow> string list \<Rightarrow> ('x desk, benchmark_response) pm" where
  "run_chosen st req stmt engines =
    bind (probe_subject st) (\<lambda>subject.
    bind (sample_baseline st subject) (\<lambda>baseline.
    bind (if b_mode req = ''parallel''
          then if truthy subject
               then bind (with_probe st (the subject)
                      (run_together st stmt (b_limit req) (b_reuse_snapshot req) engines)) (\<lambda>(_, i). ret (Some i))
               else bind (run_together st stmt (b_limit req) (b_reuse_snapshot req) engines) (\<lambda>_. ret None)
          else bind (run_sequentially st stmt (b_limit req) subject (b_reuse_snapshot req) engines) (\<lambda>_. ret None))
      (\<lambda>combined. gets (response (b_mode req) baseline combined))))"

definition run_benchmark :: "'x stack \<Rightarrow> benchmark_request \<Rightarrow> ('x desk, benchmark_response) pm" where
  "run_benchmark st req =
    (case validate (b_sql req) of Inl e \<Rightarrow> raise e
     | Inr stmt \<Rightarrow> (case requested_engines (b_engines req) False of Inl e \<Rightarrow> raise e
       | Inr engines \<Rightarrow> bind (begin_run st stmt engines (b_mode req) (b_limit req)) (\<lambda>_.
           try_finally (run_chosen st req stmt engines) end_run)))"

section \<open>The stream\<close>

datatype ndjson =
    Start "string list" string
  | Baseline "oltp_impact option"
  | Engine string engine_result
  | Done bool

text \<open>Where the generator \<open>lines\<close> is suspended: before its first statement, at the \<open>yield\<close> of the
  start line, at that of the baseline or of an engine with the engines still to run, at that of
  the last line, or finished.\<close>

datatype lines_pc = Unstarted | AtStart | AtLegs "string option" "string list" | AtDone | Finished

record lines =
  l_sql :: string
  l_engines :: "string list"
  l_limit :: nat
  l_reuse :: bool
  l_pc :: lines_pc

definition stream_benchmark :: "'x stack \<Rightarrow> benchmark_request \<Rightarrow> ('x desk, lines) pm" where
  "stream_benchmark st req =
    (case validate (b_sql req) of Inl e \<Rightarrow> raise e
     | Inr stmt \<Rightarrow> (case requested_engines (b_engines req) True of Inl e \<Rightarrow> raise e
       | Inr engines \<Rightarrow> bind (begin_run st stmt engines ''sequential'' (b_limit req)) (\<lambda>_.
           ret \<lparr>l_sql = stmt, l_engines = engines, l_limit = b_limit req, l_reuse = b_reuse_snapshot req,
             l_pc = Unstarted\<rparr>)))"

text \<open>From one \<open>yield\<close> to the next; leaving the body, by its end or by an exception, runs \<open>finally\<close>.\<close>

fun lines_body :: "'x stack \<Rightarrow> lines \<Rightarrow> lines_pc \<Rightarrow> ('x desk, ndjson option \<times> lines_pc) pm" where
  "lines_body st l Unstarted = ret (Some (Start (l_engines l) (l_sql l)), AtStart)"
| "lines_body st l AtStart =
    bind (probe_subject st) (\<lambda>subject. bind (sample_baseline st subject) (\<lambda>b.
      ret (Some (Baseline b), AtLegs subject (l_engines l))))"
| "lines_body st l (AtLegs subject es) =
    bind (next_leg st (l_sql l) (l_limit l) subject (l_reuse l) es) (\<lambda>leg. case leg of
      None \<Rightarrow> bind (gets cancel_requested) (\<lambda>c. ret (Some (Done c), AtDone))
    | Some (e, r) \<Rightarrow> ret (Some (Engine e r), AtLegs subject (tl es)))"
| "lines_body st l AtDone = bind (modify end_run) (\<lambda>_. ret (None, Finished))"
| "lines_body st l Finished = ret (None, Finished)"

definition next_line :: "'x stack \<Rightarrow> lines \<Rightarrow> 'x desk \<Rightarrow> (exn + ndjson option) \<times> lines \<times> 'x desk" where
  "next_line st l w =
    (case lines_body st l (l_pc l) w of
       (Inl e, w') \<Rightarrow> (Inl e, l\<lparr>l_pc := Finished\<rparr>, end_run w')
     | (Inr (x, pc), w') \<Rightarrow> (Inr x, l\<lparr>l_pc := pc\<rparr>, w'))"

text \<open>\<open>close()\<close> raises \<open>GeneratorExit\<close> at the suspended \<open>yield\<close>; a generator that has not started has
  none, and its body does not run.\<close>

definition close_lines :: "lines \<Rightarrow> 'x desk \<Rightarrow> lines \<times> 'x desk" where
  "close_lines l w = (l\<lparr>l_pc := Finished\<rparr>, if l_pc l \<in> {Unstarted, Finished} then w else end_run w)"

section \<open>Cancelling\<close>

definition reporting :: "('x desk, string list) pm \<Rightarrow> string \<Rightarrow> string list \<Rightarrow> ('x desk, string list) pm" where
  "reporting m failed actions =
    bind (attempt m) (\<lambda>r. ret (actions @ (case r of Inl e \<Rightarrow> [failed @ exn_str e] | Inr as \<Rightarrow> as)))"

definition cancel_presto :: "'x stack \<Rightarrow> ('x desk, string list) pm" where
  "cancel_presto st =
    bind (running_queries st) (\<lambda>qs.
      let killed = map fst (filter (\<lambda>(_, user). user = presto_user st) qs) in
      bind (map_pm (kill_query st) killed) (\<lambda>_.
        ret (if killed = [] then [] else [''cancelled '' @ nat_str (length killed) @ '' Presto quer(y/ies): '' @ join '', '' killed])))"

definition cancel_spark :: "'x stack \<Rightarrow> string \<Rightarrow> ('x desk, string list) pm" where
  "cancel_spark st name =
    bind (abort st name) (\<lambda>b. ret (if b then [''took the connection away from '' @ name] else []))"

definition cancel_cqlite :: "'x stack \<Rightarrow> ('x desk, string list) pm" where
  "cancel_cqlite st = bind (abort st ''cqlite'') (\<lambda>b. ret (if b then [''stopped the cqlite scan''] else []))"

definition cancel_jobs :: "'x stack \<Rightarrow> string list \<Rightarrow> ('x desk, string list) pm" where
  "cancel_jobs st stmts =
    bind (kill_jobs_for st stmts) (\<lambda>killed.
      ret (if killed = [] then [] else [''killed '' @ nat_str (length killed) @ '' Spark job(s): '' @ join '', '' killed]))"

definition cancel_comparison :: "'x stack \<Rightarrow> ('x desk, string list) pm" where
  "cancel_comparison st =
    bind (gets in_flight) (\<lambda>f. case f of None \<Rightarrow> ret []
    | Some f \<Rightarrow>
        bind (modify (\<lambda>w. w\<lparr>cancel_requested := True\<rparr>)) (\<lambda>_.
        let a0 = [''stopped the paths that had not started yet''] in
        bind (if ''presto'' \<in> set (f_engines f) then reporting (cancel_presto st) ''could not cancel the Presto query: '' a0
              else ret a0) (\<lambda>a1.
        bind (if ''spark'' \<in> set (f_engines f) then reporting (cancel_spark st ''spark'') ''could not stop spark: '' a1
              else ret a1) (\<lambda>a2.
        bind (if ''spark_bulk'' \<in> set (f_engines f)
              then reporting (cancel_spark st ''spark_bulk'') ''could not stop spark_bulk: '' a2
              else ret a2) (\<lambda>a3.
        bind (if ''cqlite'' \<in> set (f_engines f) then reporting (cancel_cqlite st) ''could not stop cqlite: '' a3
              else ret a3) (\<lambda>a4.
        if spark_statements f = [] then ret a4
        else reporting (cancel_jobs st (spark_statements f)) ''could not kill the Spark job(s): '' a4))))))"

section \<open>Questions in words\<close>

definition NL_ENGINE :: string where
  "NL_ENGINE = ''presto''"

text \<open>\<open>re.sub(r"```(?:sql)?", "", s)\<close>.\<close>

fun drop_fences :: "string \<Rightarrow> string" where
  "drop_fences [] = []"
| "drop_fences (c # s) =
    (if starts_with ''```sql'' (c # s) then drop_fences (drop 5 s)
     else if starts_with ''```'' (c # s) then drop_fences (drop 2 s)
     else c # drop_fences s)"

definition llm_to_sql :: "'x stack \<Rightarrow> string \<Rightarrow> ('x desk, string option) pm" where
  "llm_to_sql st prompt =
    bind (attempt (llm_reply st prompt)) (\<lambda>r. case r of
      Inl _ \<Rightarrow> ret None
    | Inr reply \<Rightarrow> let s = strip (drop_fences reply) in
        ret (if starts_with ''SELECT'' (upper s) then Some s else None))"

definition nl_query :: "'x stack \<Rightarrow> string \<Rightarrow> ('x desk, nl_query_response) pm" where
  "nl_query st req_prompt =
    (let prompt = strip req_prompt in
     if prompt = [] then raise (HTTPException 400 ''Empty prompt'')
     else bind (if openrouter_api_key st \<noteq> [] then llm_to_sql st prompt else ret None) (\<lambda>translated.
       let generated = (if truthy translated then the translated else patterns_to_sql (lower prompt));
           hint = render_hint (lower prompt);
           answer = nl_response_default\<lparr>nl_render_hint := hint\<rparr>
       in case validate generated of
         Inl e \<Rightarrow> ret (answer\<lparr>generated_sql := Some generated, nl_error := Some (exn_str e)\<rparr>)
       | Inr stmt \<Rightarrow>
           bind (run st NL_ENGINE stmt 100 False) (\<lambda>r.
             let issued = (if truthy (r_sql r) then r_sql r else Some generated)
             in ret (if truthy (r_error r) then answer\<lparr>generated_sql := issued, nl_error := r_error r\<rparr>
                     else answer\<lparr>generated_sql := issued, nl_engine := Some NL_ENGINE,
                       nl_result := Some (sql_query_result.truncate r)\<rparr>))))"

section \<open>What other requests may do to a run\<close>

definition stays :: "('s \<Rightarrow> 's \<Rightarrow> bool) \<Rightarrow> ('s, 'a) pm \<Rightarrow> bool" where
  "stays R m \<longleftrightarrow> (\<forall>w. R w (snd (m w)))"

locale run_relation =
  fixes R :: "'s \<Rightarrow> 's \<Rightarrow> bool"
  assumes refl: "R w w" and trans: "R w w' \<Longrightarrow> R w' w'' \<Longrightarrow> R w w''"
begin

lemma stays_ret: "stays R (ret a)"
  by (simp add: stays_def ret_def refl)

lemma stays_raise: "stays R (raise e)"
  by (simp add: stays_def raise_def refl)

lemma stays_gets: "stays R (gets f)"
  by (simp add: stays_def gets_def refl)

lemma stays_modify: "(\<And>w. R w (f w)) \<Longrightarrow> stays R (modify f)"
  by (simp add: stays_def modify_def)

lemma stays_bind: "stays R m \<Longrightarrow> (\<And>a. stays R (f a)) \<Longrightarrow> stays R (bind m f)"
  unfolding stays_def bind_def
proof
  fix w assume m: "\<forall>w. R w (snd (m w))" and f: "\<And>a. \<forall>w. R w (snd (f a w))"
  obtain r w' where "m w = (r, w')" by (cases "m w")
  then show "R w (snd (case m w of (Inl e, s') \<Rightarrow> (Inl e, s') | (Inr a, s') \<Rightarrow> f a s'))"
    using m f trans by (cases r) (auto, metis snd_conv, metis snd_conv)
qed

lemma stays_try_except: "stays R m \<Longrightarrow> (\<And>e. stays R (h e)) \<Longrightarrow> stays R (try_except m h)"
  unfolding stays_def try_except_def
proof
  fix w assume m: "\<forall>w. R w (snd (m w))" and h: "\<And>e. \<forall>w. R w (snd (h e w))"
  obtain r w' where "m w = (r, w')" by (cases "m w")
  then show "R w (snd (case m w of (Inl e, s') \<Rightarrow> h e s' | (Inr a, s') \<Rightarrow> (Inr a, s')))"
    using m h trans by (cases r) (auto, metis snd_conv, metis snd_conv)
qed

lemma stays_attempt: "stays R m \<Longrightarrow> stays R (attempt m)"
  unfolding stays_def attempt_def by (metis (no_types, lifting) old.prod.case prod.collapse snd_conv)

lemma stays_map_pm: "(\<And>x. stays R (f x)) \<Longrightarrow> stays R (map_pm f xs)"
  by (induction xs) (auto intro: stays_ret stays_bind)

lemma stays_case_sum:
  "(\<And>e. stays R (f e)) \<Longrightarrow> (\<And>a. stays R (g a)) \<Longrightarrow> stays R (case z of Inl e \<Rightarrow> f e | Inr a \<Rightarrow> g a)"
  by (cases z) auto

lemma stays_case_option:
  "stays R m \<Longrightarrow> (\<And>x. stays R (f x)) \<Longrightarrow> stays R (case z of None \<Rightarrow> m | Some x \<Rightarrow> f x)"
  by (cases z) auto

lemma stays_case_prod: "(\<And>x y. stays R (f x y)) \<Longrightarrow> stays R (case z of (x, y) \<Rightarrow> f x y)"
  by (cases z) auto

lemma stays_if: "stays R m \<Longrightarrow> stays R m' \<Longrightarrow> stays R (if b then m else m')"
  by simp

lemmas stays_rules = stays_ret stays_raise stays_gets stays_bind stays_try_except stays_attempt
  stays_map_pm stays_case_sum stays_case_option stays_case_prod stays_if

end

text \<open>A request that does not own the run leaves the lock, the run and its results alone, and never
  takes a cancellation back; the owner does the same, apart from the results.\<close>

definition same_lock :: "'x desk \<Rightarrow> 'x desk \<Rightarrow> bool" where
  "same_lock w w' \<longleftrightarrow> comparison_lock w' = comparison_lock w \<and> in_flight w' = in_flight w \<and>
     (cancel_requested w \<longrightarrow> cancel_requested w')"

definition same_run :: "'x desk \<Rightarrow> 'x desk \<Rightarrow> bool" where
  "same_run w w' \<longleftrightarrow> same_lock w w' \<and> results w' = results w"

interpretation lock_rel: run_relation same_lock
  by unfold_locales (auto simp: same_lock_def)

interpretation run_rel: run_relation same_run
  by unfold_locales (auto simp: same_run_def same_lock_def)

text \<open>What the routes rely on of their clients: a call changes the state only as another request
  may, and the threads of a parallel run all finish.\<close>

definition only_cancels :: "'x stack \<Rightarrow> bool" where
  "only_cancels st \<longleftrightarrow>
     (\<forall>e. stays same_run (connect (path_of st e)) \<and> (\<forall>s b. stays same_run (query_rows (path_of st e) s b)) \<and>
        stays same_run (abort st e) \<and> stays same_run (kill_query st e)) \<and>
     stays same_run (first_drones st) \<and> (\<forall>t. stays same_run (sleep st t) \<and> total (sleep st t)) \<and>
     stays same_run (running_queries st) \<and> (\<forall>ss. stays same_run (kill_jobs_for st ss)) \<and>
     (\<forall>es w. set (finish_order st es w) = set es)"

section \<open>Lemmas\<close>

lemma stays_same_runD: "stays same_run m \<Longrightarrow> stays same_lock m"
  by (simp add: stays_def same_run_def)

lemma run_known:
  "engine \<in> fst ` set DIALECTS \<Longrightarrow> \<exists>dialect. map_of DIALECTS engine = Some dialect \<and> (engine, dialect) \<in> set DIALECTS"
  using map_of_SomeD by (metis domIff dom_map_of_conv_image_fst not_Some_eq)

lemma run_same_run: "only_cancels st \<Longrightarrow> stays same_run (run st engine stmt n reuse)"
  unfolding run_def Let_def
  by (intro run_rel.stays_rules) (simp_all add: only_cancels_def run_rel.stays_ret run_rel.stays_gets)

lemma run_total:
  assumes "engine \<in> fst ` set DIALECTS"
  shows "total (run st engine stmt n reuse)"
proof -
  obtain dialect where "map_of DIALECTS engine = Some dialect" using run_known [OF assms] by blast
  then show ?thesis unfolding run_def Let_def by simp (intro total_intros)
qed

lemma with_probe_stays: "stays R m \<Longrightarrow> stays R (with_probe st s m)"
  unfolding stays_def with_probe_def
  by (auto split: prod.splits sum.splits) (metis snd_conv)+

lemma with_probe_Inr: "with_probe st s m w = (Inr (a, i), w') \<Longrightarrow> m w = (Inr a, w')"
  by (auto simp: with_probe_def split: prod.splits sum.splits)

lemma with_probe_run: "m w = (Inr a, w') \<Longrightarrow> \<exists>i. with_probe st s m w = (Inr (a, i), w')"
  by (simp add: with_probe_def split: prod.splits)

lemma with_probe_total: "total m \<Longrightarrow> total (with_probe st s m)"
  unfolding total_def with_probe_def by (metis (no_types, lifting) case_prod_beta old.prod.case sum.case(2))

text \<open>Every answer has the shape of a result: as many cells in each row as there are columns, and no
  row beside an error.\<close>

definition result_ok :: "engine_result \<Rightarrow> bool" where
  "result_ok r \<longleftrightarrow> r_row_count r = length (r_rows r) \<and> (\<forall>cells \<in> set (r_rows r). length cells = length (r_columns r)) \<and>
     (r_error r \<noteq> None \<longrightarrow> r_rows r = []) \<and> (\<not> available r \<longrightarrow> r_error r \<noteq> None \<and> r_sql r = None)"

lemma result_ok_update [simp]:
  "result_ok (r\<lparr>r_query_time_ms := t, r_figures := f\<rparr>) = result_ok r" "result_ok (r\<lparr>oltp := i\<rparr>) = result_ok r"
  by (simp_all add: result_ok_def)

lemma result_ok_values:
  "result_ok (unavailable e)" "result_ok (answered s rs)"
  "result_ok (engine_result_default\<lparr>r_sql := q, r_error := Some e\<rparr>)" "result_ok (engine_result_default\<lparr>r_error := Some e\<rparr>)"
  by (auto simp: result_ok_def unavailable_def answered_def engine_result_default_def Let_def)

lemma bind_cases:
  "bind m f w = (Inr b, w'') \<Longrightarrow> \<exists>a w'. m w = (Inr a, w') \<and> f a w' = (Inr b, w'')"
  by (auto simp: bind_def split: prod.splits sum.splits)

lemma run_result:
  assumes "run st engine stmt n reuse w = (Inr r, w')"
  shows "result_ok r \<and> (available r \<longrightarrow> r_sql r = Some (the (map_of DIALECTS engine) stmt n))"
proof -
  obtain dialect where d: "map_of DIALECTS engine = Some dialect"
    using assms by (cases "map_of DIALECTS engine") (auto simp: run_def raise_def)
  show ?thesis
    using assms unfolding run_def Let_def d
    by (auto simp: bind_def gets_def ret_def attempt_def result_ok_values unavailable_def answered_def
      engine_result_default_def d Let_def result_ok_def split: prod.splits sum.splits if_splits)
qed

lemma set_result_lock: "stays same_lock (set_result e r)"
  by (simp add: stays_def set_result_def modify_def same_lock_def)

lemma set_result_total: "total (set_result e r)"
  by (simp add: set_result_def total_modify)

lemma run_leg_total: "engine \<in> fst ` set DIALECTS \<Longrightarrow> total (run_leg st stmt n subject reuse engine)"
  unfolding run_leg_def Let_def
  by (intro total_if total_bind with_probe_total run_total set_result_total total_ret total_case_prod)

lemma run_leg_results:
  assumes st: "only_cancels st" and r: "run_leg st stmt n subject reuse engine w = (Inr r, w')"
  shows "same_lock w w' \<and> results w' = AList.update engine r (results w)"
proof -
  have store: "same_lock w v \<and> results v = AList.update engine a (results w)"
    if h: "bind (run st engine stmt n reuse) (\<lambda>r. bind (set_result engine r) (\<lambda>_. ret r)) w = (Inr a, v)" for a v
  proof -
    obtain u where "run st engine stmt n reuse w = (Inr a, u)" "v = u\<lparr>results := AList.update engine a (results u)\<rparr>"
      using h by (auto simp: bind_def set_result_def modify_def ret_def split: prod.splits sum.splits)
    moreover from this have "same_run w u"
      using run_same_run [OF st, of engine stmt n reuse] unfolding stays_def by (metis snd_conv)
    ultimately show ?thesis by (simp add: same_run_def same_lock_def)
  qed
  show ?thesis
  proof (cases "truthy subject")
    case False
    then show ?thesis using r store by (simp add: run_leg_def)
  next
    case True
    then obtain a i v where p: "with_probe st (the subject)
          (bind (run st engine stmt n reuse) (\<lambda>r. bind (set_result engine r) (\<lambda>_. ret r))) w = (Inr (a, i), v)"
        and "bind (set_result engine (a\<lparr>oltp := Some i\<rparr>)) (\<lambda>_. ret (a\<lparr>oltp := Some i\<rparr>)) v = (Inr r, w')"
      using r bind_cases [of "with_probe _ _ _" _ w r w'] by (fastforce simp: run_leg_def Let_def)
    then have "r = a\<lparr>oltp := Some i\<rparr>" "w' = v\<lparr>results := AList.update engine r (results v)\<rparr>"
      by (auto simp: bind_def set_result_def modify_def ret_def)
    moreover note with_probe_Inr [OF p]
    ultimately show ?thesis using store by (simp add: same_lock_def)
  qed
qed

lemma alist_update_new: "k \<notin> fst ` set al \<Longrightarrow> AList.update k v al = al @ [(k, v)]"
  by (induction al) auto

lemma staysD: "stays R m \<Longrightarrow> m w = (r, w') \<Longrightarrow> R w w'"
  unfolding stays_def by (metis snd_conv)

text \<open>A run in one piece: the engines answer in order, up to a cancellation.\<close>

definition answered_in_order :: "'x desk \<Rightarrow> string list \<Rightarrow> 'x desk \<Rightarrow> bool" where
  "answered_in_order w es w' \<longleftrightarrow> same_lock w w' \<and>
     (\<exists>k \<le> length es. map fst (results w') = map fst (results w) @ take k es \<and> (k < length es \<longrightarrow> cancel_requested w'))"

lemma run_sequentially_answers:
  assumes st: "only_cancels st"
  shows "set es \<subseteq> fst ` set DIALECTS \<Longrightarrow> distinct (map fst (results w) @ es) \<Longrightarrow>
    \<exists>w'. run_sequentially st stmt n subject reuse es w = (Inr (), w') \<and> answered_in_order w es w'"
proof (induction es arbitrary: w)
  case Nil
  then show ?case by (simp add: ret_def answered_in_order_def same_lock_def)
next
  case (Cons e es)
  show ?case
  proof (cases "cancel_requested w")
    case True
    then have "run_sequentially st stmt n subject reuse (e # es) w = (Inr (), w)"
      by (simp add: bind_def gets_def ret_def)
    moreover have "answered_in_order w (e # es) w"
      using True by (auto simp: answered_in_order_def same_lock_def intro!: exI [of _ 0])
    ultimately show ?thesis by blast
  next
    case False
    obtain r v where r: "run_leg st stmt n subject reuse e w = (Inr r, v)"
      using run_leg_total [of e] Cons.prems(1) unfolding total_def by (metis insert_subset list.simps(15))
    have v: "same_lock w v" "results v = results w @ [(e, r)]"
      using run_leg_results [OF st r] Cons.prems(2) alist_update_new by force+
    obtain w' where w': "run_sequentially st stmt n subject reuse es v = (Inr (), w')" "answered_in_order v es w'"
      using Cons.IH [of v] Cons.prems v(2) by auto
    then obtain k where k: "k \<le> length es" "map fst (results w') = map fst (results v) @ take k es"
        "k < length es \<longrightarrow> cancel_requested w'" "same_lock v w'" by (auto simp: answered_in_order_def)
    have "run_sequentially st stmt n subject reuse (e # es) w = (Inr (), w')"
      using False r w'(1) by (simp add: bind_def gets_def ret_def)
    moreover have "answered_in_order w (e # es) w'"
      unfolding answered_in_order_def
      using k v lock_rel.trans by (intro conjI exI [of _ "Suc k"]) auto
    ultimately show ?thesis by blast
  qed
qed

lemma probe_subject_rules:
  "only_cancels st \<Longrightarrow> stays same_run (probe_subject st)" "total (probe_subject st)"
  unfolding probe_subject_def
  by (intro run_rel.stays_rules, simp add: only_cancels_def) (intro total_intros)

lemma sample_baseline_rules:
  assumes "only_cancels st"
  shows "stays same_run (sample_baseline st subject)" and "total (sample_baseline st subject)"
  using assms unfolding sample_baseline_def only_cancels_def
  by (auto intro!: run_rel.stays_rules with_probe_stays total_intros with_probe_total)

lemma leg_run_total:
  "total (try_except (run st e stmt n reuse) (\<lambda>x. ret (engine_result_default\<lparr>r_error := Some (exn_str x)\<rparr>)))"
  by (intro total_intros)

lemma run_together_answers:
  assumes st: "only_cancels st"
  shows "\<exists>w'. run_together st stmt n reuse es w = (Inr (), w') \<and> same_lock w w' \<and>
    fst ` set (results w') = fst ` set (results w) \<union> set es"
proof -
  define leg where "leg = (\<lambda>e. bind (try_except (run st e stmt n reuse)
      (\<lambda>x. ret (engine_result_default\<lparr>r_error := Some (exn_str x)\<rparr>))) (set_result e))"
  have one: "\<exists>v. leg e w = (Inr (), v) \<and> same_lock w v \<and> fst ` set (results v) = insert e (fst ` set (results w))" for e w
  proof -
    have "stays same_run (try_except (run st e stmt n reuse) (\<lambda>x. ret (engine_result_default\<lparr>r_error := Some (exn_str x)\<rparr>)))"
      by (intro run_rel.stays_rules run_same_run [OF st])
    moreover obtain r u where "try_except (run st e stmt n reuse) (\<lambda>x. ret (engine_result_default\<lparr>r_error := Some (exn_str x)\<rparr>)) w = (Inr r, u)"
      using totalD [OF leg_run_total] by blast
    ultimately show ?thesis
      using staysD by (fastforce simp: leg_def bind_def set_result_def modify_def same_run_def same_lock_def dom_update)
  qed
  have "\<exists>us v. map_pm leg xs w = (Inr us, v) \<and> same_lock w v \<and> fst ` set (results v) = fst ` set (results w) \<union> set xs" for xs
  proof (induction xs arbitrary: w)
    case Nil
    then show ?case by (simp add: ret_def same_lock_def)
  next
    case (Cons x xs)
    obtain v where v: "leg x w = (Inr (), v)" "same_lock w v" "fst ` set (results v) = insert x (fst ` set (results w))"
      using one by blast
    obtain us u where u: "map_pm leg xs v = (Inr us, u)" "same_lock v u" "fst ` set (results u) = fst ` set (results v) \<union> set xs"
      using Cons.IH by blast
    have "map_pm leg (x # xs) w = (Inr (() # us), u)" using v(1) u(1) by (simp add: bind_def ret_def)
    then show ?case using v u lock_rel.trans by fastforce
  qed
  from this [of "finish_order st es w"] obtain us v where v: "map_pm leg (finish_order st es w) w = (Inr us, v)"
      "same_lock w v" "fst ` set (results v) = fst ` set (results w) \<union> set es"
    using st by (auto simp: only_cancels_def)
  have "run_together st stmt n reuse es = bind (gets (finish_order st es)) (\<lambda>order. bind (map_pm leg order) (\<lambda>_. ret ()))"
    unfolding run_together_def leg_def ..
  then have "run_together st stmt n reuse es w = (Inr (), v)" using v(1) by (simp add: bind_def gets_def ret_def)
  then show ?thesis using v by blast
qed

text \<open>The engines a request names.\<close>

lemma first_occurrences:
  "foldl (\<lambda>seen n. if n \<in> set seen then seen else seen @ [n]) acc ns =
     acc @ rev (remdups (rev (filter (\<lambda>n. n \<notin> set acc) ns)))"
proof (induction ns arbitrary: acc rule: rev_induct)
  case (snoc n ns)
  then show ?case by auto
qed simp

lemma DIALECTS_distinct: "distinct (map fst DIALECTS)"
  by code_simp

lemma requested_engines_ok:
  assumes "requested_engines names keep = Inr es"
  shows "es \<noteq> []" and "distinct es" and "set es \<subseteq> fst ` set DIALECTS"
proof -
  have "map fst DIALECTS \<noteq> []" by (simp add: DIALECTS_def)
  then show "es \<noteq> []" using assms by (auto simp: requested_engines_def Let_def split: option.splits if_splits)
  show "distinct es"
    using assms DIALECTS_distinct
    by (auto simp: requested_engines_def Let_def first_occurrences split: option.splits if_splits)
  show "set es \<subseteq> fst ` set DIALECTS"
    using assms by (auto simp: requested_engines_def Let_def first_occurrences filter_empty_conv split: option.splits if_splits)
qed

lemma begin_run_free:
  "\<not> comparison_lock w \<Longrightarrow> \<exists>v. begin_run st stmt es mode n w = (Inr (), v) \<and> comparison_lock v \<and> results v = [] \<and>
     in_flight v \<noteq> None \<and> \<not> cancel_requested v"
  by (simp add: begin_run_def)

lemma begin_run_held:
  "comparison_lock w \<Longrightarrow> \<exists>d. begin_run st stmt es mode n w = (Inl (HTTPException 409 d), w)"
  by (simp add: begin_run_def)

lemma run_chosen_answers:
  assumes st: "only_cancels st" and es: "set es \<subseteq> fst ` set DIALECTS" "distinct es" and w: "results w = []"
  shows "\<exists>resp w'. run_chosen st req stmt es w = (Inr resp, w') \<and> same_lock w w' \<and>
    resp = response (b_mode req) (oltp_baseline resp) (oltp_combined resp) w' \<and>
    (if b_mode req = ''parallel'' then fst ` set (results w') = set es
     else \<exists>k \<le> length es. map fst (results w') = take k es \<and> (k < length es \<longrightarrow> cancel_requested w'))"
proof -
  obtain subject w1 where s: "probe_subject st w = (Inr subject, w1)"
    using totalD [OF probe_subject_rules(2)] by blast
  have w1: "same_run w w1" using staysD [OF probe_subject_rules(1) [OF st] s] .
  obtain b w2 where b: "sample_baseline st subject w1 = (Inr b, w2)"
    using totalD [OF sample_baseline_rules(2) [OF st]] by blast
  have "same_run w1 w2" using staysD [OF sample_baseline_rules(1) [OF st] b] .
  then have w2: "same_lock w w2" "results w2 = []" using w1 w lock_rel.trans unfolding same_run_def by (blast, simp)
  show ?thesis
  proof (cases "b_mode req = ''parallel''")
    case True
    obtain w' where t: "run_together st stmt (b_limit req) (b_reuse_snapshot req) es w2 = (Inr (), w')"
        "same_lock w2 w'" "fst ` set (results w') = set es"
      using run_together_answers [OF st] w2(2) by fastforce
    obtain c where "run_chosen st req stmt es w = (Inr (response (b_mode req) b c w'), w')"
      using s b t(1) True with_probe_run [where m = "run_together st stmt (b_limit req) (b_reuse_snapshot req) es", OF t(1), of st "the subject"]
      by (cases "truthy subject") (auto simp: run_chosen_def bind_def gets_def ret_def)
    then show ?thesis using True t w2 lock_rel.trans by (fastforce simp: response_def)
  next
    case False
    obtain w' where q: "run_sequentially st stmt (b_limit req) subject (b_reuse_snapshot req) es w2 = (Inr (), w')"
        "answered_in_order w2 es w'"
      using run_sequentially_answers [OF st es(1), of w2] es(2) w2(2) by simp blast
    have "run_chosen st req stmt es w = (Inr (response (b_mode req) b None w'), w')"
      using s b q(1) False by (auto simp: run_chosen_def bind_def gets_def ret_def)
    then show ?thesis using False q(2) w2 lock_rel.trans
      by (fastforce simp: response_def answered_in_order_def)
  qed
qed

lemma validate_Inl: "validate s = Inl e \<Longrightarrow> \<exists>d. e = HTTPException 400 d"
  by (auto simp: validate_def Let_def split: if_splits option.splits)

lemma requested_engines_Inl: "requested_engines names k = Inl e \<Longrightarrow> \<exists>d. e = HTTPException 400 d"
  by (auto simp: requested_engines_def Let_def split: if_splits option.splits)

lemma run_benchmark_started:
  assumes "validate (b_sql req) = Inr stmt" and "requested_engines (b_engines req) False = Inr es"
    and "begin_run st stmt es (b_mode req) (b_limit req) w = (Inr (), v)"
  shows "run_benchmark st req w = (case run_chosen st req stmt es v of (r, w') \<Rightarrow> (r, end_run w'))"
  using assms by (simp add: run_benchmark_def bind_def try_finally_def)

lemma benchmark_refused:
  assumes "comparison_lock w"
  shows "\<exists>c d. run_benchmark st req w = (Inl (HTTPException c d), w) \<and> c \<in> {400, 409}"
proof (cases "validate (b_sql req)")
  case (Inl e)
  then show ?thesis using validate_Inl [OF Inl] by (auto simp: run_benchmark_def raise_def)
next
  case v: (Inr stmt)
  show ?thesis
  proof (cases "requested_engines (b_engines req) False")
    case (Inl e)
    then show ?thesis using v requested_engines_Inl [OF Inl] by (auto simp: run_benchmark_def raise_def)
  next
    case (Inr es)
    then show ?thesis
      using v begin_run_held [OF assms, of st stmt es "b_mode req" "b_limit req"]
      by (auto simp: run_benchmark_def bind_def)
  qed
qed

lemma benchmark_released:
  assumes "\<not> comparison_lock w"
  shows "\<not> comparison_lock (snd (run_benchmark st req w)) \<and>
    (in_flight w = None \<longrightarrow> in_flight (snd (run_benchmark st req w)) = None)"
proof (cases "\<exists>stmt es. validate (b_sql req) = Inr stmt \<and> requested_engines (b_engines req) False = Inr es")
  case False
  then have "snd (run_benchmark st req w) = w"
    by (cases "validate (b_sql req)"; cases "requested_engines (b_engines req) False")
      (auto simp: run_benchmark_def raise_def)
  then show ?thesis using assms by simp
next
  case True
  then obtain stmt es where ok: "validate (b_sql req) = Inr stmt" "requested_engines (b_engines req) False = Inr es" by blast
  obtain v where "begin_run st stmt es (b_mode req) (b_limit req) w = (Inr (), v)"
    using begin_run_free [OF assms] by blast
  from run_benchmark_started [OF ok this] show ?thesis
    by (auto simp: end_run_def split: prod.splits)
qed

section \<open>Properties\<close>

text \<open>A small stack: every engine answers one row, and Cassandra has one asset to probe.\<close>

definition small_path :: "unit path" where
  "small_path = \<lparr>connected = (\<lambda>_. True), connect = ret (), query_rows = (\<lambda>s b. ret [[(''n'', CInt 1)]]),
     SUPPORTS_SNAPSHOT_REUSE = False, last_figures = (\<lambda>_. no_figures)\<rparr>"

definition small_stack :: "unit stack" where
  "small_stack = \<lparr>path_of = (\<lambda>_. small_path), perf_s = (\<lambda>_. 0), monotonic_s = (\<lambda>_. 0), first_drones = ret [],
     probe_reads = (\<lambda>_ _ _. []), sleep = (\<lambda>_. ret ()), finish_order = (\<lambda>es _. es), presto_user = ''dashboard'',
     running_queries = ret [], kill_query = (\<lambda>_. ret ()), abort = (\<lambda>_. ret True), kill_jobs_for = (\<lambda>_. ret []),
     openrouter_api_key = '''', llm_reply = (\<lambda>_. raise (Exn ''offline''))\<rparr>"

definition idle_desk :: "unit desk" where
  "idle_desk = \<lparr>comparison_lock = False, in_flight = None, cancel_requested = False, results = [], outside = ()\<rparr>"

lemma small_only_cancels: "only_cancels small_stack"
  by (simp add: only_cancels_def small_stack_def small_path_def run_rel.stays_rules total_intros)

text \<open>
  Property. A comparison holds the lock exactly while it runs: one that finds the lock taken is refused with
  400 or 409 and changes nothing, and one that finds it free leaves it free, whatever its engines
  do and however it ends, with no run recorded.
\<close>

theorem benchmark_ends_its_run:
  "(comparison_lock w \<longrightarrow> (\<exists>c d. run_benchmark st req w = (Inl (HTTPException c d), w) \<and> c \<in> {400, 409})) \<and>
   (\<not> comparison_lock w \<longrightarrow> \<not> comparison_lock (snd (run_benchmark st req w)) \<and>
      (in_flight w = None \<longrightarrow> in_flight (snd (run_benchmark st req w)) = None))"
  using benchmark_refused benchmark_released by blast

definition small_request :: benchmark_request where
  "small_request = \<lparr>b_sql = ''SELECT n FROM events'', b_limit = 10, b_engines = Some [''cqlite'', ''presto''],
     b_mode = ''sequential'', b_reuse_snapshot = False\<rparr>"

theorem benchmark_ends_its_run_witness:
  "(\<exists>c d. run_benchmark small_stack small_request (idle_desk\<lparr>comparison_lock := True\<rparr>) =
      (Inl (HTTPException c d), idle_desk\<lparr>comparison_lock := True\<rparr>) \<and> c \<in> {400, 409}) \<and>
   \<not> comparison_lock (snd (run_benchmark small_stack small_request idle_desk))"
  using benchmark_ends_its_run [of "idle_desk\<lparr>comparison_lock := True\<rparr>" small_stack small_request]
    benchmark_ends_its_run [of idle_desk small_stack small_request]
  by (simp add: idle_desk_def)

text \<open>
  Property. What a comparison answers: a parallel run answers for exactly the engines asked for; a sequential
  one for a leading part of them in order, and for all of them unless it reports itself cancelled.
\<close>

theorem comparison_covers_the_engines:
  assumes "only_cancels st" and "\<not> comparison_lock w"
    and "validate (b_sql req) = Inr stmt" and "requested_engines (b_engines req) False = Inr es"
  shows "\<exists>resp w'. run_benchmark st req w = (Inr resp, w') \<and>
    (if b_mode req = ''parallel'' then fst ` set (results w') = set es
     else \<exists>k \<le> length es. map fst (results w') = take k es \<and> (\<not> cancelled resp \<longrightarrow> k = length es)) \<and>
    br_presto resp = map_of (results w') ''presto'' \<and> br_cqlite resp = map_of (results w') ''cqlite''"
proof -
  obtain v where b: "begin_run st stmt es (b_mode req) (b_limit req) w = (Inr (), v)" "results v = []"
    using begin_run_free [OF assms(2)] by blast
  obtain resp u where u: "run_chosen st req stmt es v = (Inr resp, u)"
      "resp = response (b_mode req) (oltp_baseline resp) (oltp_combined resp) u"
      "if b_mode req = ''parallel'' then fst ` set (results u) = set es
       else \<exists>k \<le> length es. map fst (results u) = take k es \<and> (k < length es \<longrightarrow> cancel_requested u)"
    using run_chosen_answers [OF assms(1) requested_engines_ok(3,2) [OF assms(4)] b(2)] by blast
  have "run_benchmark st req w = (Inr resp, end_run u)"
    using run_benchmark_started [OF assms(3,4) b(1)] u(1) by simp
  moreover have "results (end_run u) = results u" by (simp add: end_run_def)
  moreover have "cancelled resp = cancel_requested u" "br_presto resp = map_of (results u) ''presto''"
      "br_cqlite resp = map_of (results u) ''cqlite''"
    by (subst u(2), simp add: response_def)+
  ultimately show ?thesis using u(3) by (auto simp: le_less split: if_splits)
qed

theorem comparison_covers_the_engines_witness:
  "\<exists>resp w'. run_benchmark small_stack small_request idle_desk = (Inr resp, w') \<and>
     map fst (results w') = [''presto'', ''cqlite''] \<and> \<not> cancelled resp"
proof -
  have "validate (b_sql small_request) = Inr ''SELECT n FROM events''"
    "requested_engines (b_engines small_request) False = Inr [''presto'', ''cqlite'']"
    "\<not> comparison_lock idle_desk" "b_mode small_request \<noteq> ''parallel''" by code_simp+
  from comparison_covers_the_engines [OF small_only_cancels this(3,1,2)] this(4)
  obtain resp w' k where r: "run_benchmark small_stack small_request idle_desk = (Inr resp, w')"
      "map fst (results w') = take k [''presto'', ''cqlite'']" "\<not> cancelled resp \<longrightarrow> k = length [''presto'', ''cqlite'']"
    by auto
  moreover have "case run_benchmark small_stack small_request idle_desk of
      (Inr r, _) \<Rightarrow> \<not> cancelled r | _ \<Rightarrow> False" by code_simp
  ultimately show ?thesis by auto
qed

text \<open>
  Property. The engines of a comparison: never none, none twice, all known, exactly the ones named; in the
  order of the dashboard, or for a stream in the order in which they are first named.
\<close>

theorem requested_engines_are_the_named:
  assumes "requested_engines (Some names) keep_order = Inr es"
  shows "es \<noteq> [] \<and> distinct es \<and> set es = set names \<and> set names \<subseteq> fst ` set DIALECTS \<and>
    (if keep_order then es = rev (remdups (rev names)) else es = filter (\<lambda>e. e \<in> set names) (map fst DIALECTS))"
proof -
  have "set names \<subseteq> fst ` set DIALECTS"
    using assms by (auto simp: requested_engines_def Let_def filter_empty_conv split: if_splits)
  moreover have "if keep_order then es = rev (remdups (rev names)) else es = filter (\<lambda>e. e \<in> set names) (map fst DIALECTS)"
    using assms by (auto simp: requested_engines_def Let_def first_occurrences split: if_splits)
  moreover from calculation have "set es = set names" by (auto split: if_splits)
  ultimately show ?thesis using requested_engines_ok [OF assms] by blast
qed

theorem requested_engines_are_the_named_witness:
  "requested_engines (Some [''cqlite'', ''presto'', ''cqlite'']) True = Inr [''cqlite'', ''presto''] \<and>
   set [''cqlite'', ''presto''] = set [''cqlite'', ''presto'', ''cqlite'']"
proof -
  have "requested_engines (Some [''cqlite'', ''presto'', ''cqlite'']) True = Inr [''cqlite'', ''presto'']" by code_simp
  from this requested_engines_are_the_named [OF this] show ?thesis by blast
qed

lemma sample_at_mono:
  assumes "sorted xs" and "xs \<noteq> []" and "0 \<le> f" and "f \<le> g"
  shows "sample_at xs f \<le> sample_at xs g" and "sample_at xs g \<le> py_round 1 (last xs)"
proof -
  define m where "m = length xs - 1"
  have m: "m < length xs" using assms(2) by (simp add: m_def)
  have "round_half_even (f * real m) \<le> round_half_even (g * real m)"
    using assms by (intro round_half_even_mono mult_right_mono) auto
  then have "min m (nat (round_half_even (f * real m))) \<le> min m (nat (round_half_even (g * real m)))"
    by (intro min.mono nat_mono order_refl)
  then show "sample_at xs f \<le> sample_at xs g"
    unfolding sample_at_def m_def [symmetric]
    using assms(1) m by (intro py_round_mono sorted_nth_mono) auto
  show "sample_at xs g \<le> py_round 1 (last xs)"
    unfolding sample_at_def last_conv_nth [OF assms(2)] m_def [symmetric]
    using assms(1) m by (intro py_round_mono sorted_nth_mono) auto
qed

lemma sorted_le_last: "sorted xs \<Longrightarrow> y \<in> set xs \<Longrightarrow> y \<le> last xs"
  by (induction xs) auto

lemma probe_loop_counts:
  "probe_loop rs ls fs = (ls', fs') \<Longrightarrow> length ls' + fs' = length ls + fs + length rs"
  by (induction rs ls fs rule: probe_loop.induct) auto

lemma impact_order:
  "let i = impact ls fs in p50_ms i \<le> p95_ms i \<and> p95_ms i \<le> worst_ms i \<and>
     (if ls = [] then worst_ms i = 0 else \<exists>x \<in> set ls. worst_ms i = py_round 1 x \<and> (\<forall>y \<in> set ls. y \<le> x))"
proof (cases "ls = []")
  case True
  then show ?thesis by (simp add: impact_def Let_def)
next
  case False
  then have ne: "sort ls \<noteq> []" by (metis set_empty2 set_sort)
  have "last (sort ls) \<in> set ls" "\<forall>y \<in> set ls. y \<le> last (sort ls)"
    using last_in_set [OF ne] sorted_le_last [OF sorted_sort] by auto
  then show ?thesis
    using sample_at_mono [OF sorted_sort ne, of "1 / 2" "95 / 100"] ne False
    by (auto simp: impact_def Let_def intro!: bexI [of _ "last (sort ls)"])
qed

text \<open>
  Property. What the probe reports: the median is at most the 95th percentile, which is at most the worst,
  each the rounding of a sample, and every sample and every failure is counted.
\<close>

theorem impact_is_ordered:
  "case probe_loop reads [] 0 of (ls, fs) \<Rightarrow> let i = impact ls fs in
     p50_ms i \<le> p95_ms i \<and> p95_ms i \<le> worst_ms i \<and>
     (if ls = [] then worst_ms i = 0 else \<exists>x \<in> set ls. worst_ms i = py_round 1 x \<and> (\<forall>y \<in> set ls. y \<le> x)) \<and>
     samples i + failures i = length reads"
proof -
  obtain ls fs where p: "probe_loop reads [] 0 = (ls, fs)" by (cases "probe_loop reads [] 0")
  have "samples (impact ls fs) = length ls" "failures (impact ls fs) = fs"
    by (auto simp: impact_def Let_def dest: arg_cong [where f = length])
  then have "samples (impact ls fs) + failures (impact ls fs) = length reads" using probe_loop_counts [OF p] by simp
  then show ?thesis using impact_order [of ls fs] unfolding p prod.case Let_def by blast
qed

text \<open>
  Property. A path's failure is a value: on a known engine \<open>_run\<close> never raises, whatever the client does, and
  its result is well formed - as many cells in every row as columns, the row count of its rows,
  no rows beside an error, and the statement as issued unless the engine was out of reach.
\<close>

theorem run_reports_failure:
  assumes "engine \<in> fst ` set DIALECTS"
  shows "\<exists>r w'. run st engine stmt n reuse w = (Inr r, w') \<and> r_row_count r = length (r_rows r) \<and>
    (\<forall>cells \<in> set (r_rows r). length cells = length (r_columns r)) \<and> (r_error r \<noteq> None \<longrightarrow> r_rows r = []) \<and>
    (if available r then r_sql r = Some (the (map_of DIALECTS engine) stmt n) else r_error r \<noteq> None \<and> r_sql r = None)"
proof -
  obtain r w' where r: "run st engine stmt n reuse w = (Inr r, w')" using totalD [OF run_total [OF assms]] by blast
  then show ?thesis using run_result [OF r] by (auto simp: result_ok_def)
qed

theorem run_reports_failure_witness:
  "\<exists>r w'. run (small_stack\<lparr>path_of := (\<lambda>_. small_path\<lparr>query_rows := (\<lambda>_ _. raise (Exn ''timed out''))\<rparr>)\<rparr>)
     ''spark'' ''SELECT 1'' 5 False idle_desk = (Inr r, w') \<and> r_rows r = [] \<and> r_row_count r = 0"
proof -
  have "''spark'' \<in> fst ` set DIALECTS" by (simp add: DIALECTS_def)
  from run_reports_failure [OF this, of "small_stack\<lparr>path_of := (\<lambda>_. small_path\<lparr>query_rows := (\<lambda>_ _. raise (Exn ''timed out''))\<rparr>)\<rparr>"
      "''SELECT 1''" 5 False idle_desk]
  show ?thesis
    by (auto simp: run_def DIALECTS_def small_stack_def small_path_def bind_def gets_def ret_def raise_def attempt_def
        engine_result_default_def)
qed

text \<open>
  Property. The console reads a failure with an empty message as success: an exception whose text is empty is
  answered with a result of no columns and no rows.
\<close>

theorem blank_error_reads_as_success:
  "case execute_sql (small_stack\<lparr>path_of := (\<lambda>_. small_path\<lparr>query_rows := (\<lambda>_ _. raise (Exn ''''))\<rparr>)\<rparr>)
     \<lparr>q_sql = ''SELECT 1'', q_limit = 5, q_engine = ''presto'', q_reuse_snapshot = False\<rparr> idle_desk of
     (Inr r, _) \<Rightarrow> r_columns r = [] \<and> r_row_count r = 0 | _ \<Rightarrow> False"
  by code_simp

lemma reporting_rules: "stays same_run m \<Longrightarrow> stays same_run (reporting m f as)" "total (reporting m f as)"
  unfolding reporting_def by (intro run_rel.stays_rules, assumption) (intro total_intros)

lemma cancel_parts:
  assumes "only_cancels st"
  shows "stays same_run (cancel_presto st)" "stays same_run (cancel_spark st e)" "stays same_run (cancel_cqlite st)"
    "stays same_run (cancel_jobs st ss)"
  using assms unfolding cancel_presto_def cancel_spark_def cancel_cqlite_def cancel_jobs_def Let_def only_cancels_def
  by (auto intro!: run_rel.stays_rules)

lemma cancel_comparison_run:
  assumes st: "only_cancels st"
  shows "\<exists>as w'. cancel_comparison st w = (Inr as, w') \<and>
    (if in_flight w = None then w' = w \<and> as = [] else same_run w w' \<and> cancel_requested w')"
proof (cases "in_flight w")
  case None
  then show ?thesis by (simp add: cancel_comparison_def bind_def gets_def ret_def)
next
  case (Some f)
  define rest where "rest = (let a0 = [''stopped the paths that had not started yet''] in
        bind (if ''presto'' \<in> set (f_engines f) then reporting (cancel_presto st) ''could not cancel the Presto query: '' a0
              else ret a0) (\<lambda>a1.
        bind (if ''spark'' \<in> set (f_engines f) then reporting (cancel_spark st ''spark'') ''could not stop spark: '' a1
              else ret a1) (\<lambda>a2.
        bind (if ''spark_bulk'' \<in> set (f_engines f)
              then reporting (cancel_spark st ''spark_bulk'') ''could not stop spark_bulk: '' a2
              else ret a2) (\<lambda>a3.
        bind (if ''cqlite'' \<in> set (f_engines f) then reporting (cancel_cqlite st) ''could not stop cqlite: '' a3
              else ret a3) (\<lambda>a4.
        if spark_statements f = [] then ret a4
        else reporting (cancel_jobs st (spark_statements f)) ''could not kill the Spark job(s): '' a4)))))"
  have "stays same_run rest" "total rest"
    unfolding rest_def Let_def
    by (intro run_rel.stays_bind run_rel.stays_if run_rel.stays_ret reporting_rules(1) cancel_parts [OF st])
      (intro total_intros reporting_rules(2))
  then obtain as w' where "rest (w\<lparr>cancel_requested := True\<rparr>) = (Inr as, w')" "same_run (w\<lparr>cancel_requested := True\<rparr>) w'"
    using staysD totalD by metis
  moreover have "cancel_comparison st w = rest (w\<lparr>cancel_requested := True\<rparr>)"
    using Some by (simp add: cancel_comparison_def rest_def bind_def gets_def modify_def)
  ultimately show ?thesis using Some by (auto simp: same_run_def same_lock_def)
qed

text \<open>
  Property. Cancelling never raises and never ends the run itself: with no run in flight it does nothing;
  with one, whatever the engines answer, the run and its results stay as they are and no path
  starts any more.
\<close>

theorem cancel_stops_the_next_path:
  assumes "only_cancels st"
  shows "\<exists>as w'. cancel_comparison st w = (Inr as, w') \<and> comparison_lock w' = comparison_lock w \<and>
    in_flight w' = in_flight w \<and> results w' = results w \<and>
    (in_flight w \<noteq> None \<longrightarrow> run_sequentially st stmt n subject reuse es w' = (Inr (), w'))"
proof -
  obtain as w' where c: "cancel_comparison st w = (Inr as, w')"
      "if in_flight w = None then w' = w \<and> as = [] else same_run w w' \<and> cancel_requested w'"
    using cancel_comparison_run [OF assms] by blast
  have "cancel_requested w' \<Longrightarrow> run_sequentially st stmt n subject reuse es w' = (Inr (), w')"
    by (cases es) (simp_all add: ret_def bind_def gets_def)
  then show ?thesis using c by (auto simp: same_run_def same_lock_def split: if_splits)
qed

theorem cancel_stops_the_next_path_witness:
  "\<exists>as w'. cancel_comparison small_stack (snd (begin_run small_stack ''SELECT 1'' [''presto'', ''spark''] ''sequential'' 5 idle_desk)) = (Inr as, w') \<and>
     run_sequentially small_stack ''SELECT 1'' 5 None False [''spark''] w' = (Inr (), w')"
proof -
  have "in_flight (snd (begin_run small_stack ''SELECT 1'' [''presto'', ''spark''] ''sequential'' 5 idle_desk)) \<noteq> None"
    by (simp add: begin_run_def idle_desk_def)
  with cancel_stops_the_next_path [OF small_only_cancels,
      of "snd (begin_run small_stack ''SELECT 1'' [''presto'', ''spark''] ''sequential'' 5 idle_desk)"
        "''SELECT 1''" 5 None False "[''spark'']"]
  show ?thesis by blast
qed

text \<open>The server iterates a stream until it ends.\<close>

fun drain :: "'x stack \<Rightarrow> nat \<Rightarrow> lines \<Rightarrow> 'x desk \<Rightarrow> ndjson list \<times> lines \<times> 'x desk" where
  "drain st 0 l w = ([], l, w)"
| "drain st (Suc fuel) l w =
    (case next_line st l w of
       (Inr (Some x), l', w') \<Rightarrow> (case drain st fuel l' w' of (xs, l'', w'') \<Rightarrow> (x # xs, l'', w''))
     | (_, l', w') \<Rightarrow> ([], l', w'))"

lemma drain_done: "l_pc l = AtDone \<Longrightarrow> drain st (Suc fuel) l w = ([], l\<lparr>l_pc := Finished\<rparr>, end_run w)"
  by (simp add: next_line_def bind_def modify_def ret_def)

lemma drain_legs:
  assumes st: "only_cancels st"
  shows "set es \<subseteq> fst ` set DIALECTS \<Longrightarrow> distinct (map fst (results w) @ es) \<Longrightarrow> l_pc l = AtLegs subject es \<Longrightarrow>
    run_sequentially st (l_sql l) (l_limit l) subject (l_reuse l) es w = (Inr (), u) \<Longrightarrow>
    \<exists>rs. results u = results w @ rs \<and>
      drain st (length es + 2) l w =
        (map (\<lambda>(e, r). Engine e r) rs @ [Done (cancel_requested u)], l\<lparr>l_pc := Finished\<rparr>, end_run u)"
proof (induction es arbitrary: w l)
  case Nil
  then have "u = w" by (simp add: ret_def)
  then show ?case using Nil drain_done by (simp add: numeral_2_eq_2 next_line_def bind_def gets_def ret_def modify_def)
next
  case (Cons e es)
  show ?case
  proof (cases "cancel_requested w")
    case True
    then have "u = w" using Cons.prems(4) by (simp add: bind_def gets_def ret_def)
    then show ?thesis
      using True Cons.prems(3) by (simp add: next_line_def bind_def gets_def ret_def modify_def)
  next
    case False
    obtain r v where r: "run_leg st (l_sql l) (l_limit l) subject (l_reuse l) e w = (Inr r, v)"
      using run_leg_total [of e] Cons.prems(1) unfolding total_def by (metis insert_subset list.simps(15))
    have v: "results v = results w @ [(e, r)]"
      using run_leg_results [OF st r] Cons.prems(2) alist_update_new by force
    have "run_sequentially st (l_sql l) (l_limit l) subject (l_reuse l) es v = (Inr (), u)"
      using Cons.prems(4) False r by (simp add: bind_def gets_def ret_def)
    then obtain rs where rs: "results u = results v @ rs" "drain st (length es + 2) (l\<lparr>l_pc := AtLegs subject es\<rparr>) v =
        (map (\<lambda>(e, r). Engine e r) rs @ [Done (cancel_requested u)], l\<lparr>l_pc := Finished\<rparr>, end_run u)"
      using Cons.IH [of v "l\<lparr>l_pc := AtLegs subject es\<rparr>"] Cons.prems v by auto
    have "next_line st l w = (Inr (Some (Engine e r)), l\<lparr>l_pc := AtLegs subject es\<rparr>, v)"
      using False r Cons.prems(3) by (simp add: next_line_def bind_def gets_def ret_def)
    then have "drain st (length (e # es) + 2) l w =
        (map (\<lambda>(e, r). Engine e r) ((e, r) # rs) @ [Done (cancel_requested u)], l\<lparr>l_pc := Finished\<rparr>, end_run u)"
      using rs(2) by simp
    then show ?thesis using rs(1) v by (metis append_Cons append_Nil append_assoc)
  qed
qed

lemma stream_opened:
  assumes "stream_benchmark st req w = (Inr l, v)"
  shows "\<exists>stmt es. validate (b_sql req) = Inr stmt \<and> requested_engines (b_engines req) True = Inr es \<and>
    begin_run st stmt es ''sequential'' (b_limit req) w = (Inr (), v) \<and> \<not> comparison_lock w \<and>
    l = \<lparr>l_sql = stmt, l_engines = es, l_limit = b_limit req, l_reuse = b_reuse_snapshot req, l_pc = Unstarted\<rparr>"
  using assms
  by (auto simp: stream_benchmark_def raise_def bind_def ret_def begin_run_def split: sum.splits prod.splits if_splits)

text \<open>
  C18. A stream that is read to its end reports the start, the baseline, one line per path in the
  order of the request, and the end; without a cancellation every path has its line. It leaves
  the lock free, and, when the request names its engines in the order of the dashboard, exactly
  the state the comparison in one piece leaves, with the same results.
\<close>

theorem stream_matches_benchmark:
  assumes st: "only_cancels st" and open_: "stream_benchmark st req w = (Inr l, v)"
  shows "\<exists>b rs c w'. drain st (length (l_engines l) + 4) l v =
      (Start (l_engines l) (l_sql l) # Baseline b # map (\<lambda>(e, r). Engine e r) rs @ [Done c], l\<lparr>l_pc := Finished\<rparr>, w') \<and>
    \<not> comparison_lock w' \<and> results w' = rs \<and> map fst rs = take (length rs) (l_engines l) \<and>
    (\<not> c \<longrightarrow> map fst rs = l_engines l) \<and>
    (b_mode req = ''sequential'' \<and> requested_engines (b_engines req) False = Inr (l_engines l) \<longrightarrow>
       w' = snd (run_benchmark st req w))"
proof -
  obtain stmt es where o: "validate (b_sql req) = Inr stmt" "requested_engines (b_engines req) True = Inr es"
      "begin_run st stmt es ''sequential'' (b_limit req) w = (Inr (), v)" "\<not> comparison_lock w"
      "l = \<lparr>l_sql = stmt, l_engines = es, l_limit = b_limit req, l_reuse = b_reuse_snapshot req, l_pc = Unstarted\<rparr>"
    using stream_opened [OF open_] by blast
  have v: "results v = []" using o(3,4) by (auto simp: begin_run_def)
  obtain subject w1 where s: "probe_subject st v = (Inr subject, w1)"
    using totalD [OF probe_subject_rules(2)] by blast
  obtain b w2 where b: "sample_baseline st subject w1 = (Inr b, w2)"
    using totalD [OF sample_baseline_rules(2) [OF st]] by blast
  have w2: "results w2 = []"
    using staysD [OF probe_subject_rules(1) [OF st] s] staysD [OF sample_baseline_rules(1) [OF st] b] v
    by (simp add: same_run_def)
  have es: "set es \<subseteq> fst ` set DIALECTS" "distinct (map fst (results w2) @ es)"
    using requested_engines_ok [OF o(2)] w2 by simp_all
  obtain u where u: "run_sequentially st stmt (b_limit req) subject (b_reuse_snapshot req) es w2 = (Inr (), u)"
      "answered_in_order w2 es u"
    using run_sequentially_answers [OF st es] by blast
  define l2 where "l2 = l\<lparr>l_pc := AtLegs subject es\<rparr>"
  obtain rs where rs: "results u = rs" "drain st (length es + 2) l2 w2 =
      (map (\<lambda>(e, r). Engine e r) rs @ [Done (cancel_requested u)], l2\<lparr>l_pc := Finished\<rparr>, end_run u)"
    using drain_legs [OF st es, of l2 subject u] u(1) w2 by (auto simp: l2_def o(5))
  have n1: "next_line st l v = (Inr (Some (Start es stmt)), l\<lparr>l_pc := AtStart\<rparr>, v)"
    by (simp add: next_line_def o(5) ret_def)
  have n2: "next_line st (l\<lparr>l_pc := AtStart\<rparr>) v = (Inr (Some (Baseline b)), l2, w2)"
    using s b by (simp add: next_line_def o(5) ret_def bind_def l2_def)
  have d: "drain st (length es + 4) l v =
      (Start es stmt # Baseline b # map (\<lambda>(e, r). Engine e r) rs @ [Done (cancel_requested u)], l\<lparr>l_pc := Finished\<rparr>, end_run u)"
    using n1 n2 rs(2) by (simp add: numeral_eq_Suc l2_def)
  have keys: "map fst rs = take (length rs) es" "\<not> cancel_requested u \<longrightarrow> map fst rs = es"
    using u(2) w2 rs(1) by (auto simp: answered_in_order_def le_less) (metis length_map length_take min.absorb4)
  have same: "end_run u = snd (run_benchmark st req w)"
    if "b_mode req = ''sequential''" "requested_engines (b_engines req) False = Inr es"
    using run_benchmark_started [OF o(1) that(2), of st w v] o(3) s b u(1) that(1)
    by (simp add: run_chosen_def bind_def gets_def ret_def)
  show ?thesis
    using d keys same rs(1) by (auto simp: o(5) end_run_def)
qed

theorem stream_matches_benchmark_witness:
  "\<exists>l v b rs c w'. stream_benchmark small_stack (small_request\<lparr>b_engines := None\<rparr>) idle_desk = (Inr l, v) \<and>
     drain small_stack 9 l v = (Start (l_engines l) (l_sql l) # Baseline b # map (\<lambda>(e, r). Engine e r) rs @ [Done c],
       l\<lparr>l_pc := Finished\<rparr>, w') \<and> w' = snd (run_benchmark small_stack (small_request\<lparr>b_engines := None\<rparr>) idle_desk)"
proof -
  have ok: "validate (b_sql (small_request\<lparr>b_engines := None\<rparr>)) = Inr ''SELECT n FROM events''" by code_simp
  have es: "requested_engines None k = Inr (map fst DIALECTS)" for k by (simp add: requested_engines_def)
  obtain v where "begin_run small_stack ''SELECT n FROM events'' (map fst DIALECTS) ''sequential'' 10 idle_desk = (Inr (), v)"
    by (simp add: begin_run_def idle_desk_def)
  then obtain l where l: "stream_benchmark small_stack (small_request\<lparr>b_engines := None\<rparr>) idle_desk = (Inr l, v)"
      "l_engines l = map fst DIALECTS"
    using ok es by (simp add: stream_benchmark_def bind_def ret_def small_request_def)
  have "length (l_engines l) + 4 = 9" by (simp add: l(2) DIALECTS_def)
  moreover have "b_mode (small_request\<lparr>b_engines := None\<rparr>) = ''sequential''"
      "requested_engines (b_engines (small_request\<lparr>b_engines := None\<rparr>)) False = Inr (l_engines l)"
    using es l(2) by (simp_all add: small_request_def)
  ultimately show ?thesis using stream_matches_benchmark [OF small_only_cancels l(1)] l(1) by metis
qed

section \<open>Any order of requests\<close>

datatype request = Compare benchmark_request | Open benchmark_request | Next nat | Close nat | Cancel

text \<open>The streams opened so far and the state; \<open>Next\<close> and \<open>Close\<close> name one of the streams.\<close>

fun handle :: "'x stack \<Rightarrow> request \<Rightarrow> lines list \<times> 'x desk \<Rightarrow> lines list \<times> 'x desk" where
  "handle st (Compare req) (ls, w) = (ls, snd (run_benchmark st req w))"
| "handle st (Open req) (ls, w) =
    (case stream_benchmark st req w of (Inl _, w') \<Rightarrow> (ls, w') | (Inr l, w') \<Rightarrow> (ls @ [l], w'))"
| "handle st (Next i) (ls, w) =
    (if i < length ls then case next_line st (ls ! i) w of (_, l, w') \<Rightarrow> (ls[i := l], w') else (ls, w))"
| "handle st (Close i) (ls, w) =
    (if i < length ls then case close_lines (ls ! i) w of (l, w') \<Rightarrow> (ls[i := l], w') else (ls, w))"
| "handle st Cancel (ls, w) = (ls, snd (cancel_comparison st w))"

definition live :: "lines \<Rightarrow> bool" where
  "live l \<longleftrightarrow> l_pc l \<noteq> Finished"

text \<open>At most one stream is live, and it holds the lock.\<close>

definition one_run :: "lines list \<times> 'x desk \<Rightarrow> bool" where
  "one_run = (\<lambda>(ls, w). (\<forall>i < length ls. \<forall>j < length ls. live (ls ! i) \<longrightarrow> live (ls ! j) \<longrightarrow> i = j) \<and>
     (\<forall>l \<in> set ls. live l \<longrightarrow> comparison_lock w))"

lemma next_leg_lock:
  assumes "only_cancels st"
  shows "stays same_lock (next_leg st stmt n subject reuse es)"
proof -
  note run = stays_same_runD [OF run_same_run [OF assms]]
  have "stays same_lock (run_leg st stmt n subject reuse e)" for e
    unfolding run_leg_def Let_def
    by (intro lock_rel.stays_if lock_rel.stays_bind lock_rel.stays_case_prod lock_rel.stays_ret with_probe_stays run set_result_lock)
  then show ?thesis by (cases es) (auto intro!: lock_rel.stays_rules)
qed

lemma lines_body_lock:
  assumes st: "only_cancels st" and "pc \<noteq> AtDone"
  shows "stays same_lock (lines_body st l pc)"
proof (cases pc)
  case (AtLegs subject es)
  then show ?thesis by (auto intro!: lock_rel.stays_rules next_leg_lock [OF st])
next
  case AtStart
  then show ?thesis
    using stays_same_runD [OF probe_subject_rules(1) [OF st]] stays_same_runD [OF sample_baseline_rules(1) [OF st]]
    by (auto intro!: lock_rel.stays_bind lock_rel.stays_ret)
qed (use assms(2) in \<open>auto intro: lock_rel.stays_ret\<close>)

lemma lines_body_live:
  "lines_body st l pc w = (Inr (x, pc'), w') \<Longrightarrow> pc \<notin> {AtDone, Finished} \<Longrightarrow> pc' \<noteq> Finished"
  by (cases pc) (auto simp: bind_def ret_def gets_def split: prod.splits sum.splits option.splits)

lemma next_line_lock:
  assumes st: "only_cancels st" and n: "next_line st l w = (x, l', w')"
  shows "if live l then (if live l' then comparison_lock w' = comparison_lock w else \<not> comparison_lock w')
    else w' = w \<and> \<not> live l'"
proof (cases "l_pc l \<in> {AtDone, Finished}")
  case True
  then show ?thesis using n by (auto simp: next_line_def bind_def modify_def ret_def live_def end_run_def)
next
  case False
  obtain r v where b: "lines_body st l (l_pc l) w = (r, v)" by (cases "lines_body st l (l_pc l) w")
  have "same_lock w v" using staysD [OF lines_body_lock [OF st] b] False by blast
  then show ?thesis
    using n False b lines_body_live [of st l "l_pc l" w _ _ v]
    by (cases r) (auto simp: next_line_def live_def end_run_def same_lock_def split: prod.splits)
qed

lemma stream_refused: "stream_benchmark st req w = (Inl e, w') \<Longrightarrow> w' = w"
  by (auto simp: stream_benchmark_def raise_def bind_def ret_def begin_run_def split: sum.splits prod.splits if_splits)

lemma one_run_update:
  assumes "one_run (ls, w)" and i: "i < length ls" and "live l' \<Longrightarrow> live (ls ! i) \<and> comparison_lock w'"
    and "\<not> live (ls ! i) \<Longrightarrow> comparison_lock w' = comparison_lock w"
  shows "one_run (ls[i := l'], w')"
proof -
  have uniq: "\<And>j k. j < length ls \<Longrightarrow> k < length ls \<Longrightarrow> live (ls ! j) \<Longrightarrow> live (ls ! k) \<Longrightarrow> j = k"
    and held: "\<And>l. l \<in> set ls \<Longrightarrow> live l \<Longrightarrow> comparison_lock w"
    using assms(1) by (auto simp: one_run_def)
  have live: "live (ls ! j)" if "j < length ls" "live (ls[i := l'] ! j)" for j
    using that assms(3) by (cases "j = i") auto
  have "comparison_lock w'" if "j < length ls" "live (ls[i := l'] ! j)" for j
  proof (cases "j = i")
    case False
    then have "\<not> live (ls ! i)" using uniq [of j i] live [OF that] that(1) i by blast
    then show ?thesis using assms(4) held [of "ls ! j"] live [OF that] that(1) by auto
  qed (use that assms(3) in auto)
  then show ?thesis using uniq live by (auto simp: one_run_def in_set_conv_nth)
qed

lemma handle_one_run:
  assumes st: "only_cancels st" and I: "one_run s"
  shows "one_run (handle st r s)"
proof -
  obtain ls w where s: "s = (ls, w)" by (cases s)
  have held: "comparison_lock w" if "l \<in> set ls" "live l" for l using I that by (auto simp: s one_run_def)
  have keep: "one_run (ls, w')" if "comparison_lock w \<Longrightarrow> comparison_lock w'" for w'
    using I that by (auto simp: s one_run_def)
  show ?thesis
  proof (cases r)
    case (Compare req)
    have "comparison_lock w \<Longrightarrow> snd (run_benchmark st req w) = w" using benchmark_refused [of w st req] by force
    then have "one_run (ls, snd (run_benchmark st req w))" by (intro keep) simp
    then show ?thesis by (simp add: s Compare)
  next
    case (Open req)
    show ?thesis
    proof (cases "stream_benchmark st req w")
      case (Pair x v)
      then show ?thesis
      proof (cases x)
        case (Inl e)
        then show ?thesis using I stream_refused Pair by (fastforce simp: s Open)
      next
        case (Inr l)
        then have "\<not> comparison_lock w" "comparison_lock v"
          using stream_opened [of st req w l v] Pair by (auto simp: begin_run_def)
        then have "\<forall>l \<in> set ls. \<not> live l" using held by blast
        then show ?thesis
          using Pair Inr \<open>comparison_lock v\<close> by (auto simp: s Open one_run_def nth_append dest: nth_mem)
      qed
    qed
  next
    case (Next i)
    obtain x l' w' where n: "next_line st (ls ! i) w = (x, l', w')" by (cases "next_line st (ls ! i) w")
    show ?thesis
    proof (cases "i < length ls")
      case True
      have "one_run (ls[i := l'], w')"
        using next_line_lock [OF st n] held [of "ls ! i"] True I
        by (intro one_run_update [of ls w]) (auto simp: s split: if_splits)
      then show ?thesis using True n by (simp add: s Next)
    qed (use I in \<open>simp add: s Next\<close>)
  next
    case (Close i)
    show ?thesis
    proof (cases "i < length ls")
      case True
      have "one_run (ls[i := fst (close_lines (ls ! i) w)], snd (close_lines (ls ! i) w))"
        using I True by (intro one_run_update [of ls w]) (auto simp: s close_lines_def live_def)
      then show ?thesis using True by (simp add: s Close close_lines_def)
    qed (use I in \<open>simp add: s Close\<close>)
  next
    case Cancel
    have "comparison_lock (snd (cancel_comparison st w)) = comparison_lock w"
      using cancel_comparison_run [OF st, of w] by (auto simp: same_run_def same_lock_def split: if_splits)
    then have "one_run (ls, snd (cancel_comparison st w))" by (intro keep) simp
    then show ?thesis by (simp add: s Cancel)
  qed
qed

text \<open>
  C17. Comparisons run one at a time: over any sequence of comparisons, streams opened, read and closed,
  and cancellations, at most one stream is unfinished, and while one is every other comparison
  is refused with 400 or 409 and changes nothing.
\<close>

theorem one_comparison_at_a_time:
  assumes "only_cancels st" and "fold (handle st) rs ([], w0) = (ls, w)" and "l \<in> set ls" and "l_pc l \<noteq> Finished"
  shows "(\<forall>l' \<in> set ls. l_pc l' \<noteq> Finished \<longrightarrow> l' = l) \<and> comparison_lock w \<and>
    (\<exists>c d. run_benchmark st req w = (Inl (HTTPException c d), w) \<and> c \<in> {400, 409})"
proof -
  have "one_run ([], w0)" by (simp add: one_run_def)
  then have "one_run (ls, w)"
    using step_system.run_inv [OF step_system.intro, of one_run "handle st"] handle_one_run [OF assms(1)] assms(2) by metis
  then have uniq: "\<And>i j. i < length ls \<Longrightarrow> j < length ls \<Longrightarrow> live (ls ! i) \<Longrightarrow> live (ls ! j) \<Longrightarrow> i = j"
    and "comparison_lock w" using assms(3,4) by (auto simp: one_run_def live_def)
  have "l' = l" if "l' \<in> set ls" "l_pc l' \<noteq> Finished" for l'
    using uniq that assms(3,4) unfolding live_def in_set_conv_nth by metis
  then show ?thesis using benchmark_refused \<open>comparison_lock w\<close> by blast
qed

theorem one_comparison_at_a_time_witness:
  "\<exists>l w. fold (handle small_stack) [Open small_request, Next 0, Open small_request] ([], idle_desk) = ([l], w) \<and>
     comparison_lock w \<and> (\<exists>c d. run_benchmark small_stack small_request w = (Inl (HTTPException c d), w) \<and> c \<in> {400, 409})"
proof -
  define s where "s = fold (handle small_stack) [Open small_request, Next 0, Open small_request] ([], idle_desk)"
  have "case s of ([l], w) \<Rightarrow> l_pc l = AtStart | _ \<Rightarrow> False" unfolding s_def by code_simp
  then obtain l w where s: "s = ([l], w)" "l_pc l = AtStart" by (auto split: prod.splits list.splits)
  from one_comparison_at_a_time [OF small_only_cancels, of "[Open small_request, Next 0, Open small_request]" idle_desk "[l]" w l small_request]
  show ?thesis using s unfolding s_def by simp
qed

lemma handle_wedged:
  assumes "only_cancels st" and "comparison_lock (snd s)" and "\<forall>l \<in> set (fst s). \<not> live l"
  shows "comparison_lock (snd (handle st r s)) \<and> (\<forall>l \<in> set (fst (handle st r s)). \<not> live l)"
proof -
  obtain ls w where s: "s = (ls, w)" by (cases s)
  have w: "comparison_lock w" and dead: "\<forall>l \<in> set ls. \<not> live l" using assms by (simp_all add: s)
  have upd: "\<forall>l \<in> set (ls[i := l']). \<not> live l" if "\<not> live l'" for i l'
    using dead that set_update_subset_insert by fastforce
  show ?thesis
  proof (cases r)
    case (Compare req)
    then show ?thesis using benchmark_refused [OF w, of st req] w dead by (auto simp: s)
  next
    case (Open req)
    have "fst (stream_benchmark st req w) \<noteq> Inr l" for l
      using stream_opened [of st req w l] w by (cases "stream_benchmark st req w") auto
    then obtain e where "stream_benchmark st req w = (Inl e, w)"
      using stream_refused by (metis prod.collapse old.sum.exhaust)
    then show ?thesis using w dead by (simp add: s Open)
  next
    case (Next i)
    obtain x l' w' where n: "next_line st (ls ! i) w = (x, l', w')" by (cases "next_line st (ls ! i) w")
    then show ?thesis
      using next_line_lock [OF assms(1) n] dead upd w by (cases "i < length ls") (auto simp: s Next split: if_splits)
  next
    case (Close i)
    then show ?thesis
      using dead upd [of "(ls ! i)\<lparr>l_pc := Finished\<rparr>" i] w
      by (cases "i < length ls") (auto simp: s close_lines_def live_def)
  next
    case Cancel
    then show ?thesis
      using cancel_comparison_run [OF assms(1), of w] dead w by (auto simp: s same_run_def same_lock_def split: if_splits)
  qed
qed

text \<open>
  C19. A stream closed before its first line was read keeps the lock: its body never ran, so neither
  did its \<open>finally\<close>, and from then on, whatever requests follow, the lock is held and every
  comparison is refused.
\<close>

theorem unread_stream_keeps_the_lock:
  assumes "only_cancels st" and "stream_benchmark st req w = (Inr l, v)" and "close_lines l v = (l', v')"
    and "fold (handle st) rs ([l'], v') = (ls, w')"
  shows "comparison_lock w' \<and> (\<exists>c d. run_benchmark st req' w' = (Inl (HTTPException c d), w') \<and> c \<in> {400, 409})"
proof -
  have "comparison_lock v" "l_pc l = Unstarted" using stream_opened [OF assms(2)] by (auto simp: begin_run_def)
  then have start: "comparison_lock v'" "\<not> live l'" using assms(3) by (auto simp: close_lines_def live_def)
  define stuck where "stuck = (\<lambda>s :: lines list \<times> 'a desk. comparison_lock (snd s) \<and> (\<forall>l \<in> set (fst s). \<not> live l))"
  have "step_system (handle st) stuck"
    using handle_wedged [OF assms(1)] by (intro step_system.intro) (auto simp: stuck_def)
  then have "stuck (fold (handle st) rs ([l'], v'))"
    by (rule step_system.run_inv) (simp add: stuck_def start)
  then have "comparison_lock w'" by (simp add: stuck_def assms(4))
  then show ?thesis using benchmark_refused by blast
qed

theorem unread_stream_keeps_the_lock_witness:
  "\<exists>l v l' v' ls w'. stream_benchmark small_stack small_request idle_desk = (Inr l, v) \<and> close_lines l v = (l', v') \<and>
     fold (handle small_stack) [Next 0, Cancel, Close 0] ([l'], v') = (ls, w') \<and> comparison_lock w'"
proof -
  have "case stream_benchmark small_stack small_request idle_desk of (Inr _, _) \<Rightarrow> True | _ \<Rightarrow> False" by code_simp
  then obtain l v where o: "stream_benchmark small_stack small_request idle_desk = (Inr l, v)"
    by (auto split: prod.splits sum.splits)
  obtain l' v' where c: "close_lines l v = (l', v')" by (cases "close_lines l v")
  obtain ls w' where f: "fold (handle small_stack) [Next 0, Cancel, Close 0] ([l'], v') = (ls, w')"
    by (cases "fold (handle small_stack) [Next 0, Cancel, Close 0] ([l'], v')")
  from unread_stream_keeps_the_lock [OF small_only_cancels o c f] show ?thesis using o c f by blast
qed

text \<open>
  Property. A question in words reaches Presto only as an accepted statement: whatever the language model
  replies, the rows of an answer come from a statement the console accepts, in Presto's dialect and
  limited to 100 rows.
\<close>

theorem questions_run_accepted_statements:
  assumes "nl_query st prompt w = (Inr a, w')" and "nl_result a = Some r"
  shows "\<exists>sql stmt. validate sql = Inr stmt \<and>
    (r_sql r = Some (sql_for_presto stmt 100) \<or> r_sql r = None \<and> r_rows r = [])"
proof -
  obtain sql stmt r' v where q: "validate sql = Inr stmt" "run st NL_ENGINE stmt 100 False v = (Inr r', w')"
      "\<not> truthy (r_error r')" "r = sql_query_result.truncate r'"
    using assms by (auto simp: nl_query_def Let_def raise_def bind_def ret_def nl_response_default_def
        split: if_splits prod.splits sum.splits)
  have presto: "map_of DIALECTS NL_ENGINE = Some sql_for_presto" by (simp add: DIALECTS_def NL_ENGINE_def)
  have "r_sql r' = Some (sql_for_presto stmt 100) \<or> r_sql r' = None \<and> r_rows r' = []"
    using run_result [OF q(2)] q(3) presto by (auto simp: result_ok_def truthy_def)
  then show ?thesis using q by (auto simp: sql_query_result.defs)
qed

theorem questions_run_accepted_statements_witness:
  "\<exists>a w' r sql stmt. nl_query small_stack ''which drones are flying?'' idle_desk = (Inr a, w') \<and> nl_result a = Some r \<and>
     validate sql = Inr stmt \<and> (r_sql r = Some (sql_for_presto stmt 100) \<or> r_sql r = None \<and> r_rows r = [])"
proof -
  have "case nl_query small_stack ''which drones are flying?'' idle_desk of (Inr a, _) \<Rightarrow> nl_result a \<noteq> None | _ \<Rightarrow> False"
    by code_simp
  then obtain a w' r where a: "nl_query small_stack ''which drones are flying?'' idle_desk = (Inr a, w')" "nl_result a = Some r"
    by (auto split: prod.splits sum.splits)
  from questions_run_accepted_statements [OF this] show ?thesis using a by blast
qed

end
