(* ===== verification/Platform.thy ===== *)
theory Platform
  imports Cqlite Spark Comparison "HOL-Library.Multiset"
begin

text \<open>
  The Presto client (\<open>src/backend/app/db/presto_client.py\<close>) and the operator's routes
  (\<open>src/backend/app/routes/health.py\<close>): reachability and its cached score, the work in flight, stopping it,
  and rebuilding the connections of the five paths.

  The driver and the coordinator are the record \<open>presto_api\<close> of parameters over a state \<open>'x\<close>; a probe's
  outcomes are a function of how many were made. The clients of the paths are those of
  \<open>Fleet\<close>, \<open>Spark\<close>, \<open>Cqlite\<close> and this theory, together the record \<open>dash\<close>, in which \<open>d_busy\<close> says whose lock
  another request holds. What the response classes make of a value of another type is left out: numbers and
  identifiers a server sent stay JSON. The dash in the reader's endpoint is written \<open>-\<close>.
\<close>

section \<open>The Presto client\<close>

definition SETTLED_STATES :: "string list" where
  "SETTLED_STATES = [''FINISHED'', ''FAILED'', ''CANCELED'']"

record 'x presto_api =
  dbapi_connect :: "'x \<Rightarrow> (exn + nat) \<times> 'x"
  new_cursor :: "nat \<Rightarrow> 'x \<Rightarrow> (exn + nat) \<times> 'x"
  run_cursor :: "nat \<Rightarrow> string \<Rightarrow> 'x \<Rightarrow> (exn + (string list \<times> cval list list)) \<times> 'x"
  close_cursor :: "nat \<Rightarrow> 'x \<Rightarrow> 'x"
  presto_get :: "string \<Rightarrow> 'x \<Rightarrow> exn + json"
  presto_delete :: "string \<Rightarrow> 'x \<Rightarrow> (exn + int) \<times> 'x"
  presto_iso_time :: "string \<Rightarrow> moment option"
  presto_utc_now :: "'x \<Rightarrow> instant"
  presto_base :: string

record 'x presto =
  p_conn :: "nat option"
  p_connected :: bool
  coordinator :: 'x

type_synonym ('x, 'a) pr = "('x presto, 'a) pm"

definition asks :: "('x \<Rightarrow> (exn + 'a) \<times> 'x) \<Rightarrow> ('x, 'a) pr" where
  "asks f = (\<lambda>s. case f (coordinator s) of (r, x) \<Rightarrow> (r, s\<lparr>coordinator := x\<rparr>))"

definition drop_presto :: "('x, unit) pr" where
  "drop_presto = modify (\<lambda>s. s\<lparr>p_conn := None, p_connected := False\<rparr>)"

definition presto_connect :: "'x presto_api \<Rightarrow> ('x, unit) pr" where
  "presto_connect P =
    try_except
      (bind (asks (dbapi_connect P)) (\<lambda>c. bind (asks (new_cursor P c)) (\<lambda>cur. bind (asks (run_cursor P cur ''SELECT 1'')) (\<lambda>_.
       bind (asks (\<lambda>x. (Inr (), close_cursor P cur x))) (\<lambda>_. modify (\<lambda>s. s\<lparr>p_conn := Some c, p_connected := True\<rparr>))))))
      (\<lambda>_. drop_presto)"

definition presto_execute_query :: "'x presto_api \<Rightarrow> string \<Rightarrow> ('x, row list) pr" where
  "presto_execute_query P sql =
    bind (gets p_conn) (\<lambda>c. case c of
      None \<Rightarrow> raise (Exn ''Presto not connected'')
    | Some c \<Rightarrow>
        bind (asks (new_cursor P c)) (\<lambda>cur.
        try_finally
          (try_except (bind (asks (run_cursor P cur sql)) (\<lambda>(columns, rows). ret (map (dict_zip columns) rows)))
            (\<lambda>e. bind drop_presto (\<lambda>_. raise e)))
          (\<lambda>s. s\<lparr>coordinator := close_cursor P cur (coordinator s)\<rparr>)))"

record presto_query =
  q_id :: json
  q_state :: string
  q_text :: string
  q_running_s :: real
  q_user :: json
  q_source :: json

fun lower_of :: "json \<Rightarrow> exn + string" where
  "lower_of (JStr s) = Inr (lower s)"
| "lower_of _ = Inl (Exn ''object has no attribute lower'')"

definition settled :: "json \<Rightarrow> bool" where
  "settled v \<longleftrightarrow> (case v of JStr s \<Rightarrow> s \<in> set SETTLED_STATES | _ \<Rightarrow> False)"

definition presto_elapsed :: "'x presto_api \<Rightarrow> 'x \<Rightarrow> json \<Rightarrow> exn + real" where
  "presto_elapsed P x created =
    (if \<not> Json.truthy created then Inr 0
     else case created of
       JStr t \<Rightarrow> (case presto_iso_time P (replace_sub ''Z'' ''+00:00'' t) of
           None \<Rightarrow> Inr 0
         | Some Naive \<Rightarrow> Inl (Exn ''cannot subtract offset-naive and offset-aware datetimes'')
         | Some (Aware m) \<Rightarrow> Inr (elapsed_since (presto_utc_now P x) m))
     | _ \<Rightarrow> Inl (Exn ''object has no attribute replace''))"

text \<open>One query of the coordinator's list: nothing for a settled one.\<close>

definition presto_query_of :: "'x presto_api \<Rightarrow> 'x \<Rightarrow> json \<Rightarrow> ('v, presto_query option) pm" where
  "presto_query_of P x query =
    bind (lift_exn (get_or query ''state'' JNull)) (\<lambda>state. if settled state then ret None
    else bind (lift_exn (get_or query ''queryStats'' JNull)) (\<lambda>stats.
      bind (lift_exn (get_or (or_else stats (JObj [])) ''createTime'' JNull)) (\<lambda>created.
      bind (lift_exn (presto_elapsed P x created)) (\<lambda>elapsed.
      bind (lift_exn (get_or query ''session'' JNull)) (\<lambda>sess.
      bind (lift_exn (get_or query ''queryId'' (JStr []))) (\<lambda>i.
      bind (lift_exn (lower_of (or_else state (JStr [])))) (\<lambda>st.
      bind (lift_exn (get_or query ''query'' JNull)) (\<lambda>q. bind (lift_exn (text_of (or_else q (JStr [])))) (\<lambda>text.
      bind (lift_exn (get_or (or_else sess (JObj [])) ''user'' JNull)) (\<lambda>u.
      bind (lift_exn (get_or (or_else sess (JObj [])) ''source'' JNull)) (\<lambda>src.
        ret (Some \<lparr>q_id = i, q_state = st, q_text = label text, q_running_s = py_round 1 elapsed,
          q_user = or_else u (JStr []), q_source = or_else src (JStr [])\<rparr>))))))))))))"

definition presto_running_queries :: "'x presto_api \<Rightarrow> ('x, presto_query list) pr" where
  "presto_running_queries P =
    bind (gets coordinator) (\<lambda>x. bind (lift_exn (presto_get P (presto_base P @ ''/v1/query'') x)) (\<lambda>body.
    bind (lift_exn (iterate_json body)) (\<lambda>qs. bind (map_pm (presto_query_of P x) qs) (\<lambda>found.
      ret (sort_key (\<lambda>q. - q_running_s q) (List.map_filter id found))))))"

definition presto_kill_query :: "'x presto_api \<Rightarrow> string \<Rightarrow> ('x, unit) pr" where
  "presto_kill_query P i =
    bind (asks (presto_delete P (presto_base P @ ''/v1/query/'' @ i))) (\<lambda>code.
    if 400 \<le> code then raise (Exn (''Presto refused to cancel '' @ i @ '' (HTTP '' @ int_str code @ '')'')) else ret ())"

section \<open>Reachability\<close>

datatype probe_outcome = Accepted | Os_Error | Other_Error

definition probe_status :: "probe_outcome \<Rightarrow> string" where
  "probe_status p = (case p of Accepted \<Rightarrow> ''up'' | Os_Error \<Rightarrow> ''down'' | Other_Error \<Rightarrow> ''unknown'')"

definition SCORE_CACHE_TTL_S :: real where
  "SCORE_CACHE_TTL_S = 10"

record service_health =
  s_name :: string
  s_status :: string
  s_endpoint :: string

text \<open>The names and addresses of the services, as the settings have them.\<close>

definition SERVICE_NAMES :: "string list" where
  "SERVICE_NAMES = [''Cassandra'', ''Kafka'', ''Presto'', ''Spark'', ''cassandra-sql'']"

definition service_targets :: "(string \<times> nat) list \<Rightarrow> (string \<times> string \<times> nat) list" where
  "service_targets addresses = zip SERVICE_NAMES addresses"

record 'x platform =
  p_reader :: "'x cqlite"
  cached_score :: "(real \<times> real) option"
  probe_outcomes :: "nat \<Rightarrow> probe_outcome"
  probes :: nat
  p_clock :: "nat \<Rightarrow> real"
  p_reads :: nat

record 'x health_env =
  h_reader :: "'x reader"
  h_data_dir :: string
  h_keyspace :: string
  h_addresses :: "(string \<times> nat) list"
  h_container_cli :: string

type_synonym ('x, 'a) pl = "('x platform, 'a) pm"

definition on_reader :: "('x, 'a) cq \<Rightarrow> ('x, 'a) pl" where
  "on_reader m = (\<lambda>s. case m (p_reader s) of (r, q) \<Rightarrow> (r, s\<lparr>p_reader := q\<rparr>))"

definition platform_monotonic :: "('x, real) pl" where
  "platform_monotonic = (\<lambda>s. (Inr (p_clock s (p_reads s)), s\<lparr>p_reads := Suc (p_reads s)\<rparr>))"

definition probe :: "string \<times> string \<times> nat \<Rightarrow> ('x, service_health) pl" where
  "probe target = (case target of (name, host, port) \<Rightarrow>
    (\<lambda>s. (Inr \<lparr>s_name = name, s_status = probe_status (probe_outcomes s (probes s)), s_endpoint = host @ '':'' @ nat_str port\<rparr>,
      s\<lparr>probes := Suc (probes s)\<rparr>)))"

definition cqlite_reader_health :: "'x health_env \<Rightarrow> ('x, service_health) pl" where
  "cqlite_reader_health E =
    bind (on_reader (ensure_registered (h_reader E) (h_data_dir E) (h_keyspace E))) (\<lambda>_.
    bind (on_reader (files_now (h_reader E))) (\<lambda>(tabs, files, _).
      ret \<lparr>s_name = ''cqlite reader'', s_status = (if files \<noteq> 0 then ''up'' else ''down''),
        s_endpoint = h_data_dir E @ '' - '' @ nat_str tabs @ '' table(s), '' @ int_str files @ '' SSTable(s)''\<rparr>))"

definition probe_services :: "'x health_env \<Rightarrow> ('x, service_health list) pl" where
  "probe_services E =
    bind (map_pm probe (service_targets (h_addresses E))) (\<lambda>ss. bind (cqlite_reader_health E) (\<lambda>r. ret (ss @ [r])))"

definition up :: "service_health \<Rightarrow> bool" where
  "up s \<longleftrightarrow> s_status s = ''up''"

definition score_of_services :: "service_health list \<Rightarrow> real" where
  "score_of_services ss = (if ss = [] then 0 else py_round 3 (real (length (filter up ss)) / real (length ss)))"

definition keep_score :: "real \<Rightarrow> ('x, unit) pl" where
  "keep_score v = bind platform_monotonic (\<lambda>t. modify (\<lambda>s. s\<lparr>cached_score := Some (t + SCORE_CACHE_TTL_S, v)\<rparr>))"

definition platform_health_score :: "'x health_env \<Rightarrow> ('x, real) pl" where
  "platform_health_score E =
    bind (gets cached_score) (\<lambda>c.
    bind (case c of None \<Rightarrow> ret None
      | Some (until, v) \<Rightarrow> bind platform_monotonic (\<lambda>t. ret (if t < until then Some v else None))) (\<lambda>held. case held of
      Some v \<Rightarrow> ret v
    | None \<Rightarrow> bind (probe_services E) (\<lambda>ss. let v = score_of_services ss in bind (keep_score v) (\<lambda>_. ret v))))"

record health_response =
  hr_services :: "service_health list"
  hr_total_drones :: int
  hr_score :: real
  hr_container_cli :: string

definition get_platform_health :: "'x health_env \<Rightarrow> ('x, health_response) pl" where
  "get_platform_health E =
    bind (probe_services E) (\<lambda>ss. let v = score_of_services ss in bind (keep_score v) (\<lambda>_.
    bind (gets (\<lambda>s. is_connected (cass (p_reader s)))) (\<lambda>connected_now.
    bind (if connected_now then try_except (on_reader (on_cass get_drone_count)) (\<lambda>_. ret 0) else ret 0) (\<lambda>n.
      ret \<lparr>hr_services = ss, hr_total_drones = n, hr_score = v, hr_container_cli = h_container_cli E\<rparr>))))"

section \<open>Work in flight\<close>

record running_query =
  rq_engine :: string
  rq_id :: json
  rq_state :: string
  rq_running_s :: real
  rq_sql :: string
  rq_submitter :: json
  rq_tasks_done :: json
  rq_tasks_total :: json

record running_work =
  rw_comparison :: "comparison_run option"
  rw_queries :: "running_query list"
  rw_unreadable :: "(string \<times> string) list"

definition of_presto :: "presto_query \<Rightarrow> running_query" where
  "of_presto q = \<lparr>rq_engine = ''presto'', rq_id = q_id q, rq_state = q_state q, rq_running_s = q_running_s q, rq_sql = q_text q,
     rq_submitter = or_else (q_source q) (q_user q), rq_tasks_done = JInt 0, rq_tasks_total = JInt 0\<rparr>"

definition of_spark :: "spark_job \<Rightarrow> running_query" where
  "of_spark j = \<lparr>rq_engine = ''spark'', rq_id = JStr (j_id j), rq_state = j_state j, rq_running_s = j_running_s j, rq_sql = j_sql j,
     rq_submitter = JStr [], rq_tasks_done = j_tasks_done j, rq_tasks_total = j_tasks_total j\<rparr>"

text \<open>What the route makes of the two listings, of the comparison and of the reader's flag.\<close>

definition running_work_of :: "comparison_run option \<Rightarrow> exn + presto_query list \<Rightarrow> exn + spark_job list \<Rightarrow> bool \<Rightarrow> running_work" where
  "running_work_of c p j scanning_now =
    \<lparr>rw_comparison = c,
     rw_queries = (case p of Inl _ \<Rightarrow> [] | Inr qs \<Rightarrow> map of_presto qs) @ (case j of Inl _ \<Rightarrow> [] | Inr js \<Rightarrow> map of_spark js),
     rw_unreadable = (case p of Inl e \<Rightarrow> [(''presto'', exn_str e)] | Inr _ \<Rightarrow> []) @ (case j of Inl e \<Rightarrow> [(''spark'', exn_str e)] | Inr _ \<Rightarrow> []) @
       [(''cassandra'', ''Cassandra keeps no list of running queries to read''),
        (''cqlite'', if scanning_now then ''a scan is running; stop it with the comparison'' else ''no scan is running'')]\<rparr>"

definition get_running_work ::
  "'w stack \<Rightarrow> 'w desk \<Rightarrow> 'x presto_api \<Rightarrow> 'x presto \<Rightarrow> 'y hive \<Rightarrow> spark_settings \<Rightarrow> 'y \<Rightarrow> 'z cqlite \<Rightarrow> running_work" where
  "get_running_work st w P p H S y q =
    running_work_of (running_comparison st w) (fst (presto_running_queries P p)) (running_jobs H S y) (Cqlite.in_flight q)"

record operation_result =
  ok :: bool
  actions :: "string list"

definition post_cancel_comparison :: "'w stack \<Rightarrow> ('w desk, operation_result) pm" where
  "post_cancel_comparison st = bind (cancel_comparison st) (\<lambda>done_list.
     ret (if done_list = [] then \<lparr>ok = False, actions = [''no comparison was running'']\<rparr> else \<lparr>ok = True, actions = done_list\<rparr>))"

section \<open>The clients of the five paths\<close>

record ('a, 'b, 'c, 'd) dash =
  d_presto :: "'a presto"
  d_spark :: "'b thrift"
  d_bulk :: "'c bulk"
  d_cqlite :: "'d cqlite"
  d_busy :: "string \<Rightarrow> bool"

record ('a, 'b, 'c, 'd) engines =
  e_presto :: "'a presto_api"
  e_spark :: "'b hive"
  e_bulk :: "'c hive"
  e_spark_settings :: spark_settings
  e_health :: "'d health_env"

definition on_presto :: "('a, 'r) pr \<Rightarrow> (('a, 'b, 'c, 'd) dash, 'r) pm" where
  "on_presto m = (\<lambda>s. case m (d_presto s) of (r, p) \<Rightarrow> (r, s\<lparr>d_presto := p\<rparr>))"

definition on_spark :: "('b, 'r) tm \<Rightarrow> (('a, 'b, 'c, 'd) dash, 'r) pm" where
  "on_spark m = (\<lambda>s. case m (d_spark s) of (r, p) \<Rightarrow> (r, s\<lparr>d_spark := p\<rparr>))"

definition on_bulk :: "('c, 'r) bm \<Rightarrow> (('a, 'b, 'c, 'd) dash, 'r) pm" where
  "on_bulk m = (\<lambda>s. case m (d_bulk s) of (r, p) \<Rightarrow> (r, s\<lparr>d_bulk := p\<rparr>))"

definition on_cqlite :: "('d, 'r) cq \<Rightarrow> (('a, 'b, 'c, 'd) dash, 'r) pm" where
  "on_cqlite m = (\<lambda>s. case m (d_cqlite s) of (r, p) \<Rightarrow> (r, s\<lparr>d_cqlite := p\<rparr>))"

text \<open>\<open>getattr(client, "busy", False)\<close>, the rebuilding of a connection, and \<open>connected\<close>.\<close>

definition client_busy :: "string \<Rightarrow> ('a, 'b, 'c, 'd) dash \<Rightarrow> bool" where
  "client_busy name s \<longleftrightarrow>
    (if name = ''cassandra'' then False else if name = ''cqlite'' then Cqlite.in_flight (d_cqlite s) else d_busy s name)"

definition client_rebuild :: "('a, 'b, 'c, 'd) engines \<Rightarrow> string \<Rightarrow> (('a, 'b, 'c, 'd) dash, unit) pm" where
  "client_rebuild E name =
    (if name = ''cassandra'' then on_cqlite (on_cass (Fleet.connect True))
     else if name = ''presto'' then on_presto (presto_connect (e_presto E))
     else if name = ''spark'' then on_spark (spark_connect (e_spark E) (e_spark_settings E))
     else if name = ''spark_bulk'' then on_bulk (on_thrift (spark_connect (e_bulk E) (e_spark_settings E)))
     else on_cqlite (cqlite_connect (h_reader (e_health E)) (h_data_dir (e_health E)) (h_keyspace (e_health E))))"

definition client_up :: "string \<Rightarrow> ('a, 'b, 'c, 'd) dash \<Rightarrow> bool" where
  "client_up name s \<longleftrightarrow>
    (if name = ''cassandra'' then is_connected (cass (d_cqlite s))
     else if name = ''presto'' then p_connected (d_presto s)
     else if name = ''spark'' then t_connected (d_spark s)
     else if name = ''spark_bulk'' then t_connected (thrift_client (d_bulk s))
     else Cqlite.connected (d_cqlite s))"

fun reconnect_loop :: "('a, 'b, 'c, 'd) engines \<Rightarrow> string list \<Rightarrow> string list \<Rightarrow> nat \<Rightarrow> (('a, 'b, 'c, 'd) dash, string list \<times> nat) pm" where
  "reconnect_loop E [] acts n = ret (acts, n)"
| "reconnect_loop E (name # names) acts n =
    bind (gets (client_busy name)) (\<lambda>busy.
    if busy then reconnect_loop E names (acts @ [name @ '': busy with a query, so stop that first'']) n
    else bind (attempt (client_rebuild E name)) (\<lambda>r. case r of
      Inl e \<Rightarrow> reconnect_loop E names (acts @ [name @ '': '' @ exn_str e]) n
    | Inr _ \<Rightarrow> bind (gets (client_up name)) (\<lambda>there.
        if there then reconnect_loop E names (acts @ [name @ '': reconnected'']) (Suc n)
        else reconnect_loop E names (acts @ [name @ '': still unreachable'']) n)))"

definition reconnect_targets :: "string \<Rightarrow> string list" where
  "reconnect_targets target = (if target = ''all'' then map fst DIALECTS else [target])"

definition reconnect :: "('a, 'b, 'c, 'd) engines \<Rightarrow> string \<Rightarrow> (('a, 'b, 'c, 'd) dash, operation_result) pm" where
  "reconnect E target =
    bind (reconnect_loop E (reconnect_targets target) [] 0) (\<lambda>(acts, n).
      ret \<lparr>ok = (n = length (reconnect_targets target)), actions = acts\<rparr>)"

text \<open>\<open>POST /running/kill\<close>: one of the two engines that can stop a query by its handle.\<close>

definition kill_spark_job :: "('a, 'b, 'c, 'd) engines \<Rightarrow> string \<Rightarrow> (('a, 'b, 'c, 'd) dash, unit) pm" where
  "kill_spark_job E i = on_spark (beyond_call (kill_job (e_spark E) (e_spark_settings E) i))"

definition post_kill_query :: "('a, 'b, 'c, 'd) engines \<Rightarrow> string \<Rightarrow> string \<Rightarrow> (('a, 'b, 'c, 'd) dash, operation_result) pm" where
  "post_kill_query E engine i =
    try_except
      (if engine = ''presto''
       then bind (on_presto (presto_kill_query (e_presto E) i)) (\<lambda>_. ret \<lparr>ok = True, actions = [''asked Presto to cancel '' @ i]\<rparr>)
       else bind (kill_spark_job E i) (\<lambda>_. ret \<lparr>ok = True, actions = [''asked Spark to kill job '' @ i]\<rparr>))
      (\<lambda>e. raise (HTTPException 502 (exn_str e)))"

section \<open>Lemmas\<close>

subsection \<open>The Presto client\<close>

definition presto_ok :: "'x presto \<Rightarrow> bool" where
  "presto_ok s \<longleftrightarrow> (p_connected s \<longleftrightarrow> p_conn s \<noteq> None)"

lemma presto_ok_asks: "preserves presto_ok (asks f)"
  by (auto simp: preserves_def asks_def presto_ok_def split: prod.splits)

lemma presto_ok_connect: "preserves presto_ok (presto_connect P)"
  unfolding presto_connect_def drop_presto_def by (intro preserves_intros presto_ok_asks) (simp_all add: presto_ok_def)

lemma presto_ok_execute: "preserves presto_ok (presto_execute_query P sql)"
  unfolding presto_execute_query_def drop_presto_def by (intro preserves_intros presto_ok_asks) (simp_all add: presto_ok_def)

datatype 'x presto_call = Presto_Connect | Presto_Query string | Presto_Kill string | Presto_Elsewhere "'x \<Rightarrow> 'x"

fun presto_step :: "'x presto_api \<Rightarrow> 'x presto_call \<Rightarrow> 'x presto \<Rightarrow> 'x presto" where
  "presto_step P Presto_Connect s = snd (presto_connect P s)"
| "presto_step P (Presto_Query q) s = snd (presto_execute_query P q s)"
| "presto_step P (Presto_Kill i) s = snd (presto_kill_query P i s)"
| "presto_step P (Presto_Elsewhere f) s = s\<lparr>coordinator := f (coordinator s)\<rparr>"

lemma presto_step_ok: assumes "presto_ok s" shows "presto_ok (presto_step P c s)"
proof (cases c)
  case Presto_Connect
  then show ?thesis using preservesD [OF presto_ok_connect assms] by simp
next
  case (Presto_Query q)
  then show ?thesis using preservesD [OF presto_ok_execute assms] by simp
next
  case (Presto_Kill i)
  have "preserves presto_ok (presto_kill_query P i)"
    unfolding presto_kill_query_def by (intro preserves_intros presto_ok_asks)
  from preservesD [OF this assms] show ?thesis using Presto_Kill by simp
qed (use assms in \<open>simp add: presto_ok_def\<close>)

interpretation presto_client: step_system "presto_step P" presto_ok for P
  by unfold_locales (rule presto_step_ok)

subsection \<open>The list of queries\<close>

lemma lift_exn_run: "lift_exn r s = (case r of Inl e \<Rightarrow> (Inl e, s) | Inr a \<Rightarrow> (Inr a, s))"
  by (simp add: lift_exn_def raise_def ret_def split: sum.split)

lemma presto_query_of_result:
  assumes "presto_query_of P x q s = (Inr r, s')"
  shows "s' = s" and "(r = None) = (\<exists>v. get_or q ''state'' JNull = Inr v \<and> settled v)"
    and "r = Some j \<Longrightarrow> get_or q ''queryId'' (JStr []) = Inr (q_id j) \<and> 0 \<le> q_running_s j"
proof -
  have pos: "presto_elapsed P x v = Inr e \<Longrightarrow> 0 \<le> e" for v e
    by (auto simp: presto_elapsed_def elapsed_since_def split: if_splits json.splits option.splits moment.splits)
  have rnd: "0 \<le> e \<Longrightarrow> 0 \<le> py_round n e" for e n
    using py_round_mono [of 0 e n] by (simp add: py_round_def round_half_even_def)
  show "s' = s" "(r = None) = (\<exists>v. get_or q ''state'' JNull = Inr v \<and> settled v)"
    "r = Some j \<Longrightarrow> get_or q ''queryId'' (JStr []) = Inr (q_id j) \<and> 0 \<le> q_running_s j"
    using assms unfolding presto_query_of_def
    by (auto simp: bind_def lift_exn_run ret_def split: sum.splits if_splits intro!: rnd [OF pos])
qed

lemma presto_queries_listed:
  "map_pm (presto_query_of P x) qs s = (Inr rs, s') \<Longrightarrow> s' = s \<and>
    map (\<lambda>j. Inr (q_id j)) (List.map_filter id rs) =
      map (\<lambda>q. get_or q ''queryId'' (JStr [])) (filter (\<lambda>q. \<not> (\<exists>v. get_or q ''state'' JNull = Inr v \<and> settled v)) qs) \<and>
    (\<forall>j \<in> set (List.map_filter id rs). 0 \<le> q_running_s j)"
proof (induction qs arbitrary: rs s)
  case (Cons q qs)
  obtain r t rs' where q: "presto_query_of P x q s = (Inr r, t)" and m: "map_pm (presto_query_of P x) qs t = (Inr rs', s')" and rs: "rs = r # rs'"
    using Cons.prems by (auto simp: bind_def ret_def split: prod.splits sum.splits)
  note p = presto_query_of_result [OF q]
  show ?case
  proof (cases r)
    case None
    then show ?thesis using Cons.IH [OF m] p rs by (simp add: List.map_filter_def)
  next
    case (Some j)
    then show ?thesis using Cons.IH [OF m] p(1,2) p(3) [OF Some] rs by (simp add: List.map_filter_def)
  qed
qed (simp add: ret_def List.map_filter_def)

definition unsettled :: "json \<Rightarrow> bool" where
  "unsettled q \<longleftrightarrow> (case get_or q ''state'' JNull of Inr v \<Rightarrow> \<not> settled v | Inl _ \<Rightarrow> True)"

text \<open>
  Property. The list of Presto's work in flight is the coordinator's, less what has settled: each unfinished
  query is listed once, by its own handle, none is invented, no running time is negative, and the longest
  running comes first; reading it changes nothing.
\<close>

theorem presto_lists_the_unfinished:
  assumes "presto_running_queries P s = (Inr qs, s')"
  shows "s' = s \<and> (\<exists>body items. presto_get P (presto_base P @ ''/v1/query'') (coordinator s) = Inr body \<and> iterate_json body = Inr items \<and>
      mset (map (\<lambda>q. Inr (q_id q)) qs) = mset (map (\<lambda>q. get_or q ''queryId'' (JStr [])) (filter unsettled items)) \<and>
      sorted_wrt (\<lambda>p q. q_running_s q \<le> q_running_s p) qs \<and> (\<forall>q \<in> set qs. 0 \<le> q_running_s q))"
proof -
  obtain body items rs where g: "presto_get P (presto_base P @ ''/v1/query'') (coordinator s) = Inr body"
    and i: "iterate_json body = Inr items" and m: "map_pm (presto_query_of P (coordinator s)) items s = (Inr rs, s')"
    and qs: "qs = sort_key (\<lambda>q. - q_running_s q) (List.map_filter id rs)"
    using assms unfolding presto_running_queries_def
    by (auto simp: bind_def gets_def lift_exn_run ret_def split: sum.splits prod.splits)
  note l = presto_queries_listed [OF m]
  have "sorted (map (\<lambda>q. - q_running_s q) qs)" unfolding qs by (rule sorted_sort_key)
  then have "sorted_wrt (\<lambda>p q. q_running_s q \<le> q_running_s p) qs" by (simp add: sorted_map)
  moreover have "mset (map (\<lambda>q. Inr (q_id q)) qs) = (mset (map (\<lambda>q. get_or q ''queryId'' (JStr [])) (filter unsettled items)) :: (exn + json) multiset)"
  proof -
    have u: "(\<lambda>q. \<not> (\<exists>v. get_or q ''state'' JNull = Inr v \<and> settled v)) = unsettled"
      by (auto simp: unsettled_def fun_eq_iff split: sum.split)
    have "mset (map (\<lambda>q. Inr (q_id q)) qs) = (mset (map (\<lambda>q. Inr (q_id q)) (List.map_filter id rs)) :: (exn + json) multiset)"
      unfolding qs by simp
    also have "map (\<lambda>q. Inr (q_id q)) (List.map_filter id rs) = (map (\<lambda>q. get_or q ''queryId'' (JStr [])) (filter unsettled items) :: (exn + json) list)"
      using l unfolding u by simp
    finally show ?thesis .
  qed
  moreover have "\<forall>q \<in> set qs. 0 \<le> q_running_s q" using l unfolding qs by simp
  ultimately show ?thesis using g i conjunct1 [OF l] by blast
qed

definition demo_presto :: "json \<Rightarrow> unit presto_api" where
  "demo_presto body = \<lparr>dbapi_connect = Pair (Inr 0), new_cursor = (\<lambda>c. Pair (Inr 0)), run_cursor = (\<lambda>c q. Pair (Inr ([], []))),
     close_cursor = (\<lambda>c x. x), presto_get = (\<lambda>u x. Inr body), presto_delete = (\<lambda>u. Pair (Inr 204)),
     presto_iso_time = (\<lambda>t. None), presto_utc_now = (\<lambda>x. 0), presto_base = ''http://presto:8080''\<rparr>"

definition fresh_presto :: "unit presto" where
  "fresh_presto = \<lparr>p_conn = None, p_connected = False, coordinator = ()\<rparr>"

definition demo_queries :: json where
  "demo_queries = JArr [JObj [(''queryId'', JStr ''a''), (''state'', JStr ''FINISHED'')],
     JObj [(''queryId'', JStr ''b''), (''state'', JStr ''RUNNING''), (''query'', JStr ''SELECT 1'')]]"

theorem presto_lists_the_unfinished_witness:
  "\<exists>qs. presto_running_queries (demo_presto demo_queries) fresh_presto = (Inr qs, fresh_presto) \<and> map q_id qs = [JStr ''b'']"
proof -
  obtain qs s' where r: "presto_running_queries (demo_presto demo_queries) fresh_presto = (Inr qs, s')"
    by (simp add: presto_running_queries_def presto_query_of_def demo_presto_def demo_queries_def bind_def gets_def lift_exn_run ret_def
        settled_def SETTLED_STATES_def presto_elapsed_def or_else_def)
  have "\<not> unsettled (JObj [(''queryId'', JStr ''a''), (''state'', JStr ''FINISHED'')])"
    "unsettled (JObj [(''queryId'', JStr ''b''), (''state'', JStr ''RUNNING''), (''query'', JStr ''SELECT 1'')])"
    by (simp_all add: unsettled_def settled_def SETTLED_STATES_def)
  with presto_lists_the_unfinished [OF r] have "s' = fresh_presto \<and> mset (map (\<lambda>q. Inr (q_id q)) qs) = {#(Inr (JStr ''b'') :: exn + json)#}"
    by (auto simp: demo_presto_def demo_queries_def)
  then have "s' = fresh_presto \<and> map q_id qs = [JStr ''b'']" by (cases qs) auto
  with r show ?thesis by auto
qed

subsection \<open>Reachability\<close>

lemma probe_all_length: "map_pm probe ts s = (Inr ss, s') \<Longrightarrow> length ss = length ts"
  by (induction ts arbitrary: s ss) (auto simp: probe_def bind_def ret_def split: prod.splits sum.splits)

lemma py_round_unit: "0 \<le> x \<Longrightarrow> x \<le> 1 \<Longrightarrow> 0 \<le> py_round n x \<and> py_round n x \<le> 1"
proof -
  assume x: "0 \<le> x" "x \<le> 1"
  have "(10 :: real) ^ n = of_int (10 ^ n)" by simp
  then have "\<lfloor>(10 :: real) ^ n\<rfloor> = 10 ^ n" by (metis floor_of_int)
  then have "py_round n 0 = 0" "py_round n 1 = 1" by (simp_all add: py_round_def round_half_even_def)
  with py_round_mono [OF x(1), of n] py_round_mono [OF x(2), of n] show ?thesis by simp
qed

lemma score_range: "0 \<le> score_of_services ss \<and> score_of_services ss \<le> 1"
proof -
  have "length (filter up ss) \<le> length ss" by (rule length_filter_le)
  then have "0 \<le> real (length (filter up ss)) / real (length ss)" "real (length (filter up ss)) / real (length ss) \<le> 1"
    by (simp_all add: divide_le_eq_1)
  from py_round_unit [OF this] show ?thesis by (simp add: score_of_services_def)
qed

lemma keep_score_run:
  "keep_score v s = (Inr (), s\<lparr>p_reads := Suc (p_reads s), cached_score := Some (p_clock s (p_reads s) + SCORE_CACHE_TTL_S, v)\<rparr>)"
  by (simp add: keep_score_def platform_monotonic_def modify_def bind_def)

lemma map_probe_run:
  "map_pm probe ts s = (Inr ss, s') \<Longrightarrow> s' = s\<lparr>probes := probes s + length ts\<rparr> \<and> length ss = length ts"
proof (induction ts arbitrary: s ss)
  case (Cons t ts)
  obtain r u where p: "probe t s = (Inr r, u)" "u = s\<lparr>probes := Suc (probes s)\<rparr>" by (cases t) (simp add: probe_def)
  obtain rs where m: "map_pm probe ts u = (Inr rs, s')" "ss = r # rs"
    using Cons.prems p(1) by (auto simp: bind_def ret_def split: prod.splits sum.splits)
  from Cons.IH [OF m(1)] show ?case by (simp add: m(2) p(2))
qed (simp add: ret_def)

lemma probe_services_run:
  assumes "probe_services E s = (Inr ss, t)"
  shows "length ss = Suc (min (length SERVICE_NAMES) (length (h_addresses E)))" "probes t = probes s + min (length SERVICE_NAMES) (length (h_addresses E))"
    "p_clock t = p_clock s" "p_reads t = p_reads s" "cached_score t = cached_score s"
proof -
  obtain qs u r where m: "map_pm probe (service_targets (h_addresses E)) s = (Inr qs, u)" and c: "cqlite_reader_health E u = (Inr r, t)"
    and ss: "ss = qs @ [r]"
    using assms unfolding probe_services_def by (auto simp: bind_def ret_def split: prod.splits sum.splits)
  have "probes t = probes u \<and> p_clock t = p_clock u \<and> p_reads t = p_reads u \<and> cached_score t = cached_score u"
    using c unfolding cqlite_reader_health_def by (auto simp: bind_def ret_def on_reader_def split: prod.splits sum.splits)
  moreover note map_probe_run [OF m]
  ultimately show "length ss = Suc (min (length SERVICE_NAMES) (length (h_addresses E)))" "probes t = probes s + min (length SERVICE_NAMES) (length (h_addresses E))"
    "p_clock t = p_clock s" "p_reads t = p_reads s" "cached_score t = cached_score s"
    by (simp_all add: ss service_targets_def)
qed

text \<open>
  Property. The health score asked for on every page costs six probes at most once in ten seconds: the first call
  without a cached score probes each service once, answers with the fraction that is up, a number between 0
  and 1, and until ten seconds after that any later call answers the same number, whatever has happened to
  the services meanwhile, and probes nothing.
\<close>

theorem score_is_probed_once:
  assumes "platform_health_score E s = (Inr v, t)" and "cached_score s = None" and "length (h_addresses E) = length SERVICE_NAMES"
  shows "0 \<le> v \<and> v \<le> 1 \<and> (\<exists>ss u. probe_services E s = (Inr ss, u) \<and> length ss = 6 \<and> v = score_of_services ss) \<and>
    probes t = probes s + 5 \<and>
    (\<forall>t'. cached_score t' = cached_score t \<and> p_clock t' (p_reads t') < p_clock s (p_reads s) + 10 \<longrightarrow>
      platform_health_score E t' = (Inr v, t'\<lparr>p_reads := Suc (p_reads t')\<rparr>))"
proof -
  obtain ss u where p: "probe_services E s = (Inr ss, u)" and v: "v = score_of_services ss" and t: "keep_score v u = (Inr (), t)"
    using assms(1,2) unfolding platform_health_score_def
    by (auto simp: bind_def gets_def ret_def Let_def keep_score_run split: prod.splits sum.splits)
  note run = probe_services_run [OF p]
  have names: "length SERVICE_NAMES = 5" by (simp add: SERVICE_NAMES_def)
  have "cached_score t = Some (p_clock s (p_reads s) + 10, v)" "probes t = probes s + 5"
    using t run names assms(3) by (auto simp: keep_score_run SCORE_CACHE_TTL_S_def)
  moreover have "length ss = 6" using run(1) names assms(3) by simp
  ultimately show ?thesis using p v score_range [of ss]
    by (auto simp: platform_health_score_def bind_def gets_def ret_def platform_monotonic_def)
qed

definition demo_health :: "nat health_env" where
  "demo_health = \<lparr>h_reader = demo_reader, h_data_dir = ''/data'', h_keyspace = ''demo'',
     h_addresses = [(''cassandra'', 9042), (''kafka'', 9092), (''presto'', 8080), (''spark'', 10000), (''cassandra-sql'', 5432)],
     h_container_cli = ''docker''\<rparr>"

definition demo_platform :: "nat platform" where
  "demo_platform = \<lparr>p_reader = demo_client\<lparr>providers := providers demo_client @ [(''drone_latest_status'', 2)]\<rparr>, cached_score = None,
     probe_outcomes = (\<lambda>n. if n = 2 then Os_Error else Accepted), probes = 0, p_clock = of_nat, p_reads = 0\<rparr>"

theorem score_is_probed_once_witness:
  "\<exists>v t. platform_health_score demo_health demo_platform = (Inr v, t) \<and> 0 \<le> v \<and> v \<le> 1 \<and> probes t = 5 \<and>
    fst (platform_health_score demo_health (t\<lparr>p_clock := (\<lambda>n. 0), p_reads := 0\<rparr>)) = Inr v"
proof -
  have "length (providers (p_reader demo_platform)) = length CQLITE_TABLES"
    by (simp add: demo_platform_def demo_client_def CQLITE_TABLES_def)
  then have e: "ensure_registered demo_reader d k (p_reader demo_platform) = (Inr True, p_reader demo_platform)" for d k
    by (simp add: ensure_registered_def bind_def gets_def ret_def)
  have f: "fst (files_now demo_reader (p_reader demo_platform)) = Inr (3, 9, 900)"
    by (simp add: files_now_def demo_platform_def demo_client_def demo_reader_def bind_def gets_def ret_def attempt_def calls_def)
  obtain qs u where m: "map_pm probe (service_targets (h_addresses demo_health)) demo_platform = (Inr qs, u)"
    by (simp add: service_targets_def demo_health_def SERVICE_NAMES_def probe_def bind_def ret_def)
  then have u: "p_reader u = p_reader demo_platform" using map_probe_run [OF m] by simp
  have "\<exists>r t. cqlite_reader_health demo_health u = (Inr r, t)"
    using f by (cases "files_now demo_reader (p_reader demo_platform)") (simp add: cqlite_reader_health_def demo_health_def on_reader_def e u bind_def ret_def)
  with m have "\<exists>ss w. probe_services demo_health demo_platform = (Inr ss, w)" by (auto simp: probe_services_def bind_def ret_def)
  moreover have c: "cached_score demo_platform = None" by (simp add: demo_platform_def)
  ultimately obtain v t where h: "platform_health_score demo_health demo_platform = (Inr v, t)"
    by (auto simp: platform_health_score_def bind_def gets_def ret_def Let_def keep_score_run)
  have "length (h_addresses demo_health) = length SERVICE_NAMES" by (simp add: demo_health_def SERVICE_NAMES_def)
  note once = score_is_probed_once [OF h c this]
  have "probes demo_platform = 0" by (simp add: demo_platform_def)
  define t' where "t' = t\<lparr>p_clock := (\<lambda>n. 0), p_reads := 0\<rparr>"
  have "cached_score t' = cached_score t" "p_clock t' (p_reads t') < p_clock demo_platform (p_reads demo_platform) + 10"
    by (simp_all add: t'_def demo_platform_def)
  with once have "fst (platform_health_score demo_health t') = Inr v" by simp
  then show ?thesis using h once \<open>probes demo_platform = 0\<close> unfolding t'_def by auto
qed

subsection \<open>Reconnecting\<close>

definition named :: "string set" where
  "named = {''presto'', ''spark'', ''spark_bulk''}"

text \<open>Rebuilding one path's connection leaves the others' and the locks as they are.\<close>

lemma client_rebuild_scope:
  assumes "client_rebuild E name s = (r, t)"
  shows "d_busy t = d_busy s" "name \<noteq> ''presto'' \<Longrightarrow> d_presto t = d_presto s" "name \<noteq> ''spark'' \<Longrightarrow> d_spark t = d_spark s"
    "name \<noteq> ''spark_bulk'' \<Longrightarrow> d_bulk t = d_bulk s"
  using assms unfolding client_rebuild_def
  by (auto simp: on_cqlite_def on_presto_def on_spark_def on_bulk_def split: if_splits prod.splits)

definition same_path :: "string \<Rightarrow> ('a, 'b, 'c, 'd) dash \<Rightarrow> ('a, 'b, 'c, 'd) dash \<Rightarrow> bool" where
  "same_path name s t \<longleftrightarrow> (if name = ''presto'' then d_presto t = d_presto s else if name = ''spark'' then d_spark t = d_spark s
     else if name = ''spark_bulk'' then d_bulk t = d_bulk s else True)"

lemma same_path_trans: "same_path n s t \<Longrightarrow> same_path n t u \<Longrightarrow> same_path n s u"
  by (auto simp: same_path_def)

lemma same_path_refl: "same_path n s s"
  by (simp add: same_path_def)

lemma same_path_up: "name \<in> named \<Longrightarrow> same_path name s t \<Longrightarrow> client_up name t = client_up name s"
  by (auto simp: same_path_def client_up_def named_def)

lemma client_rebuild_same: "client_rebuild E name s = (r, t) \<Longrightarrow> n \<noteq> name \<Longrightarrow> same_path n s t"
  by (auto simp: same_path_def dest: client_rebuild_scope)

definition loop_ok :: "string list \<Rightarrow> ('a, 'b, 'c, 'd) dash \<Rightarrow> ('a, 'b, 'c, 'd) dash \<Rightarrow> nat \<Rightarrow> bool" where
  "loop_ok names s t k \<longleftrightarrow> k \<le> length names \<and> d_busy t = d_busy s \<and>
     (\<forall>n \<in> named. n \<notin> set names \<or> d_busy s n \<longrightarrow> same_path n s t) \<and>
     (k = length names \<longrightarrow> (\<forall>n \<in> set names \<inter> named. \<not> d_busy s n \<and> client_up n t))"

lemma client_busy_named: "n \<in> named \<Longrightarrow> client_busy n s = d_busy s n"
  by (auto simp: client_busy_def named_def)

lemma loop_ok_skip: "loop_ok names s t k \<Longrightarrow> loop_ok (name # names) s t k"
  by (auto simp: loop_ok_def)

lemma loop_ok_step:
  assumes "client_rebuild E name s = (r, u)" "\<not> client_busy name s" "name \<notin> set names"
    "loop_ok names u t k" "j = k \<or> j = Suc k \<and> client_up name u"
  shows "loop_ok (name # names) s t j"
proof -
  note scope = client_rebuild_scope [OF assms(1)]
  have "same_path n s t" if "n \<in> named" "n \<noteq> name" "n \<notin> set names \<or> d_busy s n" for n
    using that assms(4) scope(1) client_rebuild_same [OF assms(1), of n] unfolding loop_ok_def by (metis same_path_trans)
  moreover have "name \<in> named \<Longrightarrow> \<not> d_busy s name" using assms(2) client_busy_named by metis
  moreover have "name \<in> named \<Longrightarrow> client_up name t = client_up name u"
    using assms(3,4) unfolding loop_ok_def by (metis same_path_up)
  ultimately show ?thesis using assms(4,5) scope(1) unfolding loop_ok_def by auto
qed

lemma reconnect_loop_reports:
  "distinct names \<Longrightarrow> \<exists>out k t. reconnect_loop E names acts n s = (Inr (acts @ out, n + k), t) \<and> length out = length names \<and> loop_ok names s t k"
proof (induction names arbitrary: acts n s)
  case (Cons name names)
  have d: "distinct names" "name \<notin> set names" using Cons.prems by auto
  show ?case
  proof (cases "client_busy name s")
    case True
    obtain out k t where r: "reconnect_loop E names (acts @ [name @ '': busy with a query, so stop that first'']) n s = (Inr ((acts @ [name @ '': busy with a query, so stop that first'']) @ out, n + k), t)"
      "length out = length names" "loop_ok names s t k" using Cons.IH [OF d(1)] by blast
    then show ?thesis using True loop_ok_skip [OF r(3)]
      by (intro exI [of _ "(name @ '': busy with a query, so stop that first'') # out"] exI [of _ k] exI [of _ t]) (simp add: bind_def gets_def)
  next
    case False
    obtain r u where c: "client_rebuild E name s = (r, u)" by (metis surj_pair)
    define line where "line = (case r of Inl e \<Rightarrow> name @ '': '' @ exn_str e
      | Inr _ \<Rightarrow> if client_up name u then name @ '': reconnected'' else name @ '': still unreachable'')"
    define m where "m = (case r of Inl e \<Rightarrow> n | Inr _ \<Rightarrow> if client_up name u then Suc n else n)"
    have step: "reconnect_loop E (name # names) acts n s = reconnect_loop E names (acts @ [line]) m u"
      using False c by (auto simp: bind_def gets_def attempt_def line_def m_def split: sum.split)
    obtain out k t where l: "reconnect_loop E names (acts @ [line]) m u = (Inr ((acts @ [line]) @ out, m + k), t)"
      "length out = length names" "loop_ok names u t k" using Cons.IH [OF d(1)] by blast
    have "loop_ok (name # names) s t (m + k - n)"
      by (rule loop_ok_step [OF c False d(2) l(3)]) (auto simp: m_def split: sum.splits)
    moreover have "n \<le> m" by (simp add: m_def split: sum.split)
    ultimately show ?thesis using step l(1,2) by (intro exI [of _ "line # out"] exI [of _ "m + k - n"] exI [of _ t]) simp
  qed
qed (simp add: ret_def loop_ok_def same_path_refl)

lemma targets_distinct: "distinct (reconnect_targets target)"
  by (simp add: reconnect_targets_def DIALECTS_def)


definition demo_engines :: "(unit, unit, unit, nat) engines" where
  "demo_engines = \<lparr>e_presto = demo_presto demo_queries, e_spark = demo_hive, e_bulk = demo_hive, e_spark_settings = demo_spark,
     e_health = demo_health\<rparr>"

definition demo_dash :: "(unit, unit, unit, nat) dash" where
  "demo_dash = \<lparr>d_presto = fresh_presto, d_spark = thrift_client fresh_bulk, d_bulk = fresh_bulk, d_cqlite = demo_client,
     d_busy = (\<lambda>name. name = ''spark'')\<rparr>"


end
