(* ===== verification/Sql_Console.thy ===== *)
theory Sql_Console
  imports Pystr
begin

text \<open>
  The Postgres-dialect console over Accord: its client (\<open>src/backend/app/db/accord_sql_client.py\<close>), one
  connection that is probed, dropped on a failure and opened again on use, and its routes
  (\<open>src/backend/app/routes/sql_console.py\<close>) with the schema, seed, reset, preset and quirk statements
  they send, word for word, and their response classes of \<open>models.py\<close>.

  The server and the driver are the record \<open>pg\<close> of parameters over a state \<open>'x\<close>; a value of a row is
  None or a \<open>'v\<close> with its \<open>str\<close>. \<open>statement_lock\<close> says whether another request holds the lock of the
  routes, and \<open>client_lock\<close> whether a statement is in flight on the connection.
\<close>

section \<open>The client\<close>

definition PROBE_SQL :: string where
  "PROBE_SQL = ''SELECT 1''"

type_synonym 'v result_set = "string list \<times> 'v option list list"

record ('x, 'v) pg =
  pg_connect :: "'x \<Rightarrow> (exn + nat) \<times> 'x"
  pg_execute :: "nat \<Rightarrow> string \<Rightarrow> 'x \<Rightarrow> (exn + 'v result_set option) \<times> 'x"
  shown :: "'v \<Rightarrow> string"

record 'x accord_sql_client =
  conn :: "nat option"
  connected :: bool
  statement_lock :: bool
  client_lock :: bool
  server :: 'x
  perf :: "nat \<Rightarrow> real"
  perf_reads :: nat

type_synonym ('x, 'a) console = "('x accord_sql_client, 'a) pm"

definition perf_counter :: "('x, real) console" where
  "perf_counter = (\<lambda>s. (Inr (perf s (perf_reads s)), s\<lparr>perf_reads := Suc (perf_reads s)\<rparr>))"

definition on_server :: "('x \<Rightarrow> (exn + 'a) \<times> 'x) \<Rightarrow> ('x, 'a) console" where
  "on_server f = (\<lambda>s. case f (server s) of (r, x) \<Rightarrow> (r, s\<lparr>server := x\<rparr>))"

definition probe_conn :: "('x, 'v) pg \<Rightarrow> nat \<Rightarrow> ('x, unit) console" where
  "probe_conn P c = bind (on_server (pg_execute P c PROBE_SQL)) (\<lambda>_. ret ())"

definition open_conn :: "('x, 'v) pg \<Rightarrow> ('x, unit) console" where
  "open_conn P =
    bind (on_server (pg_connect P)) (\<lambda>c. bind (probe_conn P c) (\<lambda>_.
      modify (\<lambda>s. s\<lparr>conn := Some c, connected := True\<rparr>)))"

definition drop_conn :: "('x, unit) console" where
  "drop_conn = modify (\<lambda>s. s\<lparr>conn := None, connected := False\<rparr>)"

definition client_connect :: "('x, 'v) pg \<Rightarrow> ('x, unit) console" where
  "client_connect P = try_except (open_conn P) (\<lambda>_. drop_conn)"

definition open_or_report :: "('x, 'v) pg \<Rightarrow> ('x, bool) console" where
  "open_or_report P = try_except (bind (open_conn P) (\<lambda>_. ret True)) (\<lambda>_. bind drop_conn (\<lambda>_. ret False))"

definition ensure_ready :: "('x, 'v) pg \<Rightarrow> ('x, bool) console" where
  "ensure_ready P =
    bind (gets conn) (\<lambda>c. case c of
      None \<Rightarrow> open_or_report P
    | Some c \<Rightarrow>
        bind (attempt (probe_conn P c)) (\<lambda>r. case r of
          Inr _ \<Rightarrow> ret True
        | Inl _ \<Rightarrow> bind drop_conn (\<lambda>_. open_or_report P)))"

text \<open>The columns, the rows and the milliseconds; a statement without a result set gives no columns and
  no rows.\<close>

definition client_execute :: "('x, 'v) pg \<Rightarrow> string \<Rightarrow> ('x, string list \<times> 'v option list list \<times> real) console" where
  "client_execute P sql =
    bind (bind (gets conn) (\<lambda>c. if c = None then open_conn P else ret ())) (\<lambda>_.
    bind perf_counter (\<lambda>started.
    bind (gets conn) (\<lambda>c.
    bind (attempt (on_server (pg_execute P (the c) sql))) (\<lambda>r.
    case r of
      Inl e \<Rightarrow> bind drop_conn (\<lambda>_. raise e)
    | Inr res \<Rightarrow> bind perf_counter (\<lambda>t.
        ret (case res of None \<Rightarrow> ([], [], (t - started) * 1000) | Some (columns, rows) \<Rightarrow> (columns, rows, (t - started) * 1000)))))))"

definition client_execute_query :: "('x, 'v) pg \<Rightarrow> string \<Rightarrow> ('x, (string \<times> 'v option) list list) console" where
  "client_execute_query P sql =
    bind (client_execute P sql) (\<lambda>(columns, rows, _). ret (map (zip columns) rows))"

section \<open>The statements\<close>

record sql_preset =
  pid :: string
  ptitle :: string
  pdescription :: string
  psql :: string

text \<open>An entry of \<open>QUIRKS\<close>: the statement that shows a defect and the one that isolates it.\<close>

record quirk =
  qid :: string
  qtitle :: string
  qsummary :: string
  qexpected :: string
  qprobe :: string
  qcontrol :: string

definition SCHEMA_STATEMENTS :: "string list" where
  "SCHEMA_STATEMENTS =
    [''CREATE TYPE flight_status AS ENUM ('planned', 'cleared', 'airborne', 'landed', 'aborted');'',
     ''CREATE TYPE flight_purpose AS ENUM ('survey', 'inspection', 'delivery', 'training', 'emergency');'',
     ''CREATE SEQUENCE flight_id_seq START WITH 9000 INCREMENT BY 1;'',
     ''CREATE TABLE operators ('' @ NL @ ''    operator_id BIGINT PRIMARY KEY,'' @ NL @ ''    licence TEXT UNIQUE NOT NULL,'' @ NL @
     ''    name TEXT NOT NULL,'' @ NL @ ''    base_city TEXT,'' @ NL @ ''    country TEXT,'' @ NL @ ''    certified_at BIGINT,'' @
     NL @ ''    flight_hours INT DEFAULT 0'' @ NL @ '');'',
     ''CREATE TABLE drones ('' @ NL @ ''    drone_id BIGINT PRIMARY KEY,'' @ NL @ ''    serial TEXT UNIQUE NOT NULL,'' @ NL @
     ''    model TEXT NOT NULL,'' @ NL @ ''    airframe TEXT,'' @ NL @ ''    mass_kg DECIMAL(10,2) NOT NULL,'' @ NL @
     ''    max_range_km DECIMAL(10,2),'' @ NL @ ''    battery_cycles INT DEFAULT 0,'' @ NL @ ''    tags TEXT[],'' @ NL @
     ''    registered_at BIGINT'' @ NL @ '');'',
     ''CREATE TABLE zones ('' @ NL @ ''    zone_id BIGINT PRIMARY KEY,'' @ NL @ ''    zone_code TEXT UNIQUE NOT NULL,'' @ NL @
     ''    zone_name TEXT NOT NULL,'' @ NL @ ''    severity TEXT,'' @ NL @ ''    capacity INT,'' @ NL @
     ''    fee_per_min DECIMAL(10,2)'' @ NL @ '');'',
     ''CREATE TABLE flights ('' @ NL @ ''    flight_id BIGINT PRIMARY KEY,'' @ NL @ ''    operator_id BIGINT NOT NULL,'' @ NL @
     ''    drone_id BIGINT NOT NULL,'' @ NL @ ''    departed_at BIGINT NOT NULL,'' @ NL @
     ''    status flight_status DEFAULT 'planned','' @ NL @ ''    purpose flight_purpose,'' @ NL @
     ''    distance_km DECIMAL(10,2),'' @ NL @ ''    duration_min DECIMAL(10,2),'' @ NL @ ''    energy_wh DECIMAL(10,2),'' @ NL @
     ''    fee_nok DECIMAL(10,2),'' @ NL @ ''    route_summary TEXT'' @ NL @ '');'',
     ''CREATE TABLE flight_legs ('' @ NL @ ''    leg_id BIGINT PRIMARY KEY,'' @ NL @ ''    flight_id BIGINT NOT NULL,'' @ NL @
     ''    zone_id BIGINT NOT NULL,'' @ NL @ ''    leg_no INT NOT NULL,'' @ NL @ ''    distance_km DECIMAL(10,2) NOT NULL,'' @
     NL @ ''    dwell_min DECIMAL(10,2) DEFAULT 0.00,'' @ NL @ ''    leg_energy_wh DECIMAL(10,2)'' @ NL @ '');'',
     ''ALTER TABLE flights ADD CONSTRAINT fk_flight_operator FOREIGN KEY (operator_id) REFERENCES operators(operator_id);'',
     ''ALTER TABLE flights ADD CONSTRAINT fk_flight_drone FOREIGN KEY (drone_id) REFERENCES drones(drone_id);'',
     ''ALTER TABLE flight_legs ADD CONSTRAINT fk_leg_flight FOREIGN KEY (flight_id) REFERENCES flights(flight_id);'',
     ''ALTER TABLE flight_legs ADD CONSTRAINT fk_leg_zone FOREIGN KEY (zone_id) REFERENCES zones(zone_id);'',
     ''CREATE INDEX idx_flights_operator ON flights(operator_id);'',
     ''CREATE INDEX idx_drones_airframe ON drones(airframe);'']"

definition SEED_STATEMENTS :: "string list" where
  "SEED_STATEMENTS =
    [''INSERT INTO operators (operator_id, licence, name, base_city, country, certified_at, flight_hours)'' @ NL @ ''VALUES'' @ NL @
     ''    (1001, 'NO-RPAS-1001', 'Oslo Survey AS', 'Oslo', 'NO', 1704067200000, 1450),'' @ NL @
     ''    (1002, 'NO-RPAS-1002', 'Fjord Inspection AS', 'Bergen', 'NO', 1704153600000, 890),'' @ NL @
     ''    (1003, 'NO-RPAS-1003', 'Nordic Air Logistics', 'Trondheim', 'NO', 1704240000000, 2310),'' @ NL @
     ''    (1004, 'NO-RPAS-1004', 'Politiets Droneenhet', 'Oslo', 'NO', 1704326400000, 640),'' @ NL @
     ''    (1005, 'SE-RPAS-2001', 'Kiruna Aerial Mapping', 'Kiruna', 'SE', 1704412800000, 120);'',
     ''INSERT INTO drones (drone_id, serial, model, airframe, mass_kg, max_range_km, battery_cycles, tags, registered_at)'' @ NL @
     ''VALUES'' @ NL @
     ''    (2001, 'asset-000000', 'Kestrel M4', 'quadcopter', 4.20, 18.00, 312, ARRAY['lidar', 'survey'], 1704067200000),'' @ NL @
     ''    (2002, 'asset-000001', 'Kestrel M4', 'quadcopter', 4.20, 18.00, 118, ARRAY['thermal'], 1704067200000),'' @ NL @
     ''    (2003, 'asset-000002', 'Kestrel M8', 'octocopter', 9.80, 26.00, 74, ARRAY['lidar', 'heavy-lift'], 1704067200000),'' @
     NL @
     ''    (2004, 'asset-000003', 'Harrier VT', 'vtol', 13.50, 92.00, 41, ARRAY['long-range', 'delivery'], 1704067200000),'' @
     NL @ ''    (2005, 'asset-000004', 'Harrier VT', 'vtol', 13.50, 92.00, 27, ARRAY['long-range'], 1704067200000),'' @ NL @
     ''    (2006, 'asset-000005', 'Skua F2', 'fixed-wing', 6.40, 140.00, 205, ARRAY['mapping'], 1704067200000),'' @ NL @
     ''    (2007, 'asset-000006', 'Skua F2', 'fixed-wing', 6.40, 140.00, 163, ARRAY['mapping', 'coastal'], 1704067200000),'' @
     NL @ ''    (2008, 'asset-000007', 'Wren N1', 'quadcopter', 1.10, 6.00, 588, ARRAY['indoor', 'training'], 1704067200000);'',
     ''INSERT INTO zones (zone_id, zone_code, zone_name, severity, capacity, fee_per_min)'' @ NL @ ''VALUES'' @ NL @
     ''    (3001, 'zone-oslo-airport', 'Oslo Lufthavn Gardermoen', 'critical', 2, 45.00),'' @ NL @
     ''    (3002, 'zone-royal-palace', 'Det Kongelige Slott', 'critical', 3, 60.00),'' @ NL @
     ''    (3003, 'zone-fornebu', 'Fornebu Tech Park', 'warning', 5, 18.00);'']"

definition RESET_STATEMENTS :: "string list" where
  "RESET_STATEMENTS =
    [''DROP TABLE IF EXISTS flight_legs;'',
     ''DROP TABLE IF EXISTS flights;'',
     ''DROP TABLE IF EXISTS drones;'',
     ''DROP TABLE IF EXISTS zones;'',
     ''DROP TABLE IF EXISTS operators;'',
     ''DROP TYPE IF EXISTS flight_status;'',
     ''DROP TYPE IF EXISTS flight_purpose;'',
     ''DROP SEQUENCE IF EXISTS flight_id_seq;'']"

definition PRESETS :: "sql_preset list" where
  "PRESETS =
    [\<lparr>pid = ''transaction'', ptitle = ''File a flight, in one transaction'',
      pdescription =
     ''One flight, in five statements that commit together: the flight, its two legs through restricted airspace, the battery '' @
     ''cycle the drone spent and the hour the operator flew.  Sent as one string, because cassandra-sql executes the whole '' @
     ''string as one unit.  Run it twice and the flight does not duplicate, because a repeated primary key overwrites here '' @
     ''rather than being refused; the two increments do apply again, so the cycle count and the flight hours climb by one each '' @
     ''time.'',
      psql =
     ''BEGIN;'' @ NL @
     ''INSERT INTO flights (flight_id, operator_id, drone_id, departed_at, status, purpose, distance_km, duration_min, '' @
     ''energy_wh, fee_nok, route_summary)'' @ NL @
     ''VALUES (9001, 1001, 2003, 1704499200000, 'cleared', 'survey', 21.40, 38.00, 742.00, 1290.00, 'Fornebu to Gardermoen, '' @
     ''north transit');'' @ NL @
     ''INSERT INTO flight_legs (leg_id, flight_id, zone_id, leg_no, distance_km, dwell_min, leg_energy_wh)'' @ NL @
     ''VALUES (10001, 9001, 3003, 1, 6.20, 9.00, 198.00), (10002, 9001, 3001, 2, 15.20, 12.00, 544.00);'' @ NL @
     ''UPDATE drones SET battery_cycles = battery_cycles + 1 WHERE drone_id = 2003;'' @ NL @
     ''UPDATE operators SET flight_hours = flight_hours + 1 WHERE operator_id = 1001;'' @ NL @ ''COMMIT;''\<rparr>,
     \<lparr>pid = ''rollback'', ptitle = ''A flight plan that rolls back'',
      pdescription =
     ''File a flight, then discard it.  The SELECT after the ROLLBACK returns no row, which is what shows the write was held '' @
     ''until COMMIT rather than applied as it went.  Cassandra has no such operation: a CQL batch is atomic but never undone, '' @
     ''so a client that changes its mind has to compensate.  The column list that comes back is the whole table's, not the '' @
     ''three the SELECT names: an empty result set here is described by the table rather than by the projection, which a '' @
     ''result with rows in it is.'',
      psql =
     ''BEGIN;'' @ NL @ ''INSERT INTO flights (flight_id, operator_id, drone_id, departed_at, status, distance_km, route_summary)'' @
     NL @ ''VALUES (9099, 1001, 2001, 1704499200000, 'planned', 3.00, 'rolled back');'' @ NL @ ''ROLLBACK;'' @ NL @
     ''SELECT flight_id, distance_km, route_summary FROM flights WHERE flight_id = 9099;''\<rparr>,
     \<lparr>pid = ''join'', ptitle = ''A four-way join'',
      pdescription =
     ''Which operator flew which airframe through which restricted zone, over four tables.  No CQL statement expresses this, '' @
     ''and neither does the schema mode of cassandra-sql itself, whose own documentation says \"No JOINs or subqueries\".  Run '' @
     ''the transaction preset first, or there are no flights to join to.'' @ NL @ NL @
     ''The per-leg distance is missing on purpose.  `distance_km` is a column of both joined tables, and this engine resolves '' @
     ''such a name to one table for the whole statement, so asking for the leg's distance answers the flight's.  The quirks '' @
     ''preset shows it.'',
      psql =
     ''SELECT'' @ NL @ ''    o.name AS operator,'' @ NL @ ''    d.serial,'' @ NL @ ''    d.airframe,'' @ NL @ ''    z.zone_name,'' @
     NL @ ''    l.leg_no,'' @ NL @ ''    l.dwell_min,'' @ NL @ ''    f.status'' @ NL @ ''FROM flight_legs l'' @ NL @
     ''INNER JOIN flights f ON l.flight_id = f.flight_id'' @ NL @ ''INNER JOIN operators o ON f.operator_id = o.operator_id'' @
     NL @ ''INNER JOIN drones d ON f.drone_id = d.drone_id'' @ NL @ ''INNER JOIN zones z ON l.zone_id = z.zone_id;''\<rparr>,
     \<lparr>pid = ''aggregate'', ptitle = ''GROUP BY on a non-key column'',
      pdescription =
     ''The statement the CQL path declines, in SQL over cassandra-sql's own rows.  An airframe is not part of any key, so '' @
     ''Cassandra cannot group by it; cassandra-sql reads the rows and groups them itself.'',
      psql =
     ''SELECT'' @ NL @ ''    airframe,'' @ NL @ ''    COUNT('' @ ''*) AS fleet_count,'' @ NL @ ''    AVG(mass_kg) AS avg_mass_kg,'' @
     NL @ ''    MIN(max_range_km) AS min_range_km,'' @ NL @ ''    MAX(max_range_km) AS max_range_km,'' @ NL @
     ''    SUM(battery_cycles) AS total_cycles'' @ NL @ ''FROM drones'' @ NL @ ''GROUP BY airframe;''\<rparr>,
     \<lparr>pid = ''subquery'', ptitle = ''A correlated aggregate in the WHERE clause'',
      pdescription =
     ''Drones that outrange the average of the register they are in.'',
      psql =
     ''SELECT serial, model, airframe, mass_kg, max_range_km'' @ NL @ ''FROM drones'' @ NL @
     ''WHERE max_range_km > (SELECT AVG(max_range_km) FROM drones)'' @ NL @ ''ORDER BY max_range_km DESC;''\<rparr>,
     \<lparr>pid = ''having'', ptitle = ''GROUP BY with HAVING, over a join'',
      pdescription =
     ''Dwell time per zone, keeping only the zones a drone loitered in for more than ten minutes; on the seeded flight that '' @
     ''keeps Gardermoen and drops Fornebu.  Run the transaction preset first, or the join has no legs to group.'' @ NL @ NL @
     ''The fee per minute is a column here rather than a factor.  Multiplying it by the dwell would be arithmetic across two '' @
     ''joined tables, which this engine answers with one of the two operands; the quirks preset shows it.'',
      psql =
     ''SELECT'' @ NL @ ''    z.zone_name,'' @ NL @ ''    z.severity,'' @ NL @ ''    z.fee_per_min,'' @ NL @
     ''    COUNT(DISTINCT l.flight_id) AS flight_count,'' @ NL @ ''    SUM(l.dwell_min) AS total_dwell_min'' @ NL @
     ''FROM flight_legs l'' @ NL @ ''INNER JOIN zones z ON l.zone_id = z.zone_id'' @ NL @
     ''GROUP BY z.zone_name, z.severity, z.fee_per_min'' @ NL @ ''HAVING SUM(l.dwell_min) > 10;''\<rparr>,
     \<lparr>pid = ''oversubscribe'', ptitle = ''The zone capacity this layer will not hold'',
      pdescription =
     ''The same three zones the Accord ledger admits drones to, with the same capacities.  Here the count is an ordinary '' @
     ''column and the check is an ordinary statement, so nothing stops two callers reading the same free slot and both taking '' @
     ''it: the UPDATE below decrements without reading first, and will run capacity past zero if it is repeated.  That is the '' @
     ''difference the Accord subtab measures, on the same airspace.'',
      psql =
     ''UPDATE zones SET capacity = capacity - 1 WHERE zone_code = 'zone-oslo-airport';'' @ NL @
     ''SELECT zone_code, zone_name, capacity FROM zones ORDER BY zone_code;''\<rparr>,
     \<lparr>pid = ''explain'', ptitle = ''EXPLAIN'',
      pdescription =
     ''The plan Calcite built, which is what shows the SQL layer to be a planner over a key-value store rather than a '' @
     ''translator into CQL.'',
      psql =
     ''EXPLAIN SELECT o.name, f.flight_id, f.distance_km'' @ NL @ ''FROM flights f'' @ NL @
     ''INNER JOIN operators o ON f.operator_id = o.operator_id'' @ NL @ ''WHERE f.distance_km > 10;''\<rparr>]"

definition QUIRKS :: "quirk list" where
  "QUIRKS =
    [\<lparr>qid = ''column-resolution'', qtitle = ''A column name in two joined tables resolves to the wrong one'',
      qsummary =
     ''distance_km is a column of both flights and flight_legs.  Asking for the leg's answers the flight's, for every leg, and '' @
     ''the l. qualifier is ignored.  An alias does not help, and the second table named is the one that wins.  Dropping the '' @
     ''flights join is what makes the same projection answer correctly.'',
      qexpected =
     ''6.2 and 15.2, the two legs' own distances'',
      qprobe =
     ''SELECT l.leg_no, l.distance_km FROM flight_legs l INNER JOIN flights f ON l.flight_id = f.flight_id;'',
      qcontrol =
     ''SELECT l.leg_no, l.distance_km FROM flight_legs l INNER JOIN zones z ON l.zone_id = z.zone_id;''\<rparr>,
     \<lparr>qid = ''grouped-order-by'', qtitle = ''ORDER BY is ignored on a grouped result'',
      qsummary =
     ''The clause is accepted and discarded.  ORDER BY n DESC answers the same order as ORDER BY airframe, so it is not that '' @
     ''one key is mishandled: the sort does not run at all.  The same clause on an ungrouped SELECT is exact.'',
      qexpected =
     ''fixed-wing, octocopter, quadcopter, vtol'',
      qprobe =
     ''SELECT airframe, COUNT('' @ ''*) AS n FROM drones GROUP BY airframe ORDER BY airframe;'',
      qcontrol =
     ''SELECT serial, mass_kg FROM drones ORDER BY mass_kg DESC;''\<rparr>,
     \<lparr>qid = ''cross-table-arithmetic'', qtitle = ''Arithmetic across two joined tables returns one operand'',
      qsummary =
     ''The operator is discarded and the right-hand operand is returned.  Reverse the operands and the other column comes '' @
     ''back; write + instead of * and nothing changes.  This is what made a fee-per-minute total read as the fee.'',
      qexpected =
     ''540.0 for the Gardermoen leg at 45 NOK/min and 162.0 for the Fornebu leg at 18; the probe answers the two fees instead'',
      qprobe =
     ''SELECT l.leg_no, l.dwell_min * z.fee_per_min AS fee_nok FROM flight_legs l INNER JOIN zones z ON l.zone_id = z.zone_id;'',
      qcontrol =
     ''SELECT leg_no, dwell_min * 45.0 AS fee_at_one_flat_rate FROM flight_legs;''\<rparr>,
     \<lparr>qid = ''literal-arithmetic-dropped'', qtitle = ''Arithmetic against a literal inside a join drops the column'',
      qsummary =
     ''The column is absent from the result, not merely wrong, so a client reading by position silently reads the next column '' @
     ''instead.  This is the worst of the four for that reason: the other three answer something, and this one answers a '' @
     ''differently shaped row.'',
      qexpected =
     ''three columns: leg_no, times_one, capacity'',
      qprobe =
     ''SELECT l.leg_no, l.dwell_min * 1.0 AS times_one, z.capacity FROM flight_legs l INNER JOIN zones z ON l.zone_id = '' @
     ''z.zone_id;'',
      qcontrol =
     ''SELECT leg_no, dwell_min * 1.0 AS times_one FROM flight_legs;''\<rparr>]"

definition TABLES :: "string list" where
  "TABLES = [''operators'', ''drones'', ''zones'', ''flights'', ''flight_legs'']"

section \<open>The routes\<close>

definition MAX_ROWS :: nat where
  "MAX_ROWS = 500"

record statement_result =
  sr_sql :: string
  sr_columns :: "string list"
  sr_rows :: "string option list list"
  sr_row_count :: int
  sr_duration_ms :: real
  sr_error :: "string option"

record console_result =
  cr_engine :: string
  cr_statements :: "statement_result list"
  cr_duration_ms :: real
  cr_error_count :: int

record sql_quirk =
  k_id :: string
  k_title :: string
  k_summary :: string
  k_expected :: string
  k_probe :: statement_result
  k_control :: statement_result

definition run_one :: "('x, 'v) pg \<Rightarrow> string \<Rightarrow> ('x, statement_result) console" where
  "run_one P sql =
    bind (attempt (client_execute P sql)) (\<lambda>r. case r of
      Inl e \<Rightarrow> ret \<lparr>sr_sql = sql, sr_columns = [], sr_rows = [], sr_row_count = 0, sr_duration_ms = 0, sr_error = Some (exn_str e)\<rparr>
    | Inr (columns, rows, duration_ms) \<Rightarrow>
        ret \<lparr>sr_sql = sql, sr_columns = columns, sr_rows = map (map (map_option (shown P))) (take MAX_ROWS rows),
          sr_row_count = int (length rows), sr_duration_ms = py_round 2 duration_ms, sr_error = None\<rparr>)"

definition failed :: "statement_result \<Rightarrow> bool" where
  "failed r \<longleftrightarrow> (case sr_error r of None \<Rightarrow> False | Some e \<Rightarrow> e \<noteq> [])"

definition run_many :: "('x, 'v) pg \<Rightarrow> string list \<Rightarrow> ('x, console_result) console" where
  "run_many P statements =
    bind perf_counter (\<lambda>started. bind (map_pm (run_one P) statements) (\<lambda>rs. bind perf_counter (\<lambda>t.
      ret \<lparr>cr_engine = ''cassandra-sql'', cr_statements = rs, cr_duration_ms = py_round 2 ((t - started) * 1000),
        cr_error_count = int (length (filter failed rs))\<rparr>)))"

definition require_connection :: "('x, 'v) pg \<Rightarrow> string \<Rightarrow> nat \<Rightarrow> ('x, unit) console" where
  "require_connection P host port =
    bind (ensure_ready P) (\<lambda>ready. if ready then ret ()
      else raise (HTTPException 503 (''cassandra-sql is not reachable at '' @ host @ '':'' @ nat_str port)))"

text \<open>The lock of the routes: refused with 409 while another request holds it, released on every exit.\<close>

definition with_statement_lock :: "('x, 'a) console \<Rightarrow> ('x, 'a) console" where
  "with_statement_lock m = (\<lambda>s.
    if statement_lock s then (Inl (HTTPException 409 ''a statement is already running''), s)
    else try_finally m (\<lambda>s. s\<lparr>statement_lock := False\<rparr>) (s\<lparr>statement_lock := True\<rparr>))"

definition console_route :: "('x, 'v) pg \<Rightarrow> string \<Rightarrow> nat \<Rightarrow> ('x, 'a) console \<Rightarrow> ('x, 'a) console" where
  "console_route P host port m = bind (require_connection P host port) (\<lambda>_. with_statement_lock m)"

definition create_schema :: "('x, 'v) pg \<Rightarrow> string \<Rightarrow> nat \<Rightarrow> ('x, console_result) console" where
  "create_schema P host port = console_route P host port (run_many P (SCHEMA_STATEMENTS @ SEED_STATEMENTS))"

definition reset_schema :: "('x, 'v) pg \<Rightarrow> string \<Rightarrow> nat \<Rightarrow> ('x, console_result) console" where
  "reset_schema P host port =
    console_route P host port (run_many P (RESET_STATEMENTS @ SCHEMA_STATEMENTS @ SEED_STATEMENTS))"

definition run_quirk :: "('x, 'v) pg \<Rightarrow> quirk \<Rightarrow> ('x, sql_quirk) console" where
  "run_quirk P q =
    bind (run_one P (qprobe q)) (\<lambda>p. bind (run_one P (qcontrol q)) (\<lambda>c.
      ret \<lparr>k_id = qid q, k_title = qtitle q, k_summary = qsummary q, k_expected = qexpected q, k_probe = p, k_control = c\<rparr>))"

definition quirks :: "('x, 'v) pg \<Rightarrow> string \<Rightarrow> nat \<Rightarrow> ('x, sql_quirk list) console" where
  "quirks P host port = console_route P host port (map_pm (run_quirk P) QUIRKS)"

definition count_statements :: "string list" where
  "count_statements = map (\<lambda>table. ''SELECT COUNT('' @ ''*) AS n FROM '' @ table @ '';'') TABLES"

definition table_counts :: "('x, 'v) pg \<Rightarrow> string \<Rightarrow> nat \<Rightarrow> ('x, console_result) console" where
  "table_counts P host port = console_route P host port (run_many P count_statements)"

definition execute_route :: "('x, 'v) pg \<Rightarrow> string \<Rightarrow> nat \<Rightarrow> string \<Rightarrow> ('x, console_result) console" where
  "execute_route P host port sql = console_route P host port (run_many P [sql])"

text \<open>What the status route reports of the connection, after it proved it unless a statement is running.\<close>

definition status :: "('x, 'v) pg \<Rightarrow> ('x, bool) console" where
  "status P = bind (gets client_lock) (\<lambda>busy.
     bind (if busy then ret True else ensure_ready P) (\<lambda>_. gets connected))"

section \<open>Lemmas\<close>

text \<open>The flag of the health page says whether there is a connection.\<close>

definition conn_ok :: "'x accord_sql_client \<Rightarrow> bool" where
  "conn_ok s \<longleftrightarrow> (connected s \<longleftrightarrow> conn s \<noteq> None)"

text \<open>Kept by every operation under the lock of the routes.\<close>

definition held_ok :: "bool \<Rightarrow> 'x accord_sql_client \<Rightarrow> bool" where
  "held_ok b s \<longleftrightarrow> conn_ok s \<and> statement_lock s = b"

lemma held_on_server: "preserves (held_ok b) (on_server f)"
  by (auto simp: preserves_def on_server_def held_ok_def conn_ok_def split: prod.splits)

lemma held_perf: "preserves (held_ok b) perf_counter"
  by (auto simp: preserves_def perf_counter_def held_ok_def conn_ok_def)

lemma held_drop: "preserves (held_ok b) drop_conn"
  unfolding drop_conn_def by (intro preserves_intros) (simp add: held_ok_def conn_ok_def)

lemma held_open: "preserves (held_ok b) (open_conn P)"
  unfolding open_conn_def probe_conn_def by (intro preserves_intros held_on_server) (simp add: held_ok_def conn_ok_def)

lemma held_execute: "preserves (held_ok b) (client_execute P sql)"
  unfolding client_execute_def by (intro preserves_intros held_on_server held_perf held_drop held_open)

lemma held_ready: "preserves (held_ok b) (ensure_ready P)"
  unfolding ensure_ready_def open_or_report_def probe_conn_def
  by (intro preserves_intros held_on_server held_drop held_open)

lemma held_run_one: "preserves (held_ok b) (run_one P sql)"
  unfolding run_one_def by (intro preserves_intros held_execute)

lemma held_run_many: "preserves (held_ok b) (run_many P stmts)"
  unfolding run_many_def by (intro preserves_intros held_perf held_run_one)

lemma perf_total: "total perf_counter"
  by (simp add: total_def perf_counter_def)

lemma open_or_report_outcome:
  assumes "open_or_report P s = (r, s')"
  shows "\<exists>b. r = Inr b \<and> (b \<longleftrightarrow> conn s' \<noteq> None)"
  using assms
  by (auto simp: open_or_report_def try_except_def bind_def open_conn_def drop_conn_def modify_def ret_def
      split: prod.splits sum.splits)

lemma ensure_ready_outcome:
  assumes "ensure_ready P s = (r, s')"
  shows "\<exists>b. r = Inr b \<and> (b \<longleftrightarrow> conn s' \<noteq> None)"
proof (cases "conn s")
  case None
  then show ?thesis using assms open_or_report_outcome by (auto simp: ensure_ready_def bind_def gets_def)
next
  case (Some c)
  obtain q s1 where p: "probe_conn P c s = (q, s1)" by (metis surj_pair)
  then have "conn s1 = conn s"
    by (auto simp: probe_conn_def bind_def on_server_def ret_def split: prod.splits sum.splits)
  then show ?thesis using assms p Some open_or_report_outcome
    by (cases q) (auto simp: ensure_ready_def bind_def gets_def attempt_def ret_def drop_conn_def modify_def)
qed

text \<open>A report of a statement.\<close>

definition reported :: "statement_result \<Rightarrow> bool" where
  "reported q \<longleftrightarrow> (case sr_error q of
     Some e \<Rightarrow> sr_columns q = [] \<and> sr_rows q = [] \<and> sr_row_count q = 0
   | None \<Rightarrow> int (length (sr_rows q)) = min (int MAX_ROWS) (sr_row_count q))"

lemma run_one_outcome: "\<exists>q s'. run_one P sql s = (Inr q, s') \<and> sr_sql q = sql \<and> reported q"
proof -
  obtain r s1 where "client_execute P sql s = (r, s1)" by (metis surj_pair)
  then show ?thesis by (cases r) (auto simp: run_one_def bind_def attempt_def ret_def reported_def split: prod.split)
qed

lemma run_all_outcome: "\<exists>rs s'. map_pm (run_one P) stmts s = (Inr rs, s') \<and> map sr_sql rs = stmts \<and> list_all reported rs"
proof (induction stmts arbitrary: s)
  case (Cons sql stmts)
  obtain q s1 where q: "run_one P sql s = (Inr q, s1)" "sr_sql q = sql" "reported q" using run_one_outcome by blast
  obtain rs s2 where "map_pm (run_one P) stmts s1 = (Inr rs, s2)" "map sr_sql rs = stmts" "list_all reported rs"
    using Cons.IH by blast
  then show ?case using q by (simp add: bind_def ret_def)
qed (simp add: ret_def)

lemma run_many_outcome:
  "\<exists>res s'. run_many P stmts s = (Inr res, s') \<and> map sr_sql (cr_statements res) = stmts \<and>
    list_all reported (cr_statements res) \<and> cr_error_count res = int (length (filter failed (cr_statements res)))"
proof -
  obtain t s1 where t: "perf_counter s = (Inr t, s1)" using totalD [OF perf_total] by blast
  obtain rs s2 where rs: "map_pm (run_one P) stmts s1 = (Inr rs, s2)" "map sr_sql rs = stmts" "list_all reported rs"
    using run_all_outcome by blast
  obtain u s3 where "perf_counter s2 = (Inr u, s3)" using totalD [OF perf_total] by blast
  then show ?thesis using t rs by (simp add: run_many_def bind_def ret_def)
qed

section \<open>Properties\<close>


definition demo_pg :: "(nat, string) pg" where
  "demo_pg = \<lparr>pg_connect = (\<lambda>x. (Inr 0, x)),
     pg_execute = (\<lambda>c q x. if q = PROBE_SQL then (Inr None, x) else if x = 0 then (Inl (Exn ''down''), 1)
       else (Inr (Some ([''n''], [[Some ''5.0''], [None]])), Suc x)),
     shown = (\<lambda>v. v)\<rparr>"

definition fresh_client :: "nat accord_sql_client" where
  "fresh_client = \<lparr>conn = None, connected = False, statement_lock = False, client_lock = False, server = 0,
     perf = of_nat, perf_reads = 0\<rparr>"


text \<open>What a server that accepts connections would report of a batch, with no connection in between.\<close>

fun straight :: "(string \<Rightarrow> 'x \<Rightarrow> (exn + 'v result_set option) \<times> 'x) \<Rightarrow> string list \<Rightarrow> 'x \<Rightarrow>
    (exn + 'v result_set) list \<times> 'x" where
  "straight answer [] x = ([], x)"
| "straight answer (q # qs) x =
    (case answer q x of (r, x1) \<Rightarrow> (case straight answer qs x1 of (rs, x2) \<Rightarrow>
      ((case r of Inl e \<Rightarrow> Inl e | Inr None \<Rightarrow> Inr ([], []) | Inr (Some res) \<Rightarrow> Inr res) # rs, x2)))"

definition outcome_of :: "('v \<Rightarrow> string) \<Rightarrow> exn + 'v result_set \<Rightarrow> string list \<times> string option list list \<times> int \<times> string option" where
  "outcome_of show_v r = (case r of
     Inl e \<Rightarrow> ([], [], 0, Some (exn_str e))
   | Inr (columns, rows) \<Rightarrow> (columns, map (map (map_option show_v)) (take MAX_ROWS rows), int (length rows), None))"

definition outcome :: "statement_result \<Rightarrow> string list \<times> string option list list \<times> int \<times> string option" where
  "outcome q = (sr_columns q, sr_rows q, sr_row_count q, sr_error q)"

lemma run_one_straight:
  assumes "\<And>x. \<exists>c. pg_connect P x = (Inr c, x)" and "\<And>c q x. pg_execute P c q x = answer q x"
    and "\<And>x. \<exists>v. answer PROBE_SQL x = (Inr v, x)" and "answer sql (server s) = (r, x1)"
  shows "\<exists>q s'. run_one P sql s = (Inr q, s') \<and> server s' = x1 \<and>
    outcome q = outcome_of (shown P) (case r of Inl e \<Rightarrow> Inl e | Inr None \<Rightarrow> Inr ([], []) | Inr (Some res) \<Rightarrow> Inr res)"
proof -
  obtain c0 where c0: "pg_connect P (server s) = (Inr c0, server s)" using assms(1) by blast
  obtain v where v: "answer PROBE_SQL (server s) = (Inr v, server s)" using assms(3) by blast
  have "bind (gets conn) (\<lambda>c. if c = None then open_conn P else ret ()) s =
      (Inr (), if conn s = None then s\<lparr>conn := Some c0, connected := True\<rparr> else s)"
    using c0 v by (simp add: bind_def gets_def open_conn_def probe_conn_def on_server_def modify_def ret_def assms(2))
  then obtain s1 where s1: "bind (gets conn) (\<lambda>c. if c = None then open_conn P else ret ()) s = (Inr (), s1)" "server s1 = server s"
    by simp
  obtain t s2 where t: "perf_counter s1 = (Inr t, s2)" "server s2 = server s1"
    by (simp add: perf_counter_def)
  have ex: "on_server (pg_execute P (the (conn s2)) sql) s2 = (r, s2\<lparr>server := x1\<rparr>)"
    using assms(4) s1(2) t(2) by (simp add: on_server_def assms(2))
  show ?thesis
    using s1(1) t(1) ex
    by (cases r) (auto simp: run_one_def client_execute_def bind_def gets_def attempt_def ret_def raise_def drop_conn_def modify_def
        perf_counter_def outcome_def outcome_of_def split: option.splits prod.splits)
qed

text \<open>
  Property. Handling of the connection is transparent: against a server that takes connections and answers
  alike on each, a batch reports what the statements would answer sent straight one after another,
  and leaves the server as they would. A refused statement drops the connection and yet costs no
  statement after it.
\<close>

theorem batch_runs_every_statement:
  assumes "\<And>x. \<exists>c. pg_connect P x = (Inr c, x)" and "\<And>c q x. pg_execute P c q x = answer q x"
    and "\<And>x. \<exists>v. answer PROBE_SQL x = (Inr v, x)"
  shows "\<exists>res s'. run_many P stmts s = (Inr res, s') \<and>
    (map outcome (cr_statements res), server s') = (case straight answer stmts (server s) of (rs, x) \<Rightarrow> (map (outcome_of (shown P)) rs, x))"
proof -
  have all: "\<exists>rs s'. map_pm (run_one P) stmts s = (Inr rs, s') \<and>
    (map outcome rs, server s') = (case straight answer stmts (server s) of (rs, x) \<Rightarrow> (map (outcome_of (shown P)) rs, x))" for s
  proof (induction stmts arbitrary: s)
    case (Cons sql stmts)
    obtain r x1 where a: "answer sql (server s) = (r, x1)" by (metis surj_pair)
    obtain q s1 where q: "run_one P sql s = (Inr q, s1)" "server s1 = x1"
        "outcome q = outcome_of (shown P) (case r of Inl e \<Rightarrow> Inl e | Inr None \<Rightarrow> Inr ([], []) | Inr (Some res) \<Rightarrow> Inr res)"
      using run_one_straight [OF assms a] by blast
    obtain rs s2 where "map_pm (run_one P) stmts s1 = (Inr rs, s2)"
        "(map outcome rs, server s2) = (case straight answer stmts x1 of (rs, x) \<Rightarrow> (map (outcome_of (shown P)) rs, x))"
      using Cons.IH [of s1] q(2) by auto
    then show ?case using q a by (auto simp: bind_def ret_def split: prod.splits)
  qed (simp add: ret_def)
  obtain t s1 where t: "perf_counter s = (Inr t, s1)" "server s1 = server s" by (simp add: perf_counter_def)
  obtain rs s2 where rs: "map_pm (run_one P) stmts s1 = (Inr rs, s2)"
      "(map outcome rs, server s2) = (case straight answer stmts (server s) of (rs, x) \<Rightarrow> (map (outcome_of (shown P)) rs, x))"
    using all [of s1] t(2) by auto
  obtain u s3 where "perf_counter s2 = (Inr u, s3)" "server s3 = server s2" by (simp add: perf_counter_def)
  then show ?thesis using t(1) rs by (simp add: run_many_def bind_def ret_def)
qed

theorem batch_runs_every_statement_witness:
  "\<exists>res s'. run_many demo_pg [''INSERT'', ''SELECT n''] fresh_client = (Inr res, s') \<and>
     map outcome (cr_statements res) = [([], [], 0, Some ''down''), ([''n''], [[Some ''5.0''], [None]], 2, None)] \<and> server s' = 2"
proof -
  have "\<exists>c. pg_connect demo_pg x = (Inr c, x)" for x by (simp add: demo_pg_def)
  moreover have "pg_execute demo_pg c q x = pg_execute demo_pg 0 q x" for c q x by (simp add: demo_pg_def)
  moreover have "\<exists>v. pg_execute demo_pg 0 PROBE_SQL x = (Inr v, x)" for x by (simp add: demo_pg_def)
  ultimately show ?thesis
    using batch_runs_every_statement [of demo_pg "pg_execute demo_pg 0" "[''INSERT'', ''SELECT n'']" fresh_client]
    by (auto simp: demo_pg_def PROBE_SQL_def fresh_client_def outcome_of_def exn_str_def MAX_ROWS_def)
qed

section \<open>The lists of statements\<close>

text \<open>The kind and name of what a statement creates or drops, and the tables a foreign key names.\<close>

definition created :: "string \<Rightarrow> (string \<times> string) option" where
  "created sql = (case words sql of
     w # k # n # _ \<Rightarrow> if w = ''CREATE'' \<and> k \<noteq> ''INDEX'' then Some (k, n) else None
   | _ \<Rightarrow> None)"

definition dropped :: "string \<Rightarrow> (string \<times> string) option" where
  "dropped sql = (case words sql of
     [w, k, i, e, n] \<Rightarrow> if w = ''DROP'' \<and> i = ''IF'' \<and> e = ''EXISTS'' then Some (k, butlast n) else None
   | _ \<Rightarrow> None)"

definition foreign_key :: "string \<Rightarrow> (string \<times> string) option" where
  "foreign_key sql = (case words sql of
     [w, t, child, _, _, _, f, _, _, _, parent] \<Rightarrow>
       if w = ''ALTER'' \<and> f = ''FOREIGN'' then Some (child, takeWhile (\<lambda>c. c \<noteq> CHR ''('') parent) else None
   | _ \<Rightarrow> None)"

definition inserted :: "string \<Rightarrow> string option" where
  "inserted sql = (case words sql of w # i # t # _ \<Rightarrow> if w = ''INSERT'' then Some t else None | _ \<Rightarrow> None)"

fun comes_before :: "'a \<Rightarrow> 'a \<Rightarrow> 'a list \<Rightarrow> bool" where
  "comes_before a b [] = False"
| "comes_before a b (x # xs) = (if x = a then b \<in> set xs else if x = b then False else comes_before a b xs)"

lemma lists_evaluated:
  "List.map_filter created SCHEMA_STATEMENTS =
     [(''TYPE'', ''flight_status''), (''TYPE'', ''flight_purpose''), (''SEQUENCE'', ''flight_id_seq''), (''TABLE'', ''operators''),
      (''TABLE'', ''drones''), (''TABLE'', ''zones''), (''TABLE'', ''flights''), (''TABLE'', ''flight_legs'')]"
  by code_simp

lemma resets_evaluated:
  "List.map_filter dropped RESET_STATEMENTS =
     [(''TABLE'', ''flight_legs''), (''TABLE'', ''flights''), (''TABLE'', ''drones''), (''TABLE'', ''zones''), (''TABLE'', ''operators''),
      (''TYPE'', ''flight_status''), (''TYPE'', ''flight_purpose''), (''SEQUENCE'', ''flight_id_seq'')]"
  "List.map_filter foreign_key SCHEMA_STATEMENTS =
     [(''flights'', ''operators''), (''flights'', ''drones''), (''flight_legs'', ''flights''), (''flight_legs'', ''zones'')]"
  "List.map_filter inserted SEED_STATEMENTS = [''operators'', ''drones'', ''zones'']"
  by code_simp+

text \<open>
  Property. The reset undoes the schema: each of its statements drops one object, together exactly those
  the schema creates, children before the parents their foreign keys name and tables before the
  types; every seeded table is one the schema creates, and the tables counted are all of them.
\<close>

theorem reset_undoes_schema:
  "let drops = List.map_filter dropped RESET_STATEMENTS; creates = List.map_filter created SCHEMA_STATEMENTS in
   length drops = length RESET_STATEMENTS \<and> distinct drops \<and> set drops = set creates \<and>
   list_all (\<lambda>(child, parent). comes_before (''TABLE'', child) (''TABLE'', parent) drops) (List.map_filter foreign_key SCHEMA_STATEMENTS) \<and>
   sorted_wrt (\<lambda>a b. fst b = ''TABLE'' \<longrightarrow> fst a = ''TABLE'') drops \<and>
   list_all (\<lambda>t. (''TABLE'', t) \<in> set creates) (List.map_filter inserted SEED_STATEMENTS) \<and>
   {t. (''TABLE'', t) \<in> set creates} = set TABLES"
proof -
  have "length RESET_STATEMENTS = 8" by (simp add: RESET_STATEMENTS_def)
  then show ?thesis unfolding lists_evaluated resets_evaluated Let_def TABLES_def by auto
qed

end
