(* ===== verification/Scenario.thy ===== *)
theory Scenario
  imports Platform Sql_Console
begin

text \<open>
  The scripted breach and the latency probes (\<open>src/backend/app/routes/demo.py\<close>), and the connections the
  application opens when it starts (\<open>lifespan\<close> of \<open>src/backend/app/main.py\<close>).

  The asset \<open>random.choice\<close> takes and the identifier \<open>uuid1\<close> makes are arguments. A probe is a computation that
  prepares and hands back the computation to be timed, as in the source; the rows of the nearest-neighbour
  probe are read and thrown away. A dash of a message is written \<open>-\<close>.
\<close>

section \<open>The scripted breach\<close>

definition BREACH_RISK_SCORE :: real where
  "BREACH_RISK_SCORE = 97 / 100"

definition BREACH_ZONE_ID :: string where
  "BREACH_ZONE_ID = ''scenario-zone''"

definition run_statement_on :: "(db \<Rightarrow> db) \<Rightarrow> unit fleet" where
  "run_statement_on f = bind session (\<lambda>_. node (execute_write f))"

definition breach_flags :: "string \<Rightarrow> row" where
  "breach_flags e = [(''entity_id'', CText e), (''predicted_zone_breach'', CBool True), (''near_restricted_zone'', CBool True),
     (''risk_score'', CDouble BREACH_RISK_SCORE)]"

definition scenario_alert :: "instant \<Rightarrow> string \<Rightarrow> nat \<Rightarrow> real \<Rightarrow> real \<Rightarrow> real \<Rightarrow> row" where
  "scenario_alert t e alert lat lon alt =
    [(''bucket'', CText (strftime_hour (utc_fields t))), (''alert_time'', CTime t), (''entity_id'', CText e), (''alert_id'', CUuid alert),
     (''alert_type'', CText ''zone_breach_predicted''), (''severity'', CText ''critical''), (''zone_id'', CText BREACH_ZONE_ID),
     (''latitude'', CDouble lat), (''longitude'', CDouble lon), (''altitude_m'', CDouble alt),
     (''message'', CText (''Scenario: '' @ e @ '' is on a predicted course into restricted airspace'')),
     (''risk_score'', CDouble BREACH_RISK_SCORE)]"

record scenario_result =
  x_entity_id :: string
  x_latitude :: real
  x_longitude :: real
  x_alert_id :: string
  x_message :: string

definition inject :: "row \<Rightarrow> nat \<Rightarrow> scenario_result fleet" where
  "inject target alert =
    (let e = str_of target ''entity_id''; lat = float_or_0 target ''latitude''; lon = float_or_0 target ''longitude'' in
     bind (node now) (\<lambda>t.
     bind (attempt (bind (run_statement_on (put_row ''drone_latest_status'' (breach_flags e))) (\<lambda>_.
       run_statement_on (put_row ''alerts_by_bucket'' (scenario_alert t e alert lat lon (float_or_0 target ''altitude_m'')))))) (\<lambda>r.
     case r of
       Inl x \<Rightarrow> raise (HTTPException 500 (''Could not inject the scenario: '' @ exn_str x))
     | Inr _ \<Rightarrow> ret \<lparr>x_entity_id = e, x_latitude = lat, x_longitude = lon, x_alert_id = uuid_str alert,
         x_message = e @ '' flagged for a predicted zone breach; alert written''\<rparr>)))"

definition trigger_breach_scenario :: "nat \<Rightarrow> nat \<Rightarrow> scenario_result fleet" where
  "trigger_breach_scenario choice alert =
    bind (gets is_connected) (\<lambda>up.
    if \<not> up then raise (HTTPException 503 ''Cassandra unavailable'')
    else bind (attempt (get_drones 50 True)) (\<lambda>r. case r of
      Inl x \<Rightarrow> raise (HTTPException 500 (''Could not read the fleet: '' @ exn_str x))
    | Inr candidates \<Rightarrow>
        if candidates = [] then raise (HTTPException 409 ''No flying assets yet - wait for the producer to warm up, then retry'')
        else inject (candidates ! (choice mod length candidates)) alert))"

section \<open>Latency probes\<close>

record 'x probes_state =
  lp_client :: cassandra_client
  lp_presto :: "'x presto"
  probe_entity_id :: "string option"

type_synonym ('x, 'a) lp = "('x probes_state, 'a) pm"

definition by_client :: "'a fleet \<Rightarrow> ('x, 'a) lp" where
  "by_client m = (\<lambda>s. case m (lp_client s) of (r, c) \<Rightarrow> (r, s\<lparr>lp_client := c\<rparr>))"

definition by_presto :: "('x, 'a) pr \<Rightarrow> ('x, 'a) lp" where
  "by_presto m = (\<lambda>s. case m (lp_presto s) of (r, p) \<Rightarrow> (r, s\<lparr>lp_presto := p\<rparr>))"

definition timed :: "('x, ('x, unit) lp option) lp \<Rightarrow> ('x, real option) lp" where
  "timed prepare =
    try_except
      (bind prepare (\<lambda>query. case query of
         None \<Rightarrow> ret None
       | Some run_query \<Rightarrow>
           bind (by_client (node Cql.perf_counter)) (\<lambda>start. bind run_query (\<lambda>_. bind (by_client (node Cql.perf_counter)) (\<lambda>stop.
             ret (Some (py_round 1 ((stop - start) * 1000))))))))
      (\<lambda>_. ret None)"

text \<open>The read that is timed: an asset that is gone is forgotten.\<close>

definition point_read :: "string \<Rightarrow> ('x, unit) lp" where
  "point_read e = bind (by_client (get_drone_detail e)) (\<lambda>found. case found of
     None \<Rightarrow> bind (modify (\<lambda>s. s\<lparr>probe_entity_id := None\<rparr>)) (\<lambda>_. raise (Exn e))
   | Some _ \<Rightarrow> ret ())"

definition probe_target :: "('x, string option) lp" where
  "probe_target = bind (gets probe_entity_id) (\<lambda>held. case held of
     Some e \<Rightarrow> ret (Some e)
   | None \<Rightarrow> bind (by_client (fetch (\<lambda>d. take 1 (map (project [''entity_id'']) (select_all ''drone_latest_status'' d))))) (\<lambda>rows.
       case rows of [] \<Rightarrow> ret None
       | r # _ \<Rightarrow> bind (modify (\<lambda>s. s\<lparr>probe_entity_id := Some (str_of r ''entity_id'')\<rparr>)) (\<lambda>_. ret (Some (str_of r ''entity_id'')))))"

definition cassandra_point_read :: "('x, ('x, unit) lp option) lp" where
  "cassandra_point_read =
    bind (gets (is_connected \<circ> lp_client)) (\<lambda>up. if \<not> up then ret None
    else bind probe_target (\<lambda>e. ret (map_option point_read e)))"

definition presto_scan :: "'x presto_api \<Rightarrow> ('x, ('x, unit) lp option) lp" where
  "presto_scan P =
    bind (gets (p_connected \<circ> lp_presto)) (\<lambda>up. ret (if \<not> up then None
      else Some (bind (by_presto (presto_execute_query P ''SELECT count(*) AS cnt FROM demo.drone_latest_status'')) (\<lambda>_. ret ()))))"

definition vector_probe :: "('x, ('x, unit) lp option) lp" where
  "vector_probe =
    bind (gets (is_connected \<circ> lp_client)) (\<lambda>up. ret (if \<not> up then None
      else Some (by_client (bind session (\<lambda>_. node (execute_query (\<lambda>_. ())))))))"

record latency_report =
  cassandra_point_read_ms :: "real option"
  presto_scan_ms :: "real option"
  vector_search_ms :: "real option"
  report_timestamp :: string

definition get_latency :: "'x presto_api \<Rightarrow> ('x, latency_report) lp" where
  "get_latency P =
    bind (timed cassandra_point_read) (\<lambda>c. bind (timed (presto_scan P)) (\<lambda>p. bind (timed vector_probe) (\<lambda>v.
    bind (by_client now_str) (\<lambda>t.
      ret \<lparr>cassandra_point_read_ms = c, presto_scan_ms = p, vector_search_ms = v, report_timestamp = t\<rparr>))))"

section \<open>Starting the application\<close>

record ('a, 'b, 'c, 'd, 'e) app =
  a_dash :: "('a, 'b, 'c, 'd) dash"
  a_sql :: "'e accord_sql_client"

definition by_dash :: "(('a, 'b, 'c, 'd) dash, 'r) pm \<Rightarrow> (('a, 'b, 'c, 'd, 'e) app, 'r) pm" where
  "by_dash m = (\<lambda>s. case m (a_dash s) of (r, d) \<Rightarrow> (r, s\<lparr>a_dash := d\<rparr>))"

definition by_sql :: "('e, 'r) console \<Rightarrow> (('a, 'b, 'c, 'd, 'e) app, 'r) pm" where
  "by_sql m = (\<lambda>s. case m (a_sql s) of (r, q) \<Rightarrow> (r, s\<lparr>a_sql := q\<rparr>))"

definition startup_connect :: "('a, 'b, 'c, 'd) engines \<Rightarrow> ('e, 'v) pg \<Rightarrow> string \<Rightarrow> (('a, 'b, 'c, 'd, 'e) app, unit) pm" where
  "startup_connect E P name =
    (if name = ''cassandra'' then by_dash (on_cqlite (on_cass (Fleet.connect False)))
     else if name = ''accord_sql'' then by_sql (client_connect P)
     else by_dash (client_rebuild E name))"

definition STARTUP_CLIENTS :: "string list" where
  "STARTUP_CLIENTS = [''cassandra'', ''presto'', ''spark'', ''spark_bulk'', ''cqlite'', ''accord_sql'']"

definition startup :: "('a, 'b, 'c, 'd) engines \<Rightarrow> ('e, 'v) pg \<Rightarrow> (('a, 'b, 'c, 'd, 'e) app, unit list) pm" where
  "startup E P = map_pm (\<lambda>name. try_except (startup_connect E P name) (\<lambda>_. ret ())) STARTUP_CLIENTS"

section \<open>Lemmas\<close>

lemma startup_total: "total (startup E P)"
  unfolding startup_def by (intro total_intros)

lemma timed_total: "total (timed m)"
  unfolding timed_def by (intro total_intros)

lemma put_row_lookup: "\<exists>r. map_of (put_row t cs d t) (key_of t cs) = Some r \<and> (\<forall>c \<in> fst ` set cs. row_get r c = row_get cs c)"
  by (cases "map_of (d t) (key_of t cs)") (auto simp: put_row_def row_get_merge update_conv')

lemma put_row_scanned: "\<exists>r \<in> set (select_all t (put_row t cs d)). \<forall>c \<in> fst ` set cs. row_get r c = row_get cs c"
proof -
  obtain r where r: "map_of (put_row t cs d t) (key_of t cs) = Some r" "\<forall>c \<in> fst ` set cs. row_get r c = row_get cs c"
    using put_row_lookup by blast
  then have "(key_of t cs, r) \<in> set (put_row t cs d t)" by (auto dest: map_of_SomeD)
  then show ?thesis using r(2) by (force simp: select_all_def)
qed

lemma run_statement_outcome:
  assumes "run_statement_on f s = (r, s')"
  shows "tables (fnode s') \<in> {tables (fnode s), f (tables (fnode s))}" "r = Inr u \<Longrightarrow> tables (fnode s') = f (tables (fnode s))"
proof -
  obtain q s1 where q: "session s = (q, s1)" by (metis surj_pair)
  have k: "tables (fnode s1) = tables (fnode s)" using preservesD [OF keeps_session, of s "tables (fnode s)"] q by simp
  show "tables (fnode s') \<in> {tables (fnode s), f (tables (fnode s))}" "r = Inr u \<Longrightarrow> tables (fnode s') = f (tables (fnode s))"
    using assms q k unfolding run_statement_on_def
    by (auto simp: bind_def node_def execute_write_def node_call_def split: sum.splits prod.splits fault.splits list.splits)
qed

lemma inject_outcome:
  assumes "inject target alert s = (r, s')"
  shows "tables (fnode s') t = tables (fnode s) t \<or> t \<in> {''drone_latest_status'', ''alerts_by_bucket''}"
    and "r = Inl x \<Longrightarrow> \<exists>m. x = HTTPException 500 m"
    and "r = Inr res \<Longrightarrow> x_entity_id res = str_of target ''entity_id'' \<and> (\<exists>lat lon alt. tables (fnode s') =
      put_row ''alerts_by_bucket'' (scenario_alert (wall_clock (fnode s) (ticks (fnode s))) (str_of target ''entity_id'') alert lat lon alt)
        (put_row ''drone_latest_status'' (breach_flags (str_of target ''entity_id'')) (tables (fnode s))))"
proof -
  define s1 where "s1 = s\<lparr>fnode := (fnode s)\<lparr>ticks := Suc (ticks (fnode s))\<rparr>\<rparr>"
  define e where "e = str_of target ''entity_id''"
  define m where "m = scenario_alert (wall_clock (fnode s) (ticks (fnode s))) e alert (float_or_0 target ''latitude'') (float_or_0 target ''longitude'')
    (float_or_0 target ''altitude_m'')"
  have k: "tables (fnode s1) = tables (fnode s)" by (simp add: s1_def)
  obtain q2 s2 where q2: "run_statement_on (put_row ''drone_latest_status'' (breach_flags e)) s1 = (q2, s2)" by (metis surj_pair)
  obtain q3 s3 where q3: "run_statement_on (put_row ''alerts_by_bucket'' m) s2 = (q3, s3)" by (metis surj_pair)
  note o2 = run_statement_outcome [OF q2] and o3 = run_statement_outcome [OF q3]
  have run: "(r, s') = (case q2 of
      Inl x \<Rightarrow> (Inl (HTTPException 500 (''Could not inject the scenario: '' @ exn_str x)), s2)
    | Inr _ \<Rightarrow> (case q3 of Inl x \<Rightarrow> (Inl (HTTPException 500 (''Could not inject the scenario: '' @ exn_str x)), s3)
      | Inr _ \<Rightarrow> (Inr \<lparr>x_entity_id = e, x_latitude = float_or_0 target ''latitude'', x_longitude = float_or_0 target ''longitude'',
          x_alert_id = uuid_str alert, x_message = e @ '' flagged for a predicted zone breach; alert written''\<rparr>, s3)))"
    using assms q2 q3
    by (simp add: inject_def Let_def bind_def node_def now_def attempt_def raise_def ret_def s1_def e_def m_def split: sum.splits)
  have other: "put_row u cs d t = d t \<or> t = u" for u cs and d :: db by (simp add: put_row_def)
  show "tables (fnode s') t = tables (fnode s) t \<or> t \<in> {''drone_latest_status'', ''alerts_by_bucket''}"
    using run o2(1) o3(1) k other [of "''drone_latest_status''"] other [of "''alerts_by_bucket''"]
    by (auto split: sum.splits) metis+
  show "r = Inl x \<Longrightarrow> \<exists>m. x = HTTPException 500 m" using run by (auto split: sum.splits)
  show "r = Inr res \<Longrightarrow> x_entity_id res = str_of target ''entity_id'' \<and> (\<exists>lat lon alt. tables (fnode s') =
      put_row ''alerts_by_bucket'' (scenario_alert (wall_clock (fnode s) (ticks (fnode s))) (str_of target ''entity_id'') alert lat lon alt)
        (put_row ''drone_latest_status'' (breach_flags (str_of target ''entity_id'')) (tables (fnode s))))"
    using run o2(2) o3(2) k by (auto simp: e_def m_def split: sum.splits)
qed

lemma breach_count:
  "predicted_breach_count (kpis_of rs n rate) = int (length (filter (\<lambda>r. truth (row_get r ''predicted_zone_breach'')) rs))"
  by (simp add: kpis_of_def Let_def)


lemma run_statement_steady: "steady s \<Longrightarrow> run_statement_on f s = (Inr (), s\<lparr>fnode := (fnode s)\<lparr>tables := f (tables (fnode s))\<rparr>\<rparr>)"
  by (simp add: steady_def run_statement_on_def session_def bind_def gets_def ret_def node_def execute_write_def node_call_def)

definition flying_asset :: db where
  "flying_asset = put_row ''drone_latest_status'' [(''entity_id'', CText ''a''), (''is_flying'', CBool True), (''latitude'', CDouble 1)] empty_db"


text \<open>
  The latency page never fails on a tier that cannot answer, and a starting application on a client.
\<close>

lemma latency_total: "total (get_latency P)"
  unfolding get_latency_def by (intro total_intros timed_total) (simp add: by_client_def now_str_def total_def node_def now_def bind_def ret_def)

end
