(* ===== verification/Blake.thy ===== *)
theory Blake
  imports Pystr "HOL-Library.Word"
begin

unbundle bit_operations_syntax

text \<open>
  \<open>hashlib.blake2b\<close> as the backend uses it (\<open>src/backend/app/routes/vector.py\<close>): unkeyed, with a digest of
  eight bytes, over the UTF-8 bytes of a text (RFC 7693). Words are 64 bits wide and addition wraps.
  With it \<open>str.encode("utf-8")\<close> on the 256 characters of HOL.
\<close>

section \<open>The compression function\<close>

definition IV :: "64 word list" where
  "IV = [0x6A09E667F3BCC908, 0xBB67AE8584CAA73B, 0x3C6EF372FE94F82B, 0xA54FF53A5F1D36F1,
         0x510E527FADE682D1, 0x9B05688C2B3E6C1F, 0x1F83D9ABFB41BD6B, 0x5BE0CD19137E2179]"

definition SCHEDULE :: "nat list list" where
  "SCHEDULE =
    [[0, 1, 2, 3, 4, 5, 6, 7, 8, 9, 10, 11, 12, 13, 14, 15],
     [14, 10, 4, 8, 9, 15, 13, 6, 1, 12, 0, 2, 11, 7, 5, 3],
     [11, 8, 12, 0, 5, 2, 15, 13, 10, 14, 3, 6, 7, 1, 9, 4],
     [7, 9, 3, 1, 13, 12, 11, 14, 2, 6, 5, 10, 4, 0, 15, 8],
     [9, 0, 5, 7, 2, 4, 10, 15, 14, 1, 11, 12, 6, 8, 3, 13],
     [2, 12, 6, 10, 0, 11, 8, 3, 4, 13, 7, 5, 15, 14, 1, 9],
     [12, 5, 1, 15, 14, 13, 4, 10, 0, 7, 6, 3, 9, 2, 8, 11],
     [13, 11, 7, 14, 12, 1, 3, 9, 5, 0, 15, 4, 8, 6, 2, 10],
     [6, 15, 14, 9, 11, 3, 0, 8, 12, 2, 13, 7, 1, 4, 10, 5],
     [10, 2, 8, 4, 7, 6, 1, 5, 15, 11, 9, 14, 3, 12, 13, 0]]"

definition mix :: "nat \<times> nat \<times> nat \<times> nat \<Rightarrow> 64 word \<Rightarrow> 64 word \<Rightarrow> 64 word list \<Rightarrow> 64 word list" where
  "mix q x y v =
    (case q of (a, b, c, d) \<Rightarrow>
     let va = v ! a + v ! b + x; vd = word_rotr 32 (v ! d XOR va); vc = v ! c + vd; vb = word_rotr 24 (v ! b XOR vc);
         va = va + vb + y; vd = word_rotr 16 (vd XOR va); vc = vc + vd; vb = word_rotr 63 (vb XOR vc)
     in v[a := va, b := vb, c := vc, d := vd])"

definition QUARTERS :: "(nat \<times> nat \<times> nat \<times> nat) list" where
  "QUARTERS = [(0, 4, 8, 12), (1, 5, 9, 13), (2, 6, 10, 14), (3, 7, 11, 15),
     (0, 5, 10, 15), (1, 6, 11, 12), (2, 7, 8, 13), (3, 4, 9, 14)]"

definition blake_round :: "64 word list \<Rightarrow> nat \<Rightarrow> 64 word list \<Rightarrow> 64 word list" where
  "blake_round m i v =
    (let s = SCHEDULE ! (i mod 10)
     in fold (\<lambda>k. mix (QUARTERS ! k) (m ! (s ! (2 * k))) (m ! (s ! (2 * k + 1)))) [0..<8] v)"

definition compress :: "64 word list \<Rightarrow> nat \<Rightarrow> bool \<Rightarrow> 64 word list \<Rightarrow> 64 word list" where
  "compress m t final h =
    (let v = h @ IV; v = v[12 := v ! 12 XOR of_nat t, 13 := v ! 13 XOR of_nat (t div 2 ^ 64)];
         v = (if final then v[14 := NOT (v ! 14)] else v);
         v = fold (blake_round m) [0..<12] v
     in map (\<lambda>i. h ! i XOR v ! i XOR v ! (i + 8)) [0..<8])"

section \<open>Bytes\<close>

definition word_le :: "string \<Rightarrow> 64 word" where
  "word_le bs = foldr (\<lambda>c w. of_nat (code_of c) + 256 * w) bs 0"

fun chunks :: "nat \<Rightarrow> nat \<Rightarrow> string \<Rightarrow> string list" where
  "chunks 0 n s = []"
| "chunks (Suc k) n s = take n s # chunks k n (drop n s)"

definition block_words :: "string \<Rightarrow> 64 word list" where
  "block_words b = map word_le (chunks 16 8 b)"

text \<open>Blocks of 128 bytes, the last padded with zeros and marked; \<open>t\<close> counts the bytes before.\<close>

function blocks :: "nat \<Rightarrow> string \<Rightarrow> 64 word list \<Rightarrow> 64 word list" where
  "blocks t s h =
    (if length s \<le> 128
     then compress (block_words (s @ replicate (128 - length s) (char_of (0 :: nat)))) (t + length s) True h
     else blocks (t + 128) (drop 128 s) (compress (block_words (take 128 s)) (t + 128) False h))"
  by pat_completeness auto
termination by (relation "measure (\<lambda>(t, s, h). length s)") auto

declare blocks.simps [simp del]

fun bytes_le :: "nat \<Rightarrow> nat \<Rightarrow> string" where
  "bytes_le 0 n = []"
| "bytes_le (Suc k) n = char_of (n mod 256) # bytes_le k (n div 256)"

definition blake2b_8 :: "string \<Rightarrow> string" where
  "blake2b_8 s = bytes_le 8 (unat (hd (blocks 0 s (IV[0 := IV ! 0 XOR 0x01010008]))))"

definition utf8 :: "string \<Rightarrow> string" where
  "utf8 s = concat (map (\<lambda>c. let n = code_of c in
     if n < 128 then [c] else [char_of (192 + n div 64), char_of (128 + n mod 64 :: nat)]) s)"

lemma length_bytes_le [simp]: "length (bytes_le k n) = k"
  by (induction k arbitrary: n) auto

lemma length_blake2b_8 [simp]: "length (blake2b_8 s) = 8"
  by (simp add: blake2b_8_def)

end
