(* ===== verification/Vector.thy ===== *)
theory Vector
  imports Fleet Blake "HOL-Library.Multiset"
begin

text \<open>
  Vector search (\<open>src/backend/app/routes/vector.py\<close>): the local hashing embedder, the remote one and its
  fallback, the search, the indexing of the whole fleet and the live embedder that follows the snippets
  the sink writes.

  The state is the record \<open>embedder\<close>: the Cassandra client of \<open>Fleet\<close> with the tables, the rows of
  \<open>drone_text_embeddings\<close> beside them (their \<open>updated_at\<close> left out: nothing reads it), and the attributes of
  \<open>LiveEmbedder\<close>. Statements fail as the client's node says. The remote endpoint is a function of the
  number of requests made so far, the nearest-neighbour search one of the rows. A pass
  embeds up to eight snippets at once; the entities of a batch differ, so the order in which they end
  decides nothing but the order of the requests, and \<open>gather\<close> is that order. Vectors are lists of reals. The
  dash of the failed search's message is written \<open>-\<close>.
\<close>

section \<open>Embeddings\<close>

definition INDEX_CONCURRENCY :: nat where
  "INDEX_CONCURRENCY = 8"

definition token_char :: "char \<Rightarrow> bool" where
  "token_char c \<longleftrightarrow> is_lower c \<or> is_digit c"

text \<open>\<open>_TOKEN_RE.findall\<close>: the maximal runs of token characters.\<close>

definition runs_of :: "(char \<Rightarrow> bool) \<Rightarrow> string \<Rightarrow> string list" where
  "runs_of P s = filter (\<lambda>w. w \<noteq> [])
     (foldr (\<lambda>c ws. if P c then (case ws of w # ws \<Rightarrow> (c # w) # ws | [] \<Rightarrow> [[c]]) else [] # ws) s [[]])"

definition tokens :: "string \<Rightarrow> string list" where
  "tokens s = runs_of token_char (lower s)"

definition token_index :: "string \<Rightarrow> nat" where
  "token_index d = foldl (\<lambda>n c. 256 * n + code_of c) 0 (take 4 d) mod EMBEDDING_DIMS"

definition token_sign :: "string \<Rightarrow> real" where
  "token_sign d = (if odd (code_of (d ! 4)) then 1 else - 1)"

definition add_token :: "string \<Rightarrow> real list \<Rightarrow> real list" where
  "add_token t v =
    (if length t < 3 then v
     else let digest = blake2b_8 (utf8 t); i = token_index digest in v[i := v ! i + token_sign digest])"

definition norm_of :: "real list \<Rightarrow> real" where
  "norm_of v = sqrt (sum_list (map (\<lambda>x. x * x) v))"

definition local_embedding :: "string \<Rightarrow> real list" where
  "local_embedding s =
    (let v = fold add_token (tokens s) (replicate EMBEDDING_DIMS 0); norm = norm_of v
     in if norm = 0 then v[0 := 1] else map (\<lambda>x. x / norm) v)"

definition probe_vector :: "nat \<Rightarrow> real list" where
  "probe_vector n = (replicate n 0)[0 := 1]"

section \<open>The state\<close>

record vector_env =
  openai_api_key :: string
  max_per_cycle :: nat
  remote_embedding :: "nat \<Rightarrow> string \<Rightarrow> exn + real list"
  ann_search :: "real list \<Rightarrow> nat \<Rightarrow> (string \<times> string \<times> real list) list \<Rightarrow> (string \<times> string \<times> real) list"
  gather :: "nat \<Rightarrow> (string \<times> string) list \<Rightarrow> (string \<times> string) list"

record embedder =
  vclient :: cassandra_client
  embeddings :: "(string \<times> string \<times> real list) list"
  live_enabled :: bool
  seen :: "(string \<times> string) list"
  primed :: bool
  embedded_total :: nat
  failed_total :: nat
  passes :: nat
  last_embedded :: nat
  last_pass_ms :: real
  pending :: nat
  last_pass_at :: "real option"
  embed_error :: "string option"
  requests :: nat
  epoch_clock :: "nat \<Rightarrow> real"
  epoch_reads :: nat

type_synonym 'a em = "(embedder, 'a) pm"

definition on_client :: "'a fleet \<Rightarrow> 'a em" where
  "on_client m = (\<lambda>s. case m (vclient s) of (r, c) \<Rightarrow> (r, s\<lparr>vclient := c\<rparr>))"

definition epoch_time :: "real em" where
  "epoch_time = (\<lambda>s. (Inr (epoch_clock s (epoch_reads s)), s\<lparr>epoch_reads := Suc (epoch_reads s)\<rparr>))"

definition get_embedding :: "vector_env \<Rightarrow> string \<Rightarrow> real list em" where
  "get_embedding E t =
    (if openai_api_key E = [] then ret (local_embedding t)
     else (\<lambda>s. case remote_embedding E (requests s) t of
         Inl e \<Rightarrow> ret (local_embedding t) (s\<lparr>requests := Suc (requests s)\<rparr>)
       | Inr v \<Rightarrow> (if length v \<noteq> EMBEDDING_DIMS
           then raise (HTTPException 500 (''Embedding model returned '' @ nat_str (length v) @
             '' dimensions but the payload_vector column holds '' @ nat_str EMBEDDING_DIMS))
           else ret v) (s\<lparr>requests := Suc (requests s)\<rparr>)))"

text \<open>
  The statements. Of the asset's status only the snippet is read. The upsert of an embedding lands
  unless the node fails before it; a reply lost afterwards raises as well.
\<close>

definition read_snippets :: "row list em" where
  "read_snippets = on_client (fetch (\<lambda>d. map (project [''entity_id'', ''text_payload'']) (select_all ''drone_latest_status'' d)))"

definition read_indexed :: "(string \<times> string) list em" where
  "read_indexed = bind (on_client session) (\<lambda>_. bind (on_client (node (execute_query (\<lambda>_. ())))) (\<lambda>_.
     gets (\<lambda>s. map (\<lambda>(e, t, v). (e, t)) (embeddings s))))"

definition lands :: "world \<Rightarrow> bool" where
  "lands w \<longleftrightarrow> (case faults w of LostBefore _ # _ \<Rightarrow> False | _ \<Rightarrow> True)"

definition insert_embedding :: "string \<Rightarrow> string \<Rightarrow> real list \<Rightarrow> unit em" where
  "insert_embedding e t v = bind (on_client session) (\<lambda>_.
     bind (modify (\<lambda>s. if lands (fnode (vclient s)) then s\<lparr>embeddings := AList.update e (t, v) (embeddings s)\<rparr> else s)) (\<lambda>_.
       on_client (node (execute_write id))))"

definition embed_and_write :: "vector_env \<Rightarrow> string \<times> string \<Rightarrow> unit em" where
  "embed_and_write E et = bind (get_embedding E (snd et)) (\<lambda>v. insert_embedding (fst et) (snd et) v)"

definition ensure_connected :: "exn \<Rightarrow> unit em" where
  "ensure_connected e =
    bind (gets (is_connected \<circ> vclient)) (\<lambda>up. bind (if up then ret () else on_client (connect False)) (\<lambda>_.
    bind (gets (is_connected \<circ> vclient)) (\<lambda>up. if up then ret () else raise e)))"

section \<open>Search\<close>

definition search_hit :: "string \<times> string \<times> real \<Rightarrow> row em" where
  "search_hit h = (case h of (e, t, sim) \<Rightarrow>
    bind (on_client (get_drone_detail e)) (\<lambda>found.
    let current = (case found of None \<Rightarrow> [] | Some r \<Rightarrow> r) in
    ret ([(''entity_id'', CText e), (''text_payload'', CText t), (''similarity'', CDouble sim)] @
      map (\<lambda>c. (c, row_get current c)) [''observer_id'', ''latitude'', ''longitude'', ''altitude_m'', ''is_flying''])))"

definition vector_search :: "vector_env \<Rightarrow> string \<Rightarrow> int \<Rightarrow> row list em" where
  "vector_search E query limit =
    bind (ensure_connected (HTTPException 503 ''Cassandra unavailable'')) (\<lambda>_.
    bind (get_embedding E query) (\<lambda>q.
    try_except
      (bind (on_client session) (\<lambda>_. bind (on_client (node (execute_query (\<lambda>_. ())))) (\<lambda>_.
       bind (gets (\<lambda>s. ann_search E q (nat (max 1 (min limit 50))) (embeddings s))) (\<lambda>hits. map_pm search_hit hits))))
      (\<lambda>e. raise (HTTPException 503 (''Vector search failed: '' @ exn_str e @
         ''. Build the embeddings first - nothing is indexed until then.'')))))"

section \<open>Indexing\<close>

text \<open>\<open>(row.get("text_payload") or "").strip()\<close> is not empty: the snippet.\<close>

definition snippet_of :: "row \<Rightarrow> (string \<times> string) option" where
  "snippet_of r = (case row_get r ''text_payload'' of
     CText t \<Rightarrow> if strip t = [] then None else Some (str_of r ''entity_id'', t) | _ \<Rightarrow> None)"

definition index_one :: "vector_env \<Rightarrow> string \<times> string \<Rightarrow> bool em" where
  "index_one E et = try_except (bind (embed_and_write E et) (\<lambda>_. ret True)) (\<lambda>_. ret False)"

definition run_indexing :: "vector_env \<Rightarrow> unit em" where
  "run_indexing E =
    bind (attempt read_snippets) (\<lambda>rows. case rows of
      Inl e \<Rightarrow> ret ()
    | Inr rs \<Rightarrow> let todo = List.map_filter snippet_of rs in
        if todo = [] then ret ()
        else bind (gets requests) (\<lambda>n. bind (map_pm (index_one E) (gather E n todo)) (\<lambda>_. ret ())))"

text \<open>The request answers before the work starts, which is \<open>run_indexing\<close>.\<close>

definition index_all :: "vector_env \<Rightarrow> (string \<times> string) em" where
  "index_all E = bind (ensure_connected (HTTPException 503 ''Cassandra unavailable'')) (\<lambda>_.
     ret (''started'', if openai_api_key E = [] then ''local'' else ''remote''))"

section \<open>The live embedder\<close>

definition snippet_key :: "string \<Rightarrow> string" where
  "snippet_key t = concat (map (\<lambda>c. hex_digits 2 (code_of c)) (blake2b_8 (utf8 t)))"

definition start_embedder :: "bool \<Rightarrow> cassandra_client \<Rightarrow> (nat \<Rightarrow> real) \<Rightarrow> embedder" where
  "start_embedder enabled c tick = \<lparr>vclient = c, embeddings = [], live_enabled = enabled, seen = [], primed = False,
     embedded_total = 0, failed_total = 0, passes = 0, last_embedded = 0, last_pass_ms = 0, pending = 0, last_pass_at = None,
     embed_error = None, requests = 0, epoch_clock = tick, epoch_reads = 0\<rparr>"

definition set_enabled :: "bool \<Rightarrow> embedder \<Rightarrow> embedder" where
  "set_enabled b s = (if b then s\<lparr>live_enabled := True\<rparr> else s\<lparr>live_enabled := False, embed_error := None\<rparr>)"

definition prime :: "unit em" where
  "prime = bind read_indexed (\<lambda>rows.
     modify (\<lambda>s. s\<lparr>seen := fold (\<lambda>(e, t) m. if t = [] then m else AList.update e (snippet_key t) m) rows (seen s), primed := True\<rparr>))"

definition changed_snippets :: "(string \<times> string) list \<Rightarrow> row list \<Rightarrow> (string \<times> string) list" where
  "changed_snippets known rs = filter (\<lambda>(e, t). map_of known e \<noteq> Some (snippet_key t)) (List.map_filter snippet_of rs)"

text \<open>Recorded only after the write.\<close>

definition embed_one :: "vector_env \<Rightarrow> string \<times> string \<Rightarrow> bool em" where
  "embed_one E et =
    try_except (bind (embed_and_write E et) (\<lambda>_. bind (modify (\<lambda>s. s\<lparr>seen := AList.update (fst et) (snippet_key (snd et)) (seen s)\<rparr>)) (\<lambda>_.
        ret True)))
      (\<lambda>_. bind (modify (\<lambda>s. s\<lparr>failed_total := Suc (failed_total s)\<rparr>)) (\<lambda>_. ret False))"

definition live_pass :: "vector_env \<Rightarrow> unit em" where
  "live_pass E =
    bind (ensure_connected (Exn ''Cassandra unavailable'')) (\<lambda>_.
    bind epoch_time (\<lambda>started.
    bind (gets primed) (\<lambda>known. bind (if known then ret () else prime) (\<lambda>_.
    bind read_snippets (\<lambda>rs.
    bind (gets (\<lambda>s. changed_snippets (seen s) rs)) (\<lambda>changed.
    let batch = take (max_per_cycle E) changed in
    bind (modify (\<lambda>s. s\<lparr>pending := length changed - length batch\<rparr>)) (\<lambda>_.
    bind (gets requests) (\<lambda>n.
    bind (map_pm (embed_one E) (gather E n batch)) (\<lambda>done_list.
    bind epoch_time (\<lambda>ended. bind epoch_time (\<lambda>at_time.
      modify (\<lambda>s. s\<lparr>embedded_total := embedded_total s + length (filter (\<lambda>b. b) done_list), last_embedded := length (filter (\<lambda>b. b) done_list),
        last_pass_ms := py_round 1 ((ended - started) * 1000), last_pass_at := Some at_time, passes := Suc (passes s)\<rparr>))))))))))))"

text \<open>One turn of the loop: nothing while it is off, else a pass whose failure is reported.\<close>

definition live_turn :: "vector_env \<Rightarrow> unit em" where
  "live_turn E =
    bind (gets live_enabled) (\<lambda>on. if \<not> on then ret ()
    else try_except (bind (live_pass E) (\<lambda>_. modify (\<lambda>s. s\<lparr>embed_error := None\<rparr>)))
      (\<lambda>e. modify (\<lambda>s. s\<lparr>embed_error := Some (exn_str e)\<rparr>)))"

record live_status =
  ls_enabled :: bool
  ls_embedder :: string
  ls_embedded :: nat
  ls_failed :: nat
  ls_passes :: nat
  ls_last_embedded :: nat
  ls_last_pass_ms :: real
  ls_pending :: nat
  ls_behind_s :: "real option"
  ls_tracked :: nat
  ls_error :: "string option"

definition live_embedding_status :: "vector_env \<Rightarrow> live_status em" where
  "live_embedding_status E =
    bind (gets last_pass_at) (\<lambda>at_time. bind (case at_time of None \<Rightarrow> ret None
      | Some t \<Rightarrow> bind epoch_time (\<lambda>wall. ret (Some (py_round 1 (wall - t))))) (\<lambda>behind.
    gets (\<lambda>s. \<lparr>ls_enabled = live_enabled s, ls_embedder = (if openai_api_key E = [] then ''local'' else ''remote''),
      ls_embedded = embedded_total s, ls_failed = failed_total s, ls_passes = passes s, ls_last_embedded = last_embedded s,
      ls_last_pass_ms = last_pass_ms s, ls_pending = pending s, ls_behind_s = behind, ls_tracked = length (seen s),
      ls_error = embed_error s\<rparr>)))"

definition set_live_embedding :: "vector_env \<Rightarrow> bool \<Rightarrow> live_status em" where
  "set_live_embedding E b = bind (modify (set_enabled b)) (\<lambda>_. live_embedding_status E)"

section \<open>The local embedder\<close>

lemma length_add_token [simp]: "length (add_token t v) = length v"
  by (simp add: add_token_def Let_def)

lemma length_fold_token [simp]: "length (fold add_token ts v) = length v"
  by (induction ts arbitrary: v) simp_all

lemma sum_squares_ge: "0 \<le> sum_list (map (\<lambda>x. x * x) (v :: real list))"
  by (rule sum_list_nonneg) auto

lemma norm_zero: "norm_of v = 0 \<Longrightarrow> v = replicate (length v) 0"
proof -
  assume "norm_of v = 0"
  then have "sum_list (map (\<lambda>x. x * x) v) = 0" using sum_squares_ge [of v] by (simp add: norm_of_def)
  then have "\<forall>x \<in> set v. x = 0" by (subst (asm) sum_list_nonneg_eq_0_iff) auto
  then show ?thesis by (metis replicate_length_same)
qed

lemma unit_first: "0 < n \<Longrightarrow> sum_list (map (\<lambda>x. x * x) ((replicate n (0::real))[0 := 1])) = 1"
  by (cases n) (simp_all add: sum_list_replicate)

lemma normalised: "norm_of v \<noteq> 0 \<Longrightarrow> sum_list (map (\<lambda>x. x * x) (map (\<lambda>x. x / norm_of v) v)) = 1"
proof -
  assume n: "norm_of v \<noteq> 0"
  have sq: "norm_of v * norm_of v = sum_list (map (\<lambda>x. x * x) v)"
    unfolding norm_of_def by (rule real_sqrt_mult_self [THEN trans]) (simp add: sum_squares_ge)
  have "sum_list (map (\<lambda>x. x * x) (map (\<lambda>x. x / norm_of v) v)) = sum_list (map (\<lambda>x. x * x * inverse (norm_of v * norm_of v)) v)"
    by (simp add: comp_def divide_inverse ac_simps)
  also have "\<dots> = sum_list (map (\<lambda>x. x * x) v) * inverse (norm_of v * norm_of v)" by (rule sum_list_mult_const)
  also have "\<dots> = 1" unfolding sq [symmetric] using n by (simp add: field_simps)
  finally show ?thesis .
qed

lemma local_embedding_unit:
  "length (local_embedding t) = EMBEDDING_DIMS" "sum_list (map (\<lambda>x. x * x) (local_embedding t)) = 1"
proof -
  define v where "v = fold add_token (tokens t) (replicate EMBEDDING_DIMS 0)"
  have l: "length v = EMBEDDING_DIMS" by (simp add: v_def)
  then show "length (local_embedding t) = EMBEDDING_DIMS"
    unfolding local_embedding_def Let_def v_def [symmetric] by simp
  show "sum_list (map (\<lambda>x. x * x) (local_embedding t)) = 1"
  proof (cases "norm_of v = 0")
    case True
    have "v = replicate EMBEDDING_DIMS 0" using norm_zero [OF True] l by simp
    moreover have "0 < EMBEDDING_DIMS" by (simp add: EMBEDDING_DIMS_def)
    ultimately show ?thesis
      unfolding local_embedding_def Let_def v_def [symmetric] using True unit_first by simp
  next
    case False
    then show ?thesis unfolding local_embedding_def Let_def v_def [symmetric] if_not_P [OF False] by (rule normalised)
  qed
qed

text \<open>What \<open>similarity_cosine\<close> makes of two unit vectors is this product, scaled.\<close>

definition dot :: "real list \<Rightarrow> real list \<Rightarrow> real" where
  "dot v w = sum_list (map2 (*) v w)"

lemma dot_self: "dot v v = sum_list (map (\<lambda>x. x * x) v)"
  by (induction v) (simp_all add: dot_def)

lemma dot_bound:
  "length v = length w \<Longrightarrow> 2 * \<bar>dot v w\<bar> \<le> sum_list (map (\<lambda>x. x * x) v) + sum_list (map (\<lambda>x. x * x) w)"
proof (induction v w rule: list_induct2)
  case (Cons x v y w)
  have "2 * \<bar>x * y\<bar> \<le> x * x + y * y"
    using sum_squares_bound [of "\<bar>x\<bar>" "\<bar>y\<bar>"] by (simp add: abs_mult power2_eq_square)
  moreover have "\<bar>dot (x # v) (y # w)\<bar> \<le> \<bar>x * y\<bar> + \<bar>dot v w\<bar>" by (simp add: dot_def)
  ultimately show ?case using Cons.IH by simp
qed (simp add: dot_def)

lemma add_token_commute: "add_token t \<circ> add_token u = add_token u \<circ> add_token t"
proof
  fix v
  show "(add_token t \<circ> add_token u) v = (add_token u \<circ> add_token t) v"
  proof (cases "token_index (blake2b_8 (utf8 t)) = token_index (blake2b_8 (utf8 u))")
    case True
    then show ?thesis
      by (cases "token_index (blake2b_8 (utf8 t)) < length v") (simp_all add: add_token_def Let_def add.assoc add.commute [of "token_sign (blake2b_8 (utf8 t))"] list_update_beyond)
  next
    case False
    then show ?thesis by (simp add: add_token_def Let_def list_update_swap)
  qed
qed

lemma fold_short: "fold add_token ts v = fold add_token (filter (\<lambda>t. 3 \<le> length t) ts) v"
  by (induction ts arbitrary: v) (simp_all add: add_token_def)

text \<open>
  C33. The local embedder gives a unit vector of the column's 1,536 dimensions for every text, the
  empty one included, so the product of any two is between -1 and 1.
\<close>

theorem local_embedding_is_a_unit_vector:
  "length (local_embedding t) = 1536 \<and> dot (local_embedding t) (local_embedding t) = 1 \<and>
   \<bar>dot (local_embedding t) (local_embedding u)\<bar> \<le> 1"
  using local_embedding_unit dot_bound [of "local_embedding t" "local_embedding u"]
  by (simp add: dot_self EMBEDDING_DIMS_def)

text \<open>
  Property. The local embedder is lexical: two texts with the same words of three characters or more, as
  often and in whatever order, case or punctuation, have the same embedding.
\<close>

theorem same_words_same_embedding:
  assumes "mset (filter (\<lambda>w. 3 \<le> length w) (tokens t)) = mset (filter (\<lambda>w. 3 \<le> length w) (tokens u))"
  shows "local_embedding t = local_embedding u"
proof -
  have "fold add_token (tokens t) = fold add_token (tokens u)"
  proof
    fix v
    have "fold add_token (filter (\<lambda>w. 3 \<le> length w) (tokens t)) = fold add_token (filter (\<lambda>w. 3 \<le> length w) (tokens u))"
      using add_token_commute assms by (intro fold_multiset_equiv) simp_all
    then show "fold add_token (tokens t) v = fold add_token (tokens u) v"
      using fold_short [of "tokens t" v] fold_short [of "tokens u" v] by simp
  qed
  then show ?thesis by (simp add: local_embedding_def)
qed

theorem same_words_same_embedding_witness:
  "local_embedding ''Survey of the RED pier'' = local_embedding ''the pier: red survey''"
proof (rule same_words_same_embedding)
  have "filter (\<lambda>w. 3 \<le> length w) (tokens ''Survey of the RED pier'') = [''survey'', ''the'', ''red'', ''pier'']"
    "filter (\<lambda>w. 3 \<le> length w) (tokens ''the pier: red survey'') = [''the'', ''pier'', ''red'', ''survey'']"
    by code_simp+
  then show "mset (filter (\<lambda>w. 3 \<le> length w) (tokens ''Survey of the RED pier'')) =
    mset (filter (\<lambda>w. 3 \<le> length w) (tokens ''the pier: red survey''))" by simp
qed

section \<open>What is stored\<close>

definition embedding_of :: "vector_env \<Rightarrow> string \<Rightarrow> real list \<Rightarrow> bool" where
  "embedding_of E t v \<longleftrightarrow> length v = EMBEDDING_DIMS \<and>
     (v = local_embedding t \<or> openai_api_key E \<noteq> [] \<and> (\<exists>n. remote_embedding E n t = Inr v))"

definition embeddings_ok :: "vector_env \<Rightarrow> embedder \<Rightarrow> bool" where
  "embeddings_ok E s \<longleftrightarrow> (\<forall>e t v. map_of (embeddings s) e = Some (t, v) \<longrightarrow> embedding_of E t v)"

lemma get_embedding_result:
  assumes "get_embedding E t s = (r, s')"
  shows "r = Inr v \<Longrightarrow> embedding_of E t v" and "\<exists>n. s' = s\<lparr>requests := n\<rparr>"
proof -
  have p: "(r = Inr v \<longrightarrow> embedding_of E t v) \<and> (\<exists>n. s' = s\<lparr>requests := n\<rparr>)"
  proof (cases "openai_api_key E = []")
    case True
    then have "r = Inr (local_embedding t)" "s' = s\<lparr>requests := requests s\<rparr>"
      using assms by (simp_all add: get_embedding_def ret_def)
    then show ?thesis using local_embedding_unit(1) by (intro conjI exI [of _ "requests s"]) (auto simp: embedding_of_def)
  next
    case False
    then have "s' = s\<lparr>requests := Suc (requests s)\<rparr>" "r = Inr v \<longrightarrow> embedding_of E t v"
      using assms local_embedding_unit(1)
      by (auto simp: get_embedding_def ret_def raise_def embedding_of_def split: sum.splits if_splits)
    then show ?thesis by blast
  qed
  then show "r = Inr v \<Longrightarrow> embedding_of E t v" "\<exists>n. s' = s\<lparr>requests := n\<rparr>" by blast+
qed

abbreviation same_rows :: "'a em \<Rightarrow> bool" where
  "same_rows m \<equiv> \<forall>k. preserves (\<lambda>s. embeddings s = k) m"

lemma same_rows_on_client: "preserves (\<lambda>s. embeddings s = k) (on_client m)"
  by (auto simp: preserves_def on_client_def split: prod.splits)

lemma same_rows_time: "preserves (\<lambda>s. embeddings s = k) epoch_time"
  by (simp add: preserves_def epoch_time_def)

lemma ok_same: "(\<And>k. preserves (\<lambda>s. embeddings s = k) m) \<Longrightarrow> preserves (embeddings_ok E) m"
  unfolding preserves_def embeddings_ok_def by metis

lemma ok_on_client: "preserves (embeddings_ok E) (on_client m)"
  by (rule ok_same, rule same_rows_on_client)

lemma ok_time: "preserves (embeddings_ok E) epoch_time"
  by (rule ok_same, rule same_rows_time)

lemma ok_get_embedding: "preserves (embeddings_ok E) (get_embedding F t)"
proof (rule preservesI)
  fix s assume "embeddings_ok E s"
  moreover obtain r s' where g: "get_embedding F t s = (r, s')" by (cases "get_embedding F t s")
  ultimately show "embeddings_ok E (snd (get_embedding F t s))"
    using get_embedding_result(2) [OF g] by (auto simp: embeddings_ok_def)
qed

lemma ok_insert: "embedding_of E t v \<Longrightarrow> preserves (embeddings_ok E) (insert_embedding e t v)"
  unfolding insert_embedding_def
  by (intro preserves_intros ok_on_client) (auto simp: embeddings_ok_def update_conv' split: if_splits)

lemma ok_embed_and_write: "preserves (embeddings_ok E) (embed_and_write E et)"
proof (rule preservesI)
  fix s assume s: "embeddings_ok E s"
  obtain r s' where g: "get_embedding E (snd et) s = (r, s')" by (cases "get_embedding E (snd et) s")
  have s': "embeddings_ok E s'" using preservesD [OF ok_get_embedding s, of E "snd et"] g by simp
  show "embeddings_ok E (snd (embed_and_write E et s))"
  proof (cases r)
    case (Inr v)
    from preservesD [OF ok_insert [OF get_embedding_result(1) [OF g Inr]] s'] show ?thesis
      using g Inr by (simp add: embed_and_write_def bind_def)
  qed (use g s' in \<open>simp add: embed_and_write_def bind_def\<close>)
qed

lemma ok_index_one: "preserves (embeddings_ok E) (index_one E et)"
  unfolding index_one_def by (intro preserves_intros ok_embed_and_write)

lemma ok_embed_one: "preserves (embeddings_ok E) (embed_one E et)"
  unfolding embed_one_def by (intro preserves_intros ok_embed_and_write) (simp_all add: embeddings_ok_def)

lemma ok_run_indexing: "preserves (embeddings_ok E) (run_indexing E)"
  unfolding run_indexing_def read_snippets_def Let_def by (intro preserves_intros ok_on_client ok_index_one)

lemma ok_ensure_connected: "preserves (embeddings_ok E) (ensure_connected e)"
  unfolding ensure_connected_def by (intro preserves_intros ok_on_client)

lemma ok_live_turn: "preserves (embeddings_ok E) (live_turn E)"
  unfolding live_turn_def live_pass_def prime_def read_indexed_def read_snippets_def Let_def
  by (intro preserves_intros ok_ensure_connected ok_time ok_on_client ok_embed_one) (simp_all add: embeddings_ok_def)

lemma ok_vector_search: "preserves (embeddings_ok E) (vector_search E q l)"
proof -
  have "preserves (embeddings_ok E) (search_hit h)" for h
    unfolding search_hit_def Let_def by (intro preserves_intros ok_on_client)
  then show ?thesis
    unfolding vector_search_def by (intro preserves_intros ok_ensure_connected ok_get_embedding ok_on_client)
qed

text \<open>
  Everything the module does, in any order: a whole turn of the loop, a whole indexing run, one
  embedding of either at any moment (of whatever snippet it was handed, however old), a search, the
  toggle; and whatever happens to the client and its tables meanwhile.
\<close>

datatype vector_call = Live_Turn | Index_Run | One_Embedding "string \<times> string" | Search string int | Toggle_Live bool
  | Meanwhile "cassandra_client \<Rightarrow> cassandra_client"

fun vector_step :: "vector_env \<Rightarrow> vector_call \<Rightarrow> embedder \<Rightarrow> embedder" where
  "vector_step E Live_Turn s = snd (live_turn E s)"
| "vector_step E Index_Run s = snd (run_indexing E s)"
| "vector_step E (One_Embedding et) s = snd (index_one E et s)"
| "vector_step E (Search q l) s = snd (vector_search E q l s)"
| "vector_step E (Toggle_Live b) s = set_enabled b s"
| "vector_step E (Meanwhile f) s = s\<lparr>vclient := f (vclient s)\<rparr>"

lemma vector_step_ok:
  assumes s: "embeddings_ok E s" shows "embeddings_ok E (vector_step E c s)"
proof (cases c)
  case Live_Turn
  then show ?thesis using preservesD [OF ok_live_turn s] by simp
next
  case Index_Run
  then show ?thesis using preservesD [OF ok_run_indexing s] by simp
next
  case (One_Embedding et)
  then show ?thesis using preservesD [OF ok_index_one s] by simp
next
  case (Search q l)
  then show ?thesis using preservesD [OF ok_vector_search s] by simp
qed (use s in \<open>simp_all add: set_enabled_def embeddings_ok_def\<close>)

interpretation vec: step_system "vector_step E" "embeddings_ok E" for E
  by unfold_locales (rule vector_step_ok)

text \<open>
  C34. A stored vector is an embedding of the snippet stored beside it, of the column's
  dimensions, whatever turns, indexing runs, searches, failures of the node and other writes came
  before, interleaved at any embedding; without a key for the remote endpoint it is the local one.
\<close>

theorem stored_vector_embeds_its_snippet:
  assumes "map_of (embeddings (fold (vector_step E) calls (start_embedder b c tick))) e = Some (t, v)"
  shows "length v = 1536 \<and> (v = local_embedding t \<or> openai_api_key E \<noteq> [] \<and> (\<exists>n. remote_embedding E n t = Inr v))"
proof -
  have "embeddings_ok E (start_embedder b c tick)" by (simp add: embeddings_ok_def start_embedder_def)
  from vec.run_inv [OF this, of calls] assms show ?thesis
    by (simp add: embeddings_ok_def embedding_of_def EMBEDDING_DIMS_def)
qed

section \<open>A pass over a steady node\<close>

definition snippets :: "embedder \<Rightarrow> (string \<times> string) list" where
  "snippets s = List.map_filter snippet_of (map wire_row
     (map (project [''entity_id'', ''text_payload'']) (select_all ''drone_latest_status'' (tables (fnode (vclient s))))))"

definition stale :: "embedder \<Rightarrow> (string \<times> string) list" where
  "stale s = filter (\<lambda>(e, t). map_of (seen s) e \<noteq> Some (snippet_key t)) (snippets s)"

text \<open>A remote endpoint, if there is one, answers with vectors of the column's dimensions or fails.\<close>

definition well_sized :: "vector_env \<Rightarrow> bool" where
  "well_sized E \<longleftrightarrow> openai_api_key E = [] \<or> (\<forall>n t v. remote_embedding E n t = Inr v \<longrightarrow> length v = EMBEDDING_DIMS)"

definition gathers :: "vector_env \<Rightarrow> bool" where
  "gathers E \<longleftrightarrow> (\<forall>n xs. mset (gather E n xs) = mset xs)"

lemma get_embedding_well_sized:
  assumes "well_sized E" shows "\<exists>v n. get_embedding E t s = (Inr v, s\<lparr>requests := n\<rparr>)"
proof (cases "openai_api_key E = []")
  case True
  then show ?thesis by (intro exI [of _ "local_embedding t"] exI [of _ "requests s"]) (simp add: get_embedding_def ret_def)
next
  case False
  then show ?thesis using assms by (auto simp: get_embedding_def well_sized_def ret_def split: sum.splits)
qed

lemma session_steady: "steady c \<Longrightarrow> session c = (Inr (), c)"
  by (simp add: steady_def session_def bind_def gets_def ret_def)

lemma node_steady: "steady c \<Longrightarrow> node (execute_write id) c = (Inr (), c)" "steady c \<Longrightarrow> node (execute_query (\<lambda>_. ())) c = (Inr (), c)"
  by (simp_all add: steady_def node_def execute_write_def execute_query_def node_call_def)

lemma read_snippets_steady: "steady (vclient s) \<Longrightarrow> read_snippets s = (Inr (map wire_row
     (map (project [''entity_id'', ''text_payload'']) (select_all ''drone_latest_status'' (tables (fnode (vclient s)))))), s)"
  by (simp add: read_snippets_def on_client_def fetch_steady)

lemma insert_embedding_steady:
  "steady (vclient s) \<Longrightarrow> insert_embedding e t v s = (Inr (), s\<lparr>embeddings := AList.update e (t, v) (embeddings s)\<rparr>)"
  by (simp add: insert_embedding_def bind_def on_client_def session_steady node_steady modify_def)
    (simp add: steady_def lands_def)

lemma ensure_connected_steady: "steady (vclient s) \<Longrightarrow> ensure_connected e s = (Inr (), s)"
  by (simp add: ensure_connected_def bind_def gets_def ret_def steady_def)

lemma embed_one_steady:
  assumes "steady (vclient s)" and "well_sized E"
  shows "\<exists>v n. embed_one E (e, t) s = (Inr True, s\<lparr>requests := n, embeddings := AList.update e (t, v) (embeddings s),
    seen := AList.update e (snippet_key t) (seen s)\<rparr>)"
proof -
  obtain v n where "get_embedding E t s = (Inr v, s\<lparr>requests := n\<rparr>)" using get_embedding_well_sized [OF assms(2)] by blast
  moreover have "insert_embedding e t v (s\<lparr>requests := n\<rparr>) =
      (Inr (), s\<lparr>requests := n, embeddings := AList.update e (t, v) (embeddings s)\<rparr>)"
    using insert_embedding_steady [of "s\<lparr>requests := n\<rparr>" e t v] assms(1) by simp
  ultimately show ?thesis
    by (intro exI [of _ v] exI [of _ n]) (simp add: embed_one_def embed_and_write_def try_except_def bind_def modify_def ret_def)
qed

text \<open>\<open>embedded b s t\<close>: the snippets \<open>b\<close>, and those alone, were embedded and recorded.\<close>

definition embedded :: "(string \<times> string) list \<Rightarrow> embedder \<Rightarrow> embedder \<Rightarrow> bool" where
  "embedded b s t \<longleftrightarrow> vclient t = vclient s \<and> primed t = primed s \<and> live_enabled t = live_enabled s \<and>
     failed_total t = failed_total s \<and>
     (\<forall>e. map_of (seen t) e = (case map_of b e of Some x \<Rightarrow> Some (snippet_key x) | None \<Rightarrow> map_of (seen s) e)) \<and>
     (\<forall>e. case map_of b e of Some x \<Rightarrow> \<exists>v. map_of (embeddings t) e = Some (x, v) | None \<Rightarrow> map_of (embeddings t) e = map_of (embeddings s) e)"

text \<open>What it looks at of a state.\<close>

definition tracked :: "embedder \<Rightarrow> cassandra_client \<times> bool \<times> bool \<times> nat \<times> (string \<times> string) list \<times> (string \<times> string \<times> real list) list" where
  "tracked s = (vclient s, primed s, live_enabled s, failed_total s, seen s, embeddings s)"

lemma embedded_tracked: "tracked s = tracked s' \<Longrightarrow> tracked t = tracked t' \<Longrightarrow> embedded b s t = embedded b s' t'"
proof -
  assume s: "tracked s = tracked s'" and t: "tracked t = tracked t'"
  from s have s1: "vclient s = vclient s'" "primed s = primed s'" "live_enabled s = live_enabled s'" "failed_total s = failed_total s'"
    "seen s = seen s'" "embeddings s = embeddings s'" by (simp_all add: tracked_def)
  from t have t1: "vclient t = vclient t'" "primed t = primed t'" "live_enabled t = live_enabled t'" "failed_total t = failed_total t'"
    "seen t = seen t'" "embeddings t = embeddings t'" by (simp_all add: tracked_def)
  show ?thesis unfolding embedded_def s1 t1 ..
qed

lemma embed_all_steady:
  assumes "steady (vclient s)" and "well_sized E" and "distinct (map fst b)"
  shows "\<exists>t. map_pm (embed_one E) b s = (Inr (replicate (length b) True), t) \<and> embedded b s t \<and>
    embedded_total t = embedded_total s \<and> passes t = passes s \<and> pending t = pending s"
  using assms
proof (induction b arbitrary: s)
  case (Cons et b)
  obtain e x where et: "et = (e, x)" by (cases et)
  obtain v n where o: "embed_one E et s = (Inr True, s\<lparr>requests := n, embeddings := AList.update e (x, v) (embeddings s),
      seen := AList.update e (snippet_key x) (seen s)\<rparr>)" (is "_ = (_, ?s)")
    using embed_one_steady [OF Cons.prems(1,2)] unfolding et by blast
  have "steady (vclient ?s)" "distinct (map fst b)" using Cons.prems by simp_all
  from Cons.IH [OF this(1) Cons.prems(2) this(2)] obtain t where
    t: "map_pm (embed_one E) b ?s = (Inr (replicate (length b) True), t)" "embedded b ?s t"
      "embedded_total t = embedded_total ?s" "passes t = passes ?s" "pending t = pending ?s" by blast
  have "map_of b e = None" using Cons.prems(3) et by (simp add: map_of_eq_None_iff image_iff)
  then have "embedded (et # b) s t" using t(2) unfolding embedded_def et
    by (auto simp: update_conv' split: option.splits if_splits)
  with o t show ?case by (intro exI [of _ t]) (simp add: bind_def ret_def)
qed (auto simp: ret_def embedded_def)

lemma embedded_perm: "distinct (map fst b) \<Longrightarrow> mset b = mset c \<Longrightarrow> embedded c s t \<Longrightarrow> embedded b s t"
proof -
  assume d: "distinct (map fst b)" and m: "mset b = mset c"
  have "mset (map fst b) = mset (map fst c)" using m by simp
  then have "distinct (map fst c)" using d mset_eq_imp_distinct_iff by blast
  then have "map_of b = map_of c" using d mset_eq_setD [OF m] map_of_inject_set by blast
  then show "embedded c s t \<Longrightarrow> embedded b s t" by (simp add: embedded_def)
qed

lemma live_pass_steady:
  assumes "steady (vclient s)" and "well_sized E" and "gathers E" and "primed s" and d: "distinct (map fst (snippets s))"
  shows "\<exists>t. live_pass E s = (Inr (), t) \<and> embedded (take (max_per_cycle E) (stale s)) s t \<and>
    embedded_total t = embedded_total s + length (take (max_per_cycle E) (stale s)) \<and>
    pending t = length (stale s) - max_per_cycle E \<and> passes t = Suc (passes s)"
proof -
  define b where "b = take (max_per_cycle E) (stale s)"
  define s1 where "s1 = s\<lparr>epoch_reads := Suc (epoch_reads s), pending := length (stale s) - length b\<rparr>"
  define g where "g = gather E (requests s) b"
  have m: "mset g = mset b" using assms(3) by (simp add: g_def gathers_def)
  have "distinct (map fst (stale s))" using d unfolding stale_def by (rule distinct_map_filter)
  then have db: "distinct (map fst b)" unfolding b_def by (simp add: take_map [symmetric])
  have "mset (map fst g) = mset (map fst b)" using m by simp
  then have dg: "distinct (map fst g)" using db mset_eq_imp_distinct_iff by blast
  have "steady (vclient s1)" using assms(1) by (simp add: s1_def)
  from embed_all_steady [OF this assms(2) dg] obtain u where
    u: "map_pm (embed_one E) g s1 = (Inr (replicate (length g) True), u)" "embedded g s1 u" "embedded_total u = embedded_total s1"
      "passes u = passes s1" "pending u = pending s1" by blast
  have l: "length g = length b" using m by (metis size_mset)
  have st: "changed_snippets (seen s) (map wire_row
     (map (project [''entity_id'', ''text_payload'']) (select_all ''drone_latest_status'' (tables (fnode (vclient s)))))) = stale s"
    by (simp add: changed_snippets_def stale_def snippets_def)
  have lb: "min (length (stale s)) (max_per_cycle E) = length b" and length_b: "length (filter (\<lambda>b. b) (replicate n True)) = n" for n
    by (simp_all add: b_def)
  have "\<exists>t. live_pass E s = (Inr (), t) \<and> tracked t = tracked u \<and> embedded_total t = embedded_total s + length b \<and> pending t = pending s1 \<and>
    passes t = Suc (passes s)"
    using u(1,3-5) st l assms(1,4) ensure_connected_steady [OF assms(1)] read_snippets_steady [of "s\<lparr>epoch_reads := Suc (epoch_reads s)\<rparr>"]
    by (simp add: live_pass_def bind_def epoch_time_def gets_def modify_def ret_def Let_def b_def [symmetric] g_def [symmetric]
        lb length_b s1_def [symmetric]) (simp add: tracked_def s1_def)
  then obtain t where t: "live_pass E s = (Inr (), t)" "tracked t = tracked u" "embedded_total t = embedded_total s + length b"
    "pending t = pending s1" "passes t = Suc (passes s)" by blast
  have "embedded g s t" using u(2) embedded_tracked [OF _ t(2), of s s1 g] by (simp add: tracked_def s1_def)
  then have "embedded b s t" using embedded_perm [OF db m [symmetric]] by simp
  moreover have "length (stale s) - length b = length (stale s) - max_per_cycle E" by (simp add: b_def)
  ultimately show ?thesis using t by (simp add: b_def [symmetric] s1_def)
qed

section \<open>The index follows the snippets\<close>

text \<open>What was recorded is what is stored.\<close>

definition recorded_ok :: "embedder \<Rightarrow> bool" where
  "recorded_ok s \<longleftrightarrow> (\<forall>e k. map_of (seen s) e = Some k \<longrightarrow> (\<exists>t v. map_of (embeddings s) e = Some (t, v) \<and> snippet_key t = k))"

definition current :: "embedder \<Rightarrow> string \<times> string \<Rightarrow> bool" where
  "current s et \<longleftrightarrow> (\<exists>t v. map_of (embeddings s) (fst et) = Some (t, v) \<and> snippet_key t = snippet_key (snd et))"

lemma snippets_embedded: "embedded b s t \<Longrightarrow> snippets t = snippets s"
  by (simp add: embedded_def snippets_def)

lemma embeddedD:
  assumes "embedded b s t"
  shows "map_of b e = None \<Longrightarrow> map_of (embeddings t) e = map_of (embeddings s) e \<and> map_of (seen t) e = map_of (seen s) e"
    and "map_of b e = Some x \<Longrightarrow> (\<exists>v. map_of (embeddings t) e = Some (x, v)) \<and> map_of (seen t) e = Some (snippet_key x)"
proof -
  from assms have a: "map_of (seen t) e = (case map_of b e of Some x \<Rightarrow> Some (snippet_key x) | None \<Rightarrow> map_of (seen s) e)"
    "case map_of b e of Some x \<Rightarrow> \<exists>v. map_of (embeddings t) e = Some (x, v) | None \<Rightarrow> map_of (embeddings t) e = map_of (embeddings s) e"
    unfolding embedded_def by blast+
  show "map_of b e = None \<Longrightarrow> map_of (embeddings t) e = map_of (embeddings s) e \<and> map_of (seen t) e = map_of (seen s) e"
    and "map_of b e = Some x \<Longrightarrow> (\<exists>v. map_of (embeddings t) e = Some (x, v)) \<and> map_of (seen t) e = Some (snippet_key x)"
    using a by simp_all
qed

lemma filter_not_take: "distinct xs \<Longrightarrow> filter (\<lambda>x. x \<notin> set (take n xs)) xs = drop n xs"
proof -
  assume d: "distinct xs"
  then have disj: "set (take n xs) \<inter> set (drop n xs) = {}" by (simp add: set_take_disj_set_drop_if_distinct)
  have "filter (\<lambda>x. x \<notin> set (take n xs)) (take n xs @ drop n xs) = drop n xs"
    using disj by (auto simp: filter_empty_conv filter_id_conv simp del: append_take_drop_id)
  then show ?thesis by simp
qed

lemma stale_after:
  assumes e: "embedded (take n (stale s)) s t" and d: "distinct (map fst (snippets s))"
  shows "stale t = drop n (stale s)"
proof -
  have ds: "distinct (map fst (stale s))" using d unfolding stale_def by (rule distinct_map_filter)
  have sub: "set (stale s) \<subseteq> set (snippets s)" by (auto simp: stale_def)
  have "map_of (seen t) e \<noteq> Some (snippet_key x) \<longleftrightarrow> (e, x) \<in> set (stale s) \<and> (e, x) \<notin> set (take n (stale s))"
    if i: "(e, x) \<in> set (snippets s)" for e x
  proof (cases "map_of (take n (stale s)) e")
    case None
    then have "map_of (seen t) e = map_of (seen s) e" using e by (simp add: embedded_def)
    moreover have "(e, x) \<notin> set (take n (stale s))" using None by (force simp: map_of_eq_None_iff)
    moreover have "(e, x) \<in> set (stale s) \<longleftrightarrow> map_of (seen s) e \<noteq> Some (snippet_key x)" using i by (simp add: stale_def)
    ultimately show ?thesis by simp
  next
    case (Some y)
    then have m: "(e, y) \<in> set (take n (stale s))" by (rule map_of_SomeD)
    then have "(e, y) \<in> set (snippets s)" using sub by (meson in_set_takeD subsetD)
    then have "y = x" using i d by (metis eq_key_imp_eq_value)
    moreover have "map_of (seen t) e = Some (snippet_key y)" using e Some by (simp add: embedded_def)
    ultimately show ?thesis using m by simp
  qed
  then have "stale t = filter (\<lambda>x. x \<in> set (stale s) \<and> x \<notin> set (take n (stale s))) (snippets s)"
    unfolding stale_def [of t] snippets_embedded [OF e] by (intro filter_cong) auto
  also have "\<dots> = filter (\<lambda>x. x \<notin> set (take n (stale s))) (filter (\<lambda>x. x \<in> set (stale s)) (snippets s))"
    by (simp add: conj_commute)
  also have "filter (\<lambda>x. x \<in> set (stale s)) (snippets s) = stale s"
    unfolding stale_def by (intro filter_cong) auto
  finally show ?thesis using filter_not_take [of "stale s" n] ds by (simp add: distinct_map)
qed

lemma recorded_after:
  assumes "embedded b s t" and "recorded_ok s"
  shows "recorded_ok t"
  unfolding recorded_ok_def
proof (intro allI impI)
  fix e k assume k: "map_of (seen t) e = Some k"
  show "\<exists>x v. map_of (embeddings t) e = Some (x, v) \<and> snippet_key x = k"
  proof (cases "map_of b e")
    case None
    then have "map_of (seen s) e = Some k" "map_of (embeddings t) e = map_of (embeddings s) e"
      using embeddedD(1) [OF assms(1) None] k by simp_all
    then show ?thesis using assms(2) by (simp add: recorded_ok_def)
  next
    case (Some x)
    from embeddedD(2) [OF assms(1) Some] k show ?thesis by auto
  qed
qed

lemma fresh_current: "recorded_ok s \<Longrightarrow> et \<in> set (snippets s) \<Longrightarrow> et \<notin> set (stale s) \<Longrightarrow> current s et"
  by (cases et) (auto simp: stale_def recorded_ok_def current_def)

fun live_passes :: "vector_env \<Rightarrow> nat \<Rightarrow> embedder \<Rightarrow> embedder" where
  "live_passes E 0 s = s"
| "live_passes E (Suc n) s = live_passes E n (snd (live_pass E s))"

lemma shares: "min (m + k) l = min m l + min k (l - m)" for m k l :: nat
  by auto

lemma live_passes_steady:
  assumes "steady (vclient s)" and "well_sized E" and "gathers E" and "primed s" and "distinct (map fst (snippets s))"
    and "recorded_ok s"
  shows "let t = live_passes E n s in stale t = drop (n * max_per_cycle E) (stale s) \<and> recorded_ok t \<and> snippets t = snippets s \<and>
    vclient t = vclient s \<and> primed t \<and> failed_total t = failed_total s \<and>
    embedded_total t = embedded_total s + min (n * max_per_cycle E) (length (stale s))"
  using assms
proof (induction n arbitrary: s)
  case (Suc n)
  from live_pass_steady [OF Suc.prems(1-5)] obtain t where t: "live_pass E s = (Inr (), t)"
    "embedded (take (max_per_cycle E) (stale s)) s t"
    "embedded_total t = embedded_total s + length (take (max_per_cycle E) (stale s))" by blast
  have e: "vclient t = vclient s" "primed t" "failed_total t = failed_total s" using t(2) Suc.prems(4) by (simp_all add: embedded_def)
  have sn: "snippets t = snippets s" by (rule snippets_embedded [OF t(2)])
  have st: "stale t = drop (max_per_cycle E) (stale s)" by (rule stale_after [OF t(2) Suc.prems(5)])
  have "steady (vclient t)" "distinct (map fst (snippets t))" using Suc.prems(1,5) e sn by simp_all
  from Suc.IH [OF this(1) Suc.prems(2,3) e(2) this(2) recorded_after [OF t(2) Suc.prems(6)]]
  show ?case
    using t(1,3) e sn st shares [of "max_per_cycle E" "n * max_per_cycle E" "length (stale s)"]
    by (simp add: Let_def add.commute min.commute)
qed (simp add: Let_def)

section \<open>Failures during a pass\<close>

definition tables_of_node :: "embedder \<Rightarrow> db" where
  "tables_of_node s = tables (fnode (vclient s))"

text \<open>What of a state a statement leaves alone, besides the stored rows.\<close>

definition frame :: "embedder \<Rightarrow> db \<times> (string \<times> string) list \<times> bool \<times> nat" where
  "frame s = (tables_of_node s, seen s, primed s, failed_total s)"

lemma frame_on_client:
  assumes "\<And>d. keeps d m" and "on_client m s = (r, t)"
  shows "frame t = frame s \<and> embeddings t = embeddings s"
  using preservesD [OF assms(1), where s = "vclient s", OF refl] assms(2)
  by (auto simp: on_client_def frame_def tables_of_node_def split: prod.splits)

lemma keeps_write_id: "keeps d (node (execute_write id))"
  by (auto simp: preserves_def node_def execute_write_def node_call_def split: prod.splits fault.splits list.splits)

lemma write_id_lands: "node (execute_write id) c = (Inr u, c') \<Longrightarrow> lands (fnode c)"
  by (auto simp: node_def execute_write_def node_call_def lands_def split: prod.splits fault.splits list.splits)

lemma insert_embedding_result:
  assumes i: "insert_embedding e x v s = (r, t)"
  shows "frame t = frame s" and "r = Inr () \<Longrightarrow> embeddings t = AList.update e (x, v) (embeddings s)"
    and "embeddings t = embeddings s \<or> embeddings t = AList.update e (x, v) (embeddings s)"
proof -
  obtain q s1 where s1: "on_client session s = (q, s1)" by (cases "on_client session s")
  have f1: "frame s1 = frame s \<and> embeddings s1 = embeddings s" by (rule frame_on_client [OF keeps_session s1])
  have all: "frame t = frame s \<and> (r = Inr () \<longrightarrow> embeddings t = AList.update e (x, v) (embeddings s)) \<and>
    (embeddings t = embeddings s \<or> embeddings t = AList.update e (x, v) (embeddings s))"
  proof (cases q)
    case (Inl z)
    then show ?thesis using i s1 f1 by (auto simp: insert_embedding_def bind_def)
  next
    case (Inr u)
    define s2 where "s2 = (if lands (fnode (vclient s1)) then s1\<lparr>embeddings := AList.update e (x, v) (embeddings s1)\<rparr> else s1)"
    have n: "on_client (node (execute_write id)) s2 = (r, t)"
      using i s1 Inr by (simp add: insert_embedding_def bind_def modify_def s2_def)
    have "frame t = frame s2 \<and> embeddings t = embeddings s2" by (rule frame_on_client [OF keeps_write_id n])
    moreover have "frame s2 = frame s1" by (simp add: s2_def frame_def tables_of_node_def)
    moreover have "r = Inr () \<Longrightarrow> lands (fnode (vclient s1))"
      using n write_id_lands [of "vclient s2"] by (auto simp: on_client_def s2_def split: prod.splits if_splits)
    ultimately show ?thesis using f1 by (auto simp: s2_def)
  qed
  then show "frame t = frame s" "r = Inr () \<Longrightarrow> embeddings t = AList.update e (x, v) (embeddings s)"
    "embeddings t = embeddings s \<or> embeddings t = AList.update e (x, v) (embeddings s)" by blast+
qed

text \<open>
  \<open>attempted b s t\<close>: of the snippets \<open>b\<close> each was recorded and stored, or neither recorded before nor now
  differently; nothing else was touched.
\<close>

definition attempted :: "(string \<times> string) list \<Rightarrow> embedder \<Rightarrow> embedder \<Rightarrow> bool" where
  "attempted b s t \<longleftrightarrow> tables_of_node t = tables_of_node s \<and> primed t = primed s \<and>
     (\<forall>e. map_of b e = None \<longrightarrow> map_of (seen t) e = map_of (seen s) e \<and> map_of (embeddings t) e = map_of (embeddings s) e) \<and>
     (\<forall>e x. map_of b e = Some x \<longrightarrow> map_of (seen t) e = Some (snippet_key x) \<and> (\<exists>v. map_of (embeddings t) e = Some (x, v)) \<or>
       map_of (seen t) e = map_of (seen s) e)"

lemma embed_one_result:
  "\<exists>ok t. embed_one E (e, x) s = (Inr ok, t) \<and> attempted [(e, x)] s t \<and>
    failed_total t = failed_total s + (if ok then 0 else 1)"
proof -
  obtain q s1 where g: "get_embedding E x s = (q, s1)" by (cases "get_embedding E x s")
  obtain n where n: "s1 = s\<lparr>requests := n\<rparr>" using get_embedding_result(2) [OF g] by blast
  show ?thesis
  proof (cases q)
    case (Inl z)
    then have "embed_one E (e, x) s = (Inr False, s\<lparr>requests := n, failed_total := Suc (failed_total s)\<rparr>)"
      using g n by (simp add: embed_one_def embed_and_write_def try_except_def bind_def modify_def ret_def)
    then show ?thesis
      by (intro exI [of _ False] exI [of _ "s\<lparr>requests := n, failed_total := Suc (failed_total s)\<rparr>"]) (simp add: attempted_def tables_of_node_def)
  next
    case (Inr v)
    obtain r s2 where i: "insert_embedding e x v s1 = (r, s2)" by (cases "insert_embedding e x v s1")
    note ir = insert_embedding_result [OF i]
    have f: "tables_of_node s2 = tables_of_node s" "seen s2 = seen s" "primed s2 = primed s" "failed_total s2 = failed_total s"
      using ir(1) n by (simp_all add: frame_def tables_of_node_def)
    show ?thesis
    proof (cases r)
      case (Inl z)
      then have "embed_one E (e, x) s = (Inr False, s2\<lparr>failed_total := Suc (failed_total s2)\<rparr>)"
        using g Inr i by (simp add: embed_one_def embed_and_write_def try_except_def bind_def modify_def ret_def)
      then show ?thesis using f ir(3) n
        by (intro exI [of _ False] exI [of _ "s2\<lparr>failed_total := Suc (failed_total s2)\<rparr>"])
          (auto simp: attempted_def tables_of_node_def update_conv')
    next
      case r: (Inr u)
      then have "embed_one E (e, x) s = (Inr True, s2\<lparr>seen := AList.update e (snippet_key x) (seen s2)\<rparr>)"
        using g Inr i by (simp add: embed_one_def embed_and_write_def try_except_def bind_def modify_def ret_def)
      moreover have "embeddings s2 = AList.update e (x, v) (embeddings s)" using ir(2) r n by simp
      ultimately show ?thesis using f
        by (intro exI [of _ True] exI [of _ "s2\<lparr>seen := AList.update e (snippet_key x) (seen s2)\<rparr>"])
          (auto simp: attempted_def tables_of_node_def update_conv')
    qed
  qed
qed

lemma embed_all_result:
  assumes "distinct (map fst b)"
  shows "\<exists>oks t. map_pm (embed_one E) b s = (Inr oks, t) \<and> attempted b s t \<and>
    failed_total t + length (filter (\<lambda>b. b) oks) = failed_total s + length b"
  using assms
proof (induction b arbitrary: s)
  case (Cons et b)
  obtain e x where et: "et = (e, x)" by (cases et)
  obtain ok s1 where o: "embed_one E et s = (Inr ok, s1)" "attempted [(e, x)] s s1"
    "failed_total s1 = failed_total s + (if ok then 0 else 1)" using embed_one_result [of E e x s] unfolding et by blast
  have "distinct (map fst b)" using Cons.prems by simp
  from Cons.IH [OF this, of s1] obtain oks t where t: "map_pm (embed_one E) b s1 = (Inr oks, t)" "attempted b s1 t"
    "failed_total t + length (filter (\<lambda>b. b) oks) = failed_total s1 + length b" by blast
  have nb: "map_of b e = None" using Cons.prems et by (simp add: map_of_eq_None_iff image_iff)
  have "attempted (et # b) s t" unfolding attempted_def et
  proof (intro conjI allI impI)
    show "tables_of_node t = tables_of_node s" "primed t = primed s" using o(2) t(2) by (simp_all add: attempted_def)
    fix e' assume "map_of ((e, x) # b) e' = None"
    then show "map_of (seen t) e' = map_of (seen s) e'" "map_of (embeddings t) e' = map_of (embeddings s) e'"
      using o(2) t(2) by (simp_all add: attempted_def split: if_splits)
  next
    fix e' x' assume "map_of ((e, x) # b) e' = Some x'"
    then consider "e' = e" "x' = x" | "e' \<noteq> e" "map_of b e' = Some x'" by (auto split: if_splits)
    then show "map_of (seen t) e' = Some (snippet_key x') \<and> (\<exists>v. map_of (embeddings t) e' = Some (x', v)) \<or>
        map_of (seen t) e' = map_of (seen s) e'"
    proof cases
      case 1
      then show ?thesis using o(2) t(2) nb by (simp add: attempted_def)
    next
      case 2
      then show ?thesis using o(2) t(2) unfolding attempted_def by (metis map_of_Cons_code)
    qed
  qed
  moreover have "failed_total t + length (filter (\<lambda>b. b) (ok # oks)) = failed_total s + length (et # b)" using o(3) t(3) by simp
  ultimately show ?case using o(1) t(1) by (intro exI [of _ "ok # oks"] exI [of _ t]) (simp add: bind_def ret_def)
qed (auto simp: ret_def attempted_def)

text \<open>A pass, whatever fails in it, as far as it completes.\<close>

lemma ensure_connected_frame: "ensure_connected e s = (r, t) \<Longrightarrow> frame t = frame s \<and> embeddings t = embeddings s"
proof -
  assume r: "ensure_connected e s = (r, t)"
  have c: "preserves (\<lambda>t. frame t = frame s \<and> embeddings t = embeddings s) (on_client (connect False))"
    using frame_on_client [OF keeps_connect] by (metis (no_types, lifting) preservesI surjective_pairing)
  have "preserves (\<lambda>t. frame t = frame s \<and> embeddings t = embeddings s) (ensure_connected e)"
    unfolding ensure_connected_def by (intro preserves_intros c)
  from preservesD [OF this, of s] r show ?thesis by simp
qed

lemma fetch_rows: "fetch f c = (Inr rs, c') \<Longrightarrow> rs = map wire_row (f (tables (fnode c)))"
proof -
  assume r: "fetch f c = (Inr rs, c')"
  obtain q c1 where s: "session c = (q, c1)" by (cases "session c")
  have "tables (fnode c1) = tables (fnode c)" using preservesD [OF keeps_session, where s = c, OF refl] s by simp
  moreover have "rs = map wire_row (f (tables (fnode c1)))"
    using r s by (auto simp: fetch_def bind_def ret_def node_def execute_query_def node_call_def
      split: prod.splits sum.splits list.splits fault.splits)
  ultimately show ?thesis by simp
qed

lemma snippets_read:
  assumes "read_snippets s = (Inr rs, t)"
  shows "List.map_filter snippet_of rs = snippets s" and "frame t = frame s" and "embeddings t = embeddings s"
proof -
  show "frame t = frame s" "embeddings t = embeddings s"
    using frame_on_client [OF keeps_fetch assms [unfolded read_snippets_def]] by simp_all
  obtain c where "fetch (\<lambda>d. map (project [''entity_id'', ''text_payload'']) (select_all ''drone_latest_status'' d)) (vclient s) = (Inr rs, c)"
    using assms by (auto simp: read_snippets_def on_client_def split: prod.splits)
  from fetch_rows [OF this] show "List.map_filter snippet_of rs = snippets s" by (simp add: snippets_def)
qed

lemma live_pass_result:
  assumes p: "live_pass E s = (Inr (), t)" and k: "primed s" and g: "gathers E" and d: "distinct (map fst (snippets s))"
  shows "attempted (take (max_per_cycle E) (stale s)) s t" and "snippets t = snippets s"
    and "last_embedded t + failed_total t = failed_total s + length (take (max_per_cycle E) (stale s))"
proof -
  obtain u1 s1 where c: "ensure_connected (Exn ''Cassandra unavailable'') s = (Inr u1, s1)"
    using p by (auto simp: live_pass_def bind_def split: prod.splits sum.splits)
  have f1: "frame s1 = frame s" "embeddings s1 = embeddings s" using ensure_connected_frame [OF c] by simp_all
  define s2 where "s2 = s1\<lparr>epoch_reads := Suc (epoch_reads s1)\<rparr>"
  have f2: "frame s2 = frame s" "embeddings s2 = embeddings s" "primed s2"
    using f1 k by (simp_all add: s2_def frame_def tables_of_node_def)
  obtain rs s3 where r: "read_snippets s2 = (Inr rs, s3)"
    using p c f2(3) by (auto simp: live_pass_def bind_def epoch_time_def gets_def ret_def s2_def split: prod.splits sum.splits)
  note rr = snippets_read [OF r]
  have sn: "snippets s2 = snippets s" using f2(1) by (simp add: snippets_def frame_def tables_of_node_def)
  have f3: "tables_of_node s3 = tables_of_node s" "seen s3 = seen s" "primed s3 = primed s" "failed_total s3 = failed_total s"
    "embeddings s3 = embeddings s" using rr(2,3) f2 by (simp_all add: frame_def)
  have ch: "changed_snippets (seen s3) rs = stale s" using rr(1) sn f3(2) by (simp add: changed_snippets_def stale_def)
  define b where "b = take (max_per_cycle E) (stale s)"
  have "distinct (map fst (stale s))" using d unfolding stale_def by (rule distinct_map_filter)
  then have db: "distinct (map fst b)" unfolding b_def by (simp add: take_map [symmetric])
  define s4 where "s4 = s3\<lparr>pending := length (stale s) - length b\<rparr>"
  have m: "mset (gather E (requests s3) b) = mset b" using g by (simp add: gathers_def)
  have "mset (map fst (gather E (requests s3) b)) = mset (map fst b)" using m by simp
  then have dg: "distinct (map fst (gather E (requests s3) b))" using db mset_eq_imp_distinct_iff by blast
  from embed_all_result [OF dg, of E s4] obtain oks s5 where
    e: "map_pm (embed_one E) (gather E (requests s3) b) s4 = (Inr oks, s5)" "attempted (gather E (requests s3) b) s4 s5"
      "failed_total s5 + length (filter (\<lambda>b. b) oks) = failed_total s4 + length (gather E (requests s3) b)" by blast
  have lb: "length (gather E (requests s3) b) = length b" using m by (metis size_mset)
  have lm: "min (length (stale s)) (max_per_cycle E) = length b" by (simp add: b_def)
  have pr1: "primed s1" using f1 k by (simp add: frame_def)
  have "tracked t = tracked s5 \<and> last_embedded t = length (filter (\<lambda>b. b) oks)"
    using p c pr1 r ch e(1)
    by (simp add: live_pass_def bind_def epoch_time_def gets_def ret_def modify_def Let_def s2_def [symmetric] b_def [symmetric]
        lm s4_def [symmetric]) (auto simp: tracked_def)
  then have t: "tables_of_node t = tables_of_node s5" "seen t = seen s5" "primed t = primed s5" "embeddings t = embeddings s5"
    "failed_total t = failed_total s5" "last_embedded t = length (filter (\<lambda>b. b) oks)"
    by (simp_all add: tracked_def tables_of_node_def)
  have s4: "tables_of_node s4 = tables_of_node s" "seen s4 = seen s" "primed s4 = primed s" "embeddings s4 = embeddings s"
    "failed_total s4 = failed_total s" using f3 by (simp_all add: s4_def tables_of_node_def)
  have mo: "map_of (gather E (requests s3) b) = map_of b" using db dg mset_eq_setD [OF m] map_of_inject_set by blast
  have a: "attempted b s t" using e(2) unfolding attempted_def t s4 mo .
  then show "attempted (take (max_per_cycle E) (stale s)) s t" by (simp add: b_def)
  show "snippets t = snippets s" using a by (simp add: attempted_def snippets_def tables_of_node_def)
  show "last_embedded t + failed_total t = failed_total s + length (take (max_per_cycle E) (stale s))"
    using e(3) lb t(5,6) s4(5) by (simp add: b_def)
qed

section \<open>Properties of the live embedder\<close>

text \<open>
  C35. The index catches up: on a node that answers, with what is recorded in step with what is stored,
  after passes enough for the snippets that changed every asset with a snippet has an embedding of a
  text with that snippet's digest, nothing is left over, and exactly the changed snippets were
  embedded: one that did not change is never embedded again.
\<close>

theorem passes_catch_up:
  assumes "steady (vclient s)" and "well_sized E" and "gathers E" and "primed s" and "distinct (map fst (snippets s))"
    and "recorded_ok s" and "length (stale s) \<le> n * max_per_cycle E"
  shows "let t = live_passes E n s in list_all (current t) (snippets s) \<and> stale t = [] \<and>
    embedded_total t = embedded_total s + length (stale s) \<and> failed_total t = failed_total s"
proof -
  note l = live_passes_steady [OF assms(1-6), of n, unfolded Let_def]
  have st: "stale (live_passes E n s) = []" using l assms(7) by simp
  then have "list_all (current (live_passes E n s)) (snippets s)"
    using l fresh_current [of "live_passes E n s"] by (simp add: list_all_iff)
  with l st assms(7) show ?thesis by (simp add: Let_def min_absorb2)
qed

text \<open>
  Property. Every snippet a pass takes is accounted for, whatever fails: the pass counts each as embedded
  or failed; what is not changed any more has its embedding stored; and what failed has changed still, so
  that a later pass takes it again.
\<close>

theorem failed_writes_are_retried:
  assumes "live_pass E s = (Inr (), t)" and "primed s" and "gathers E" and "distinct (map fst (snippets s))"
  shows "last_embedded t + failed_total t = failed_total s + min (length (stale s)) (max_per_cycle E) \<and>
    set (stale t) \<subseteq> set (stale s) \<and>
    (\<forall>(e, x) \<in> set (stale s) - set (stale t). \<exists>v. map_of (embeddings t) e = Some (x, v))"
proof -
  note r = live_pass_result [OF assms]
  let ?b = "take (max_per_cycle E) (stale s)"
  have sub: "set (stale s) \<subseteq> set (snippets s)" by (auto simp: stale_def)
  have key: "map_of ?b e = Some y \<Longrightarrow> (e, x) \<in> set (snippets s) \<Longrightarrow> y = x" for e x y
    using sub assms(4) by (meson eq_key_imp_eq_value in_set_takeD map_of_SomeD subsetD)
  have st: "(e, x) \<in> set (stale u) \<longleftrightarrow> (e, x) \<in> set (snippets u) \<and> map_of (seen u) e \<noteq> Some (snippet_key x)" for u e x
    by (auto simp: stale_def)
  have now_seen: "map_of (seen t) e = map_of (seen s) e \<or> map_of (seen t) e = Some (snippet_key x) \<and> (\<exists>v. map_of (embeddings t) e = Some (x, v))"
    if "(e, x) \<in> set (snippets s)" for e x
  proof (cases "map_of ?b e")
    case None
    then show ?thesis using r(1) by (simp add: attempted_def)
  next
    case (Some y)
    then have "y = x" using key that by blast
    then show ?thesis using r(1) Some unfolding attempted_def by blast
  qed
  have "set (stale t) \<subseteq> set (stale s)"
  proof
    fix et assume et: "et \<in> set (stale t)"
    obtain e x where ex: "et = (e, x)" by (cases et)
    have "(e, x) \<in> set (snippets s)" "map_of (seen t) e \<noteq> Some (snippet_key x)" using et ex st r(2) by auto
    with now_seen [OF this(1)] show "et \<in> set (stale s)" using st ex by auto
  qed
  moreover have "\<exists>v. map_of (embeddings t) e = Some (x, v)" if "(e, x) \<in> set (stale s) - set (stale t)" for e x
  proof -
    have i: "(e, x) \<in> set (snippets s)" "map_of (seen s) e \<noteq> Some (snippet_key x)" "map_of (seen t) e = Some (snippet_key x)"
      using that st [of e x s] st [of e x t] r(2) by auto
    with now_seen [OF i(1)] show ?thesis by auto
  qed
  ultimately show ?thesis using r(3) by (auto simp: min.commute)
qed

text \<open>Two assets, one snippet embedded a pass.\<close>

definition asset_row :: "string \<Rightarrow> string \<Rightarrow> cval list \<times> row" where
  "asset_row e t = ([CText e], [(''entity_id'', CText e), (''text_payload'', CText t)])"

definition fleet_of :: "(string \<times> string) list \<Rightarrow> cassandra_client" where
  "fleet_of xs = client_on (empty_db(''drone_latest_status'' := map (\<lambda>(e, t). asset_row e t) xs))"

definition demo_vector :: "nat \<Rightarrow> vector_env" where
  "demo_vector n = \<lparr>openai_api_key = [], max_per_cycle = n, remote_embedding = (\<lambda>_ _. Inl (Exn ''no endpoint'')),
     ann_search = (\<lambda>q k rows. take k (map (\<lambda>(e, t, v). (e, t, dot q v)) rows)), gather = (\<lambda>_ xs. xs)\<rparr>"

lemma demo_vector_ok: "well_sized (demo_vector n)" "gathers (demo_vector n)"
  by (simp_all add: demo_vector_def well_sized_def gathers_def)

lemma snippet_of_asset: "strip t \<noteq> [] \<Longrightarrow> snippet_of (wire_row (project [''entity_id'', ''text_payload''] (snd (asset_row e t)))) = Some (e, t)"
  by (simp add: snippet_of_def asset_row_def project_def wire_row_def row_get_def str_of_def)

lemma snippets_fleet:
  assumes "list_all (\<lambda>(e, t). strip t \<noteq> []) xs" and "vclient s = fleet_of xs"
  shows "snippets s = xs"
proof -
  have "List.map_filter snippet_of (map (wire_row \<circ> project [''entity_id'', ''text_payload''] \<circ> snd) (map (\<lambda>(e, t). asset_row e t) xs)) = xs"
    using assms(1) by (induction xs) (auto simp: List.map_filter_def snippet_of_asset)
  then show ?thesis
    using assms(2) by (simp add: snippets_def fleet_of_def client_on_def node_world_def select_all_def comp_assoc [symmetric])
qed

definition ready_embedder :: "(string \<times> string) list \<Rightarrow> embedder" where
  "ready_embedder xs = (start_embedder True (fleet_of xs) (\<lambda>_. 0))\<lparr>primed := True\<rparr>"

lemma ready_embedder:
  assumes "list_all (\<lambda>(e, t). strip t \<noteq> []) xs"
  shows "steady (vclient (ready_embedder xs))" "primed (ready_embedder xs)" "snippets (ready_embedder xs) = xs"
    "recorded_ok (ready_embedder xs)" "stale (ready_embedder xs) = xs" "embedded_total (ready_embedder xs) = 0"
proof -
  show "steady (vclient (ready_embedder xs))" "primed (ready_embedder xs)" "recorded_ok (ready_embedder xs)" "embedded_total (ready_embedder xs) = 0"
    by (simp_all add: ready_embedder_def start_embedder_def recorded_ok_def fleet_of_def client_on_steady)
  show sn: "snippets (ready_embedder xs) = xs"
    using snippets_fleet [OF assms] by (simp add: ready_embedder_def start_embedder_def)
  show "stale (ready_embedder xs) = xs" unfolding stale_def sn by (simp add: ready_embedder_def start_embedder_def)
qed

definition two_snippets :: "(string \<times> string) list" where
  "two_snippets = [(''a'', ''pier survey''), (''b'', ''roof check'')]"

lemma two_snippets: "list_all (\<lambda>(e, t). strip t \<noteq> []) two_snippets" "distinct (map fst two_snippets)"
  by code_simp+

theorem stored_vector_embeds_its_snippet_witness:
  "let s = fold (vector_step (demo_vector 1)) [One_Embedding (''a'', ''pier'')] (start_embedder True (fleet_of []) (\<lambda>_. 0)) in
   map_of (embeddings s) ''a'' = Some (''pier'', local_embedding ''pier'') \<and> length (local_embedding ''pier'') = 1536"
proof -
  let ?fresh = "start_embedder True (fleet_of []) (\<lambda>_. 0)"
  let ?s = "fold (vector_step (demo_vector 1)) [One_Embedding (''a'', ''pier'')] ?fresh"
  have "steady (vclient ?fresh)" by (simp add: start_embedder_def fleet_of_def client_on_steady)
  then have "map_of (embeddings ?s) ''a'' = Some (''pier'', local_embedding ''pier'')"
    using insert_embedding_steady [of ?fresh "''a''" "''pier''" "local_embedding ''pier''"]
    by (simp add: index_one_def embed_and_write_def get_embedding_def demo_vector_def bind_def ret_def try_except_def update_conv')
  with stored_vector_embeds_its_snippet [OF this] show ?thesis by (simp add: Let_def)
qed

theorem passes_catch_up_witness:
  "stale (live_passes (demo_vector 1) 2 (ready_embedder two_snippets)) = [] \<and>
   embedded_total (live_passes (demo_vector 1) 2 (ready_embedder two_snippets)) = 2"
proof -
  note r = ready_embedder [OF two_snippets(1)]
  have "length (stale (ready_embedder two_snippets)) \<le> 2 * max_per_cycle (demo_vector 1)"
    unfolding r(5) by (simp add: two_snippets_def demo_vector_def)
  moreover have "distinct (map fst (snippets (ready_embedder two_snippets)))" using r(3) two_snippets(2) by simp
  ultimately show ?thesis using passes_catch_up [OF r(1) demo_vector_ok r(2) _ r(4), of 2] r(5,6)
    by (simp add: Let_def two_snippets_def)
qed

text \<open>The second asset's embedding is lost on the way: it stays to be embedded.\<close>

definition failing_embedder :: embedder where
  "failing_embedder = (ready_embedder two_snippets)\<lparr>vclient := (fleet_of two_snippets)
     \<lparr>fnode := (fnode (fleet_of two_snippets))\<lparr>faults := [Reply, Reply, LostBefore ''timeout'']\<rparr>\<rparr>\<rparr>"

lemma failing_pass:
  "\<exists>t. live_pass (demo_vector 2) failing_embedder = (Inr (), t) \<and> failed_total t = 1 \<and> last_embedded t = 1 \<and>
    map_of (seen t) ''b'' = None"
proof -
  have st: "strip ''pier survey'' \<noteq> []" "strip ''roof check'' \<noteq> []" by code_simp+
  have sn: "snippet_of (wire_row (project [''entity_id'', ''text_payload''] [(''entity_id'', CText e), (''text_payload'', CText t)])) = Some (e, t)"
    if "strip t \<noteq> []" for e t using snippet_of_asset [OF that, of e] by (simp add: asset_row_def)
  show ?thesis
    by (simp add: live_pass_def failing_embedder_def ready_embedder_def start_embedder_def fleet_of_def client_on_def node_world_def
      two_snippets_def asset_row_def demo_vector_def ensure_connected_def epoch_time_def read_snippets_def on_client_def fetch_def session_def
      node_def execute_query_def execute_write_def node_call_def bind_def gets_def ret_def modify_def Let_def select_all_def
      changed_snippets_def List.map_filter_def sn st embed_one_def embed_and_write_def get_embedding_def insert_embedding_def lands_def
      try_except_def)
qed

theorem failed_writes_are_retried_witness:
  "\<exists>t. live_pass (demo_vector 2) failing_embedder = (Inr (), t) \<and> last_embedded t + failed_total t = 2 \<and>
    (''b'', ''roof check'') \<in> set (stale t)"
proof -
  obtain t where t: "live_pass (demo_vector 2) failing_embedder = (Inr (), t)" "failed_total t = 1" "last_embedded t = 1"
    "map_of (seen t) ''b'' = None" using failing_pass by blast
  have sn: "snippets failing_embedder = two_snippets"
    using ready_embedder(3) [OF two_snippets(1)] by (simp add: failing_embedder_def snippets_def ready_embedder_def start_embedder_def)
  have "stale failing_embedder = two_snippets"
    unfolding stale_def sn by (simp add: failing_embedder_def ready_embedder_def start_embedder_def)
  moreover have "primed failing_embedder" "failed_total failing_embedder = 0"
    by (simp_all add: failing_embedder_def ready_embedder_def start_embedder_def)
  ultimately have "last_embedded t + failed_total t = 2"
    using failed_writes_are_retried [OF t(1) _ demo_vector_ok(2)] sn two_snippets(2) by (simp add: two_snippets_def demo_vector_def)
  moreover have "snippets t = two_snippets"
    using live_pass_result(2) [OF t(1) _ demo_vector_ok(2)] sn two_snippets(2) \<open>primed failing_embedder\<close> by simp
  then have "(''b'', ''roof check'') \<in> set (stale t)" using t(4) by (simp add: stale_def two_snippets_def)
  ultimately show ?thesis using t(1) by blast
qed

definition overtaken :: "nat \<Rightarrow> embedder" where
  "overtaken n = fold (vector_step (demo_vector 64))
     ([Meanwhile (\<lambda>_. fleet_of [(''a'', ''roof check'')]), Live_Turn, One_Embedding (''a'', ''pier survey'')] @ replicate n Live_Turn)
     (ready_embedder [(''a'', ''pier survey'')])"

lemma overtaken_turns:
  assumes "steady (vclient s)" and "primed s" and "distinct (map fst (snippets s))" and "stale s = []"
  shows "let t = fold (vector_step (demo_vector 64)) (replicate n Live_Turn) s in
    snippets t = snippets s \<and> (\<forall>e. map_of (embeddings t) e = map_of (embeddings s) e)"
  using assms
proof (induction n arbitrary: s)
  case (Suc n)
  let ?t = "vector_step (demo_vector 64) Live_Turn s"
  have "\<exists>u. embedded [] s u \<and> tracked ?t = tracked u"
  proof (cases "live_enabled s")
    case True
    from live_pass_steady [OF Suc.prems(1) demo_vector_ok(1,2) Suc.prems(2,3), of 64] Suc.prems(4)
    obtain u where "live_pass (demo_vector 64) s = (Inr (), u)" "embedded [] s u" by auto
    then show ?thesis using True
      by (intro exI [of _ u]) (simp add: live_turn_def bind_def gets_def try_except_def modify_def tracked_def)
  next
    case False
    then show ?thesis by (intro exI [of _ s]) (simp add: live_turn_def bind_def gets_def ret_def embedded_def)
  qed
  then have e: "embedded [] s ?t" using embedded_tracked [of s s] by blast
  have c: "vclient ?t = vclient s" "primed ?t = primed s" "snippets ?t = snippets s" using e snippets_embedded [OF e] by (simp_all add: embedded_def)
  have "stale ?t = []" using stale_after [of 0 s ?t] e Suc.prems(3,4) by simp
  from Suc.IH [OF _ _ _ this] c Suc.prems embeddedD(1) [OF e] show ?case by (simp add: Let_def)
qed (simp add: Let_def)

text \<open>
  C36. An indexing run can leave the index behind for good. A run that read the old snippet of an asset
  and writes it after the live embedder has embedded the new one replaces the newer row; the live
  embedder has recorded the new snippet as done and, in any number of turns, never embeds it again.
\<close>

theorem indexing_can_undo_a_newer_embedding:
  "snippets (overtaken n) = [(''a'', ''roof check'')] \<and>
   map_of (embeddings (overtaken n)) ''a'' = Some (''pier survey'', local_embedding ''pier survey'')"
proof -
  define s1 where "s1 = (ready_embedder [(''a'', ''pier survey'')])\<lparr>vclient := fleet_of [(''a'', ''roof check'')]\<rparr>"
  define s2 where "s2 = vector_step (demo_vector 64) Live_Turn s1"
  define s3 where "s3 = vector_step (demo_vector 64) (One_Embedding (''a'', ''pier survey'')) s2"
  have sp: "list_all (\<lambda>(e, t). strip t \<noteq> []) [(''a'', ''roof check'')]" by code_simp
  have st1: "steady (vclient s1)" "primed s1" "seen s1 = []" "live_enabled s1"
    by (simp_all add: s1_def fleet_of_def client_on_steady ready_embedder_def start_embedder_def)
  have sn1: "snippets s1 = [(''a'', ''roof check'')]" using snippets_fleet [OF sp, of s1] by (simp add: s1_def)
  then have stale1: "stale s1 = [(''a'', ''roof check'')]" by (simp add: stale_def st1(3))
  have "\<exists>u. live_pass (demo_vector 64) s1 = (Inr (), u) \<and> embedded [(''a'', ''roof check'')] s1 u"
    using live_pass_steady [OF st1(1) demo_vector_ok(1,2) st1(2), of 64] sn1 stale1 by (auto simp: demo_vector_def)
  then obtain u where u: "live_pass (demo_vector 64) s1 = (Inr (), u)" "embedded [(''a'', ''roof check'')] s1 u" by blast
  have "tracked s2 = tracked u"
    using u(1) st1(4) by (simp add: s2_def live_turn_def bind_def gets_def try_except_def modify_def tracked_def)
  then have e2: "embedded [(''a'', ''roof check'')] s1 s2" using embedded_tracked [of s1 s1 s2 u] u(2) by simp
  have c2: "vclient s2 = vclient s1" "primed s2" "map_of (seen s2) ''a'' = Some (snippet_key ''roof check'')"
    using e2 st1(2) embeddedD(2) [OF e2, of "''a''"] by (simp_all add: embedded_def)
  have "s3 = s2\<lparr>embeddings := AList.update ''a'' (''pier survey'', local_embedding ''pier survey'') (embeddings s2)\<rparr>"
    using insert_embedding_steady [of s2] c2(1) st1(1)
    by (simp add: s3_def index_one_def embed_and_write_def get_embedding_def demo_vector_def bind_def ret_def try_except_def)
  then have c3: "vclient s3 = vclient s1" "primed s3" "seen s3 = seen s2"
    "map_of (embeddings s3) ''a'' = Some (''pier survey'', local_embedding ''pier survey'')"
    using c2 by (simp_all add: update_conv')
  have sn3: "snippets s3 = [(''a'', ''roof check'')]" using sn1 c3(1) by (simp add: snippets_def)
  then have "stale s3 = []" by (simp add: stale_def c3(3) c2(3))
  moreover have "overtaken n = fold (vector_step (demo_vector 64)) (replicate n Live_Turn) s3"
    unfolding overtaken_def s3_def s2_def s1_def by (simp add: ready_embedder_def)
  ultimately show ?thesis using overtaken_turns [of s3 n, OF _ c3(2)] c3 sn3 st1(1) by (simp add: Let_def)
qed

end
