(* ===== verification/Explorer.thy ===== *)
theory Explorer
  imports Fleet Sql_Console Console "HOL-Library.AList" "HOL-Library.Multiset"
begin

text \<open>
  The schema explorer (\<open>src/backend/app/routes/schema_explorer.py\<close>): the demo keyspace as Cassandra
  describes it and the tables of the Postgres-dialect service as its catalogs do, with the schema classes of
  \<open>models.py\<close>. Cassandra's catalog is a parameter, the rows it answers with (\<open>schema_catalog\<close>), read through the client
  of \<open>Fleet\<close>; the other side is read through the client of \<open>Sql_Console\<close>, whose casts of a
  value to \<open>int\<close> are the record \<open>casts\<close>. What a read raised appears in the view, as the code has it.
\<close>

section \<open>The view\<close>

record schema_column =
  sc_name :: string
  sc_type :: string
  sc_kind :: string
  sc_position :: int
  sc_order :: string

record schema_index =
  si_name :: string
  si_table :: string
  si_detail :: string
  si_target :: string

record schema_table =
  st_name :: string
  st_columns :: "schema_column list"
  st_mode :: string
  st_row_count :: "int option"
  st_create :: string
  st_note :: string

record schema_view =
  sv_engine :: string
  sv_keyspace :: string
  sv_tables :: "schema_table list"
  sv_indexes :: "schema_index list"
  sv_storage :: "string list"
  sv_warnings :: "string list"
  sv_error :: "string option"

definition table_named :: "string \<Rightarrow> schema_table" where
  "table_named name = \<lparr>st_name = name, st_columns = [], st_mode = [], st_row_count = None, st_create = [], st_note = []\<rparr>"

definition view_of :: "string \<Rightarrow> string \<Rightarrow> string list \<Rightarrow> schema_view" where
  "view_of engine keyspace storage = \<lparr>sv_engine = engine, sv_keyspace = keyspace, sv_tables = [], sv_indexes = [],
     sv_storage = storage, sv_warnings = [], sv_error = None\<rparr>"

section \<open>The CQL side\<close>

record described =
  d_type :: "string option"
  d_name :: "string option"
  d_create :: "string option"

record column_row =
  c_table :: string
  c_name :: string
  c_kind :: string
  c_position :: int
  c_order :: string
  c_type :: string

record index_row =
  i_table :: string
  i_name :: string
  i_kind :: "string option"
  i_options :: "(string \<times> string) list option"

record schema_catalog =
  describe_rows :: "string \<Rightarrow> described list"
  column_rows :: "string \<Rightarrow> column_row list"
  index_rows :: "string \<Rightarrow> index_row list"

definition SQL_STORAGE_KEYSPACES :: "string list" where
  "SQL_STORAGE_KEYSPACES = [''cassandra_sql'', ''cassandra_sql_internal'', ''pg_catalog'']"

definition UNKNOWN_TYPE :: string where
  "UNKNOWN_TYPE = ''unknown''"

text \<open>A match of \<open>_MODE\<close> at a position, and the leftmost one: the word between the quotes.\<close>

definition after_spaces :: "string \<Rightarrow> string" where
  "after_spaces = dropWhile is_space"

definition mode_here :: "string \<Rightarrow> string option" where
  "mode_here s =
    (if \<not> starts_with ''transactional_mode'' s then None
     else case after_spaces (drop 18 s) of
       [] \<Rightarrow> None
     | c # r \<Rightarrow> if c \<noteq> CHR ''='' then None else (case after_spaces r of
         [] \<Rightarrow> None
       | q # r \<Rightarrow> if q \<noteq> CHR 39 then None
           else let w = takeWhile is_word r; r = dropWhile is_word r in
             if w \<noteq> [] \<and> r \<noteq> [] \<and> hd r = CHR 39 then Some w else None))"

fun find_mode :: "string \<Rightarrow> string option" where
  "find_mode [] = None"
| "find_mode (c # s) = (case mode_here (c # s) of Some m \<Rightarrow> Some m | None \<Rightarrow> find_mode s)"

definition read_catalog :: "'a \<Rightarrow> 'a fleet" where
  "read_catalog rows = bind session (\<lambda>_. node (execute_query (\<lambda>_. rows)))"

definition or_empty :: "string option \<Rightarrow> string" where
  "or_empty v = (case v of None \<Rightarrow> [] | Some s \<Rightarrow> s)"

definition held_or :: "'b \<Rightarrow> ('a \<times> 'b) list \<Rightarrow> 'a \<Rightarrow> 'b" where
  "held_or b d k = (case map_of d k of None \<Rightarrow> b | Some v \<Rightarrow> v)"

definition note_described :: "described \<Rightarrow> (string \<times> (string \<times> string) list) list \<Rightarrow> (string \<times> (string \<times> string) list) list" where
  "note_described r d = (let t = or_empty (d_type r) in
     AList.update t (AList.update (or_empty (d_name r)) (or_empty (d_create r)) (held_or [] d t)) d)"

definition describe_keyspace :: "schema_catalog \<Rightarrow> string \<Rightarrow> (string \<times> (string \<times> string) list) list fleet" where
  "describe_keyspace C keyspace = bind (read_catalog (describe_rows C keyspace)) (\<lambda>rows. ret (fold note_described rows []))"

definition RANKS :: "(string \<times> nat) list" where
  "RANKS = [(''partition_key'', 0), (''clustering'', 1), (''static'', 2), (''regular'', 3)]"

definition column_key :: "column_row \<Rightarrow> nat \<times> int \<times> string" where
  "column_key c = (held_or 4 RANKS (c_kind c), c_position c, c_name c)"

definition schema_column_of :: "column_row \<Rightarrow> schema_column" where
  "schema_column_of c = \<lparr>sc_name = c_name c, sc_type = c_type c, sc_kind = c_kind c, sc_position = c_position c, sc_order = c_order c\<rparr>"

definition note_column :: "column_row \<Rightarrow> (string \<times> column_row list) list \<Rightarrow> (string \<times> column_row list) list" where
  "note_column r d = AList.update (c_table r) (held_or [] d (c_table r) @ [r]) d"

definition cql_columns :: "schema_catalog \<Rightarrow> string \<Rightarrow> (string \<times> schema_column list) list fleet" where
  "cql_columns C keyspace = bind (read_catalog (column_rows C keyspace)) (\<lambda>rows.
     ret (map (\<lambda>(t, cs). (t, map schema_column_of (sort_key column_key cs))) (fold note_column rows [])))"

text \<open>\<open>class_name.rsplit(".", 1)[-1]\<close>.\<close>

definition last_part :: "string \<Rightarrow> string" where
  "last_part s = rev (takeWhile (\<lambda>c. c \<noteq> CHR ''.'') (rev s))"

definition schema_index_of :: "index_row \<Rightarrow> schema_index" where
  "schema_index_of r =
    (let options = (case i_options r of None \<Rightarrow> [] | Some d \<Rightarrow> d); class_name = held_or (or_empty (i_kind r)) options ''class_name''
     in \<lparr>si_name = i_name r, si_table = i_table r, si_detail = last_part class_name, si_target = held_or [] options ''target''\<rparr>)"

definition cql_table :: "(string \<times> schema_column list) list \<Rightarrow> string \<times> string \<Rightarrow> schema_table" where
  "cql_table by_table t = (table_named (fst t))\<lparr>st_columns := held_or [] by_table (fst t),
     st_mode := or_empty (find_mode (snd t)), st_create := snd t\<rparr>"

definition accord_line :: "schema_table list \<Rightarrow> string" where
  "accord_line ts = nat_str (length (filter (\<lambda>t. st_mode t = ''full'') ts)) @ '' of '' @ nat_str (length ts) @
     '' tables route reads and writes through Accord; the rest, events included, do not, so a transaction against one of them is refused.''"

definition unread_indexes :: "exn \<Rightarrow> string" where
  "unread_indexes e = ''the index list could not be read: '' @ exn_str e"

definition cql_schema :: "schema_catalog \<Rightarrow> string \<Rightarrow> schema_view fleet" where
  "cql_schema C keyspace =
    (let view = view_of ''cassandra'' keyspace [keyspace] in
     bind (attempt (bind (describe_keyspace C keyspace) (\<lambda>d. bind (cql_columns C keyspace) (\<lambda>cs. ret (d, cs))))) (\<lambda>r. case r of
       Inl e \<Rightarrow> ret (view\<lparr>sv_error := Some (exn_str e)\<rparr>)
     | Inr (d, cs) \<Rightarrow>
         let ts = map (cql_table cs) (sort (held_or [] d ''table'')) in
         bind (attempt (read_catalog (index_rows C keyspace))) (\<lambda>i.
           ret (view\<lparr>sv_tables := ts,
             sv_indexes := (case i of Inl _ \<Rightarrow> [] | Inr rows \<Rightarrow> map schema_index_of rows),
             sv_warnings := (case i of Inl e \<Rightarrow> [unread_indexes e] | Inr _ \<Rightarrow> []) @ [accord_line ts]\<rparr>))))"

section \<open>The SQL side\<close>

record 'v casts =
  to_int :: "'v option \<Rightarrow> exn + int"
  to_count :: "'v option \<Rightarrow> exn + int"

type_synonym 'v sql_row = "(string \<times> 'v option) list"

definition row_cell :: "'v sql_row \<Rightarrow> string \<Rightarrow> ('s, 'v option) pm" where
  "row_cell r c = (case map_of (rev r) c of None \<Rightarrow> raise (Exn ([CHR 39] @ c @ [CHR 39])) | Some v \<Rightarrow> ret v)"

definition cell_str :: "('x, 'v) pg \<Rightarrow> 'v sql_row \<Rightarrow> string \<Rightarrow> ('s, string) pm" where
  "cell_str P r c = bind (row_cell r c) (\<lambda>v. ret (case v of None \<Rightarrow> ''None'' | Some v \<Rightarrow> shown P v))"

definition cast_cell :: "('v option \<Rightarrow> exn + int) \<Rightarrow> 'v sql_row \<Rightarrow> string \<Rightarrow> ('s, int) pm" where
  "cast_cell f r c = bind (row_cell r c) (\<lambda>v. case f v of Inl e \<Rightarrow> raise e | Inr i \<Rightarrow> ret i)"

definition sql_types :: "('x, 'v) pg \<Rightarrow> ('x, (string \<times> string) list) console" where
  "sql_types P =
    bind (attempt (client_execute_query P ''SELECT oid, typname FROM pg_catalog.pg_type'')) (\<lambda>r. case r of
      Inl _ \<Rightarrow> ret []
    | Inr rows \<Rightarrow> map_pm (\<lambda>row. bind (cell_str P row ''oid'') (\<lambda>i. bind (cell_str P row ''typname'') (\<lambda>t. ret (i, t)))) rows)"

definition attribute_column :: "('x, 'v) pg \<Rightarrow> (string \<times> string) list \<Rightarrow> 'v sql_row \<Rightarrow> ('s, schema_column) pm" where
  "attribute_column P types a =
    bind (cell_str P a ''attnotnull'') (\<lambda>n. let primary = (lower n = ''true'') in
    bind (cell_str P a ''attname'') (\<lambda>name. bind (cell_str P a ''atttypid'') (\<lambda>t.
      ret \<lparr>sc_name = name, sc_type = held_or UNKNOWN_TYPE (rev types) t, sc_kind = (if primary then ''primary key'' else ''regular''),
        sc_position = (if primary then 0 else -1), sc_order = ''none''\<rparr>)))"

definition columns_note :: "exn \<Rightarrow> string" where
  "columns_note e = ''columns could not be read: '' @ exn_str e @
     ''.  pg_attribute is created on first use, so a restarted cassandra-sql refuses it until one CREATE TABLE has run; POST /api/sql-console/reset is that CREATE.''"

definition read_count :: "('x, 'v) pg \<Rightarrow> 'v casts \<Rightarrow> string \<Rightarrow> ('x, int option) console" where
  "read_count P V name =
    bind (client_execute_query P (''SELECT COUNT(*) AS n FROM '' @ name)) (\<lambda>counted. case counted of
      [] \<Rightarrow> ret None
    | row # _ \<Rightarrow> bind (cast_cell (to_count V) row ''n'') (\<lambda>i. ret (Some i)))"

definition sql_table :: "('x, 'v) pg \<Rightarrow> 'v casts \<Rightarrow> (string \<times> string) list \<Rightarrow> 'v sql_row \<Rightarrow> ('x, schema_table) console" where
  "sql_table P V types relation =
    bind (cell_str P relation ''relname'') (\<lambda>name.
    bind (attempt (bind (cast_cell (to_int V) relation ''oid'') (\<lambda>i. client_execute_query P
      (''SELECT attname, attnum, atttypid, attnotnull FROM pg_catalog.pg_attribute WHERE attrelid = '' @ int_str i @ '' ORDER BY attnum'')))) (\<lambda>r.
    case r of
      Inl e \<Rightarrow> ret ((table_named name)\<lparr>st_note := columns_note e\<rparr>)
    | Inr attributes \<Rightarrow>
        bind (map_pm (attribute_column P types) attributes) (\<lambda>cs.
        bind (attempt (read_count P V name)) (\<lambda>n.
          ret (case n of
            Inl e \<Rightarrow> (table_named name)\<lparr>st_columns := cs, st_note := ''no count: '' @ exn_str e\<rparr>
          | Inr k \<Rightarrow> (table_named name)\<lparr>st_columns := cs, st_row_count := k\<rparr>)))))"

text \<open>The listed indexes of live tables, up to a row that cannot be read.\<close>

fun live_indexes :: "('x, 'v) pg \<Rightarrow> string set \<Rightarrow> 'v sql_row list \<Rightarrow> ('s, schema_index list \<times> exn option) pm" where
  "live_indexes P live [] = ret ([], None)"
| "live_indexes P live (row # rows) =
    bind (attempt (bind (cell_str P row ''tablename'') (\<lambda>t. if t \<notin> live then ret None
      else bind (cell_str P row ''indexname'') (\<lambda>n. bind (cell_str P row ''indexdef'') (\<lambda>d.
        ret (Some \<lparr>si_name = n, si_table = t, si_detail = d, si_target = []\<rparr>)))))) (\<lambda>r. case r of
      Inl e \<Rightarrow> ret ([], Some e)
    | Inr i \<Rightarrow> bind (live_indexes P live rows) (\<lambda>(is, e). ret (case i of None \<Rightarrow> is | Some i \<Rightarrow> i # is, e)))"

definition stale_line :: "string list \<Rightarrow> string" where
  "stale_line stale = ''pg_indexes still lists indexes on '' @ join '', '' stale @
     '', which no longer exist; this catalog is not cleared by DROP TABLE, and DROP INDEX is not implemented in either form.''"

definition sql_indexes :: "('x, 'v) pg \<Rightarrow> string set \<Rightarrow> ('x, schema_index list \<times> string list) console" where
  "sql_indexes P live =
    bind (attempt (bind (client_execute_query P ''SELECT indexname, tablename, indexdef FROM pg_catalog.pg_indexes'') (\<lambda>listed.
      bind (map_pm (\<lambda>row. cell_str P row ''tablename'') listed) (\<lambda>names. ret (listed, sort (remdups (filter (\<lambda>n. n \<notin> live) names))))))) (\<lambda>r.
    case r of
      Inl e \<Rightarrow> ret ([], [unread_indexes e])
    | Inr (listed, stale) \<Rightarrow> bind (live_indexes P live listed) (\<lambda>(is, e).
        ret (is, case e of Some e \<Rightarrow> [unread_indexes e] | None \<Rightarrow> if stale = [] then [] else [stale_line stale])))"

definition NO_INFORMATION_SCHEMA :: string where
  "NO_INFORMATION_SCHEMA = ''There is no information_schema here, and pg_constraint is empty, so UNIQUE -- the one constraint this engine enforces -- is the one its catalog does not report.  pg_enum and pg_sequence do not exist, though the schema declares two ENUMs and a sequence.''"

definition PG_CLASS_SQL :: string where
  "PG_CLASS_SQL = ''SELECT oid, relname, relnatts FROM pg_catalog.pg_class WHERE relkind = '' @ [CHR 39] @ ''r'' @ [CHR 39]"

definition sql_schema :: "('x, 'v) pg \<Rightarrow> 'v casts \<Rightarrow> string \<Rightarrow> nat \<Rightarrow> string \<Rightarrow> ('x, schema_view) console" where
  "sql_schema P V host port database =
    (let view = view_of ''cassandra-sql'' database SQL_STORAGE_KEYSPACES in
     bind (ensure_ready P) (\<lambda>ready.
     if \<not> ready then ret (view\<lparr>sv_error := Some (''cassandra-sql is not reachable at '' @ host @ '':'' @ nat_str port)\<rparr>)
     else bind (sql_types P) (\<lambda>types.
       bind (attempt (client_execute_query P PG_CLASS_SQL)) (\<lambda>r. case r of
         Inl e \<Rightarrow> ret (view\<lparr>sv_error := Some (exn_str e)\<rparr>)
       | Inr relations \<Rightarrow>
           bind (map_pm (\<lambda>row. cell_str P row ''relname'') relations) (\<lambda>names.
           bind (map_pm (sql_table P V types) (map snd (sort_key fst (zip names relations)))) (\<lambda>ts.
           bind (sql_indexes P (set (map st_name ts))) (\<lambda>(is, ws).
             ret (view\<lparr>sv_tables := ts, sv_indexes := is, sv_warnings := ws @ [NO_INFORMATION_SCHEMA]\<rparr>))))))))"

section \<open>Lemmas\<close>

lemma map_pm_pairs:
  "map_pm f xs s = (Inr ys, t) \<Longrightarrow> (\<And>x y s t. f x s = (Inr y, t) \<Longrightarrow> R x y) \<Longrightarrow> list_all2 R xs ys"
proof (induction xs arbitrary: s ys)
  case (Cons x xs)
  then show ?case by (auto simp: bind_def ret_def split: prod.splits sum.splits)
qed (simp add: ret_def)

lemma read_catalog_result: "read_catalog rows s = (Inr rs, t) \<Longrightarrow> rs = rows"
  by (auto simp: read_catalog_def bind_def node_def execute_query_def node_call_def split: prod.splits sum.splits fault.splits)

lemma held_or_update: "held_or b (AList.update k v d) j = (if j = k then v else held_or b d j)"
  by (simp add: held_or_def update_conv')

subsection \<open>Grouping\<close>

lemma columns_grouped: "held_or [] (fold note_column rows []) t = filter (\<lambda>r. c_table r = t) rows"
proof (induction rows arbitrary: t rule: rev_induct)
  case (snoc r rows)
  then show ?case by (simp add: note_column_def held_or_update)
qed (simp add: held_or_def)

definition created_in :: "string \<Rightarrow> described list \<Rightarrow> string list" where
  "created_in t rows = map (\<lambda>r. or_empty (d_name r)) (filter (\<lambda>r. or_empty (d_type r) = t) rows)"

lemma described_keys:
  "distinct (map fst (held_or [] (fold note_described rows []) t)) \<and>
   set (map fst (held_or [] (fold note_described rows []) t)) = set (created_in t rows)"
proof (induction rows rule: rev_induct)
  case (snoc r rows)
  then show ?case
    by (auto simp: note_described_def held_or_update Let_def created_in_def distinct_update dom_update)
qed (simp add: held_or_def created_in_def)

lemma held_or_map: "f b = c \<Longrightarrow> held_or c (map (\<lambda>(k, v). (k, f v)) d) k = f (held_or b d k)"
  by (simp add: held_or_def map_of_map split: option.split)

subsection \<open>The CQL view\<close>

text \<open>The order of the key: the partition key by position, then the clustering columns by position, then the rest.\<close>

definition key_first :: "schema_column \<Rightarrow> schema_column \<Rightarrow> bool" where
  "key_first c d \<longleftrightarrow> (held_or 4 RANKS (sc_kind c), sc_position c, sc_name c) \<le> (held_or 4 RANKS (sc_kind d), sc_position d, sc_name d)"

lemma columns_ordered: "sorted_wrt key_first (map schema_column_of (sort_key column_key cs))"
proof -
  have "sorted (map column_key (sort_key column_key cs))" by (rule sorted_sort_key)
  then show ?thesis by (simp add: sorted_map sorted_wrt_map column_key_def key_first_def schema_column_of_def)
qed

lemma cql_columns_result:
  assumes "cql_columns C k s = (Inr by_table, t)"
  shows "held_or [] by_table name = map schema_column_of (sort_key column_key (filter (\<lambda>r. c_table r = name) (column_rows C k)))"
proof -
  have "by_table = map (\<lambda>(t, cs). (t, map schema_column_of (sort_key column_key cs))) (fold note_column (column_rows C k) [])"
    using assms unfolding cql_columns_def by (auto simp: bind_def ret_def split: prod.splits sum.splits dest: read_catalog_result)
  then show ?thesis
    using held_or_map [of "\<lambda>cs. map schema_column_of (sort_key column_key cs)" "[]" "[]" "fold note_column (column_rows C k) []" name] columns_grouped
    by simp
qed

lemma describe_keyspace_result: "describe_keyspace C k s = (Inr d, t) \<Longrightarrow> d = fold note_described (describe_rows C k) []"
  unfolding describe_keyspace_def by (auto simp: bind_def ret_def split: prod.splits sum.splits dest: read_catalog_result)


lemma read_catalog_steady: "steady s \<Longrightarrow> read_catalog rows s = (Inr rows, s)"
  by (simp add: steady_def read_catalog_def session_def bind_def gets_def ret_def node_def execute_query_def node_call_def)

definition small_catalog :: schema_catalog where
  "small_catalog = \<lparr>describe_rows = (\<lambda>k. [\<lparr>d_type = Some ''table'', d_name = Some ''seats'', d_create = None\<rparr>]),
     column_rows = (\<lambda>k. [\<lparr>c_table = ''seats'', c_name = ''at'', c_kind = ''clustering'', c_position = 0, c_order = ''asc'', c_type = ''int''\<rparr>,
       \<lparr>c_table = ''seats'', c_name = ''row_id'', c_kind = ''partition_key'', c_position = 0, c_order = ''none'', c_type = ''text''\<rparr>]),
     index_rows = (\<lambda>k. [])\<rparr>"


subsection \<open>The SQL view\<close>

lemma cell_str_name: "cell_str P r c s = (Inr x, t) \<Longrightarrow> cell_str P r c u = (Inr x, u)"
  by (auto simp: cell_str_def row_cell_def bind_def ret_def raise_def split: option.splits)

definition shown_name :: "('x, 'v) pg \<Rightarrow> 'v sql_row \<Rightarrow> string \<Rightarrow> bool" where
  "shown_name P r n \<longleftrightarrow> cell_str P r ''relname'' () = (Inr n, ())"

lemma cell_str_shown: "cell_str P r ''relname'' s = (Inr n, t) \<Longrightarrow> shown_name P r n"
  by (simp add: shown_name_def cell_str_name)

lemma shown_name_unique: "shown_name P r n \<Longrightarrow> shown_name P r m \<Longrightarrow> n = m"
  by (simp add: shown_name_def)

definition refusal_noted :: "schema_table \<Rightarrow> bool" where
  "refusal_noted tb \<longleftrightarrow> (st_note tb \<noteq> [] \<longrightarrow> st_row_count tb = None) \<and> (st_note tb = [] \<or>
     (\<exists>e. st_note tb = columns_note e \<and> st_columns tb = [] \<or> st_note tb = ''no count: '' @ exn_str e))"

lemma sql_table_result:
  assumes "sql_table P V types r s = (Inr tb, t)"
  shows "shown_name P r (st_name tb) \<and> refusal_noted tb"
  using assms unfolding sql_table_def
  by (auto simp: bind_def ret_def attempt_def refusal_noted_def table_named_def split: prod.splits sum.splits dest: cell_str_shown)

lemma live_indexes_live: "live_indexes P live rows s = (Inr (is, e), t) \<Longrightarrow> si_table ` set is \<subseteq> live"
proof (induction rows arbitrary: s "is" e)
  case (Cons row rows)
  then show ?case
    by (auto simp: bind_def ret_def attempt_def split: prod.splits sum.splits option.splits if_splits) fastforce+
qed (simp add: ret_def)

lemma sql_indexes_live: "sql_indexes P live s = (Inr (is, ws), t) \<Longrightarrow> si_table ` set is \<subseteq> live"
  unfolding sql_indexes_def
  by (auto simp: bind_def ret_def attempt_def split: prod.splits sum.splits dest: live_indexes_live)


definition lazy_pg :: "(unit, string) pg" where
  "lazy_pg = \<lparr>pg_connect = Pair (Inr 0), pg_execute = (\<lambda>c q x. if q = PROBE_SQL then (Inr None, x)
     else if q = PG_CLASS_SQL then (Inr (Some ([''oid'', ''relname''], [[Some ''1'', Some ''drones'']])), x)
     else (Inl (Exn ''refused''), x)), shown = (\<lambda>v. v)\<rparr>"

definition unit_casts :: "string casts" where
  "unit_casts = \<lparr>to_int = (\<lambda>v. Inr 1), to_count = (\<lambda>v. Inr 1)\<rparr>"

definition restarted :: "unit accord_sql_client" where
  "restarted = \<lparr>conn = None, connected = False, statement_lock = False, client_lock = False, server = (), perf = of_nat, perf_reads = 0\<rparr>"

lemma PG_CLASS_SQL_not_probe: "PG_CLASS_SQL \<noteq> PROBE_SQL"
  by (simp add: PG_CLASS_SQL_def PROBE_SQL_def)

lemma lazy_statement:
  assumes "q \<noteq> PROBE_SQL"
  shows "\<exists>t. client_execute_query lazy_pg q s =
    (if q = PG_CLASS_SQL then Inr [[(''oid'', Some ''1''), (''relname'', Some ''drones'')]] else Inl (Exn ''refused''), t)"
  using assms by (cases "conn s") (auto simp: client_execute_query_def client_execute_def open_conn_def probe_conn_def drop_conn_def on_server_def
      Sql_Console.perf_counter_def bind_def gets_def modify_def attempt_def ret_def raise_def lazy_pg_def)


end
