(* ===== verification/Window.thy ===== *)
theory Window
  imports Cql Buckets
begin

text \<open>
  Which window the compare page may ask about (\<open>_sink_consumed_past\<close>, \<open>_holds_events\<close> and
  \<open>get_window\<close> of \<open>src/backend/app/routes/query.py\<close>).

  Kafka is a parameter: the record \<open>kafka\<close> holds what its two clients answer, each answer an
  exception or a value. What the code relies on of it is the hypothesis \<open>kafka_honest\<close>, the
  documented meaning of the offsets Kafka reports over a log of record timestamps.

  The properties show that \<open>settled\<close> licenses what it claims, that no record the sink has still
  to consume can be filed under the window, and that the window named is the newest closed one
  that holds an event.
\<close>

section \<open>Whether the sink has consumed past a window\<close>

record kafka =
  open_consumer :: "exn + unit"
  partitions_for_topic :: "exn + nat list"
  open_admin :: "exn + unit"
  group_offsets :: "exn + (nat \<rightharpoonup> int)"
  offsets_for_times :: "int \<Rightarrow> exn + (nat \<rightharpoonup> int)"
  end_offsets :: "exn + (nat \<rightharpoonup> int)"

definition SETTLED_MARGIN_S :: int where
  "SETTLED_MARGIN_S = 60"

definition WINDOW_LOOKBACK :: nat where
  "WINDOW_LOOKBACK = 8"

text \<open>\<open>{n:,}\<close>: decimal digits in groups of three.\<close>

fun commas :: "nat \<Rightarrow> string" where
  "commas n = (if n < 1000 then nat_str n else commas (n div 1000) @ '','' @ pad0 3 (n mod 1000))"

declare commas.simps [simp del]

definition strftime_second :: "datetime \<Rightarrow> string" where
  "strftime_second f = strftime_minute f @ '':'' @ pad0 2 (nat (second f))"

text \<open>\<open>max(items, key=...)\<close>: the first of the greatest.\<close>

fun worst_of :: "(nat \<times> int) \<Rightarrow> (nat \<times> int) list \<Rightarrow> nat \<times> int" where
  "worst_of b [] = b"
| "worst_of b (x # xs) = worst_of (if snd b < snd x then x else b) xs"

text \<open>The partitions in turn: the records each is short of, or the answer that ends the scan.\<close>

fun short_partitions ::
  "string \<Rightarrow> (nat \<rightharpoonup> int) \<Rightarrow> (nat \<rightharpoonup> int) \<Rightarrow> (nat \<rightharpoonup> int) \<Rightarrow> nat list \<Rightarrow> string + (nat \<times> int) list" where
  "short_partitions topic committed beyond ends [] = Inr []"
| "short_partitions topic committed beyond ends (p # ps) =
    (case committed p of
       None \<Rightarrow> Inl (''the sink has committed no offset on partition '' @ nat_str p @ '' of '' @ topic)
     | Some pos \<Rightarrow>
       if pos < 0
       then Inl (''the sink has committed no offset on partition '' @ nat_str p @ '' of '' @ topic)
       else case (case beyond p of Some needed \<Rightarrow> Some needed | None \<Rightarrow> ends p) of
         None \<Rightarrow> Inl (''Kafka reported no end offset for partition '' @ nat_str p @ '' of '' @ topic)
       | Some needed \<Rightarrow>
           (case short_partitions topic committed beyond ends ps of
              Inl e \<Rightarrow> Inl e
            | Inr rest \<Rightarrow> Inr (if pos < needed then (p, needed - pos) # rest else rest)))"

definition sink_consumed_past :: "string \<Rightarrow> kafka \<Rightarrow> instant \<Rightarrow> bool \<times> string" where
  "sink_consumed_past topic k window_end =
    (let target = window_end + SETTLED_MARGIN_S * 1000000;
         target_ms = target div 1000;
         stamp = strftime_second (utc_fields target);
         failed = (\<lambda>e. (False, ''Kafka could not say where the sink is: '' @ exn_str e))
     in case open_consumer k of Inl e \<Rightarrow> failed e | Inr _ \<Rightarrow>
        case partitions_for_topic k of Inl e \<Rightarrow> failed e | Inr partitions \<Rightarrow>
        if partitions = [] then (False, ''Kafka reported no partitions for '' @ topic)
        else let assignment = sort (remdups partitions) in
        case open_admin k of Inl e \<Rightarrow> failed e | Inr _ \<Rightarrow>
        case group_offsets k of Inl e \<Rightarrow> failed e | Inr committed \<Rightarrow>
        case offsets_for_times k target_ms of Inl e \<Rightarrow> failed e | Inr first_beyond \<Rightarrow>
        case end_offsets k of Inl e \<Rightarrow> failed e | Inr ends \<Rightarrow>
        case short_partitions topic committed first_beyond ends assignment of
          Inl detail \<Rightarrow> (False, detail)
        | Inr [] \<Rightarrow> (True, ''all '' @ nat_str (length assignment) @ '' partitions of '' @ topic @
            '' are consumed past '' @ stamp @ ''Z'')
        | Inr (s # ss) \<Rightarrow>
            (let worst = worst_of s ss in
             (False, ''the sink has not consumed past '' @ stamp @ ''Z: '' @
               nat_str (length (s # ss)) @ '' of '' @ nat_str (length assignment) @
               '' partitions are short, '' @ commas (nat (sum_list (map snd (s # ss)))) @
               '' records in all, the worst partition '' @ nat_str (fst worst) @ '' by '' @
               commas (nat (snd worst)))))"

section \<open>The window to ask about\<close>

definition holds_rows :: "int \<Rightarrow> string \<Rightarrow> db \<Rightarrow> bool" where
  "holds_rows event_shards bucket d =
    list_ex (\<lambda>r. row_get r ''event_bucket'' = CText bucket \<and>
       row_get r ''shard'' \<in> CInt ` set (shards_named event_shards)) (select_all ''events'' d)"

definition holds_events :: "int \<Rightarrow> string \<Rightarrow> (world, bool) pm" where
  "holds_events event_shards bucket =
    try_except (execute_query (holds_rows event_shards bucket)) (\<lambda>_. ret False)"

record window_answer =
  bucket_minutes :: int
  shards :: int
  current :: string
  bucket :: string
  closed :: bool
  settled :: bool
  settled_detail :: string

fun walk_back ::
  "string \<Rightarrow> kafka \<Rightarrow> int \<Rightarrow> int \<Rightarrow> instant \<Rightarrow> nat list \<Rightarrow> (world, window_answer) pm" where
  "walk_back topic k event_bucket_minutes event_shards moment [] =
    ret \<lparr>bucket_minutes = max 1 event_bucket_minutes, shards = event_shards,
         current = bucket_for event_bucket_minutes moment,
         bucket = bucket_for event_bucket_minutes moment, closed = False, settled = False,
         settled_detail = ''the window is still filling''\<rparr>"
| "walk_back topic k event_bucket_minutes event_shards moment (step # steps) =
    (let minutes = max 1 event_bucket_minutes;
         start = bucket_start event_bucket_minutes (moment - minutes * int step * 60000000);
         candidate = strftime_minute (utc_fields start)
     in bind (holds_events event_shards candidate) (\<lambda>held.
       if held then
         (let (ok, detail) = sink_consumed_past topic k (start + minutes * 60000000) in
          ret \<lparr>bucket_minutes = minutes, shards = event_shards,
               current = bucket_for event_bucket_minutes moment, bucket = candidate,
               closed = True, settled = ok, settled_detail = detail\<rparr>)
       else walk_back topic k event_bucket_minutes event_shards moment steps))"

definition get_window :: "string \<Rightarrow> kafka \<Rightarrow> int \<Rightarrow> int \<Rightarrow> (world, window_answer) pm" where
  "get_window topic k event_bucket_minutes event_shards =
    bind now (\<lambda>moment.
      walk_back topic k event_bucket_minutes event_shards moment [1..<WINDOW_LOOKBACK + 1])"

section \<open>What Kafka and the producer promise\<close>

text \<open>
  The events topic as a log per partition, each record its stamp in milliseconds (the producer's
  clock at \<open>send\<close>) and the event time its identifier carries in microseconds.
\<close>

type_synonym topic_log = "nat \<Rightarrow> (int \<times> instant) list"

fun earliest :: "int \<Rightarrow> int list \<Rightarrow> nat option" where
  "earliest t [] = None"
| "earliest t (s # ss) = (if t \<le> s then Some 0 else map_option Suc (earliest t ss))"

text \<open>
  Documented behaviour of the two clients: the partitions named are all that hold records,
  \<open>offsets_for_times\<close> is the earliest offset whose stamp is at or past the time asked for, and an
  end offset, where one is reported, is the length of the partition.
\<close>

definition kafka_honest :: "topic_log \<Rightarrow> kafka \<Rightarrow> bool" where
  "kafka_honest rec k \<longleftrightarrow>
    (\<forall>ps p. partitions_for_topic k = Inr ps \<longrightarrow> rec p \<noteq> [] \<longrightarrow> p \<in> set ps) \<and>
    (\<forall>t b p. offsets_for_times k t = Inr b \<longrightarrow> b p = map_option int (earliest t (map fst (rec p)))) \<and>
    (\<forall>e p n. end_offsets k = Inr e \<longrightarrow> e p = Some n \<longrightarrow> n = int (length (rec p)))"

text \<open>
  The one clock the margin is chosen for: stamps do not decrease along a partition, and an event
  is stamped at most \<open>SETTLED_MARGIN_S\<close> after the time its identifier carries.
\<close>

definition one_clock :: "topic_log \<Rightarrow> bool" where
  "one_clock rec \<longleftrightarrow> (\<forall>p. sorted (map fst (rec p)) \<and>
    list_all (\<lambda>(stamp, event_time). stamp * 1000 \<le> event_time + SETTLED_MARGIN_S * 1000000) (rec p))"

section \<open>Lemmas\<close>

lemma earliest_Some:
  "earliest t ss = Some n \<Longrightarrow> sorted ss \<Longrightarrow> n \<le> i \<Longrightarrow> i < length ss \<Longrightarrow> t \<le> ss ! i"
proof (induction ss arbitrary: n i)
  case (Cons s ss)
  show ?case
  proof (cases "t \<le> s")
    case True
    have "s \<le> (s # ss) ! i" using Cons.prems by (cases i) auto
    then show ?thesis using True by simp
  next
    case False
    then obtain k where "earliest t ss = Some k" "n = Suc k" using Cons.prems by auto
    then show ?thesis using Cons.IH Cons.prems by (cases i) auto
  qed
qed simp

lemma short_partitions_covered:
  assumes "short_partitions topic committed beyond ends ps = Inr []" and "p \<in> set ps"
  shows "\<exists>pos. committed p = Some pos \<and> 0 \<le> pos \<and>
    (case beyond p of Some n \<Rightarrow> n \<le> pos | None \<Rightarrow> \<exists>n. ends p = Some n \<and> n \<le> pos)"
  using assms
proof (induction ps)
  case (Cons q qs)
  have "short_partitions topic committed beyond ends qs = Inr []"
    using Cons.prems(1) by (auto split: option.splits sum.splits if_splits)
  then show ?case
    using Cons.IH Cons.prems by (cases "p = q") (auto split: option.splits sum.splits if_splits)
qed simp

lemma sink_consumed_past_True:
  assumes "fst (sink_consumed_past topic k e)"
  obtains ps committed beyond ends where "partitions_for_topic k = Inr ps" "group_offsets k = Inr committed"
    "offsets_for_times k ((e + SETTLED_MARGIN_S * 1000000) div 1000) = Inr beyond"
    "end_offsets k = Inr ends" "short_partitions topic committed beyond ends (sort (remdups ps)) = Inr []"
  using assms unfolding sink_consumed_past_def Let_def
  by (simp split: sum.splits if_splits list.splits)

text \<open>Past the committed offset of a partition, every stamp is at or past the target.\<close>

lemma consumed_past_stamps:
  assumes honest: "kafka_honest rec k" and clock: "one_clock rec"
    and past: "fst (sink_consumed_past topic k e)" and p: "rec p \<noteq> []"
  shows "\<exists>committed pos. group_offsets k = Inr committed \<and> committed p = Some pos \<and> 0 \<le> pos \<and>
    (\<forall>i. nat pos \<le> i \<longrightarrow> i < length (rec p) \<longrightarrow> (e + SETTLED_MARGIN_S * 1000000) div 1000 \<le> fst (rec p ! i))"
proof -
  let ?t = "(e + SETTLED_MARGIN_S * 1000000) div 1000"
  obtain ps committed beyond ends where k: "partitions_for_topic k = Inr ps" "group_offsets k = Inr committed"
    "offsets_for_times k ?t = Inr beyond" "end_offsets k = Inr ends"
    and short: "short_partitions topic committed beyond ends (sort (remdups ps)) = Inr []"
    using past by (rule sink_consumed_past_True)
  have "p \<in> set (sort (remdups ps))" using honest p k(1) by (auto simp: kafka_honest_def)
  from short_partitions_covered [OF short this] obtain pos where
    pos: "committed p = Some pos" "0 \<le> pos"
      "case beyond p of Some n \<Rightarrow> n \<le> pos | None \<Rightarrow> \<exists>n. ends p = Some n \<and> n \<le> pos" by blast
  have b: "beyond p = map_option int (earliest ?t (map fst (rec p)))"
    and l: "\<And>n. ends p = Some n \<Longrightarrow> n = int (length (rec p))"
    using honest k by (auto simp: kafka_honest_def)
  have "?t \<le> fst (rec p ! i)" if i: "nat pos \<le> i" "i < length (rec p)" for i
  proof (cases "earliest ?t (map fst (rec p))")
    case None
    then have "int (length (rec p)) \<le> pos" using pos(3) b l by auto
    then show ?thesis using i by linarith
  next
    case (Some n)
    then have "n \<le> i" using pos(3) b i by simp
    moreover have "sorted (map fst (rec p))" using clock by (simp add: one_clock_def)
    ultimately show ?thesis using earliest_Some [OF Some] i by simp
  qed
  then show ?thesis using k(2) pos by blast
qed

section \<open>Properties\<close>


text \<open>A Kafka that answers as documented over a given log, for a sink at given offsets.\<close>

definition kafka_of :: "topic_log \<Rightarrow> nat list \<Rightarrow> (nat \<rightharpoonup> int) \<Rightarrow> kafka" where
  "kafka_of rec ps committed = \<lparr>open_consumer = Inr (), partitions_for_topic = Inr ps, open_admin = Inr (),
     group_offsets = Inr committed,
     offsets_for_times = (\<lambda>t. Inr (\<lambda>p. map_option int (earliest t (map fst (rec p))))),
     end_offsets = Inr (\<lambda>p. Some (int (length (rec p))))\<rparr>"

lemma kafka_of_honest: "(\<And>p. rec p \<noteq> [] \<Longrightarrow> p \<in> set ps) \<Longrightarrow> kafka_honest rec (kafka_of rec ps committed)"
  by (simp add: kafka_honest_def kafka_of_def)

definition two_partitions :: topic_log where
  "two_partitions p =
    (if p = 0 then [(1786000000000, 1785999999990000), (1786000860000, 1786000859990000)]
     else if p = 1 then [(1786000000000, 1785999999990000)] else [])"

definition caught_up :: "nat \<rightharpoonup> int" where
  "caught_up = [0 \<mapsto> 1, 1 \<mapsto> 1]"

lemma caught_up_past:
  "fst (sink_consumed_past ''events'' (kafka_of two_partitions [0, 1] caught_up)
     (bucket_start 15 1786000000000000 + 15 * 60000000))"
  by code_simp



section \<open>The window named\<close>

abbreviation filling :: "int \<Rightarrow> int \<Rightarrow> instant \<Rightarrow> window_answer" where
  "filling m sh moment \<equiv> \<lparr>bucket_minutes = max 1 m, shards = sh, current = bucket_for m moment,
     bucket = bucket_for m moment, closed = False, settled = False,
     settled_detail = ''the window is still filling''\<rparr>"

abbreviation closed_window :: "string \<Rightarrow> kafka \<Rightarrow> int \<Rightarrow> int \<Rightarrow> instant \<Rightarrow> instant \<Rightarrow> window_answer" where
  "closed_window topic k m sh moment start \<equiv>
    \<lparr>bucket_minutes = max 1 m, shards = sh, current = bucket_for m moment,
     bucket = strftime_minute (utc_fields start), closed = True,
     settled = fst (sink_consumed_past topic k (start + max 1 m * 60000000)),
     settled_detail = snd (sink_consumed_past topic k (start + max 1 m * 60000000))\<rparr>"

abbreviation window_back :: "int \<Rightarrow> instant \<Rightarrow> nat \<Rightarrow> instant" where
  "window_back m moment step \<equiv> bucket_start m (moment - max 1 m * int step * 60000000)"

lemma holds_events_run [pm_simps]:
  "faults w = [] \<Longrightarrow> holds_events sh b w = (Inr (holds_rows sh b (tables w)), w)"
  by (simp add: holds_events_def try_except_def execute_query_def node_call_def)

lemma holds_events_any:
  obtains held w' where "holds_events sh b w = (Inr held, w')" "tables w' = tables w"
    "held \<Longrightarrow> holds_rows sh b (tables w)"
  by (cases "faults w"; cases "hd (faults w)")
    (auto simp: holds_events_def try_except_def execute_query_def node_call_def ret_def)

lemma walk_back_run:
  assumes "faults w = []"
  shows "walk_back topic k m sh moment steps w =
    (Inr (case find (\<lambda>s. holds_rows sh (strftime_minute (utc_fields (window_back m moment s))) (tables w)) steps of
            None \<Rightarrow> filling m sh moment
          | Some s \<Rightarrow> closed_window topic k m sh moment (window_back m moment s)), w)"
  using assms by (induction steps) (simp_all add: pm_simps Let_def split_beta)

lemma walk_back_any:
  "\<exists>a w'. walk_back topic k m sh moment steps w = (Inr a, w') \<and> tables w' = tables w \<and>
    (a = filling m sh moment \<or> (\<exists>s \<in> set steps. a = closed_window topic k m sh moment (window_back m moment s) \<and>
       holds_rows sh (bucket a) (tables w)))"
proof (induction steps arbitrary: w)
  case (Cons s steps)
  obtain held w' where h: "holds_events sh (strftime_minute (utc_fields (window_back m moment s))) w = (Inr held, w')"
    "tables w' = tables w" "held \<Longrightarrow> holds_rows sh (strftime_minute (utc_fields (window_back m moment s))) (tables w)"
    using holds_events_any [of sh _ w] by blast
  show ?case using Cons.IH [of w'] h by (cases held) (auto simp: pm_simps h(1) Let_def split_beta)
qed (simp add: ret_run)

lemma back_start:
  assumes "1 \<le> m" and "m dvd 60"
  shows "window_back m moment s = bucket_start m moment - m * 60000000 * int s"
proof -
  define W where "W = m * 60000000"
  have W: "W \<noteq> 0" "moment - max 1 m * int s * 60000000 = moment + W * (- int s)"
    using assms(1) by (simp_all add: W_def)
  have "(moment + W * (- int s)) div W = moment div W - int s"
    using div_mult_self2 [OF W(1), of moment "- int s"] by simp
  then show ?thesis
    unfolding W(2) bucket_start_floor [OF assms] W_def [symmetric] by (simp only: right_diff_distrib)
qed

lemma window_back_over:
  assumes "1 \<le> s"
  shows "window_back m moment s + max 1 m * 60000000 \<le> moment"
proof -
  have "max 1 m * 60000000 * 1 \<le> max 1 m * 60000000 * int s" using assms by (intro mult_left_mono) auto
  then show ?thesis using bucket_start_window(1) [of m "moment - max 1 m * int s * 60000000"] by linarith
qed

lemma closed_windows_back:
  assumes "1 \<le> m" and "m dvd 60" and "bucket_start m t + m * 60000000 \<le> moment"
    and "bucket_start m moment - m * 60000000 * int n \<le> t"
  obtains s where "1 \<le> s" "s \<le> n" "window_back m moment s = bucket_start m t"
proof -
  let ?w = "m * 60000000"
  define q j where "q = moment div ?w" and "j = t div ?w"
  have w: "0 < ?w" using assms(1) by simp
  have st: "bucket_start m moment = ?w * q" "bucket_start m t = ?w * j"
    using bucket_start_floor [OF assms(1,2)] by (simp_all add: q_def j_def)
  have "?w * (j + 1) \<le> moment" using assms(3) unfolding st by (simp add: algebra_simps)
  then have "?w * (j + 1) div ?w \<le> q" unfolding q_def using w by (intro zdiv_mono1)
  then have "j + 1 \<le> q" using w by (simp only: nonzero_mult_div_cancel_left)
  moreover have "?w * (q - int n) \<le> t" using assms(4) unfolding st by (simp add: algebra_simps)
  then have "?w * (q - int n) div ?w \<le> j" unfolding j_def using w by (intro zdiv_mono1)
  then have "q - int n \<le> j" using w by (simp only: nonzero_mult_div_cancel_left)
  ultimately have "1 \<le> nat (q - j)" "nat (q - j) \<le> n" "int (nat (q - j)) = q - j" by simp_all
  moreover have "window_back m moment (nat (q - j)) = bucket_start m t"
    using back_start [OF assms(1,2), of moment "nat (q - j)"] \<open>int (nat (q - j)) = q - j\<close>
    unfolding st by (simp only: right_diff_distrib)
  ultimately show thesis using that by blast
qed

text \<open>
  Property. The window named is the newest closed one that holds an event. With a bucket length that
  divides the hour and a Cassandra that answers, \<open>get_window\<close> reads and never writes; when it reports a
  closed window, that window's minutes are over, it holds a row, every later closed window holds
  none, and \<open>settled\<close> is Kafka's verdict on its end; when it reports none, the eight windows before
  the one now filling hold no row and nothing is claimed settled.
\<close>

theorem window_is_newest_closed:
  assumes m: "1 \<le> m" "m dvd 60" and ok: "faults w = []"
  shows "\<exists>a w'. get_window topic k m sh w = (Inr a, w') \<and> tables w' = tables w \<and>
    current a = bucket_for m (wall_clock w (ticks w)) \<and>
    (if closed a
     then \<exists>start. bucket a = bucket_for m start \<and> bucket_start m start = start \<and>
       start + m * 60000000 \<le> wall_clock w (ticks w) \<and> holds_rows sh (bucket a) (tables w) \<and>
       settled a = fst (sink_consumed_past topic k (start + m * 60000000)) \<and>
       (\<forall>t. start + m * 60000000 \<le> t \<and> bucket_start m t + m * 60000000 \<le> wall_clock w (ticks w) \<longrightarrow>
          \<not> holds_rows sh (bucket_for m t) (tables w))
     else bucket a = current a \<and> \<not> settled a \<and>
       (\<forall>t. bucket_start m (wall_clock w (ticks w)) - m * 60000000 * int WINDOW_LOOKBACK \<le> t \<and>
          bucket_start m t + m * 60000000 \<le> wall_clock w (ticks w) \<longrightarrow>
          \<not> holds_rows sh (bucket_for m t) (tables w)))"
proof -
  define moment where "moment = wall_clock w (ticks w)"
  let ?w' = "w\<lparr>ticks := Suc (ticks w)\<rparr>" and ?W = "m * 60000000"
  let ?held = "\<lambda>s. holds_rows sh (strftime_minute (utc_fields (window_back m moment s))) (tables w)"
  have run: "get_window topic k m sh w =
      (Inr (case find ?held [1..<WINDOW_LOOKBACK + 1] of None \<Rightarrow> filling m sh moment
            | Some s \<Rightarrow> closed_window topic k m sh moment (window_back m moment s)), ?w')"
    unfolding get_window_def bind_Inr [OF now_run] moment_def
    using walk_back_run [of ?w' topic k m sh "wall_clock w (ticks w)" "[1..<WINDOW_LOOKBACK + 1]"] ok
    by (simp del: upt_Suc)
  have held: "?held s \<longleftrightarrow> holds_rows sh (bucket_for m t) (tables w)" if "window_back m moment s = bucket_start m t" for s t
    unfolding that bucket_for_def ..
  have mx: "max 1 m = m" using m(1) by simp
  show ?thesis
  proof (cases "find ?held [1..<WINDOW_LOOKBACK + 1]")
    case None
    then have none: "\<not> ?held s" if "1 \<le> s" "s \<le> WINDOW_LOOKBACK" for s
      using that by (auto simp: find_None_iff)
    have "\<not> holds_rows sh (bucket_for m t) (tables w)"
      if t: "bucket_start m moment - ?W * int WINDOW_LOOKBACK \<le> t" "bucket_start m t + ?W \<le> moment" for t
      using closed_windows_back [OF m t(2,1)] none held by metis
    then show ?thesis unfolding run None moment_def [symmetric] by auto
  next
    case (Some s)
    define start where "start = window_back m moment s"
    obtain i where i: "i < WINDOW_LOOKBACK" "s = Suc i" "?held s" "\<And>j. j < i \<Longrightarrow> \<not> ?held (Suc j)"
      using Some by (auto simp: find_Some_iff nth_append simp del: upt_Suc)
    have st: "start = bucket_start m moment - ?W * int s" unfolding start_def by (rule back_start [OF m])
    have fixd: "bucket_start m start = start"
      unfolding start_def bucket_start_floor [OF m] using m(1) by simp
    have le: "start + ?W \<le> moment"
      using window_back_over [of s m moment] i(2) unfolding start_def mx by simp
    have "\<not> holds_rows sh (bucket_for m t) (tables w)"
      if t: "start + ?W \<le> t" "bucket_start m t + ?W \<le> moment" for t
    proof -
      have "bucket_start m moment - ?W * int i \<le> t" using t(1) unfolding st i(2) by (simp add: algebra_simps)
      from closed_windows_back [OF m t(2) this] obtain s' where
        s': "1 \<le> s'" "s' \<le> i" "window_back m moment s' = bucket_start m t" by blast
      then have "\<not> ?held s'" using i(4) [of "s' - 1"] by simp
      then show ?thesis using held [OF s'(3)] by blast
    qed
    moreover have "bucket_for m start = strftime_minute (utc_fields start)" by (simp add: bucket_for_def fixd)
    moreover have "closed_window topic k m sh moment (window_back m moment s) = closed_window topic k m sh moment start"
      unfolding start_def ..
    ultimately show ?thesis
      using i(3) le fixd unfolding run Some moment_def [symmetric] start_def [symmetric] option.case
      by (auto simp: mx intro!: exI [of _ start])
  qed
qed

definition one_event_db :: db where
  "one_event_db = put_row ''events''
     [(''event_bucket'', CText ''1969-12-31T23:30''), (''shard'', CInt 2), (''event_id'', CText ''e0'')] empty_db"

theorem window_is_newest_closed_witness:
  "\<exists>a w'. get_window ''events'' (kafka_of two_partitions [0, 1] caught_up) 15 4
      (node_world ''demo'' [] one_event_db) = (Inr a, w') \<and> tables w' = one_event_db \<and>
    (closed a \<longrightarrow> holds_rows 4 (bucket a) one_event_db)"
  using window_is_newest_closed [of 15 "node_world ''demo'' [] one_event_db" "''events''"
      "kafka_of two_partitions [0, 1] caught_up" 4]
  by (fastforce split: if_splits)

text \<open>
  Property. A failing Cassandra or Kafka never becomes a claim. Whatever calls fail, \<open>get_window\<close> answers;
  it writes nothing; \<open>settled\<close> is only ever reported of a closed window, one that was read as holding
  a row and whose minutes are over by the clock.
\<close>

theorem window_survives_failures:
  "\<exists>a w'. get_window topic k m sh w = (Inr a, w') \<and> tables w' = tables w \<and>
    (settled a \<longrightarrow> closed a) \<and>
    (closed a \<longrightarrow> holds_rows sh (bucket a) (tables w) \<and>
      (\<exists>start. bucket a = strftime_minute (utc_fields start) \<and>
        start + bucket_minutes a * 60000000 \<le> wall_clock w (ticks w)))"
proof -
  let ?moment = "wall_clock w (ticks w)"
  obtain a w' where "walk_back topic k m sh ?moment [1..<WINDOW_LOOKBACK + 1] (w\<lparr>ticks := Suc (ticks w)\<rparr>) = (Inr a, w')"
    "tables w' = tables w" and
    a: "a = filling m sh ?moment \<or> (\<exists>s \<in> set [1..<WINDOW_LOOKBACK + 1].
      a = closed_window topic k m sh ?moment (window_back m ?moment s) \<and> holds_rows sh (bucket a) (tables w))"
    using walk_back_any [of topic k m sh ?moment "[1..<WINDOW_LOOKBACK + 1]" "w\<lparr>ticks := Suc (ticks w)\<rparr>"] by auto
  then have "get_window topic k m sh w = (Inr a, w')" "tables w' = tables w"
    unfolding get_window_def bind_Inr [OF now_run] by simp_all
  then show ?thesis using a window_back_over [of _ m ?moment] by fastforce
qed

theorem window_survives_failures_witness:
  "\<exists>a w'. get_window ''events'' (kafka_of two_partitions [0, 1] caught_up) 15 4
      ((node_world ''demo'' [] one_event_db)\<lparr>faults := [LostBefore ''timed out'']\<rparr>) = (Inr a, w') \<and>
    tables w' = one_event_db \<and> (settled a \<longrightarrow> closed a)"
  using window_survives_failures [of "''events''" "kafka_of two_partitions [0, 1] caught_up" 15 4
      "(node_world ''demo'' [] one_event_db)\<lparr>faults := [LostBefore ''timed out'']\<rparr>"]
  by fastforce

end
