(* ===== verification/Session_Timeline.thy ===== *)
theory Session_Timeline
  imports Cql
begin

text \<open>
  The session demonstration of \<open>src/backend/app/routes/transactions.py\<close>: exactly-once,
  in-order delivery into a session's timeline, decided by one Accord transaction over three
  tables. The definitions follow the module top down: the statement text and its bind values,
  the reading of a refusal out of the projection, one step, the reference measurement, and the
  routes, with the module's one lock.

  The lemmas show that the text is the rendering of a transaction whose effect is
  \<open>append_event\<close>, that the reason a step reports is empty exactly when its write happened,
  and that \<open>session_inv\<close> (every session's applied numbers and its timeline are one gapless
  prefix) survives every handler under every pattern of failed calls.
\<close>

section \<open>The statements\<close>

definition DEMO_USER_PREFIX :: string where
  "DEMO_USER_PREFIX = ''txn-demo''"

definition DEFAULT_REPEATS :: nat where
  "DEFAULT_REPEATS = 20"

definition apply_cql :: "string \<Rightarrow> int \<Rightarrow> string" where
  "apply_cql keyspace seq =
    (let guards =
       [''LET session_ok = (SELECT session_id FROM '' @ keyspace @ ''.sessions_open '' @
          ''WHERE user_id = ? AND session_id = ?);'',
        ''LET already = (SELECT seq FROM '' @ keyspace @ ''.session_seq_applied '' @
          ''WHERE user_id = ? AND session_id = ? AND seq = ?);''] @
       (if seq > 0
        then [''LET prev_ok = (SELECT seq FROM '' @ keyspace @ ''.session_seq_applied '' @
          ''WHERE user_id = ? AND session_id = ? AND seq = ?);'']
        else []);
       projection = (if seq > 0 then ''SELECT session_ok.session_id, already.seq, prev_ok.seq''
         else ''SELECT session_ok.session_id, already.seq'');
       condition = ''session_ok IS NOT NULL AND already IS NULL'' @
         (if seq > 0 then '' AND prev_ok IS NOT NULL'' else [])
     in ''BEGIN TRANSACTION'' @ NL @ ''  '' @
        join (NL @ ''  '') guards @
        NL @ ''  '' @ projection @ '';'' @
        NL @ ''  IF '' @ condition @ '' THEN'' @
        NL @ ''    INSERT INTO '' @ keyspace @ ''.session_timeline '' @
        ''(user_id, session_id, seq, event_id, event_time, event_type, payload) '' @
        ''VALUES (?, ?, ?, ?, ?, ?, ?);'' @
        NL @ ''    INSERT INTO '' @ keyspace @ ''.session_seq_applied (user_id, session_id, seq) '' @
        ''VALUES (?, ?, ?);'' @
        NL @ ''  END IF'' @ NL @ ''COMMIT TRANSACTION;'')"

text \<open>The same statement as a value.\<close>

definition apply_txn :: "int \<Rightarrow> txn" where
  "apply_txn seq = \<lparr>
     lets =
       [LetRead ''session_ok'' [''session_id''] ''sessions_open''
          [(''user_id'', Q), (''session_id'', Q)],
        LetRead ''already'' [''seq''] ''session_seq_applied''
          [(''user_id'', Q), (''session_id'', Q), (''seq'', Q)]] @
       (if seq > 0
        then [LetRead ''prev_ok'' [''seq''] ''session_seq_applied''
          [(''user_id'', Q), (''session_id'', Q), (''seq'', Q)]]
        else []),
     projects = [Col ''session_ok'' ''session_id'', Col ''already'' ''seq''] @
       (if seq > 0 then [Col ''prev_ok'' ''seq''] else []),
     guards = [NotNull (Row ''session_ok''), IsNull (Row ''already'')] @
       (if seq > 0 then [NotNull (Row ''prev_ok'')] else []),
     writes =
       [Insert ''session_timeline''
          [''user_id'', ''session_id'', ''seq'', ''event_id'', ''event_time'', ''event_type'',
           ''payload''],
        Insert ''session_seq_applied'' [''user_id'', ''session_id'', ''seq'']]\<rparr>"

definition apply_binds ::
  "string \<Rightarrow> nat \<Rightarrow> int \<Rightarrow> nat \<Rightarrow> instant \<Rightarrow> string \<Rightarrow> string \<Rightarrow> cval list" where
  "apply_binds user_id session_id seq event_id event_time event_type payload =
    [CText user_id, CUuid session_id, CText user_id, CUuid session_id, CInt seq] @
    (if seq > 0 then [CText user_id, CUuid session_id, CInt (seq - 1)] else []) @
    [CText user_id, CUuid session_id, CInt seq, CUuid event_id, CTime event_time,
     CText event_type, CText payload] @
    [CText user_id, CUuid session_id, CInt seq]"

definition apply_params ::
  "string \<Rightarrow> nat \<Rightarrow> int \<Rightarrow> string \<Rightarrow> string \<Rightarrow> (world, cval list) pm" where
  "apply_params user_id session_id seq event_type payload =
    bind now (\<lambda>_. bind new_uuid (\<lambda>event_id.
    bind now (\<lambda>event_time.
      ret (apply_binds user_id session_id seq event_id event_time event_type payload))))"

definition apply_reason :: "int \<Rightarrow> projection \<Rightarrow> string" where
  "apply_reason seq projection =
    (if projection = [] then ''the transaction projected nothing, so its guards cannot be read''
     else if row_get projection ''session_ok.session_id'' = CNull then ''the session is not open''
     else if row_get projection ''already.seq'' \<noteq> CNull
       then ''seq='' @ int_str seq @ '' was already applied, so the replay changed nothing''
     else if seq > 0 \<and> row_get projection ''prev_ok.seq'' = CNull
       then ''seq='' @ int_str (seq - 1) @ '' has not been applied, so seq='' @ int_str seq @
         '' would leave a gap''
     else '''')"

definition timeline_rows :: "string \<Rightarrow> nat \<Rightarrow> (world, row list) pm" where
  "timeline_rows user_id session_id =
    execute_query (select_partition ''session_timeline''
      [(''user_id'', CText user_id), (''session_id'', CUuid session_id)])"

definition open_session :: "string \<Rightarrow> nat \<Rightarrow> (world, unit) pm" where
  "open_session user_id session_id =
    execute_write (put_row ''sessions_open''
      [(''user_id'', CText user_id), (''session_id'', CUuid session_id)])"

section \<open>One step\<close>

text \<open>
  \<open>ClearanceZone\<close> and \<open>TransactionStep\<close> of \<open>models.py\<close>. A step of the clearance demonstration
  carries the zone it left behind; \<open>None\<close> is the empty dict.
\<close>

record clearance_zone =
  zone_id :: string
  zone_name :: string
  severity :: string
  capacity :: int
  remaining :: int
  holders :: "string list"
  consistent :: bool

record transaction_step =
  action :: string
  cql :: string
  applied :: bool
  reason :: string
  projected :: "(string \<times> string option) list"
  duration_ms :: real
  timeline_count :: nat
  state :: "clearance_zone option"
  step_error :: "string option"

definition empty_step :: transaction_step where
  "empty_step = \<lparr>action = [], cql = [], applied = False, reason = [], projected = [],
     duration_ms = 0, timeline_count = 0, state = None, step_error = None\<rparr>"

definition elapsed_ms :: "real \<Rightarrow> (world, real) pm" where
  "elapsed_ms start = bind perf_counter (\<lambda>t. ret (py_round 2 ((t - start) * 1000)))"

definition printed :: "projection \<Rightarrow> (string \<times> string option) list" where
  "printed p = map (\<lambda>(k, v). (k, if v = CNull then None else Some (cval_str v))) p"

definition run_step ::
  "string \<Rightarrow> string \<Rightarrow> string \<Rightarrow> nat \<Rightarrow> int \<Rightarrow> string \<Rightarrow> string \<Rightarrow>
    (world, transaction_step) pm" where
  "run_step keyspace act user_id session_id seq event_type payload =
    bind (apply_params user_id session_id seq event_type payload) (\<lambda>params.
    bind perf_counter (\<lambda>start.
    bind (attempt (execute_transaction (apply_cql keyspace seq) params)) (\<lambda>outcome.
      case outcome of
        Inl exc \<Rightarrow>
          bind (elapsed_ms start) (\<lambda>ms.
          bind (timeline_rows user_id session_id) (\<lambda>rows.
            ret (empty_step\<lparr>action := act, cql := apply_cql keyspace seq, duration_ms := ms,
              step_error := Some (exn_str exc), timeline_count := length rows\<rparr>)))
      | Inr projection \<Rightarrow>
          bind (elapsed_ms start) (\<lambda>ms.
          bind (timeline_rows user_id session_id) (\<lambda>rows.
            ret (empty_step\<lparr>action := act, cql := apply_cql keyspace seq,
              applied := (apply_reason seq projection = ''''),
              reason := apply_reason seq projection,
              projected := printed projection, duration_ms := ms,
              timeline_count := length rows\<rparr>))))))"

section \<open>Measurement\<close>

text \<open>\<open>None\<close> is the \<open>IndexError\<close> of an empty list.\<close>

definition percentile :: "real list \<Rightarrow> real \<Rightarrow> real option" where
  "percentile values fraction =
    (let ordered = sort values; n = int (length ordered);
         index = min (n - 1) (round_half_even (fraction * of_int (n - 1)))
     in if values = [] then None
        else Some (py_round 2 (ordered ! nat (if index < 0 then n + index else index))))"

definition put_row_if_absent :: "string \<Rightarrow> row \<Rightarrow> db \<Rightarrow> db" where
  "put_row_if_absent t cs d =
    (if map_of (d t) (key_of t cs) = None then put_row t cs d else d)"

definition reference_sample ::
  "string \<Rightarrow> nat \<Rightarrow> bool \<Rightarrow> int \<Rightarrow> (world, real option) pm" where
  "reference_sample user_id session_id if_not_exists seq =
    bind perf_counter (\<lambda>start.
    bind now (\<lambda>_. bind new_uuid (\<lambda>event_id. bind now (\<lambda>event_time.
    let cells = [(''user_id'', CText user_id), (''session_id'', CUuid session_id),
       (''seq'', CInt seq), (''event_id'', CUuid event_id), (''event_time'', CTime event_time),
       (''event_type'', CText ''reference''), (''payload'', CText ''{}'')]
    in bind (attempt (execute_write
         ((if if_not_exists then put_row_if_absent else put_row) ''session_timeline_plain'' cells)))
       (\<lambda>outcome. case outcome of
          Inl _ \<Rightarrow> ret None
        | Inr _ \<Rightarrow> bind perf_counter (\<lambda>t. ret (Some ((t - start) * 1000))))))))"

definition reference_ms ::
  "string \<Rightarrow> nat \<Rightarrow> int \<Rightarrow> (world, (string \<times> real) list) pm" where
  "reference_ms user_id session_id repeats =
    (if repeats \<le> 0 then ret []
     else bind (map_pm (\<lambda>(label, max_label, suffix, base).
         bind (map_pm (\<lambda>index. reference_sample user_id session_id suffix (base + int index))
                 [0..<nat repeats]) (\<lambda>samples.
           ret (case List.map_filter id samples of
             [] \<Rightarrow> []
           | x # xs \<Rightarrow>
               [(label, the (percentile (x # xs) (1 / 2))),
                (max_label, py_round 2 (Max (set (x # xs))))])))
       [(''plain_insert_p50_ms'', ''plain_insert_max_ms'', False, 100000),
        (''lwt_if_not_exists_p50_ms'', ''lwt_if_not_exists_max_ms'', True, 200000)])
       (\<lambda>parts. ret (concat parts)))"

section \<open>Routes\<close>

text \<open>A query parameter outside its declared bounds is answered before the handler runs.\<close>

definition validated :: "bool \<Rightarrow> ('s, 'a) pm \<Rightarrow> ('s, 'a) pm" where
  "validated ok m = (if ok then m else raise (HTTPException 422 ''validation error''))"

text \<open>The module's lock, taken without blocking and released on every exit.\<close>

definition with_txn_lock :: "(world, 'a) pm \<Rightarrow> (world, 'a) pm" where
  "with_txn_lock m = (\<lambda>w.
    if txn_lock w then (Inl (HTTPException 409 ''a transaction demo is already running''), w)
    else try_finally m (\<lambda>w. w\<lparr>txn_lock := False\<rparr>) (w\<lparr>txn_lock := True\<rparr>))"

text \<open>\<open>except HTTPException: raise\<close>, then \<open>except Exception as exc\<close>.\<close>

definition or_503 :: "(world, 'a) pm \<Rightarrow> (world, 'a) pm" where
  "or_503 m = try_except m (\<lambda>e. case e of
      HTTPException c d \<Rightarrow> raise e
    | Exn msg \<Rightarrow> raise (HTTPException 503 msg))"

definition schema_reads :: "string \<Rightarrow> (string \<times> string \<times> string) list" where
  "schema_reads keyspace =
    [(''sessions_open'',
      ''(SELECT session_id FROM '' @ keyspace @ ''.sessions_open '' @
        ''WHERE user_id = ? AND session_id = ?)'', ''session_id''),
     (''session_seq_applied'',
      ''(SELECT seq FROM '' @ keyspace @ ''.session_seq_applied '' @
        ''WHERE user_id = ? AND session_id = ? AND seq = 0)'', ''seq''),
     (''session_timeline'',
      ''(SELECT seq FROM '' @ keyspace @ ''.session_timeline '' @
        ''WHERE user_id = ? AND session_id = ? AND seq = 0)'', ''seq'')]"

definition schema_probe_cql :: "string \<Rightarrow> string \<Rightarrow> string" where
  "schema_probe_cql read column =
    ''BEGIN TRANSACTION'' @ NL @ ''  LET probe = '' @ read @ '';'' @ NL @ ''  SELECT probe.'' @
    column @ '';'' @ NL @ ''COMMIT TRANSACTION;''"

definition schema_probe :: "string \<times> string \<times> (string \<times> rhs) list \<Rightarrow> txn" where
  "schema_probe = (\<lambda>(table, column, conds).
     \<lparr>lets = [LetRead ''probe'' [column] table conds], projects = [Col ''probe'' column],
      guards = [], writes = []\<rparr>)"

definition schema_probes :: "txn list" where
  "schema_probes = map schema_probe
    [(''sessions_open'', ''session_id'', [(''user_id'', Q), (''session_id'', Q)]),
     (''session_seq_applied'', ''seq'', [(''user_id'', Q), (''session_id'', Q), (''seq'', L 0)]),
     (''session_timeline'', ''seq'', [(''user_id'', Q), (''session_id'', Q), (''seq'', L 0)])]"

text \<open>The status of each table, and whether every one accepts a transaction.\<close>

definition transaction_schema ::
  "string \<Rightarrow> (world, (string \<times> string) list \<times> bool) pm" where
  "transaction_schema keyspace =
    bind (map_pm (\<lambda>(table, read, column).
        bind (attempt (execute_transaction (schema_probe_cql read column)
                [CText ''__schema_probe__'', CUuid 0])) (\<lambda>outcome.
          ret (table, case outcome of
             Inr _ \<Rightarrow> ''accepts transactions'' | Inl exc \<Rightarrow> exn_str exc)))
      (schema_reads keyspace))
    (\<lambda>status. ret (status, list_all (\<lambda>(_, v). v = ''accepts transactions'') status))"

record timeline_row =
  tl_seq :: int
  tl_event_id :: string
  tl_event_time :: string
  tl_event_type :: string
  tl_payload :: string

text \<open>\<open>int(row["seq"])\<close>: a row of the table always holds an integer there.\<close>

definition cval_int :: "cval \<Rightarrow> int" where
  "cval_int v = (case v of CInt i \<Rightarrow> i | _ \<Rightarrow> 0)"

definition to_timeline_row :: "row \<Rightarrow> timeline_row" where
  "to_timeline_row r = \<lparr>tl_seq = cval_int (row_get r ''seq''),
     tl_event_id = cval_str (row_get r ''event_id''),
     tl_event_time = cval_str (row_get r ''event_time''),
     tl_event_type = cval_str (row_get r ''event_type''),
     tl_payload = cval_str (row_get r ''payload'')\<rparr>"

text \<open>
  The identifier arrives as text; \<open>parsed\<close> is what \<open>uuid.UUID\<close> makes of it, \<open>None\<close> for a
  \<open>ValueError\<close>.
\<close>

definition session_timeline ::
  "string \<Rightarrow> nat option \<Rightarrow> (world, string \<times> timeline_row list) pm" where
  "session_timeline user_id parsed =
    (case parsed of
       None \<Rightarrow> raise (HTTPException 400 ''session_id is not a UUID'')
     | Some session_id \<Rightarrow>
        bind (or_503 (timeline_rows user_id session_id)) (\<lambda>rows.
          ret (user_id, map to_timeline_row rows)))"

definition session_step ::
  "string \<Rightarrow> string \<Rightarrow> nat option \<Rightarrow> int \<Rightarrow> string \<Rightarrow> (world, transaction_step) pm" where
  "session_step keyspace user_id parsed seq event_type =
    validated (0 \<le> seq) (case parsed of
       None \<Rightarrow> raise (HTTPException 400 ''session_id is not a UUID'')
     | Some session_id \<Rightarrow>
        with_txn_lock (run_step keyspace (''apply seq='' @ int_str seq) user_id session_id seq
          event_type ''{}''))"

definition session_open :: "string option \<Rightarrow> (world, string \<times> string) pm" where
  "session_open user_id =
    bind new_uuid (\<lambda>session_id.
    let resolved = (case user_id of
          Some u \<Rightarrow> if u = [] then DEMO_USER_PREFIX @ ''-'' @ take 8 (uuid_hex session_id) else u
        | None \<Rightarrow> DEMO_USER_PREFIX @ ''-'' @ take 8 (uuid_hex session_id))
    in bind (or_503 (open_session resolved session_id)) (\<lambda>_.
         ret (resolved, uuid_str session_id)))"

text \<open>The six steps of the script, on a session of their own.\<close>

definition demo_step :: "string \<Rightarrow> string \<Rightarrow> nat \<Rightarrow> string \<times> int \<Rightarrow> (world, transaction_step) pm" where
  "demo_step keyspace user_id session_id = (\<lambda>(act, seq).
     run_step keyspace act user_id session_id seq ''session.step'' ''{}'')"

definition demo_script :: "(string \<times> int) list" where
  "demo_script =
    [(''apply seq=0'', 0), (''replay seq=0'', 0), (''attempt seq=2 out of order'', 2),
     (''apply seq=1'', 1), (''apply seq=2'', 2)]"

definition demo_sequence :: "string \<Rightarrow> string \<Rightarrow> nat \<Rightarrow> (world, transaction_step list) pm" where
  "demo_sequence keyspace user_id session_id =
    bind perf_counter (\<lambda>start.
    bind (open_session user_id session_id) (\<lambda>_.
    bind (elapsed_ms start) (\<lambda>ms.
    bind (map_pm (demo_step keyspace user_id session_id) demo_script) (\<lambda>steps.
      ret (empty_step\<lparr>action := ''open the session'',
             cql := ''INSERT INTO '' @ keyspace @ ''.sessions_open (user_id, session_id) VALUES (%s, %s)'',
             applied := True, duration_ms := ms\<rparr> # steps)))))"

definition repeat_applied :: "string \<Rightarrow> int \<Rightarrow> (world, real list) pm" where
  "repeat_applied keyspace repeats =
    (if repeats \<le> 0 then ret []
     else bind new_uuid (\<lambda>session_id.
       let user_id = DEMO_USER_PREFIX @ ''-measure-'' @ take 8 (uuid_hex session_id)
       in bind (open_session user_id session_id) (\<lambda>_.
          bind (demo_step keyspace user_id session_id (''apply seq=0'', 0)) (\<lambda>_.
          bind (map_pm (\<lambda>seq. demo_step keyspace user_id session_id
                   (''apply seq='' @ int_str (int seq), int seq)) [1..<nat repeats + 1]) (\<lambda>steps.
            ret (map duration_ms (filter applied steps)))))))"

record transaction_demo_result =
  demo_user_id :: string
  demo_session_id :: string
  demo_steps :: "transaction_step list"
  demo_timeline :: "timeline_row list"
  demo_reference_ms :: "(string \<times> real) list"
  demo_repeats :: nat
  applied_p50_ms :: "real option"
  applied_max_ms :: "real option"

definition max_ms :: "real list \<Rightarrow> real option" where
  "max_ms xs = (if xs = [] then None else Some (py_round 2 (Max (set xs))))"

text \<open>
  The route without its probe (\<open>probe=False\<close>, or no asset to read): the probe samples point
  reads beside the sequence and adds two figures to the response.
\<close>

definition session_demo :: "string \<Rightarrow> int \<Rightarrow> (world, transaction_demo_result) pm" where
  "session_demo keyspace repeats =
    validated (0 \<le> repeats \<and> repeats \<le> 4000) (with_txn_lock (or_503 (
      bind new_uuid (\<lambda>session_id.
      let user_id = DEMO_USER_PREFIX @ ''-'' @ take 8 (uuid_hex session_id)
      in bind (demo_sequence keyspace user_id session_id) (\<lambda>steps.
         bind (repeat_applied keyspace repeats) (\<lambda>applied_ms.
         bind (timeline_rows user_id session_id) (\<lambda>rows.
         bind (reference_ms user_id session_id repeats) (\<lambda>reference.
           ret \<lparr>demo_user_id = user_id, demo_session_id = uuid_str session_id,
             demo_steps = steps, demo_timeline = map to_timeline_row rows,
             demo_reference_ms = reference, demo_repeats = length applied_ms,
             applied_p50_ms = percentile applied_ms (1 / 2),
             applied_max_ms = max_ms applied_ms\<rparr>))))))))"

section \<open>The text and its meaning\<close>

definition session_txns :: "txn list" where
  "session_txns = [apply_txn 0, apply_txn 1] @ schema_probes"

lemma int_str_0 [simp]: "int_str 0 = ''0''"
  by code_simp

text \<open>The lines of the statement, each the rendering of its part of the transaction.\<close>

lemma apply_lines:
  "render_let ks (LetRead ''session_ok'' [''session_id''] ''sessions_open''
      [(''user_id'', Q), (''session_id'', Q)]) =
   ''LET session_ok = (SELECT session_id FROM '' @ ks @ ''.sessions_open '' @
      ''WHERE user_id = ? AND session_id = ?);''"
  "render_let ks (LetRead ''already'' [''seq''] ''session_seq_applied''
      [(''user_id'', Q), (''session_id'', Q), (''seq'', Q)]) =
   ''LET already = (SELECT seq FROM '' @ ks @ ''.session_seq_applied '' @
      ''WHERE user_id = ? AND session_id = ? AND seq = ?);''"
  "render_let ks (LetRead ''prev_ok'' [''seq''] ''session_seq_applied''
      [(''user_id'', Q), (''session_id'', Q), (''seq'', Q)]) =
   ''LET prev_ok = (SELECT seq FROM '' @ ks @ ''.session_seq_applied '' @
      ''WHERE user_id = ? AND session_id = ? AND seq = ?);''"
  "render_write ks (Insert ''session_timeline''
      [''user_id'', ''session_id'', ''seq'', ''event_id'', ''event_time'', ''event_type'',
       ''payload'']) =
   ''INSERT INTO '' @ ks @ ''.session_timeline '' @
   ''(user_id, session_id, seq, event_id, event_time, event_type, payload) '' @
   ''VALUES (?, ?, ?, ?, ?, ?, ?);''"
  "render_write ks (Insert ''session_seq_applied'' [''user_id'', ''session_id'', ''seq'']) =
   ''INSERT INTO '' @ ks @ ''.session_seq_applied (user_id, session_id, seq) '' @
   ''VALUES (?, ?, ?);''"
  by (simp_all add: render_where_def)

lemma apply_pieces:
  "''SELECT session_ok.session_id, already.seq'' =
   ''SELECT '' @ cref_name (Col ''session_ok'' ''session_id'') @ '', '' @
     cref_name (Col ''already'' ''seq'')"
  "''SELECT session_ok.session_id, already.seq, prev_ok.seq'' =
   ''SELECT '' @ cref_name (Col ''session_ok'' ''session_id'') @ '', '' @
     cref_name (Col ''already'' ''seq'') @ '', '' @ cref_name (Col ''prev_ok'' ''seq'')"
  "''session_ok IS NOT NULL AND already IS NULL'' =
   render_guard (NotNull (Row ''session_ok'')) @ '' AND '' @ render_guard (IsNull (Row ''already''))"
  "'' AND prev_ok IS NOT NULL'' = '' AND '' @ render_guard (NotNull (Row ''prev_ok''))"
  "''    INSERT INTO '' = ''    '' @ ''INSERT INTO ''"
  by simp_all

lemmas list_append = append.simps [where 'a = "char list"] append.simps [where 'a = let_read]
  append.simps [where 'a = cref] append.simps [where 'a = guard]

lemmas render_simps = render_txn_def txn.simps Let_def if_True if_False list_append list.map
  join.simps concat.simps list.distinct append_assoc append_Nil2

lemma apply_cql_render: "apply_cql ks seq = render_txn ks (apply_txn seq)"
proof (cases "seq > 0")
  case True
  show ?thesis
    by (simp only: apply_cql_def apply_txn_def True apply_lines apply_pieces render_simps)
next
  case False
  show ?thesis
    by (simp only: apply_cql_def apply_txn_def False apply_lines apply_pieces render_simps)
qed

lemma schema_probe_render:
  "map (\<lambda>(_, r, c). schema_probe_cql r c) (schema_reads ks) = map (render_txn ks) schema_probes"
  by (simp add: schema_probe_cql_def schema_reads_def schema_probes_def schema_probe_def
      render_txn_def render_where_def)

lemma apply_txn_mem: "apply_txn seq \<in> set session_txns"
  by (cases "seq > 0") (auto simp: session_txns_def apply_txn_def)

section \<open>What the transaction does\<close>

text \<open>
  The abstract session: whether it is open, the numbers applied to it, and the numbers its
  timeline holds. An event is admitted when the session is open, its number is new, and its
  predecessor has been applied.
\<close>

definition has_row :: "db \<Rightarrow> string \<Rightarrow> cval list \<Rightarrow> bool" where
  "has_row d t k \<longleftrightarrow> map_of (d t) k \<noteq> None"

definition is_open :: "db \<Rightarrow> string \<Rightarrow> nat \<Rightarrow> bool" where
  "is_open d u s \<longleftrightarrow> has_row d ''sessions_open'' [CText u, CUuid s]"

definition applied_seqs :: "db \<Rightarrow> string \<Rightarrow> nat \<Rightarrow> int set" where
  "applied_seqs d u s = {i. has_row d ''session_seq_applied'' [CText u, CUuid s, CInt i]}"

definition timeline_seqs :: "db \<Rightarrow> string \<Rightarrow> nat \<Rightarrow> int set" where
  "timeline_seqs d u s = {i. has_row d ''session_timeline'' [CText u, CUuid s, CInt i]}"

definition admits :: "db \<Rightarrow> string \<Rightarrow> nat \<Rightarrow> int \<Rightarrow> bool" where
  "admits d u s seq \<longleftrightarrow> is_open d u s \<and> seq \<notin> applied_seqs d u s \<and>
     (seq > 0 \<longrightarrow> seq - 1 \<in> applied_seqs d u s)"

definition append_event ::
  "string \<Rightarrow> nat \<Rightarrow> int \<Rightarrow> nat \<Rightarrow> instant \<Rightarrow> string \<Rightarrow> string \<Rightarrow> db \<Rightarrow> db" where
  "append_event u s seq event_id event_time event_type payload d =
    put_row ''session_seq_applied''
      [(''user_id'', CText u), (''session_id'', CUuid s), (''seq'', CInt seq)]
     (put_row ''session_timeline''
      [(''user_id'', CText u), (''session_id'', CUuid s), (''seq'', CInt seq),
       (''event_id'', CUuid event_id), (''event_time'', CTime event_time),
       (''event_type'', CText event_type), (''payload'', CText payload)] d)"

lemma row_get_filter1: "row_get (filter (\<lambda>(c, _). c = c0) r) c0 = row_get r c0"
  by (induction r) auto

lemma lookup_put_row:
  "map_of (put_row t cs d t') k =
    (if t' = t \<and> k = key_of t cs
     then Some (case map_of (d t) k of None \<Rightarrow> cs | Some r \<Rightarrow> AList.merge r cs)
     else map_of (d t') k)"
  by (simp add: put_row_def update_conv')

lemma has_row_put_row: "has_row (put_row t cs d) t' k \<longleftrightarrow> t' = t \<and> k = key_of t cs \<or> has_row d t' k"
  by (auto simp: has_row_def lookup_put_row)

lemma run_apply:
  "snd (run_txn (apply_txn seq) (apply_binds u s seq eid et ty pl) d) =
    (if admits d u s seq then append_event u s seq eid et ty pl d else d)"
  by (auto simp: run_txn_def apply_txn_def apply_binds_def env_row_def key_of_def primary_keys
      admits_def is_open_def applied_seqs_def has_row_def append_event_def split: option.splits)

lemma key_cell:
  assumes "db_ok d" and "map_of (d t) k = Some r" and "primary_key t ! i = c" and "i < length (primary_key t)"
  shows "row_get r c = k ! i"
proof -
  from assms have "key_of t r = k" by (auto simp: db_ok_def dest: table_ok_lookup)
  with assms show ?thesis by (auto simp: key_of_def)
qed

lemma apply_projection:
  assumes "db_ok d"
  shows "fst (run_txn (apply_txn seq) (apply_binds u s seq eid et ty pl) d) =
    [(''session_ok.session_id'', if is_open d u s then CUuid s else CNull),
     (''already.seq'', if seq \<in> applied_seqs d u s then CInt seq else CNull)] @
    (if seq > 0
     then [(''prev_ok.seq'', if seq - 1 \<in> applied_seqs d u s then CInt (seq - 1) else CNull)]
     else [])"
  using assms
  by (auto simp: run_txn_def apply_txn_def apply_binds_def env_row_def key_of_def primary_keys
      is_open_def applied_seqs_def has_row_def row_get_filter1
      key_cell [where t = "''sessions_open''" and i = 1]
      key_cell [where t = "''session_seq_applied''" and i = 2] split: option.splits)

lemma apply_reason_admits:
  assumes "db_ok d"
  shows "apply_reason seq (fst (run_txn (apply_txn seq) (apply_binds u s seq eid et ty pl) d)) = ''''
    \<longleftrightarrow> admits d u s seq"
  unfolding apply_projection [OF assms] by (auto simp: apply_reason_def admits_def)

section \<open>The invariant\<close>

text \<open>
  Every session's applied numbers and its timeline are the same set, that set is
  \<open>{0, \<dots>, n - 1}\<close> for some \<open>n\<close>, and only an open session has any.
\<close>

definition timeline_typed :: "db \<Rightarrow> bool" where
  "timeline_typed d \<longleftrightarrow>
    (\<forall>k. has_row d ''session_timeline'' k \<longrightarrow> (\<exists>u s i. k = [CText u, CUuid s, CInt i]))"

definition session_inv :: "db \<Rightarrow> bool" where
  "session_inv d \<longleftrightarrow> db_ok d \<and> timeline_typed d \<and> (\<forall>u s.
     timeline_seqs d u s = applied_seqs d u s \<and>
     (\<exists>n. applied_seqs d u s = {0..<int n}) \<and>
     (applied_seqs d u s \<noteq> {} \<longrightarrow> is_open d u s))"

lemma session_views_append:
  "is_open (append_event u s seq eid et ty pl d) = is_open d"
  "applied_seqs (append_event u s seq eid et ty pl d) u' s' =
    (if u' = u \<and> s' = s then insert seq (applied_seqs d u s) else applied_seqs d u' s')"
  "timeline_seqs (append_event u s seq eid et ty pl d) u' s' =
    (if u' = u \<and> s' = s then insert seq (timeline_seqs d u s) else timeline_seqs d u' s')"
  by (auto simp: fun_eq_iff is_open_def applied_seqs_def timeline_seqs_def append_event_def
      has_row_put_row key_of_def)

lemma db_ok_append_event: "db_ok d \<Longrightarrow> db_ok (append_event u s seq eid et ty pl d)"
  unfolding append_event_def by (intro db_ok_put_row) simp_all

lemma timeline_typed_append:
  "timeline_typed d \<Longrightarrow> timeline_typed (append_event u s seq eid et ty pl d)"
  by (auto simp: timeline_typed_def append_event_def has_row_put_row key_of_def)

lemma admits_next:
  assumes "admits d u s seq" and "0 \<le> seq" and "applied_seqs d u s = {0..<int n}"
  shows "insert seq (applied_seqs d u s) = {0..<int (Suc n)}"
  using assms by (auto simp: admits_def)

lemma session_inv_append:
  assumes "session_inv d" and "admits d u s seq" and "0 \<le> seq"
  shows "session_inv (append_event u s seq eid et ty pl d)"
proof -
  obtain n where n: "applied_seqs d u s = {0..<int n}"
    using assms(1) unfolding session_inv_def by blast
  have "\<exists>m. insert seq (applied_seqs d u s) = {0..<int m}"
    using admits_next [OF assms(2,3) n] by blast
  moreover have "is_open d u s" using assms(2) by (simp add: admits_def)
  ultimately show ?thesis
    using assms(1) by (auto simp: session_inv_def session_views_append db_ok_append_event timeline_typed_append)
qed

lemma session_inv_apply:
  assumes "session_inv d" and "0 \<le> seq"
  shows "session_inv (snd (run_txn (apply_txn seq) (apply_binds u s seq eid et ty pl) d))"
  using assms by (auto simp: run_apply session_inv_append)

text \<open>A write to a table the invariant does not read, or an opened session, keeps it.\<close>

lemma session_inv_open:
  "session_inv d \<Longrightarrow>
    session_inv (put_row ''sessions_open'' [(''user_id'', CText u), (''session_id'', CUuid s)] d)"
  by (auto simp: session_inv_def is_open_def applied_seqs_def timeline_seqs_def timeline_typed_def
      has_row_put_row intro!: db_ok_put_row)

lemma session_views_other:
  assumes "t \<notin> {''sessions_open'', ''session_seq_applied'', ''session_timeline''}"
  shows "is_open (put_row t cs d) = is_open d" and "applied_seqs (put_row t cs d) = applied_seqs d"
    and "timeline_seqs (put_row t cs d) = timeline_seqs d"
    and "timeline_typed (put_row t cs d) = timeline_typed d"
  using assms by (auto simp: fun_eq_iff is_open_def applied_seqs_def timeline_seqs_def
      timeline_typed_def has_row_put_row)

lemma session_inv_other:
  assumes "session_inv d" and "set (primary_key t) \<subseteq> fst ` set cs"
    and "t \<notin> {''sessions_open'', ''session_seq_applied'', ''session_timeline''}"
  shows "session_inv (put_row t cs d)"
  using assms(1,2) unfolding session_inv_def session_views_other [OF assms(3)]
  by (blast intro: db_ok_put_row)

lemma session_inv_plain:
  assumes "session_inv d"
  shows "session_inv ((if b then put_row_if_absent else put_row) ''session_timeline_plain''
     [(''user_id'', CText u), (''session_id'', CUuid s), (''seq'', CInt i), (''event_id'', e),
      (''event_time'', t), (''event_type'', ty), (''payload'', p)] d)"
  using assms by (auto simp: put_row_if_absent_def intro!: session_inv_other)

section \<open>Requests and statements\<close>

text \<open>
  The session routes as one step function on the world, and the statements they send as one on
  the tables. The second is the finer grain: two callers whose routes overlap interleave there.
\<close>

datatype session_request =
    OpenReq "string option"
  | StepReq string "nat option" int string
  | TimelineReq string "nat option"
  | SchemaReq
  | DemoReq int

fun handle_session :: "string \<Rightarrow> session_request \<Rightarrow> world \<Rightarrow> world" where
  "handle_session ks (OpenReq u) w = snd (session_open u w)"
| "handle_session ks (StepReq u p seq ty) w = snd (session_step ks u p seq ty w)"
| "handle_session ks (TimelineReq u p) w = snd (session_timeline u p w)"
| "handle_session ks SchemaReq w = snd (transaction_schema ks w)"
| "handle_session ks (DemoReq repeats) w = snd (session_demo ks repeats w)"

datatype session_stmt =
    OpenStmt string nat
  | ApplyStmt string nat nat nat instant string string
  | ReferenceStmt bool string nat int nat instant

fun run_stmt :: "session_stmt \<Rightarrow> db \<Rightarrow> db" where
  "run_stmt (OpenStmt u s) d =
    put_row ''sessions_open'' [(''user_id'', CText u), (''session_id'', CUuid s)] d"
| "run_stmt (ApplyStmt u s seq event_id event_time ty pl) d =
    snd (run_txn (apply_txn (int seq)) (apply_binds u s (int seq) event_id event_time ty pl) d)"
| "run_stmt (ReferenceStmt if_not_exists u s seq event_id event_time) d =
    (if if_not_exists then put_row_if_absent else put_row) ''session_timeline_plain''
      [(''user_id'', CText u), (''session_id'', CUuid s), (''seq'', CInt seq),
       (''event_id'', CUuid event_id), (''event_time'', CTime event_time),
       (''event_type'', CText ''reference''), (''payload'', CText ''{}'')] d"

subsection \<open>Every handler keeps what every statement keeps\<close>

lemma preserves_elapsed_ms [preserves_intros]: "preserves (on_node ks ts I) (elapsed_ms t)"
  unfolding elapsed_ms_def by (intro preserves_intros)

lemma preserves_with_txn_lock [preserves_intros]:
  "preserves (on_node ks ts I) m \<Longrightarrow> preserves (on_node ks ts I) (with_txn_lock m)"
  unfolding with_txn_lock_def
proof (rule preservesI)
  fix w assume m: "preserves (on_node ks ts I) m" and w: "on_node ks ts I w"
  then have "on_node ks ts I (snd (m (w\<lparr>txn_lock := True\<rparr>)))"
    by (intro preservesD [OF m]) (simp add: on_node_def)
  with w show "on_node ks ts I (snd (if txn_lock w
      then (Inl (HTTPException 409 ''a transaction demo is already running''), w)
      else try_finally m (\<lambda>w. w\<lparr>txn_lock := False\<rparr>) (w\<lparr>txn_lock := True\<rparr>)))"
    by (auto simp: try_finally_def on_node_def split: prod.splits)
qed

lemma preserves_validated [preserves_intros]:
  "(ok \<Longrightarrow> preserves I m) \<Longrightarrow> preserves I (validated ok m)"
  by (simp add: validated_def preserves_raise)

lemma preserves_or_503 [preserves_intros]: "preserves I m \<Longrightarrow> preserves I (or_503 m)"
  unfolding or_503_def
  by (intro preserves_try_except) (auto intro: preserves_raise split: exn.split)

text \<open>
  What a property of the tables must promise about the three kinds of write; the routes then
  keep it, whatever calls fail.
\<close>

locale session_store =
  fixes I :: "db \<Rightarrow> bool"
  assumes keeps_open: "I d \<Longrightarrow>
      I (put_row ''sessions_open'' [(''user_id'', CText u), (''session_id'', CUuid s)] d)"
    and keeps_apply: "I d \<Longrightarrow> 0 \<le> seq \<Longrightarrow>
      I (snd (run_txn (apply_txn seq) (apply_binds u s seq event_id event_time ty pl) d))"
    and keeps_plain: "I d \<Longrightarrow>
      I ((if b then put_row_if_absent else put_row) ''session_timeline_plain''
        [(''user_id'', CText u), (''session_id'', CUuid s), (''seq'', CInt i), (''event_id'', e),
         (''event_time'', t), (''event_type'', ty'), (''payload'', p)] d)"
begin

lemma preserves_open_session [preserves_intros]: "preserves (on_node ks session_txns I) (open_session u s)"
  unfolding open_session_def by (rule preserves_execute_write) (rule keeps_open)

lemma preserves_timeline_rows [preserves_intros]: "preserves (on_node ks session_txns I) (timeline_rows u s)"
  unfolding timeline_rows_def by (rule preserves_intros)

lemma preserves_apply [preserves_intros]:
  "0 \<le> seq \<Longrightarrow> preserves (on_node ks session_txns I)
    (execute_transaction (apply_cql ks seq) (apply_binds u s seq eid et ty pl))"
  unfolding apply_cql_render
  by (rule preserves_execute_transaction) (simp_all add: apply_txn_mem keeps_apply)

lemma preserves_run_step [preserves_intros]:
  "0 \<le> seq \<Longrightarrow> preserves (on_node ks session_txns I) (run_step ks act u s seq ty pl)"
  unfolding run_step_def apply_params_def bind_assoc bind_ret_left by (intro preserves_intros)

lemma preserves_session_step [preserves_intros]:
  "preserves (on_node ks session_txns I) (session_step ks u p seq ty)"
  unfolding session_step_def by (intro preserves_intros)

lemma preserves_session_open [preserves_intros]: "preserves (on_node ks session_txns I) (session_open u)"
  unfolding session_open_def Let_def by (intro preserves_intros)

lemma preserves_session_timeline [preserves_intros]:
  "preserves (on_node ks session_txns I) (session_timeline u p)"
  unfolding session_timeline_def by (intro preserves_intros)

lemma preserves_reference_ms [preserves_intros]:
  "preserves (on_node ks session_txns I) (reference_ms u s n)"
  unfolding reference_ms_def reference_sample_def Let_def
  by (intro preserves_intros preserves_execute_write keeps_plain)

lemma preserves_demo_step [preserves_intros]:
  "0 \<le> snd x \<Longrightarrow> preserves (on_node ks session_txns I) (demo_step ks u s x)"
  unfolding demo_step_def split_beta by (rule preserves_run_step)

lemma preserves_demo_sequence [preserves_intros]:
  "preserves (on_node ks session_txns I) (demo_sequence ks u s)"
  unfolding demo_sequence_def demo_script_def map_pm.simps
  by (intro preserves_intros) simp_all

lemma preserves_repeat_applied [preserves_intros]:
  "preserves (on_node ks session_txns I) (repeat_applied ks n)"
  unfolding repeat_applied_def Let_def by (intro preserves_intros) simp_all

lemma preserves_session_demo [preserves_intros]: "preserves (on_node ks session_txns I) (session_demo ks n)"
  unfolding session_demo_def Let_def by (intro preserves_intros)

lemma preserves_schema_probe:
  assumes "(t, r, c) \<in> set (schema_reads ks)"
  shows "preserves (on_node ks session_txns I) (execute_transaction (schema_probe_cql r c) ps)"
proof -
  have "schema_probe_cql r c \<in> set (map (\<lambda>(_, r, c). schema_probe_cql r c) (schema_reads ks))"
    using assms by force
  then obtain p where p: "p \<in> set schema_probes" "schema_probe_cql r c = render_txn ks p"
    unfolding schema_probe_render by auto
  then have "writes p = []" by (auto simp: schema_probes_def schema_probe_def)
  then have "run_txn p ps d = (fst (run_txn p ps d), d)" for d
    by (auto simp: run_txn_def split: prod.splits)
  then have "snd (run_txn p ps d) = d" for d by (metis snd_conv)
  with p show ?thesis
    by (simp add: preserves_execute_transaction session_txns_def)
qed

lemma preserves_transaction_schema [preserves_intros]:
  "preserves (on_node ks session_txns I) (transaction_schema ks)"
  unfolding transaction_schema_def
  by (intro preserves_bind preserves_map_pm_mem preserves_ret)
    (auto intro!: preserves_intros preserves_schema_probe)

lemma session_request_inv:
  "on_node ks session_txns I w \<Longrightarrow> on_node ks session_txns I (handle_session ks r w)"
  by (cases r) (auto intro: preservesD preserves_intros)

lemma session_stmt_inv: "I d \<Longrightarrow> I (run_stmt st d)"
  by (cases st) (simp_all add: keeps_open keeps_apply keeps_plain [where b = True, simplified]
      keeps_plain [where b = False, simplified])

end

sublocale session_store \<subseteq> requests: step_system "handle_session ks" "on_node ks session_txns I" for ks
  by unfold_locales (rule session_request_inv)

sublocale session_store \<subseteq> statements: step_system run_stmt I
  by unfold_locales (rule session_stmt_inv)

text \<open>The invariant, and beside it any row the timeline already holds.\<close>

interpretation session: session_store session_inv
  by unfold_locales (simp_all only: session_inv_open session_inv_apply session_inv_plain)

definition keeps_row :: "cval list \<Rightarrow> row \<Rightarrow> db \<Rightarrow> bool" where
  "keeps_row k r d \<longleftrightarrow> session_inv d \<and> map_of (d ''session_timeline'') k = Some r"

lemma timeline_row_append:
  assumes "session_inv d" and "admits d u s seq" and that: "map_of (d ''session_timeline'') k = Some r"
  shows "map_of (append_event u s seq eid et ty pl d ''session_timeline'') k = Some r"
proof -
  have "\<not> has_row d ''session_timeline'' [CText u, CUuid s, CInt seq]"
    using assms(1,2) unfolding session_inv_def admits_def timeline_seqs_def by blast
  then have "k \<noteq> [CText u, CUuid s, CInt seq]" using that by (auto simp: has_row_def)
  then show ?thesis using that by (simp add: append_event_def lookup_put_row key_of_def)
qed

interpretation fixed_row: session_store "keeps_row k r" for k r
  by unfold_locales
    (auto simp: keeps_row_def session_inv_open session_inv_append session_inv_plain lookup_put_row
      run_apply timeline_row_append put_row_if_absent_def intro!: session_inv_other)

abbreviation session_ok :: "string \<Rightarrow> world \<Rightarrow> bool" where
  "session_ok ks \<equiv> on_node ks session_txns session_inv"

section \<open>Reading the timeline back\<close>

abbreviation timeline_where :: "string \<Rightarrow> nat \<Rightarrow> row" where
  "timeline_where u s \<equiv> [(''user_id'', CText u), (''session_id'', CUuid s)]"

lemma partition_keys:
  fixes d :: db and t :: string and conds :: row
  assumes "db_ok d" and "sorted ks" and "distinct ks"
    and "\<And>k r. map_of (d t) k = Some r \<Longrightarrow>
      list_all (\<lambda>(c, v). row_get r c = v) conds \<longleftrightarrow> k \<in> set ks"
    and "\<And>k. k \<in> set ks \<Longrightarrow> has_row d t k"
  shows "map (key_of t) (select_partition t conds d) = ks"
proof -
  let ?P = "\<lambda>(k, r). list_all (\<lambda>(c, v). row_get r c = v) conds"
  let ?xs = "filter ?P (d t)"
  have dist: "distinct (map fst (d t))" and key: "\<And>k r. (k, r) \<in> set (d t) \<Longrightarrow> key_of t r = k"
    using assms(1) by (auto simp: db_ok_def table_ok_def)
  have mem: "k \<in> fst ` set ?xs \<longleftrightarrow> k \<in> set ks" for k
    using assms(4,5) dist by (force simp: has_row_def dest: map_of_SomeD)
  have "map (key_of t) (select_partition t conds d) = map fst (sort_key fst ?xs)"
    using key by (auto simp: select_partition_def)
  also have "\<dots> = ks"
  proof (rule sorted_distinct_set_unique)
    show "distinct (map fst (sort_key fst ?xs))"
      using dist by (simp add: distinct_map inj_on_filter_key_eq) (auto simp: inj_on_def)
    show "set (map fst (sort_key fst ?xs)) = set ks" using mem by auto
  qed (use assms in simp_all)
  finally show ?thesis .
qed

lemma sorted_session_keys:
  "sorted (map (\<lambda>i. [CText u, CUuid s, CInt (int i)]) [0..<n])"
proof -
  have "mono_on {0..<n} (\<lambda>i. [CText u, CUuid s, CInt (int i)])"
    by (auto simp: mono_on_def less_eq_cval_def less_cval_def cval_key_def)
  then show ?thesis by (intro sorted_map_mono) simp_all
qed

lemma timeline_keys:
  assumes inv: "session_inv d" and n: "applied_seqs d u s = {0..<int n}"
  shows "map (key_of ''session_timeline'')
      (select_partition ''session_timeline'' (timeline_where u s) d) =
    map (\<lambda>i. [CText u, CUuid s, CInt (int i)]) [0..<n]"
proof (rule partition_keys)
  show "db_ok d" using inv by (simp add: session_inv_def)
  show "distinct (map (\<lambda>i. [CText u, CUuid s, CInt (int i)]) [0..<n])"
    by (simp add: distinct_map inj_on_def)
  have tl: "timeline_seqs d u s = {0..<int n}" using inv n unfolding session_inv_def by blast
  then have "int i \<in> timeline_seqs d u s" if "i < n" for i using that by simp
  then show "has_row d ''session_timeline'' k"
    if "k \<in> set (map (\<lambda>i. [CText u, CUuid s, CInt (int i)]) [0..<n])" for k
    using that unfolding timeline_seqs_def by force
  fix k r assume r: "map_of (d ''session_timeline'') k = Some r"
  then have h: "has_row d ''session_timeline'' k" by (simp add: has_row_def)
  then obtain u' s' i where k: "k = [CText u', CUuid s', CInt i]"
    using inv unfolding session_inv_def timeline_typed_def by blast
  have "key_of ''session_timeline'' r = k"
    using inv r by (auto simp: session_inv_def db_ok_def dest: table_ok_lookup)
  then have cells: "row_get r ''user_id'' = CText u'" "row_get r ''session_id'' = CUuid s'"
    using k by (simp_all add: key_of_def)
  have "i \<in> {0..<int n}" if "u' = u" "s' = s"
    using that h k tl by (auto simp: timeline_seqs_def)
  then have "\<exists>x \<in> {0..<n}. i = int x" if "u' = u" "s' = s"
    using that by (intro bexI [of _ "nat i"]) auto
  then show "list_all (\<lambda>(c, v). row_get r c = v) (timeline_where u s) \<longleftrightarrow>
      k \<in> set (map (\<lambda>i. [CText u, CUuid s, CInt (int i)]) [0..<n])"
    using cells k by (auto simp: image_iff)
qed (rule sorted_session_keys)

lemma timeline_in_order:
  assumes "session_inv d" and "applied_seqs d u s = {0..<int n}"
  shows "map (tl_seq \<circ> to_timeline_row)
      (select_partition ''session_timeline'' (timeline_where u s) d) = map int [0..<n]"
proof -
  let ?rs = "select_partition ''session_timeline'' (timeline_where u s) d"
  have "map (tl_seq \<circ> to_timeline_row) ?rs =
      map (cval_int \<circ> (\<lambda>k. k ! 2)) (map (key_of ''session_timeline'') ?rs)"
    by (simp add: to_timeline_row_def key_of_def comp_def)
  also have "\<dots> = map int [0..<n]"
    unfolding timeline_keys [OF assms] by (simp add: comp_def cval_int_def)
  finally show ?thesis .
qed

section \<open>Runs of the demonstration\<close>

text \<open>
  A session being driven with nothing failing: \<open>n\<close> events applied, and the identifiers still to
  be handed out new to every table.
\<close>

definition fresh_ids :: "world \<Rightarrow> bool" where
  "fresh_ids w \<longleftrightarrow> inj (uuids w) \<and>
    (\<forall>n u. uuids_used w \<le> n \<longrightarrow> applied_seqs (tables w) u (uuids w n) = {})"

definition healthy :: "string \<Rightarrow> world \<Rightarrow> bool" where
  "healthy ks w \<longleftrightarrow> session_ok ks w \<and> faults w = [] \<and> fresh_ids w"

definition driving :: "string \<Rightarrow> string \<Rightarrow> nat \<Rightarrow> nat \<Rightarrow> world \<Rightarrow> bool" where
  "driving ks u s n w \<longleftrightarrow> healthy ks w \<and> s \<notin> uuids w ` {uuids_used w..} \<and>
    is_open (tables w) u s \<and> applied_seqs (tables w) u s = {0..<int n}"

definition same_elsewhere :: "nat \<Rightarrow> world \<Rightarrow> world \<Rightarrow> bool" where
  "same_elsewhere s w w' \<longleftrightarrow>
    (\<forall>u' s'. s' \<noteq> s \<longrightarrow> applied_seqs (tables w') u' s' = applied_seqs (tables w) u' s')"

lemma same_elsewhere_trans:
  "same_elsewhere s w w' \<Longrightarrow> same_elsewhere s w' w'' \<Longrightarrow> same_elsewhere s w w''"
  by (simp add: same_elsewhere_def)

lemma execute_transaction_run:
  assumes "accord_runs ks ts w" and "t \<in> set ts" and "faults w = []"
  shows "execute_transaction (render_txn ks t) ps w =
    (Inr (fst (run_txn t ps (tables w))), w\<lparr>tables := snd (run_txn t ps (tables w))\<rparr>)"
  using assms by (simp add: execute_transaction_def accord_runs_def node_call_ok)

lemma execute_query_run [pm_simps]:
  "faults w = [] \<Longrightarrow> execute_query f w = (Inr (f (tables w)), w)"
  by (simp add: execute_query_def node_call_ok)

lemma execute_write_run [pm_simps]:
  "faults w = [] \<Longrightarrow> execute_write f w = (Inr (), w\<lparr>tables := f (tables w)\<rparr>)"
  by (simp add: execute_write_def node_call_ok)

lemma timeline_rows_run [pm_simps]:
  "faults w = [] \<Longrightarrow> timeline_rows u s w =
    (Inr (select_partition ''session_timeline'' (timeline_where u s) (tables w)), w)"
  by (simp add: timeline_rows_def execute_query_run)

lemma elapsed_ms_run [pm_simps]:
  "elapsed_ms t w = (Inr (py_round 2 ((perf_clock w (ticks w) - t) * 1000)),
    w\<lparr>ticks := Suc (ticks w)\<rparr>)"
  by (simp add: elapsed_ms_def bind_def perf_counter_def ret_def)

lemma apply_params_run [pm_simps]:
  "apply_params u s seq ty pl w =
    (Inr (apply_binds u s seq (uuids w (uuids_used w)) (wall_clock w (Suc (ticks w))) ty pl),
     w\<lparr>ticks := Suc (Suc (ticks w)), uuids_used := Suc (uuids_used w)\<rparr>)"
  by (simp add: apply_params_def bind_def now_def new_uuid_def ret_def)

text \<open>One step with a node that answers: what it reports, and what it leaves behind.\<close>

lemma run_step_run:
  fixes u ty pl :: string and s :: nat and seq :: int and w :: world
  assumes "accord_runs ks session_txns w" and "faults w = []"
  defines "event_id \<equiv> uuids w (uuids_used w)" and "event_time \<equiv> wall_clock w (Suc (ticks w))"
  defines "d \<equiv> (if admits (tables w) u s seq
    then append_event u s seq event_id event_time ty pl (tables w) else tables w)"
    and "p \<equiv> fst (run_txn (apply_txn seq) (apply_binds u s seq event_id event_time ty pl) (tables w))"
    and "ms \<equiv> py_round 2 ((perf_clock w (ticks w + 3) - perf_clock w (ticks w + 2)) * 1000)"
  shows "run_step ks act u s seq ty pl w =
    (Inr (empty_step\<lparr>action := act, cql := apply_cql ks seq, applied := (apply_reason seq p = ''''),
       reason := apply_reason seq p, projected := printed p, duration_ms := ms,
       timeline_count := length (select_partition ''session_timeline'' (timeline_where u s) d)\<rparr>),
     w\<lparr>uuids_used := Suc (uuids_used w), tables := d, ticks := ticks w + 4\<rparr>)"
  using assms(1,2)
  by (simp add: run_step_def bind_def perf_counter_def attempt_def apply_params_run
      apply_cql_render execute_transaction_run [OF _ apply_txn_mem] run_apply elapsed_ms_run
      timeline_rows_run ret_def d_def p_def event_id_def event_time_def
      ms_def eval_nat_numeral)

lemma applied_nonneg: "session_inv d \<Longrightarrow> i \<in> applied_seqs d u s \<Longrightarrow> 0 \<le> i"
  unfolding session_inv_def by (metis atLeastLessThan_iff)

lemma admits_iff_next:
  assumes "is_open d u s" and "applied_seqs d u s = {0..<int n}" and "0 \<le> seq"
  shows "admits d u s seq \<longleftrightarrow> seq = int n"
  using assms by (auto simp: admits_def)

lemma run_step_driving:
  assumes drv: "driving ks u s n w" and seq: "0 \<le> seq"
  defines "n' \<equiv> (if seq = int n then Suc n else n)"
  shows "\<exists>step w'. run_step ks act u s seq ty pl w = (Inr step, w') \<and> driving ks u s n' w' \<and>
    same_elsewhere s w w' \<and> applied step = (seq = int n) \<and> timeline_count step = n' \<and>
    step_error step = None"
proof -
  have ok: "accord_runs ks session_txns w" "faults w = []" and inv: "session_inv (tables w)"
    using drv by (simp_all add: driving_def healthy_def on_node_def)
  have adm: "admits (tables w) u s seq \<longleftrightarrow> seq = int n"
    using drv seq by (simp add: driving_def admits_iff_next)
  obtain step w' where run: "run_step ks act u s seq ty pl w = (Inr step, w')"
    and st: "applied step = admits (tables w) u s seq" "step_error step = None"
      "timeline_count step =
        length (select_partition ''session_timeline'' (timeline_where u s) (tables w'))"
    and w': "accord w' = accord w" "faults w' = faults w" "uuids w' = uuids w"
      "uuids_used w' = Suc (uuids_used w)" "\<exists>eid et. tables w' = (if admits (tables w) u s seq
          then append_event u s seq eid et ty pl (tables w) else tables w)"
    using run_step_run [OF ok] apply_reason_admits inv
    by (fastforce simp: session_inv_def empty_step_def)
  have inv': "session_inv (tables w')" using w'(5) inv seq by (auto simp: session_inv_append)
  have app: "applied_seqs (tables w') u' s' =
      (if u' = u \<and> s' = s \<and> seq = int n then insert seq (applied_seqs (tables w) u s)
       else applied_seqs (tables w) u' s')" for u' s'
    using w'(5) adm by (auto simp: session_views_append)
  then have n': "applied_seqs (tables w') u s = {0..<int n'}"
    using drv by (auto simp: driving_def n'_def)
  have "is_open (tables w') u s" using w'(5) drv by (auto simp: session_views_append driving_def)
  moreover have "fresh_ids w'"
    using drv w' app by (auto simp: driving_def healthy_def fresh_ids_def)
  ultimately have "driving ks u s n' w'"
    using drv w' inv' n' by (auto simp: driving_def healthy_def on_node_def accord_runs_def)
  moreover have "same_elsewhere s w w'" using app by (auto simp: same_elsewhere_def)
  moreover have "timeline_count step = n'"
    using arg_cong [OF timeline_in_order [OF inv' n'], of length] st(3) by simp
  ultimately show ?thesis using run st adm by blast
qed

lemma open_session_driving:
  assumes ok: "healthy ks w" and s: "s = uuids w (uuids_used w)"
  shows "\<exists>w'. open_session u s (w\<lparr>uuids_used := Suc (uuids_used w)\<rparr>) = (Inr (), w') \<and>
    driving ks u s 0 w' \<and> same_elsewhere s w w' \<and> ticks w' = ticks w"
proof -
  let ?d = "put_row ''sessions_open'' (timeline_where u s) (tables w)"
  let ?w' = "w\<lparr>uuids_used := Suc (uuids_used w), tables := ?d\<rparr>"
  have app: "applied_seqs ?d = applied_seqs (tables w)"
    by (auto simp: fun_eq_iff applied_seqs_def has_row_put_row)
  have "open_session u s (w\<lparr>uuids_used := Suc (uuids_used w)\<rparr>) = (Inr (), ?w')"
    using ok by (simp add: open_session_def execute_write_run healthy_def)
  moreover have "healthy ks ?w'"
    using ok app by (auto simp: healthy_def on_node_def session_inv_open fresh_ids_def)
  moreover have "s \<notin> uuids w ` {Suc (uuids_used w)..}"
    using ok s by (auto simp: healthy_def fresh_ids_def dest: injD)
  moreover have "applied_seqs (tables w) u s = {}"
    using ok s by (auto simp: healthy_def fresh_ids_def)
  moreover have "is_open ?d u s" by (simp add: is_open_def has_row_put_row key_of_def)
  ultimately show ?thesis using app by (auto simp: driving_def same_elsewhere_def)
qed

lemma driving_tick: "driving ks u s n (w\<lparr>ticks := m\<rparr>) = driving ks u s n w"
  by (simp add: driving_def healthy_def on_node_def fresh_ids_def)

lemma map_pm_Cons_run:
  "f x w = (Inr y, w') \<Longrightarrow> map_pm f xs w' = (Inr ys, w'') \<Longrightarrow> map_pm f (x # xs) w = (Inr (y # ys), w'')"
  by (simp add: bind_def ret_def)

text \<open>A script of numbers against a session that holds \<open>n\<close>: each is applied iff it is next.\<close>

fun script_counts :: "nat \<Rightarrow> int list \<Rightarrow> (bool \<times> nat) list" where
  "script_counts n [] = []"
| "script_counts n (q # qs) =
    (let n' = if q = int n then Suc n else n in (q = int n, n') # script_counts n' qs)"

definition script_end :: "nat \<Rightarrow> int list \<Rightarrow> nat" where
  "script_end n qs = fold (\<lambda>q n. if q = int n then Suc n else n) qs n"

lemma demo_steps_driving:
  assumes "driving ks u s n w" and "\<forall>x \<in> set xs. 0 \<le> snd x"
  shows "\<exists>steps w'. map_pm (demo_step ks u s) xs w = (Inr steps, w') \<and>
    driving ks u s (script_end n (map snd xs)) w' \<and> same_elsewhere s w w' \<and>
    map (\<lambda>t. (applied t, timeline_count t)) steps = script_counts n (map snd xs) \<and>
    map step_error steps = map (\<lambda>_. None) xs"
  using assms
proof (induction xs arbitrary: n w)
  case Nil
  then show ?case by (simp add: ret_def script_end_def same_elsewhere_def)
next
  case (Cons x xs)
  obtain act q where x: "x = (act, q)" by (cases x)
  obtain step w1 where 1: "demo_step ks u s x w = (Inr step, w1)"
      "driving ks u s (if q = int n then Suc n else n) w1" "same_elsewhere s w w1"
      "applied step = (q = int n)" "timeline_count step = (if q = int n then Suc n else n)"
      "step_error step = None"
    using run_step_driving [OF Cons.prems(1)] Cons.prems(2) unfolding demo_step_def x by fastforce
  obtain steps w2 where 2: "map_pm (demo_step ks u s) xs w1 = (Inr steps, w2)"
      "driving ks u s (script_end (if q = int n then Suc n else n) (map snd xs)) w2"
      "same_elsewhere s w1 w2"
      "map (\<lambda>t. (applied t, timeline_count t)) steps =
        script_counts (if q = int n then Suc n else n) (map snd xs)"
      "map step_error steps = map (\<lambda>_. None) xs"
    using Cons.IH [OF 1(2)] Cons.prems(2) by auto
  from 1 2 same_elsewhere_trans [OF 1(3) 2(3)] show ?case
    by (intro exI [of _ "step # steps"] exI [of _ w2])
      (simp add: map_pm_Cons_run x Let_def script_end_def del: map_pm.simps)
qed

lemma demo_script_outcome:
  "script_end 0 (map snd demo_script) = 3"
  "script_counts 0 (map snd demo_script) = [(True, 1), (False, 1), (False, 1), (True, 2), (True, 3)]"
  "map (\<lambda>_. None) demo_script = replicate 5 None"
  by (simp_all add: demo_script_def script_end_def Let_def eval_nat_numeral)

lemma demo_sequence_run:
  assumes ok: "healthy ks w" and s: "s = uuids w (uuids_used w)"
  shows "\<exists>steps w'. demo_sequence ks u s (w\<lparr>uuids_used := Suc (uuids_used w)\<rparr>) = (Inr steps, w') \<and>
    driving ks u s 3 w' \<and>
    map (\<lambda>t. (applied t, timeline_count t)) steps =
      [(True, 0), (True, 1), (False, 1), (False, 1), (True, 2), (True, 3)] \<and>
    map step_error steps = replicate 6 None"
proof -
  let ?w0 = "w\<lparr>ticks := Suc (ticks w)\<rparr>"
  have swap: "?w0\<lparr>uuids_used := Suc (uuids_used w)\<rparr> =
      w\<lparr>uuids_used := Suc (uuids_used w), ticks := Suc (ticks w)\<rparr>"
    by simp
  have "healthy ks ?w0" using ok by (simp add: healthy_def on_node_def fresh_ids_def)
  then obtain w1 where w1:
      "open_session u s (w\<lparr>uuids_used := Suc (uuids_used w), ticks := Suc (ticks w)\<rparr>) = (Inr (), w1)"
      "driving ks u s 0 w1"
    using open_session_driving [of ks ?w0 s u] s unfolding swap [symmetric] by auto
  obtain steps w2 where w2:
      "map_pm (demo_step ks u s) demo_script (w1\<lparr>ticks := Suc (ticks w1)\<rparr>) = (Inr steps, w2)"
      "driving ks u s 3 w2" "map step_error steps = replicate 5 None"
      "map (\<lambda>t. (applied t, timeline_count t)) steps =
        [(True, 1), (False, 1), (False, 1), (True, 2), (True, 3)]"
    using demo_steps_driving [of ks u s 0 "w1\<lparr>ticks := Suc (ticks w1)\<rparr>" demo_script] w1(2)
    unfolding demo_script_outcome by (auto simp: driving_tick demo_script_def)
  then show ?thesis using w1
    by (simp add: demo_sequence_def bind_def perf_counter_def elapsed_ms_run ret_def empty_step_def
        eval_nat_numeral)
qed

text \<open>The measured repeats: each is applied, whatever their number.\<close>

lemma demo_steps_in_turn:
  assumes "driving ks u s n w"
  shows "\<exists>steps w'. map_pm (\<lambda>seq. demo_step ks u s (a seq, int seq)) [n..<n + k] w = (Inr steps, w') \<and>
    driving ks u s (n + k) w' \<and> same_elsewhere s w w' \<and> length steps = k \<and> list_all applied steps"
  using assms
proof (induction k arbitrary: n w)
  case 0
  then show ?case by (simp add: ret_def same_elsewhere_def)
next
  case (Suc k)
  obtain step w1 where 1: "demo_step ks u s (a n, int n) w = (Inr step, w1)"
      "driving ks u s (Suc n) w1" "same_elsewhere s w w1" "applied step"
    using run_step_driving [OF Suc.prems, of "int n"] unfolding demo_step_def by fastforce
  obtain steps w2 where
      2: "map_pm (\<lambda>seq. demo_step ks u s (a seq, int seq)) [Suc n..<Suc n + k] w1 = (Inr steps, w2)"
      "driving ks u s (Suc n + k) w2" "same_elsewhere s w1 w2" "length steps = k"
      "list_all applied steps"
    using Suc.IH [OF 1(2)] by blast
  have "[n..<n + Suc k] = n # [Suc n..<Suc n + k]" by (simp add: upt_conv_Cons)
  with 1 2 same_elsewhere_trans [OF 1(3) 2(3)] show ?case
    by (intro exI [of _ "step # steps"] exI [of _ w2]) (simp add: map_pm_Cons_run del: map_pm.simps)
qed

lemma repeat_applied_run:
  assumes "healthy ks w"
  shows "\<exists>ms w'. repeat_applied ks repeats w = (Inr ms, w') \<and> healthy ks w' \<and>
    length ms = nat repeats \<and>
    (\<forall>u s. s \<notin> uuids w ` {uuids_used w..} \<longrightarrow> applied_seqs (tables w') u s = applied_seqs (tables w) u s)"
proof (cases "repeats \<le> 0")
  case True
  with assms show ?thesis by (simp add: repeat_applied_def ret_def)
next
  case False
  let ?s = "uuids w (uuids_used w)"
  let ?u = "DEMO_USER_PREFIX @ ''-measure-'' @ take 8 (uuid_hex ?s)"
  obtain w1 where 1: "open_session ?u ?s (w\<lparr>uuids_used := Suc (uuids_used w)\<rparr>) = (Inr (), w1)"
      "driving ks ?u ?s 0 w1" "same_elsewhere ?s w w1"
    using open_session_driving [OF assms refl] by blast
  obtain step w2 where 2: "demo_step ks ?u ?s (''apply seq=0'', 0) w1 = (Inr step, w2)"
      "driving ks ?u ?s 1 w2" "same_elsewhere ?s w1 w2"
    using run_step_driving [OF 1(2), of 0] unfolding demo_step_def by fastforce
  obtain steps w3 where 3: "map_pm (\<lambda>seq. demo_step ks ?u ?s (''apply seq='' @ int_str (int seq), int seq))
        [1..<1 + nat repeats] w2 = (Inr steps, w3)"
      "driving ks ?u ?s (1 + nat repeats) w3" "same_elsewhere ?s w2 w3"
      "length steps = nat repeats" "list_all applied steps"
    using demo_steps_in_turn [OF 2(2), of "\<lambda>seq. ''apply seq='' @ int_str (int seq)" "nat repeats"]
    by blast
  have "repeat_applied ks repeats w = (Inr (map duration_ms (filter applied steps)), w3)"
    using False 1(1) 2(1) 3(1)
    by (simp add: repeat_applied_def bind_def new_uuid_def Let_def ret_def add.commute)
  moreover have "length (map duration_ms (filter applied steps)) = nat repeats"
    using 3(4,5) by (simp add: list_all_iff)
  moreover have "healthy ks w3" using 3(2) by (simp add: driving_def)
  moreover have "same_elsewhere ?s w w3"
    using 1(3) 2(3) 3(3) by (blast intro: same_elsewhere_trans)
  then have "\<forall>u s. s \<notin> uuids w ` {uuids_used w..} \<longrightarrow>
      applied_seqs (tables w3) u s = applied_seqs (tables w) u s"
    unfolding same_elsewhere_def by (metis atLeast_iff image_eqI order_refl)
  ultimately show ?thesis by blast
qed

lemma total_reference_ms: "total (reference_ms u s repeats)"
  unfolding reference_ms_def reference_sample_def Let_def by (intro total_intros)

section \<open>Properties\<close>

lemma demo_texts_distinct: "distinct (map (render_txn ''demo'') session_txns)"
  by code_simp

lemma node_world_accord: "accord_runs ''demo'' session_txns (node_world ''demo'' session_txns d)"
  by (rule accord_runs_serve [OF demo_texts_distinct]) simp

lemma session_inv_empty: "session_inv empty_db"
  by (auto simp: session_inv_def db_ok_def table_ok_def timeline_typed_def timeline_seqs_def
      applied_seqs_def has_row_def empty_db_def intro: exI [of _ "0::nat"])

text \<open>Tables in which user \<open>u\<close> has session 7 open, for the witnesses.\<close>

definition open_db :: db where
  "open_db = put_row ''sessions_open'' [(''user_id'', CText ''u''), (''session_id'', CUuid 7)] empty_db"

lemma session_inv_open_db: "session_inv open_db"
  unfolding open_db_def by (intro session_inv_open session_inv_empty)

lemma open_db_views:
  "is_open open_db ''u'' 7" "applied_seqs open_db u s = {}"
  by (simp_all add: open_db_def is_open_def applied_seqs_def has_row_put_row key_of_def)
    (simp add: has_row_def empty_db_def)

lemma open_db_ok: "session_ok ''demo'' (node_world ''demo'' session_txns open_db)"
  using node_world_accord session_inv_open_db by (simp add: on_node_def)

definition one_event_db :: db where
  "one_event_db = append_event ''u'' 7 0 1 5 ''first'' ''{}'' open_db"

lemma session_inv_one_event: "session_inv one_event_db"
  unfolding one_event_db_def
  by (rule session_inv_append) (simp_all add: session_inv_open_db admits_def open_db_views)

lemma one_event_row: "map_of (one_event_db ''session_timeline'') [CText ''u'', CUuid 7, CInt 0] =
    Some [(''user_id'', CText ''u''), (''session_id'', CUuid 7), (''seq'', CInt 0),
      (''event_id'', CUuid 1), (''event_time'', CTime 5), (''event_type'', CText ''first''),
      (''payload'', CText ''{}'')]"
  by (simp add: one_event_db_def append_event_def lookup_put_row key_of_def open_db_def empty_db_def)

text \<open>
  C3. One step of a session refines the abstract append. When the node answers, the
  transaction's effect on the tables is \<open>append_event\<close> if the session is open, the number new and
  its predecessor applied, and nothing otherwise; and the \<open>applied\<close> flag the step reports, which
  the code reads out of the projected guards, is that decision.
\<close>

theorem session_step_refines:
  assumes "accord_runs ks session_txns w" and "faults w = []" and "db_ok (tables w)"
  shows "\<exists>step w' event_id event_time. run_step ks act u s seq ty pl w = (Inr step, w') \<and>
    applied step = admits (tables w) u s seq \<and> step_error step = None \<and>
    tables w' = (if admits (tables w) u s seq
      then append_event u s seq event_id event_time ty pl (tables w) else tables w)"
  using run_step_run [OF assms(1,2)] apply_reason_admits [OF assms(3)]
  by (force simp: empty_step_def)

theorem session_step_refines_witness:
  "\<exists>step w' event_id event_time.
    run_step ''demo'' ''apply'' ''u'' 7 0 ''t'' ''{}'' (node_world ''demo'' session_txns open_db) = (Inr step, w') \<and>
    applied step \<and> tables w' = append_event ''u'' 7 0 event_id event_time ''t'' ''{}'' open_db"
  using session_step_refines [OF node_world_accord, of open_db "''apply''" "''u''" 7 0 "''t''" "''{}''"]
    session_inv_open_db open_db_views
  by (auto simp: session_inv_def admits_def)

text \<open>
  C4. The session routes keep the invariant. Whatever requests arrive, in whatever order, and
  whichever calls to the node fail before or after their effect, every session's applied numbers
  and its timeline stay the same gapless prefix of the naturals, and only an open session has
  any.
\<close>

theorem session_routes_keep_invariant:
  assumes "accord_runs ks session_txns w" and "session_inv (tables w)"
  shows "session_inv (tables (fold (handle_session ks) requests w))"
  using session.requests.run_inv [of ks w requests] assms by (simp add: on_node_def)

theorem session_routes_keep_invariant_witness:
  "session_inv (tables (fold (handle_session ''demo'')
     [OpenReq (Some ''u''), StepReq ''u'' (Some 0) 0 ''t'', StepReq ''u'' (Some 0) 2 ''t'', DemoReq 3]
     (node_world ''demo'' session_txns open_db\<lparr>faults := [Reply, LostAfter ''timeout''] \<rparr>)))"
  by (rule session_routes_keep_invariant)
    (simp_all add: node_world_accord session_inv_open_db)

text \<open>
  Property. The same at the grain of single statements: any interleaving of the opens, the appends and
  the reference writes of any number of callers.
\<close>

theorem session_interleavings_keep_invariant:
  assumes "session_inv d"
  shows "session_inv (fold run_stmt sts d)"
  using session.statements.run_inv [OF assms] .

theorem session_interleavings_keep_invariant_witness:
  "session_inv (fold run_stmt
     [ApplyStmt ''u'' 7 1 0 0 ''t'' ''{}'', ApplyStmt ''u'' 7 0 1 0 ''t'' ''{}'',
      ApplyStmt ''u'' 7 1 2 0 ''t'' ''{}''] open_db)"
  by (rule session_interleavings_keep_invariant) (rule session_inv_open_db)

text \<open>
  Property. Exactly once: a row of the timeline is never rewritten. A replay of its number, under any
  schedule of requests and failures, leaves the event identifier, time, type and payload that
  were first applied.
\<close>

theorem applied_event_is_final:
  assumes "accord_runs ks session_txns w" and "session_inv (tables w)"
    and "map_of (tables w ''session_timeline'') k = Some r"
  shows "map_of (tables (fold (handle_session ks) requests w) ''session_timeline'') k = Some r"
  using fixed_row.requests.run_inv [of ks k r w requests] assms
  by (simp add: on_node_def keeps_row_def)

theorem applied_event_is_final_witness:
  "map_of (tables (fold (handle_session ''demo'') [StepReq ''u'' (Some 7) 0 ''again'']
      (node_world ''demo'' session_txns one_event_db))
      ''session_timeline'') [CText ''u'', CUuid 7, CInt 0] =
    Some [(''user_id'', CText ''u''), (''session_id'', CUuid 7), (''seq'', CInt 0),
      (''event_id'', CUuid 1), (''event_time'', CTime 5), (''event_type'', CText ''first''),
      (''payload'', CText ''{}'')]"
  by (rule applied_event_is_final)
    (simp_all only: node_world_simps node_world_accord session_inv_one_event one_event_row)

text \<open>
  Property. In order and without gaps: the timeline route returns a session's events under the numbers
  0, 1, 2, \<dots>, each once, in that order.
\<close>

theorem timeline_route_in_order:
  assumes "session_inv (tables w)" and "faults w = []"
  shows "\<exists>n rows. session_timeline u (Some s) w = (Inr (u, rows), w) \<and>
    map tl_seq rows = map int [0..<n] \<and> applied_seqs (tables w) u s = {0..<int n}"
proof -
  obtain n where n: "applied_seqs (tables w) u s = {0..<int n}"
    using assms(1) unfolding session_inv_def by blast
  show ?thesis using timeline_in_order [OF assms(1) n] n assms(2)
    by (intro exI [of _ n]) (simp add: session_timeline_def or_503_def bind_def try_except_def timeline_rows_run ret_def comp_def)
qed

theorem timeline_route_in_order_witness:
  "\<exists>n rows. session_timeline ''u'' (Some 7) (node_world ''demo'' session_txns one_event_db) =
      (Inr (''u'', rows), node_world ''demo'' session_txns one_event_db) \<and>
    map tl_seq rows = map int [0..<n] \<and> applied_seqs one_event_db ''u'' 7 = {0..<int n}"
  using timeline_route_in_order [of "node_world ''demo'' session_txns one_event_db" "''u''" 7]
  by (simp add: session_inv_one_event)

text \<open>
  Property. The scripted demonstration shows what it says it shows. With a node that answers, no other
  demonstration running and identifiers that are new, it returns six steps of which exactly the
  replay and the out-of-order attempt are refused, with the timeline counts
  0, 1, 1, 1, 2, 3 after them, a final timeline of 0, 1, 2, as many measured repeats as were asked
  for (every one of them applied), and it leaves the lock free.
\<close>

theorem session_demo_outcome:
  assumes "accord_runs ks session_txns w" and "session_inv (tables w)" and "fresh_ids w"
    and "faults w = []" and "\<not> txn_lock w" and "0 \<le> repeats" and "repeats \<le> 4000"
  shows "\<exists>r w'. session_demo ks repeats w = (Inr r, w') \<and> \<not> txn_lock w' \<and>
    map applied (demo_steps r) = [True, True, False, False, True, True] \<and>
    map timeline_count (demo_steps r) = [0, 1, 1, 1, 2, 3] \<and>
    map step_error (demo_steps r) = replicate 6 None \<and>
    map tl_seq (demo_timeline r) = [0, 1, 2] \<and> demo_repeats r = nat repeats"
proof -
  let ?w = "w\<lparr>txn_lock := True\<rparr>" and ?s = "uuids w (uuids_used w)"
  let ?u = "DEMO_USER_PREFIX @ ''-'' @ take 8 (uuid_hex ?s)"
  have ok: "healthy ks ?w" using assms by (simp add: healthy_def on_node_def fresh_ids_def)
  obtain steps w1 where 1: "demo_sequence ks ?u ?s (?w\<lparr>uuids_used := Suc (uuids_used w)\<rparr>) = (Inr steps, w1)"
      "driving ks ?u ?s 3 w1" "map step_error steps = replicate 6 None"
      "map (\<lambda>t. (applied t, timeline_count t)) steps =
        [(True, 0), (True, 1), (False, 1), (False, 1), (True, 2), (True, 3)]"
    using demo_sequence_run [OF ok] by fastforce
  obtain ms w2 where 2: "repeat_applied ks repeats w1 = (Inr ms, w2)" "healthy ks w2"
      "length ms = nat repeats" "applied_seqs (tables w2) ?u ?s = applied_seqs (tables w1) ?u ?s"
    using repeat_applied_run [of ks w1 repeats] 1(2) unfolding driving_def by blast
  have "applied_seqs (tables w2) ?u ?s = {0..<int 3}" using 2(4) 1(2) by (simp add: driving_def)
  moreover have "map int [0..<3] = [0, 1, 2]" by (simp add: upt_rec)
  ultimately have rows: "map (tl_seq \<circ> to_timeline_row)
      (select_partition ''session_timeline'' (timeline_where ?u ?s) (tables w2)) = [0, 1, 2]"
    using timeline_in_order [of "tables w2" ?u ?s 3] 2(2) by (simp add: healthy_def on_node_def)
  obtain ref w3 where 3: "reference_ms ?u ?s repeats w2 = (Inr ref, w3)"
    using totalD [OF total_reference_ms] by blast
  have "map fst (map (\<lambda>t. (applied t, timeline_count t)) steps) = [True, True, False, False, True, True]"
    "map snd (map (\<lambda>t. (applied t, timeline_count t)) steps) = [0, 1, 1, 1, 2, 3]"
    unfolding 1(4) by simp_all
  then have "map applied steps = [True, True, False, False, True, True]"
    "map timeline_count steps = [0, 1, 1, 1, 2, 3]" by (simp_all add: comp_def)
  then show ?thesis using assms(5,6,7) 1(1,3) 2(1,2,3) 3 rows
    by (simp add: session_demo_def validated_def with_txn_lock_def try_finally_def or_503_def try_except_def
        bind_def new_uuid_def Let_def timeline_rows_run healthy_def ret_def)
qed

lemma fresh_ids_open_db: "fresh_ids (node_world ks ts open_db)"
  by (simp add: fresh_ids_def open_db_views)

theorem session_demo_outcome_witness:
  "\<exists>r w'. session_demo ''demo'' 20 (node_world ''demo'' session_txns open_db) = (Inr r, w') \<and>
    map applied (demo_steps r) = [True, True, False, False, True, True] \<and>
    map tl_seq (demo_timeline r) = [0, 1, 2] \<and> demo_repeats r = 20"
  using session_demo_outcome [of "''demo''" "node_world ''demo'' session_txns open_db" 20]
  by (auto simp: node_world_accord session_inv_open_db fresh_ids_open_db)

lemma run_step_fault:
  assumes "accord_runs ks session_txns w" and "faults w = [f]"
  shows "\<exists>step w' event_id event_time. run_step ks act u s seq ty pl w = (Inr step, w') \<and>
    faults w' = [] \<and> accord_runs ks session_txns w' \<and>
    (tables w' = tables w \<or> tables w' =
      snd (run_txn (apply_txn seq) (apply_binds u s seq event_id event_time ty pl) (tables w)))"
proof -
  have "accord w (render_txn ks (apply_txn seq)) = run_txn (apply_txn seq)"
    using assms(1) apply_txn_mem [of seq] by (auto simp: accord_runs_def fun_eq_iff)
  then show ?thesis using assms
    by (cases f) (auto simp: run_step_def bind_def perf_counter_def attempt_def apply_params_run
        apply_cql_render execute_transaction_def node_call_def elapsed_ms_run timeline_rows_run ret_def)
qed

lemma admits_append: "\<not> admits (append_event u s seq eid et ty pl d) u s seq"
  by (simp add: admits_def session_views_append)

text \<open>
  C6. A lost reply is safe to retry. If a step that should be applied loses its reply, whether
  before or after the transaction took effect, and the same number is attempted again, the
  tables end as one append of that event: the retry completes it or changes nothing.
\<close>

theorem session_retry_is_exactly_once:
  assumes "accord_runs ks session_txns w" and "session_inv (tables w)" and "faults w = [f]"
    and "admits (tables w) u s seq" and "0 \<le> seq"
  shows "\<exists>step1 w1 step2 w2 event_id event_time.
    run_step ks act u s seq ty pl w = (Inr step1, w1) \<and>
    run_step ks act' u s seq ty pl w1 = (Inr step2, w2) \<and>
    tables w2 = append_event u s seq event_id event_time ty pl (tables w) \<and>
    (applied step2 \<longleftrightarrow> seq \<notin> applied_seqs (tables w1) u s)"
proof -
  obtain step1 w1 eid et where 1: "run_step ks act u s seq ty pl w = (Inr step1, w1)"
      "faults w1 = []" "accord_runs ks session_txns w1"
      "tables w1 = tables w \<or> tables w1 = append_event u s seq eid et ty pl (tables w)"
    using run_step_fault [OF assms(1,3)] assms(4) unfolding run_apply by metis
  have "session_inv (tables w1)" using 1(4) assms(2,4,5) session_inv_append by metis
  then have "db_ok (tables w1)" by (simp add: session_inv_def)
  then obtain step2 w2 eid' et' where 2: "run_step ks act' u s seq ty pl w1 = (Inr step2, w2)"
      "applied step2 = admits (tables w1) u s seq"
      "tables w2 = (if admits (tables w1) u s seq
        then append_event u s seq eid' et' ty pl (tables w1) else tables w1)"
    using run_step_run [OF 1(3,2)] apply_reason_admits by (force simp: empty_step_def)
  show ?thesis
  proof (cases "tables w1 = tables w")
    case True
    with 1 2 assms(4) show ?thesis by (auto simp: admits_def)
  next
    case False
    with 1 2 show ?thesis by (auto simp: admits_append session_views_append)
  qed
qed

theorem session_retry_is_exactly_once_witness:
  "\<exists>step1 w1 step2 w2 event_id event_time.
    run_step ''demo'' ''apply'' ''u'' 7 0 ''t'' ''{}''
      (node_world ''demo'' session_txns open_db\<lparr>faults := [LostAfter ''timeout'']\<rparr>) = (Inr step1, w1) \<and>
    run_step ''demo'' ''again'' ''u'' 7 0 ''t'' ''{}'' w1 = (Inr step2, w2) \<and>
    tables w2 = append_event ''u'' 7 0 event_id event_time ''t'' ''{}'' open_db"
  using session_retry_is_exactly_once [of "''demo''"
      "node_world ''demo'' session_txns open_db\<lparr>faults := [LostAfter ''timeout'']\<rparr>" _ "''u''" 7 0
      "''apply''" "''t''" "''{}''" "''again''"]
  by (simp add: node_world_accord session_inv_open_db admits_def open_db_views) metis

text \<open>
  Property. The percentile of a list that is not empty is one of its samples, rounded to two places, for
  every fraction between 0 and 1: the index the code computes is always within the list.
\<close>

theorem percentile_is_a_sample:
  assumes "values \<noteq> []" and "0 \<le> fraction" and "fraction \<le> 1"
  shows "\<exists>x \<in> set values. percentile values fraction = Some (py_round 2 x)"
proof -
  define n where "n = int (length values)"
  define i where "i = min (n - 1) (round_half_even (fraction * of_int (n - 1)))"
  have n: "1 \<le> n" using assms(1) by (cases "values") (simp_all add: n_def)
  then have "0 \<le> fraction * of_int (n - 1)" using assms(2) by simp
  then have "round_half_even 0 \<le> round_half_even (fraction * of_int (n - 1))"
    by (rule round_half_even_mono)
  then have i: "0 \<le> i" "nat i < length (sort values)"
    using n by (auto simp: i_def n_def round_half_even_def)
  then have "sort values ! nat i \<in> set values" using nth_mem [OF i(2)] by simp
  moreover have "percentile values fraction = Some (py_round 2 (sort values ! nat i))"
    using assms(1) i(1) by (simp add: percentile_def Let_def i_def n_def)
  ultimately show ?thesis by blast
qed

theorem percentile_is_a_sample_witness:
  "\<exists>x \<in> set [3, 1, 2 :: real]. percentile [3, 1, 2] (1 / 2) = Some (py_round 2 x)"
  by (rule percentile_is_a_sample) simp_all

end
