(* ===== verification/Clearance.thy ===== *)
theory Clearance
  imports Session_Timeline "HOL-Library.Multiset"
begin

text \<open>
  The airspace clearance demonstration of \<open>src/backend/app/routes/transactions.py\<close>: a
  distributed semaphore over three tables. A grant decrements \<open>zone_occupancy.remaining\<close> and
  records the clearance under the zone and under the drone; a release undoes it.

  The definitions follow the second half of the module: the two statements, the reading of a
  refusal, the ledger as the state route reads it, one step, the reset, and the six routes. The
  abstract specification is \<open>ledger\<close>, a counting semaphore with \<open>lgrant\<close> and \<open>lrelease\<close>;
  the lemmas show that the statements refine it and that \<open>clearance_inv\<close> (slots left plus
  holders is the capacity, and the two indexes mirror each other) survives every route under
  every pattern of failed calls.
\<close>

section \<open>The statements\<close>

definition DEMO_ZONE :: string where
  "DEMO_ZONE = ''zone-oslo-airport''"

definition DEMO_ASSETS :: "string \<times> string \<times> string" where
  "DEMO_ASSETS = (''asset-000000'', ''asset-000001'', ''asset-000002'')"

definition DEMO_OTHER_ZONE :: string where
  "DEMO_OTHER_ZONE = ''zone-royal-palace''"

definition DEMO_MEASURE_ZONE :: string where
  "DEMO_MEASURE_ZONE = ''zone-fornebu''"

definition grant_cql :: "string \<Rightarrow> string" where
  "grant_cql keyspace =
    ''BEGIN TRANSACTION'' @ NL @
    ''  LET occ = (SELECT capacity, remaining FROM '' @ keyspace @ ''.zone_occupancy '' @
    ''WHERE zone_id = ?);'' @ NL @
    ''  LET held = (SELECT zone_id FROM '' @ keyspace @ ''.drone_clearance '' @
    ''WHERE entity_id = ?);'' @ NL @
    ''  SELECT occ.remaining, occ.capacity, held.zone_id;'' @ NL @
    ''  IF occ.remaining IS NOT NULL AND occ.remaining > 0 AND held.zone_id IS NULL THEN'' @ NL @
    ''    UPDATE '' @ keyspace @ ''.zone_occupancy SET remaining -= 1 WHERE zone_id = ?;'' @ NL @
    ''    INSERT INTO '' @ keyspace @ ''.zone_clearance (zone_id, entity_id, granted_at) '' @
    ''VALUES (?, ?, ?);'' @ NL @
    ''    INSERT INTO '' @ keyspace @ ''.drone_clearance (entity_id, zone_id, granted_at) '' @
    ''VALUES (?, ?, ?);'' @ NL @
    ''  END IF'' @ NL @
    ''COMMIT TRANSACTION;''"

definition release_cql :: "string \<Rightarrow> string" where
  "release_cql keyspace =
    ''BEGIN TRANSACTION'' @ NL @
    ''  LET held = (SELECT zone_id FROM '' @ keyspace @ ''.drone_clearance '' @
    ''WHERE entity_id = ?);'' @ NL @
    ''  SELECT held.zone_id;'' @ NL @
    ''  IF held.zone_id = ? THEN'' @ NL @
    ''    UPDATE '' @ keyspace @ ''.zone_occupancy SET remaining += 1 WHERE zone_id = ?;'' @ NL @
    ''    DELETE FROM '' @ keyspace @ ''.zone_clearance WHERE zone_id = ? AND entity_id = ?;'' @ NL @
    ''    DELETE FROM '' @ keyspace @ ''.drone_clearance WHERE entity_id = ?;'' @ NL @
    ''  END IF'' @ NL @
    ''COMMIT TRANSACTION;''"

text \<open>The same statements as values.\<close>

definition grant_txn :: txn where
  "grant_txn = \<lparr>
     lets =
       [LetRead ''occ'' [''capacity'', ''remaining''] ''zone_occupancy'' [(''zone_id'', Q)],
        LetRead ''held'' [''zone_id''] ''drone_clearance'' [(''entity_id'', Q)]],
     projects = [Col ''occ'' ''remaining'', Col ''occ'' ''capacity'', Col ''held'' ''zone_id''],
     guards =
       [NotNull (Col ''occ'' ''remaining''), GtLit (Col ''occ'' ''remaining'') 0,
        IsNull (Col ''held'' ''zone_id'')],
     writes =
       [Increment ''zone_occupancy'' ''remaining'' (- 1) [''zone_id''],
        Insert ''zone_clearance'' [''zone_id'', ''entity_id'', ''granted_at''],
        Insert ''drone_clearance'' [''entity_id'', ''zone_id'', ''granted_at'']]\<rparr>"

definition release_txn :: txn where
  "release_txn = \<lparr>
     lets = [LetRead ''held'' [''zone_id''] ''drone_clearance'' [(''entity_id'', Q)]],
     projects = [Col ''held'' ''zone_id''],
     guards = [EqQ (Col ''held'' ''zone_id'')],
     writes =
       [Increment ''zone_occupancy'' ''remaining'' 1 [''zone_id''],
        Delete ''zone_clearance'' [''zone_id'', ''entity_id''],
        Delete ''drone_clearance'' [''entity_id'']]\<rparr>"

definition grant_reason :: "string \<Rightarrow> string \<Rightarrow> projection \<Rightarrow> string" where
  "grant_reason zone entity projection =
    (if projection = [] then ''the transaction projected nothing, so its guards cannot be read''
     else if row_get projection ''occ.remaining'' = CNull
       then zone @ '' has no occupancy row, so there is no capacity to draw on''
     else let held = row_get projection ''held.zone_id'' in
       if held \<noteq> CNull then entity @ '' already holds a clearance into '' @ cval_str held
       else if cval_int (row_get projection ''occ.remaining'') \<le> 0
         then zone @ '' is full: all '' @ cval_str (row_get projection ''occ.capacity'') @
           '' slots are held''
       else '''')"

definition release_reason :: "string \<Rightarrow> string \<Rightarrow> projection \<Rightarrow> string" where
  "release_reason zone entity projection =
    (if projection = [] then ''the transaction projected nothing, so its guards cannot be read''
     else let held = row_get projection ''held.zone_id'' in
       if held = CNull then entity @ '' holds no clearance, so there is nothing to give back''
       else if cval_str held \<noteq> zone
         then entity @ '' holds a clearance into '' @ cval_str held @ '', not into '' @ zone
       else '''')"

section \<open>The ledger, read from both sides\<close>

record clearance_ledger =
  zones :: "clearance_zone list"
  mismatched :: "string list"

text \<open>\<open>int(v or 0)\<close> and \<open>str(v or "")\<close>.\<close>

definition int_or_0 :: "cval \<Rightarrow> int" where
  "int_or_0 v = (if v = CNull then 0 else cval_int v)"

definition str_or_empty :: "cval \<Rightarrow> string" where
  "str_or_empty v = (if v = CNull then '''' else cval_str v)"

definition read_zone :: "row \<Rightarrow> (world, clearance_zone \<times> string list) pm" where
  "read_zone r =
    (let zid = cval_str (row_get r ''zone_id'') in
     bind (execute_query (select_partition ''zone_clearance'' [(''zone_id'', CText zid)])) (\<lambda>held.
     let hs = map (\<lambda>h. cval_str (row_get h ''entity_id'')) held in
     bind (map_pm (\<lambda>e.
         bind (execute_query (select_partition ''drone_clearance'' [(''entity_id'', CText e)]))
           (\<lambda>mirror. ret (if mirror = [] \<or> cval_str (row_get (hd mirror) ''zone_id'') \<noteq> zid
              then [e] else []))) hs) (\<lambda>bad.
     let cap = int_or_0 (row_get r ''capacity''); rem = int_or_0 (row_get r ''remaining'') in
       ret (\<lparr>zone_id = zid, zone_name = str_or_empty (row_get r ''zone_name''),
             severity = str_or_empty (row_get r ''severity''), capacity = cap, remaining = rem,
             holders = sort hs, consistent = (cap = rem + int (length hs))\<rparr>, concat bad))))"

definition read_clearance_state :: "(world, clearance_ledger) pm" where
  "read_clearance_state =
    bind (execute_query (select_all ''zone_occupancy'')) (\<lambda>occupancy.
    bind (map_pm read_zone occupancy) (\<lambda>parts.
      ret \<lparr>zones = sort_key zone_id (map fst parts),
           mismatched = sort (remdups (concat (map snd parts)))\<rparr>))"

definition zone_named :: "string \<Rightarrow> clearance_ledger \<Rightarrow> clearance_zone option" where
  "zone_named zid l = find (\<lambda>z. zone_id z = zid) (zones l)"

section \<open>One step\<close>

definition clearance_step ::
  "string \<Rightarrow> string \<Rightarrow> cval list \<Rightarrow> string \<Rightarrow> string \<Rightarrow> (string \<Rightarrow> string \<Rightarrow> projection \<Rightarrow> string) \<Rightarrow>
    bool \<Rightarrow> (world, transaction_step) pm" where
  "clearance_step act stmt params zone entity reason_of with_state =
    bind perf_counter (\<lambda>start.
    bind (attempt (execute_transaction stmt params)) (\<lambda>outcome.
      case outcome of
        Inl exc \<Rightarrow>
          bind (elapsed_ms start) (\<lambda>ms.
            ret (empty_step\<lparr>action := act, cql := stmt, duration_ms := ms,
              step_error := Some (exn_str exc)\<rparr>))
      | Inr projection \<Rightarrow>
          bind (elapsed_ms start) (\<lambda>ms.
          bind (if with_state
                then bind read_clearance_state (\<lambda>l. ret (zone_named zone l)) else ret None) (\<lambda>z.
            ret (empty_step\<lparr>action := act, cql := stmt,
              applied := (reason_of zone entity projection = ''''),
              reason := reason_of zone entity projection,
              projected := printed projection, duration_ms := ms, state := z\<rparr>)))))"

definition grant_binds :: "string \<Rightarrow> string \<Rightarrow> instant \<Rightarrow> cval list" where
  "grant_binds zone entity granted_at =
    [CText zone, CText entity, CText zone, CText zone, CText entity, CTime granted_at,
     CText entity, CText zone, CTime granted_at]"

definition release_binds :: "string \<Rightarrow> string \<Rightarrow> cval list" where
  "release_binds zone entity =
    [CText entity, CText zone, CText zone, CText zone, CText entity, CText entity]"

definition run_grant ::
  "string \<Rightarrow> string \<Rightarrow> string \<Rightarrow> string \<Rightarrow> bool \<Rightarrow> (world, transaction_step) pm" where
  "run_grant keyspace act zone entity with_state =
    bind now (\<lambda>granted_at.
      clearance_step act (grant_cql keyspace) (grant_binds zone entity granted_at) zone entity
        grant_reason with_state)"

definition run_release ::
  "string \<Rightarrow> string \<Rightarrow> string \<Rightarrow> string \<Rightarrow> bool \<Rightarrow> (world, transaction_step) pm" where
  "run_release keyspace act zone entity with_state =
    clearance_step act (release_cql keyspace) (release_binds zone entity) zone entity
      release_reason with_state"

definition reset_holder :: "string \<Rightarrow> string \<times> string \<Rightarrow> (world, string) pm" where
  "reset_holder keyspace = (\<lambda>(zone, entity).
    bind (run_release keyspace (''release '' @ entity) zone entity True) (\<lambda>step.
      ret (if applied step then ''released '' @ entity @ '' from '' @ zone
           else ''could not release '' @ entity @ '' from '' @ zone @ '': '' @
             (if reason step \<noteq> '''' then reason step
              else case step_error step of Some e \<Rightarrow> e | None \<Rightarrow> ''None''))))"

definition reset_clearances :: "string \<Rightarrow> (world, string list) pm" where
  "reset_clearances keyspace =
    bind read_clearance_state (\<lambda>l.
      map_pm (reset_holder keyspace)
        (concat (map (\<lambda>z. map (Pair (zone_id z)) (holders z)) (zones l))))"

section \<open>Routes\<close>

text \<open>\<open>except Exception as exc\<close> alone.\<close>

definition any_503 :: "(world, 'a) pm \<Rightarrow> (world, 'a) pm" where
  "any_503 m = try_except m (\<lambda>e. raise (HTTPException 503 (exn_str e)))"

definition clearance_state :: "(world, clearance_ledger) pm" where
  "clearance_state = any_503 read_clearance_state"

definition clearance_grant :: "string \<Rightarrow> string \<Rightarrow> string \<Rightarrow> (world, transaction_step) pm" where
  "clearance_grant keyspace zone entity =
    with_txn_lock (any_503
      (run_grant keyspace (''grant '' @ entity @ '' into '' @ zone) zone entity True))"

definition clearance_release :: "string \<Rightarrow> string \<Rightarrow> string \<Rightarrow> (world, transaction_step) pm" where
  "clearance_release keyspace zone entity =
    with_txn_lock (any_503
      (run_release keyspace (''release '' @ entity @ '' from '' @ zone) zone entity True))"

definition clearance_reset :: "string \<Rightarrow> (world, string list \<times> clearance_ledger) pm" where
  "clearance_reset keyspace =
    with_txn_lock (any_503
      (bind (reset_clearances keyspace) (\<lambda>actions.
       bind read_clearance_state (\<lambda>l. ret (actions, l)))))"

record contention_result =
  cr_zone_id :: string
  cr_capacity :: int
  askers :: nat
  granted :: nat
  refused :: nat
  winners :: "string list"
  errors :: "string list"
  cr_duration_ms :: real
  cr_zone :: "clearance_zone option"

definition asset_name :: "nat \<Rightarrow> string" where
  "asset_name index = ''asset-'' @ pad0 6 index"

text \<open>A step's error as the truth test reads it: \<open>None\<close> and the empty text are both false.\<close>

definition error_text :: "transaction_step \<Rightarrow> string" where
  "error_text t = (case step_error t of None \<Rightarrow> '''' | Some e \<Rightarrow> e)"

text \<open>
  The thread pool: the tasks take effect one transaction at a time, in the order \<open>order\<close> the
  scheduler happens to choose, and \<open>pool.map\<close> hands their results back in submission order.
\<close>

definition pool_map :: "nat list \<Rightarrow> ('a \<Rightarrow> ('s, 'b) pm) \<Rightarrow> 'a list \<Rightarrow> ('s, 'b list) pm" where
  "pool_map order f xs =
    bind (map_pm (\<lambda>i. f (xs ! i)) order) (\<lambda>ys.
      ret (map (\<lambda>i. the (map_of (zip order ys) i)) [0..<length xs]))"

definition clearance_contend ::
  "string \<Rightarrow> nat list \<Rightarrow> string \<Rightarrow> nat \<Rightarrow> (world, contention_result) pm" where
  "clearance_contend keyspace order zone n =
    validated (2 \<le> n \<and> n \<le> 100) (with_txn_lock (or_503
      (bind (reset_clearances keyspace) (\<lambda>_.
       bind read_clearance_state (\<lambda>l.
       case zone_named zone l of
         None \<Rightarrow> raise (HTTPException 404 (zone @ '' has no occupancy row''))
       | Some before \<Rightarrow>
         bind perf_counter (\<lambda>start.
         bind (pool_map order
             (\<lambda>entity. run_grant keyspace (''grant '' @ entity) zone entity False)
             (map asset_name [0..<n])) (\<lambda>steps.
         bind (elapsed_ms start) (\<lambda>ms.
         bind read_clearance_state (\<lambda>l'.
           let after = zone_named zone l' in
           ret \<lparr>cr_zone_id = zone, cr_capacity = capacity before, askers = n,
             granted = length (filter applied steps),
             refused = length (filter (\<lambda>t. \<not> applied t \<and> error_text t = '''') steps),
             winners = (case after of None \<Rightarrow> [] | Some z \<Rightarrow> sort (holders z)),
             errors = map (\<lambda>t. action t @ '': '' @ error_text t)
               (filter (\<lambda>t. error_text t \<noteq> '''') steps),
             cr_duration_ms = ms, cr_zone = after\<rparr>)))))))))"

definition measure_pair :: "string \<Rightarrow> (world, real list \<times> real list) pm" where
  "measure_pair keyspace =
    bind (run_grant keyspace ''measure grant'' DEMO_MEASURE_ZONE ''asset-measure'' False) (\<lambda>g.
    bind (run_release keyspace ''measure release'' DEMO_MEASURE_ZONE ''asset-measure'' False) (\<lambda>r.
      ret (if applied g then [duration_ms g] else [], if applied r then [duration_ms r] else [])))"

definition repeat_clearance :: "string \<Rightarrow> int \<Rightarrow> (world, real list \<times> real list) pm" where
  "repeat_clearance keyspace repeats =
    (if repeats \<le> 0 then ret ([], [])
     else bind (map_pm (\<lambda>_. measure_pair keyspace) [0..<nat repeats]) (\<lambda>pairs.
       ret (concat (map fst pairs), concat (map snd pairs))))"

record clearance_demo_result =
  cd_zone_id :: string
  cd_entity_ids :: "string list"
  cd_steps :: "transaction_step list"
  cd_state :: clearance_ledger
  cd_repeats :: nat
  grant_p50_ms :: "real option"
  grant_max_ms :: "real option"
  release_p50_ms :: "real option"
  release_max_ms :: "real option"

definition clearance_script :: "string \<Rightarrow> (world, transaction_step) pm list" where
  "clearance_script keyspace =
    (case DEMO_ASSETS of (first', second', third') \<Rightarrow>
      [run_grant keyspace (''grant '' @ first' @ '' into '' @ DEMO_ZONE) DEMO_ZONE first' True,
       run_grant keyspace (''replay the grant of '' @ first') DEMO_ZONE first' True,
       run_grant keyspace (''grant '' @ first' @ '' a second clearance, into '' @ DEMO_OTHER_ZONE)
         DEMO_OTHER_ZONE first' True,
       run_grant keyspace (''grant '' @ second' @ '' the last slot'') DEMO_ZONE second' True,
       run_grant keyspace (''grant '' @ third' @ '' into a full zone'') DEMO_ZONE third' True,
       run_release keyspace (''release '' @ first') DEMO_ZONE first' True,
       run_release keyspace (''release '' @ first' @ '' again'') DEMO_ZONE first' True])"

definition clearance_demo :: "string \<Rightarrow> int \<Rightarrow> (world, clearance_demo_result) pm" where
  "clearance_demo keyspace repeats =
    validated (0 \<le> repeats \<and> repeats \<le> 4000) (with_txn_lock (or_503
      (bind (reset_clearances keyspace) (\<lambda>_.
       bind (map_pm (\<lambda>m. m) (clearance_script keyspace)) (\<lambda>steps.
       bind (repeat_clearance keyspace repeats) (\<lambda>(grant_ms, release_ms).
       bind read_clearance_state (\<lambda>l.
         ret \<lparr>cd_zone_id = DEMO_ZONE,
           cd_entity_ids = (case DEMO_ASSETS of (a, b, c) \<Rightarrow> [a, b, c]), cd_steps = steps, cd_state = l, cd_repeats = length grant_ms,
           grant_p50_ms = percentile grant_ms (1 / 2), grant_max_ms = max_ms grant_ms,
           release_p50_ms = percentile release_ms (1 / 2),
           release_max_ms = max_ms release_ms\<rparr>)))))))"

section \<open>The text and its meaning\<close>

definition clearance_txns :: "txn list" where
  "clearance_txns = [grant_txn, release_txn]"

lemma int_str_1 [simp]: "int_str 1 = ''1''"
  by code_simp

lemma clearance_lines:
  "render_let ks (LetRead ''occ'' [''capacity'', ''remaining''] ''zone_occupancy'' [(''zone_id'', Q)]) =
   ''LET occ = (SELECT capacity, remaining FROM '' @ ks @ ''.zone_occupancy '' @ ''WHERE zone_id = ?);''"
  "render_let ks (LetRead ''held'' [''zone_id''] ''drone_clearance'' [(''entity_id'', Q)]) =
   ''LET held = (SELECT zone_id FROM '' @ ks @ ''.drone_clearance '' @ ''WHERE entity_id = ?);''"
  "render_write ks (Increment ''zone_occupancy'' ''remaining'' (- 1) [''zone_id'']) =
   ''UPDATE '' @ ks @ ''.zone_occupancy SET remaining -= 1 WHERE zone_id = ?;''"
  "render_write ks (Increment ''zone_occupancy'' ''remaining'' 1 [''zone_id'']) =
   ''UPDATE '' @ ks @ ''.zone_occupancy SET remaining += 1 WHERE zone_id = ?;''"
  "render_write ks (Insert ''zone_clearance'' [''zone_id'', ''entity_id'', ''granted_at'']) =
   ''INSERT INTO '' @ ks @ ''.zone_clearance (zone_id, entity_id, granted_at) '' @ ''VALUES (?, ?, ?);''"
  "render_write ks (Insert ''drone_clearance'' [''entity_id'', ''zone_id'', ''granted_at'']) =
   ''INSERT INTO '' @ ks @ ''.drone_clearance (entity_id, zone_id, granted_at) '' @ ''VALUES (?, ?, ?);''"
  "render_write ks (Delete ''zone_clearance'' [''zone_id'', ''entity_id'']) =
   ''DELETE FROM '' @ ks @ ''.zone_clearance WHERE zone_id = ? AND entity_id = ?;''"
  "render_write ks (Delete ''drone_clearance'' [''entity_id'']) =
   ''DELETE FROM '' @ ks @ ''.drone_clearance WHERE entity_id = ?;''"
  by (simp_all add: render_where_def)

lemma clearance_pieces:
  "''  LET occ = (SELECT capacity, remaining FROM '' =
   ''  '' @ ''LET occ = (SELECT capacity, remaining FROM ''"
  "''  LET held = (SELECT zone_id FROM '' = ''  '' @ ''LET held = (SELECT zone_id FROM ''"
  "''  SELECT occ.remaining, occ.capacity, held.zone_id;'' =
   ''  '' @ ''SELECT '' @ cref_name (Col ''occ'' ''remaining'') @ '', '' @
   cref_name (Col ''occ'' ''capacity'') @ '', '' @ cref_name (Col ''held'' ''zone_id'') @ '';''"
  "''  SELECT held.zone_id;'' = ''  '' @ ''SELECT '' @ cref_name (Col ''held'' ''zone_id'') @ '';''"
  "''  IF occ.remaining IS NOT NULL AND occ.remaining > 0 AND held.zone_id IS NULL THEN'' =
   ''  IF '' @ render_guard (NotNull (Col ''occ'' ''remaining'')) @ '' AND '' @
   render_guard (GtLit (Col ''occ'' ''remaining'') 0) @ '' AND '' @
   render_guard (IsNull (Col ''held'' ''zone_id'')) @ '' THEN''"
  "''  IF held.zone_id = ? THEN'' = ''  IF '' @ render_guard (EqQ (Col ''held'' ''zone_id'')) @ '' THEN''"
  "''    UPDATE '' = ''    '' @ ''UPDATE ''"
  "''    INSERT INTO '' = ''    '' @ ''INSERT INTO ''"
  "''    DELETE FROM '' = ''    '' @ ''DELETE FROM ''"
  by simp_all

lemma grant_cql_render: "grant_cql ks = render_txn ks grant_txn"
  by (simp only: grant_cql_def grant_txn_def clearance_lines clearance_pieces render_simps)

lemma release_cql_render: "release_cql ks = render_txn ks release_txn"
  by (simp only: release_cql_def release_txn_def clearance_lines clearance_pieces render_simps)

section \<open>The abstract ledger\<close>

text \<open>
  A counting semaphore per zone: its capacity, the slots left, and the zone each drone is cleared
  into. A drone holds at most one clearance.
\<close>

record ledger =
  cap :: "string \<rightharpoonup> int"
  slots :: "string \<rightharpoonup> int"
  held :: "string \<rightharpoonup> string"

definition inside :: "ledger \<Rightarrow> string \<Rightarrow> string set" where
  "inside l z = {e. held l e = Some z}"

definition can_grant :: "ledger \<Rightarrow> string \<Rightarrow> string \<Rightarrow> bool" where
  "can_grant l z e \<longleftrightarrow> (case slots l z of None \<Rightarrow> False | Some n \<Rightarrow> 0 < n) \<and> held l e = None"

definition lgrant :: "string \<Rightarrow> string \<Rightarrow> ledger \<Rightarrow> ledger" where
  "lgrant z e l = (if can_grant l z e
     then l\<lparr>slots := (slots l)(z := map_option (\<lambda>n. n - 1) (slots l z)), held := (held l)(e \<mapsto> z)\<rparr>
     else l)"

definition lrelease :: "string \<Rightarrow> string \<Rightarrow> ledger \<Rightarrow> ledger" where
  "lrelease z e l = (if held l e = Some z
     then l\<lparr>slots := (slots l)(z := map_option (\<lambda>n. n + 1) (slots l z)), held := (held l)(e := None)\<rparr>
     else l)"

definition ledger_inv :: "ledger \<Rightarrow> bool" where
  "ledger_inv l \<longleftrightarrow> finite (dom (held l)) \<and> dom (slots l) = dom (cap l) \<and> ran (held l) \<subseteq> dom (cap l) \<and>
    (\<forall>z c n. cap l z = Some c \<longrightarrow> slots l z = Some n \<longrightarrow> 0 \<le> n \<and> c = n + int (card (inside l z)))"

lemma finite_inside: "ledger_inv l \<Longrightarrow> finite (inside l z)"
  unfolding ledger_inv_def inside_def by (auto elim: finite_subset [rotated])

lemma ledger_inv_grant: "ledger_inv l \<Longrightarrow> ledger_inv (lgrant z e l)"
proof (cases "can_grant l z e")
  case True
  assume inv: "ledger_inv l"
  have "inside (lgrant z e l) z' = (if z' = z then insert e (inside l z) else inside l z')" for z'
    using True by (auto simp: inside_def lgrant_def can_grant_def)
  moreover have "e \<notin> inside l z" using True by (simp add: inside_def can_grant_def)
  ultimately show ?thesis using inv True finite_inside [OF inv, of z]
    by (auto simp: ledger_inv_def lgrant_def can_grant_def ran_def split: option.splits if_splits)
qed (simp add: lgrant_def)

lemma dom_map_at: "dom (m(z := map_option f (m z))) = dom m"
  by (auto simp: dom_def)

lemma ledger_inv_release: "ledger_inv l \<Longrightarrow> ledger_inv (lrelease z e l)"
proof (cases "held l e = Some z")
  case True
  assume inv: "ledger_inv l"
  let ?l = "lrelease z e l"
  have l: "cap ?l = cap l" "held ?l = (held l)(e := None)"
    "slots ?l = (slots l)(z := map_option (\<lambda>n. n + 1) (slots l z))"
    using True by (simp_all add: lrelease_def)
  have ins: "inside ?l z' = (if z' = z then inside l z - {e} else inside l z')" for z'
    using True by (auto simp: inside_def l)
  have "e \<in> inside l z" using True by (simp add: inside_def)
  then have card: "int (card (inside l z)) = int (card (inside l z - {e})) + 1"
    using card_Suc_Diff1 [OF finite_inside [OF inv]] by force
  have "dom (slots ?l) = dom (cap ?l)"
    using inv by (simp only: l dom_map_at ledger_inv_def)
  moreover have "ran (held ?l) \<subseteq> dom (cap ?l)"
    using inv by (auto simp: l ledger_inv_def ran_def split: if_splits)
  moreover have "0 \<le> n \<and> c = n + int (card (inside ?l z'))"
    if "cap ?l z' = Some c" "slots ?l z' = Some n" for z' c n
    using inv that ins [of z'] card unfolding ledger_inv_def l by (fastforce split: if_splits)
  ultimately show ?thesis using inv unfolding ledger_inv_def by (simp add: l)
qed (simp add: lrelease_def)

section \<open>The tables as a ledger\<close>

definition as_int :: "cval \<Rightarrow> int option" where
  "as_int v = (case v of CInt i \<Rightarrow> Some i | _ \<Rightarrow> None)"

definition as_text :: "cval \<Rightarrow> string option" where
  "as_text v = (case v of CText s \<Rightarrow> Some s | _ \<Rightarrow> None)"

definition cell :: "db \<Rightarrow> string \<Rightarrow> cval list \<Rightarrow> string \<Rightarrow> cval" where
  "cell d t k c = (case map_of (d t) k of None \<Rightarrow> CNull | Some r \<Rightarrow> row_get r c)"

definition ledger_of :: "db \<Rightarrow> ledger" where
  "ledger_of d = \<lparr>
     cap = (\<lambda>z. as_int (cell d ''zone_occupancy'' [CText z] ''capacity'')),
     slots = (\<lambda>z. as_int (cell d ''zone_occupancy'' [CText z] ''remaining'')),
     held = (\<lambda>e. as_text (cell d ''drone_clearance'' [CText e] ''zone_id''))\<rparr>"

text \<open>
  What the tables hold is of the schema's types, every occupancy row has its two numbers, and
  the clearances recorded under the zones are those recorded under the drones.
\<close>

definition clearance_wf :: "db \<Rightarrow> bool" where
  "clearance_wf d \<longleftrightarrow> db_ok d \<and>
    (\<forall>k. has_row d ''zone_occupancy'' k \<longrightarrow> (\<exists>z c n. k = [CText z] \<and>
       cell d ''zone_occupancy'' k ''capacity'' = CInt c \<and>
       cell d ''zone_occupancy'' k ''remaining'' = CInt n)) \<and>
    (\<forall>k. has_row d ''drone_clearance'' k \<longrightarrow> (\<exists>e z. k = [CText e] \<and>
       cell d ''drone_clearance'' k ''zone_id'' = CText z)) \<and>
    (\<forall>k. has_row d ''zone_clearance'' k \<longleftrightarrow>
       (\<exists>z e. k = [CText z, CText e] \<and> held (ledger_of d) e = Some z))"

definition clearance_inv :: "db \<Rightarrow> bool" where
  "clearance_inv d \<longleftrightarrow> clearance_wf d \<and> ledger_inv (ledger_of d)"

lemma as_int_simps [simp]: "as_int CNull = None" "as_int (CInt i) = Some i"
  by (simp_all add: as_int_def)

lemma as_text_simps [simp]: "as_text CNull = None" "as_text (CText s) = Some s"
  by (simp_all add: as_text_def)

lemma as_text_Some: "as_text v = Some s \<longleftrightarrow> v = CText s"
  by (auto simp: as_text_def split: cval.splits)

lemma as_int_Some: "as_int v = Some i \<longleftrightarrow> v = CInt i"
  by (auto simp: as_int_def split: cval.splits)

lemma cell_absent: "\<not> has_row d t k \<Longrightarrow> cell d t k c = CNull"
  by (simp add: has_row_def cell_def)

lemma cell_put_row:
  "cell (put_row t cs d) t' k c =
    (if t' = t \<and> k = key_of t cs
     then (if c \<in> fst ` set cs then row_get cs c else cell d t k c) else cell d t' k c)"
proof (cases "c \<in> fst ` set cs")
  case False
  then have "map_of cs c = None" by (simp add: map_of_eq_None_iff)
  then have "row_get cs c = CNull" by (simp add: row_get_def)
  then show ?thesis
    by (auto simp: cell_def lookup_put_row row_get_merge False split: option.splits)
qed (auto simp: cell_def lookup_put_row row_get_merge split: option.splits)

lemma lookup_delete_row:
  "map_of (delete_row t cs d t') k = (if t' = t \<and> k = key_of t cs then None else map_of (d t') k)"
  by (simp add: delete_row_def delete_conv')

lemma has_row_delete_row:
  "has_row (delete_row t cs d) t' k \<longleftrightarrow> has_row d t' k \<and> \<not> (t' = t \<and> k = key_of t cs)"
  by (auto simp: has_row_def lookup_delete_row)

lemma cell_delete_row:
  "cell (delete_row t cs d) t' k c = (if t' = t \<and> k = key_of t cs then CNull else cell d t' k c)"
  by (simp add: cell_def lookup_delete_row)

lemma has_row_increment_row: "has_row (increment_row t c n cs d) t' k \<longleftrightarrow> has_row d t' k"
  by (auto simp: has_row_def increment_row_def update_conv' split: option.splits cval.splits)

lemma cell_increment_row:
  "cell (increment_row t c n cs d) t' k c' =
    (case as_int (cell d t (key_of t cs) c) of
       Some i \<Rightarrow> if t' = t \<and> k = key_of t cs \<and> c' = c then CInt (i + n) else cell d t' k c'
     | None \<Rightarrow> cell d t' k c')"
  by (auto simp: cell_def increment_row_def update_conv' row_get_update as_int_def
      split: option.splits cval.splits)

definition granted_db :: "string \<Rightarrow> string \<Rightarrow> instant \<Rightarrow> db \<Rightarrow> db" where
  "granted_db z e t d =
    put_row ''drone_clearance'' [(''entity_id'', CText e), (''zone_id'', CText z), (''granted_at'', CTime t)]
     (put_row ''zone_clearance'' [(''zone_id'', CText z), (''entity_id'', CText e), (''granted_at'', CTime t)]
      (increment_row ''zone_occupancy'' ''remaining'' (- 1) [(''zone_id'', CText z)] d))"

definition released_db :: "string \<Rightarrow> string \<Rightarrow> db \<Rightarrow> db" where
  "released_db z e d =
    delete_row ''drone_clearance'' [(''entity_id'', CText e)]
     (delete_row ''zone_clearance'' [(''zone_id'', CText z), (''entity_id'', CText e)]
      (increment_row ''zone_occupancy'' ''remaining'' 1 [(''zone_id'', CText z)] d))"

lemma row_get_filter2:
  "row_get (filter (\<lambda>(c, _). c = a \<or> c = b) r) a = row_get r a"
  "row_get (filter (\<lambda>(c, _). c = a \<or> c = b) r) b = row_get r b"
  by (induction r) (auto split: if_splits)

lemma grant_projection:
  "fst (run_txn grant_txn (grant_binds z e t) d) =
    [(''occ.remaining'', cell d ''zone_occupancy'' [CText z] ''remaining''),
     (''occ.capacity'', cell d ''zone_occupancy'' [CText z] ''capacity''),
     (''held.zone_id'', cell d ''drone_clearance'' [CText e] ''zone_id'')]"
  by (simp add: run_txn_def grant_txn_def grant_binds_def env_row_def key_of_def cell_def
      row_get_filter1 row_get_filter2 split: option.splits)

lemma release_projection:
  "fst (run_txn release_txn (release_binds z e) d) =
    [(''held.zone_id'', cell d ''drone_clearance'' [CText e] ''zone_id'')]"
  by (simp add: run_txn_def release_txn_def release_binds_def env_row_def key_of_def cell_def
      row_get_filter1 split: option.splits)

lemma run_grant_txn:
  assumes "clearance_wf d"
  shows "snd (run_txn grant_txn (grant_binds z e t) d) =
    (if can_grant (ledger_of d) z e then granted_db z e t d else d)"
proof -
  let ?o = "cell d ''zone_occupancy'' [CText z] ''remaining''"
  let ?h = "cell d ''drone_clearance'' [CText e] ''zone_id''"
  have "snd (run_txn grant_txn (grant_binds z e t) d) =
      (if ?o \<noteq> CNull \<and> (case ?o of CInt j \<Rightarrow> 0 < j | _ \<Rightarrow> False) \<and> ?h = CNull
       then granted_db z e t d else d)"
    by (auto simp: run_txn_def grant_txn_def grant_binds_def env_row_def key_of_def cell_def
        row_get_filter1 row_get_filter2 granted_db_def split: option.splits)
  moreover have "?h = CNull \<longleftrightarrow> as_text ?h = None"
  proof (cases "has_row d ''drone_clearance'' [CText e]")
    case True
    then show ?thesis using assms unfolding clearance_wf_def by force
  qed (simp add: cell_absent)
  ultimately show ?thesis
    by (simp add: can_grant_def ledger_of_def as_int_def split: cval.splits)
qed

lemma run_release_txn:
  "snd (run_txn release_txn (release_binds z e) d) =
    (if held (ledger_of d) e = Some z then released_db z e d else d)"
proof -
  let ?h = "cell d ''drone_clearance'' [CText e] ''zone_id''"
  have "snd (run_txn release_txn (release_binds z e) d) =
      (if ?h = CText z then released_db z e d else d)"
    by (auto simp: run_txn_def release_txn_def release_binds_def env_row_def key_of_def cell_def
        row_get_filter1 released_db_def split: option.splits)
  then show ?thesis by (simp add: ledger_of_def as_text_Some)
qed

subsection \<open>The statements refine the ledger\<close>

lemma ledger_granted:
  assumes "can_grant (ledger_of d) z e"
  shows "ledger_of (granted_db z e t d) = lgrant z e (ledger_of d)"
proof -
  obtain n where n: "as_int (cell d ''zone_occupancy'' [CText z] ''remaining'') = Some n"
    using assms by (auto simp: can_grant_def ledger_of_def split: option.splits)
  show ?thesis using assms n
    by (simp add: lgrant_def) (auto simp: ledger_of_def granted_db_def cell_put_row
        cell_increment_row key_of_def fun_eq_iff as_int_Some)
qed

lemma ledger_released:
  assumes "held (ledger_of d) e = Some z"
  shows "ledger_of (released_db z e d) = lrelease z e (ledger_of d)"
proof (cases "as_int (cell d ''zone_occupancy'' [CText z] ''remaining'')")
  case None
  with assms show ?thesis
    by (simp add: lrelease_def) (auto simp: ledger_of_def released_db_def cell_delete_row
        cell_increment_row key_of_def fun_eq_iff)
next
  case (Some n)
  with assms show ?thesis
    by (simp add: lrelease_def) (auto simp: ledger_of_def released_db_def cell_delete_row
        cell_increment_row key_of_def fun_eq_iff as_int_Some)
qed

lemma db_ok_granted: "db_ok d \<Longrightarrow> db_ok (granted_db z e t d)"
  unfolding granted_db_def by (intro db_ok_put_row db_ok_increment_row) simp_all

lemma db_ok_released: "db_ok d \<Longrightarrow> db_ok (released_db z e d)"
  unfolding released_db_def by (intro db_ok_delete_row db_ok_increment_row) simp_all

lemma rows_granted:
  "has_row (granted_db z e t d) ''zone_occupancy'' k \<longleftrightarrow> has_row d ''zone_occupancy'' k"
  "has_row (granted_db z e t d) ''drone_clearance'' k \<longleftrightarrow> k = [CText e] \<or> has_row d ''drone_clearance'' k"
  "has_row (granted_db z e t d) ''zone_clearance'' k \<longleftrightarrow>
    k = [CText z, CText e] \<or> has_row d ''zone_clearance'' k"
  by (auto simp: granted_db_def has_row_put_row has_row_increment_row key_of_def)

lemma rows_released:
  "has_row (released_db z e d) ''zone_occupancy'' k \<longleftrightarrow> has_row d ''zone_occupancy'' k"
  "has_row (released_db z e d) ''drone_clearance'' k \<longleftrightarrow> k \<noteq> [CText e] \<and> has_row d ''drone_clearance'' k"
  "has_row (released_db z e d) ''zone_clearance'' k \<longleftrightarrow>
    k \<noteq> [CText z, CText e] \<and> has_row d ''zone_clearance'' k"
  by (auto simp: released_db_def has_row_delete_row has_row_increment_row key_of_def)

lemma cells_granted:
  "cell (granted_db z e t d) ''zone_occupancy'' k ''capacity'' = cell d ''zone_occupancy'' k ''capacity''"
  "cell (granted_db z e t d) ''drone_clearance'' k ''zone_id'' =
    (if k = [CText e] then CText z else cell d ''drone_clearance'' k ''zone_id'')"
  "cell d ''zone_occupancy'' k ''remaining'' = CInt n \<Longrightarrow>
    \<exists>m. cell (granted_db z e t d) ''zone_occupancy'' k ''remaining'' = CInt m"
  by (auto simp: granted_db_def cell_put_row cell_increment_row key_of_def split: option.splits)

lemma cells_released:
  "cell (released_db z e d) ''zone_occupancy'' k ''capacity'' = cell d ''zone_occupancy'' k ''capacity''"
  "cell (released_db z e d) ''drone_clearance'' k ''zone_id'' =
    (if k = [CText e] then CNull else cell d ''drone_clearance'' k ''zone_id'')"
  "cell d ''zone_occupancy'' k ''remaining'' = CInt n \<Longrightarrow>
    \<exists>m. cell (released_db z e d) ''zone_occupancy'' k ''remaining'' = CInt m"
  by (auto simp: released_db_def cell_delete_row cell_increment_row key_of_def split: option.splits)

lemma clearance_wf_mirror:
  "clearance_wf d \<Longrightarrow> has_row d ''zone_clearance'' k \<longleftrightarrow>
    (\<exists>z e. k = [CText z, CText e] \<and> held (ledger_of d) e = Some z)"
  unfolding clearance_wf_def by blast

lemma clearance_wf_granted:
  assumes wf: "clearance_wf d" and can: "can_grant (ledger_of d) z e"
  shows "clearance_wf (granted_db z e t d)"
  unfolding clearance_wf_def
proof (intro conjI allI impI)
  show "db_ok (granted_db z e t d)" using wf by (simp add: clearance_wf_def db_ok_granted)
next
  fix k assume "has_row (granted_db z e t d) ''zone_occupancy'' k"
  then show "\<exists>z' c n. k = [CText z'] \<and>
      cell (granted_db z e t d) ''zone_occupancy'' k ''capacity'' = CInt c \<and>
      cell (granted_db z e t d) ''zone_occupancy'' k ''remaining'' = CInt n"
    using wf cells_granted(3) unfolding clearance_wf_def rows_granted cells_granted(1) by metis
next
  fix k assume "has_row (granted_db z e t d) ''drone_clearance'' k"
  then show "\<exists>e' z'. k = [CText e'] \<and>
      cell (granted_db z e t d) ''drone_clearance'' k ''zone_id'' = CText z'"
    using wf unfolding clearance_wf_def rows_granted cells_granted(2) by auto
next
  fix k
  have "held (lgrant z e (ledger_of d)) e' = Some z' \<longleftrightarrow>
      e' = e \<and> z' = z \<or> held (ledger_of d) e' = Some z'" for e' z'
    using can by (auto simp: lgrant_def can_grant_def)
  then show "has_row (granted_db z e t d) ''zone_clearance'' k \<longleftrightarrow> (\<exists>z' e'. k = [CText z', CText e'] \<and>
      held (ledger_of (granted_db z e t d)) e' = Some z')"
    unfolding ledger_granted [OF can] rows_granted clearance_wf_mirror [OF wf] by auto
qed

lemma clearance_wf_released:
  assumes wf: "clearance_wf d" and holds: "held (ledger_of d) e = Some z"
  shows "clearance_wf (released_db z e d)"
  unfolding clearance_wf_def
proof (intro conjI allI impI)
  show "db_ok (released_db z e d)" using wf by (simp add: clearance_wf_def db_ok_released)
next
  fix k assume "has_row (released_db z e d) ''zone_occupancy'' k"
  then show "\<exists>z' c n. k = [CText z'] \<and>
      cell (released_db z e d) ''zone_occupancy'' k ''capacity'' = CInt c \<and>
      cell (released_db z e d) ''zone_occupancy'' k ''remaining'' = CInt n"
    using wf cells_released(3) unfolding clearance_wf_def rows_released cells_released(1) by metis
next
  fix k assume "has_row (released_db z e d) ''drone_clearance'' k"
  then show "\<exists>e' z'. k = [CText e'] \<and>
      cell (released_db z e d) ''drone_clearance'' k ''zone_id'' = CText z'"
    using wf unfolding clearance_wf_def rows_released cells_released(2) by auto
next
  fix k
  have "held (lrelease z e (ledger_of d)) e' = Some z' \<longleftrightarrow>
      \<not> (e' = e \<and> z' = z) \<and> held (ledger_of d) e' = Some z'" for e' z'
    using holds by (auto simp: lrelease_def)
  then show "has_row (released_db z e d) ''zone_clearance'' k \<longleftrightarrow> (\<exists>z' e'. k = [CText z', CText e'] \<and>
      held (ledger_of (released_db z e d)) e' = Some z')"
    unfolding ledger_released [OF holds] rows_released clearance_wf_mirror [OF wf] by auto
qed

lemma grant_refines:
  assumes "clearance_wf d"
  shows "clearance_wf (snd (run_txn grant_txn (grant_binds z e t) d))"
    and "ledger_of (snd (run_txn grant_txn (grant_binds z e t) d)) = lgrant z e (ledger_of d)"
  using assms clearance_wf_granted ledger_granted
  by (auto simp: run_grant_txn lgrant_def)

lemma release_refines:
  assumes "clearance_wf d"
  shows "clearance_wf (snd (run_txn release_txn (release_binds z e) d))"
    and "ledger_of (snd (run_txn release_txn (release_binds z e) d)) = lrelease z e (ledger_of d)"
  using assms clearance_wf_released ledger_released
  by (auto simp: run_release_txn lrelease_def)

lemma clearance_inv_grant:
  "clearance_inv d \<Longrightarrow> clearance_inv (snd (run_txn grant_txn (grant_binds z e t) d))"
  by (simp add: clearance_inv_def grant_refines ledger_inv_grant)

lemma clearance_inv_release:
  "clearance_inv d \<Longrightarrow> clearance_inv (snd (run_txn release_txn (release_binds z e) d))"
  by (simp add: clearance_inv_def release_refines ledger_inv_release)

lemma grant_reason_iff:
  assumes "clearance_wf d"
  shows "grant_reason z e (fst (run_txn grant_txn (grant_binds z e t) d)) = '''' \<longleftrightarrow>
    can_grant (ledger_of d) z e"
proof -
  have occ: "as_int (cell d ''zone_occupancy'' [CText z] ''remaining'') = None \<longleftrightarrow>
      cell d ''zone_occupancy'' [CText z] ''remaining'' = CNull"
    by (cases "has_row d ''zone_occupancy'' [CText z]")
      (use assms in \<open>force simp: clearance_wf_def cell_absent\<close>)+
  have hel: "as_text (cell d ''drone_clearance'' [CText e] ''zone_id'') = None \<longleftrightarrow>
      cell d ''drone_clearance'' [CText e] ''zone_id'' = CNull"
    by (cases "has_row d ''drone_clearance'' [CText e]")
      (use assms in \<open>force simp: clearance_wf_def cell_absent\<close>)+
  show ?thesis using occ hel
    by (auto simp: grant_reason_def grant_projection can_grant_def ledger_of_def Let_def cval_int_def
        as_int_Some split: option.splits)
qed

lemma release_reason_iff:
  assumes "clearance_wf d"
  shows "release_reason z e (fst (run_txn release_txn (release_binds z e) d)) = '''' \<longleftrightarrow>
    held (ledger_of d) e = Some z"
proof (cases "has_row d ''drone_clearance'' [CText e]")
  case True
  then obtain z' where "cell d ''drone_clearance'' [CText e] ''zone_id'' = CText z'"
    using assms unfolding clearance_wf_def by blast
  then show ?thesis by (auto simp: release_reason_def release_projection ledger_of_def Let_def)
next
  case False
  then show ?thesis
    by (simp add: release_reason_def release_projection ledger_of_def Let_def cell_absent)
qed

section \<open>Every route keeps what the two statements keep\<close>

datatype clearance_request =
    StateReq
  | GrantReq string string
  | ReleaseReq string string
  | ResetReq
  | ContendReq "nat list" string nat
  | ClearanceDemoReq int

fun handle_clearance :: "string \<Rightarrow> clearance_request \<Rightarrow> world \<Rightarrow> world" where
  "handle_clearance ks StateReq w = snd (clearance_state w)"
| "handle_clearance ks (GrantReq z e) w = snd (clearance_grant ks z e w)"
| "handle_clearance ks (ReleaseReq z e) w = snd (clearance_release ks z e w)"
| "handle_clearance ks ResetReq w = snd (clearance_reset ks w)"
| "handle_clearance ks (ContendReq order z n) w = snd (clearance_contend ks order z n w)"
| "handle_clearance ks (ClearanceDemoReq repeats) w = snd (clearance_demo ks repeats w)"

datatype clearance_stmt = GrantStmt string string instant | ReleaseStmt string string

fun run_clearance_stmt :: "clearance_stmt \<Rightarrow> db \<Rightarrow> db" where
  "run_clearance_stmt (GrantStmt z e t) d = snd (run_txn grant_txn (grant_binds z e t) d)"
| "run_clearance_stmt (ReleaseStmt z e) d = snd (run_txn release_txn (release_binds z e) d)"

lemma preserves_read_zone [preserves_intros]: "preserves (on_node ks ts I) (read_zone r)"
  unfolding read_zone_def Let_def by (intro preserves_intros)

lemma preserves_read_clearance_state [preserves_intros]:
  "preserves (on_node ks ts I) read_clearance_state"
  unfolding read_clearance_state_def by (intro preserves_intros)

lemma preserves_any_503 [preserves_intros]: "preserves I m \<Longrightarrow> preserves I (any_503 m)"
  unfolding any_503_def by (intro preserves_intros)

lemma preserves_clearance_step [preserves_intros]:
  "preserves (on_node ks ts I) (execute_transaction stmt ps) \<Longrightarrow>
    preserves (on_node ks ts I) (clearance_step act stmt ps z e f b)"
  unfolding clearance_step_def by (intro preserves_intros)

lemma preserves_pool_map [preserves_intros]:
  "(\<And>x. preserves I (f x)) \<Longrightarrow> preserves I (pool_map order f xs)"
  unfolding pool_map_def by (intro preserves_intros)

locale clearance_store =
  fixes I :: "db \<Rightarrow> bool"
  assumes keeps_grant: "I d \<Longrightarrow> I (snd (run_txn grant_txn (grant_binds z e t) d))"
    and keeps_release: "I d \<Longrightarrow> I (snd (run_txn release_txn (release_binds z e) d))"
begin

lemma preserves_run_grant [preserves_intros]:
  "preserves (on_node ks clearance_txns I) (run_grant ks act z e b)"
  unfolding run_grant_def grant_cql_render
  by (intro preserves_intros preserves_execute_transaction)
    (simp_all add: clearance_txns_def keeps_grant)

lemma preserves_run_release [preserves_intros]:
  "preserves (on_node ks clearance_txns I) (run_release ks act z e b)"
  unfolding run_release_def release_cql_render
  by (intro preserves_intros preserves_execute_transaction)
    (simp_all add: clearance_txns_def keeps_release)

lemma preserves_reset_clearances [preserves_intros]:
  "preserves (on_node ks clearance_txns I) (reset_clearances ks)"
  unfolding reset_clearances_def reset_holder_def by (intro preserves_intros)

lemma preserves_clearance_demo [preserves_intros]:
  "preserves (on_node ks clearance_txns I) (clearance_demo ks n)"
  unfolding clearance_demo_def repeat_clearance_def measure_pair_def clearance_script_def
    DEMO_ASSETS_def prod.case map_pm.simps
  by (intro preserves_intros)

lemma preserves_clearance_contend [preserves_intros]:
  "preserves (on_node ks clearance_txns I) (clearance_contend ks order z n)"
  unfolding clearance_contend_def Let_def by (intro preserves_intros)

lemma handle_clearance_inv:
  "on_node ks clearance_txns I w \<Longrightarrow> on_node ks clearance_txns I (handle_clearance ks r w)"
  by (cases r)
    (auto simp: clearance_state_def clearance_grant_def clearance_release_def clearance_reset_def
      intro!: preservesD [of "on_node ks clearance_txns I"] preserves_intros)

lemma run_clearance_stmt_inv: "I d \<Longrightarrow> I (run_clearance_stmt st d)"
  by (cases st) (simp_all add: keeps_grant keeps_release)

end

sublocale clearance_store \<subseteq> requests: step_system "handle_clearance ks" "on_node ks clearance_txns I" for ks
  by unfold_locales (rule handle_clearance_inv)

sublocale clearance_store \<subseteq> statements: step_system run_clearance_stmt I
  by unfold_locales (rule run_clearance_stmt_inv)

interpretation clearance: clearance_store clearance_inv
  by unfold_locales (simp_all only: clearance_inv_grant clearance_inv_release)

section \<open>Steps when the node answers\<close>

text \<open>The slots and the holders a read of the ledger reports are the tables' own.\<close>

definition quiet :: "string \<Rightarrow> world \<Rightarrow> bool" where
  "quiet ks w \<longleftrightarrow> accord_runs ks clearance_txns w \<and> faults w = [] \<and> clearance_inv (tables w)"

lemma map_pm_pure:
  assumes "\<And>x. x \<in> set xs \<Longrightarrow> f x w = (Inr (g x), w)"
  shows "map_pm f xs w = (Inr (map g xs), w)"
  using assms by (induction xs) (simp_all add: bind_def ret_def)

definition zone_view :: "db \<Rightarrow> row \<Rightarrow> clearance_zone" where
  "zone_view d r =
    (let zid = cval_str (row_get r ''zone_id'');
         hs = map (\<lambda>h. cval_str (row_get h ''entity_id''))
           (select_partition ''zone_clearance'' [(''zone_id'', CText zid)] d);
         c = int_or_0 (row_get r ''capacity''); n = int_or_0 (row_get r ''remaining'')
     in \<lparr>zone_id = zid, zone_name = str_or_empty (row_get r ''zone_name''),
         severity = str_or_empty (row_get r ''severity''), capacity = c, remaining = n,
         holders = sort hs, consistent = (c = n + int (length hs))\<rparr>)"

definition zone_mismatches :: "db \<Rightarrow> row \<Rightarrow> string list" where
  "zone_mismatches d r =
    (let zid = cval_str (row_get r ''zone_id'');
         hs = map (\<lambda>h. cval_str (row_get h ''entity_id''))
           (select_partition ''zone_clearance'' [(''zone_id'', CText zid)] d)
     in concat (map (\<lambda>e. let mirror = select_partition ''drone_clearance'' [(''entity_id'', CText e)] d
          in if mirror = [] \<or> cval_str (row_get (hd mirror) ''zone_id'') \<noteq> zid then [e] else []) hs))"

definition ledger_view :: "db \<Rightarrow> clearance_ledger" where
  "ledger_view d = \<lparr>zones = sort_key zone_id (map (zone_view d) (select_all ''zone_occupancy'' d)),
     mismatched = sort (remdups (concat (map (zone_mismatches d) (select_all ''zone_occupancy'' d))))\<rparr>"

lemma read_zone_run:
  "faults w = [] \<Longrightarrow> read_zone r w = (Inr (zone_view (tables w) r, zone_mismatches (tables w) r), w)"
  by (simp add: read_zone_def Let_def bind_def execute_query_run ret_def zone_view_def
      zone_mismatches_def map_pm_pure [where w = w and
        g = "\<lambda>e. if select_partition ''drone_clearance'' [(''entity_id'', CText e)] (tables w) = [] \<or>
          cval_str (row_get (hd (select_partition ''drone_clearance'' [(''entity_id'', CText e)] (tables w)))
            ''zone_id'') \<noteq> cval_str (row_get r ''zone_id'') then [e] else []"])

lemma read_clearance_state_run [pm_simps]:
  "faults w = [] \<Longrightarrow> read_clearance_state w = (Inr (ledger_view (tables w)), w)"
  by (simp add: read_clearance_state_def bind_def execute_query_run ret_def ledger_view_def
      map_pm_pure [where g = "\<lambda>r. (zone_view (tables w) r, zone_mismatches (tables w) r)"]
      read_zone_run comp_def)

subsection \<open>What a read of the ledger reports\<close>

lemma text_keys_sorted: "sorted es \<Longrightarrow> sorted (map (\<lambda>e. [CText z, CText e]) es)"
  by (induction es) (auto simp: less_eq_cval_def less_cval_def cval_key_def)

lemma select_partition_mem:
  assumes "r \<in> set (select_partition t conds d)" and "db_ok d"
  shows "map_of (d t) (key_of t r) = Some r"
proof -
  from assms obtain k where k: "(k, r) \<in> set (d t)" by (auto simp: select_partition_def)
  moreover have "distinct (map fst (d t))" "key_of t r = k"
    using assms(2) k by (auto simp: db_ok_def table_ok_def)
  ultimately show ?thesis by simp
qed

lemma zone_clearance_keys:
  assumes "clearance_inv d"
  shows "map (key_of ''zone_clearance'') (select_partition ''zone_clearance'' [(''zone_id'', CText z)] d) =
    map (\<lambda>e. [CText z, CText e]) (sorted_list_of_set (inside (ledger_of d) z))"
proof (rule partition_keys)
  have wf: "clearance_wf d" using assms by (simp add: clearance_inv_def)
  then show "db_ok d" by (simp add: clearance_wf_def)
  have fin: "finite (inside (ledger_of d) z)" using assms by (simp add: clearance_inv_def finite_inside)
  show "sorted (map (\<lambda>e. [CText z, CText e]) (sorted_list_of_set (inside (ledger_of d) z)))"
    by (simp add: text_keys_sorted)
  show "distinct (map (\<lambda>e. [CText z, CText e]) (sorted_list_of_set (inside (ledger_of d) z)))"
    by (simp add: distinct_map inj_on_def)
  show "has_row d ''zone_clearance'' k"
    if "k \<in> set (map (\<lambda>e. [CText z, CText e]) (sorted_list_of_set (inside (ledger_of d) z)))" for k
    using that fin by (auto simp: clearance_wf_mirror [OF wf] inside_def)
  fix k r assume r: "map_of (d ''zone_clearance'') k = Some r"
  then have "has_row d ''zone_clearance'' k" by (simp add: has_row_def)
  then obtain z' e where k: "k = [CText z', CText e]" "held (ledger_of d) e = Some z'"
    unfolding clearance_wf_mirror [OF wf] by blast
  have "key_of ''zone_clearance'' r = k"
    using wf r by (auto simp: clearance_wf_def db_ok_def dest: table_ok_lookup)
  then have "row_get r ''zone_id'' = CText z'" using k by (simp add: key_of_def)
  then show "list_all (\<lambda>(c, v). row_get r c = v) [(''zone_id'', CText z)] \<longleftrightarrow>
      k \<in> set (map (\<lambda>e. [CText z, CText e]) (sorted_list_of_set (inside (ledger_of d) z)))"
    using k fin by (auto simp: inside_def)
qed

lemma holders_listed:
  assumes "clearance_inv d"
  shows "map (\<lambda>h. cval_str (row_get h ''entity_id''))
      (select_partition ''zone_clearance'' [(''zone_id'', CText z)] d) =
    sorted_list_of_set (inside (ledger_of d) z)"
proof -
  let ?rs = "select_partition ''zone_clearance'' [(''zone_id'', CText z)] d"
  have "map (\<lambda>h. cval_str (row_get h ''entity_id'')) ?rs =
      map (\<lambda>k. cval_str (k ! 1)) (map (key_of ''zone_clearance'') ?rs)"
    by (simp add: key_of_def)
  then show ?thesis by (simp add: zone_clearance_keys [OF assms] comp_def)
qed

lemma mirror_listed:
  assumes inv: "clearance_inv d" and e: "held (ledger_of d) e = Some z"
  shows "\<exists>r. select_partition ''drone_clearance'' [(''entity_id'', CText e)] d = [r] \<and>
    row_get r ''zone_id'' = CText z"
proof -
  let ?rs = "select_partition ''drone_clearance'' [(''entity_id'', CText e)] d"
  have wf: "clearance_wf d" and ok: "db_ok d" using inv by (auto simp: clearance_inv_def clearance_wf_def)
  have cell: "cell d ''drone_clearance'' [CText e] ''zone_id'' = CText z"
    using e by (simp add: ledger_of_def as_text_Some)
  have keys: "map (key_of ''drone_clearance'') ?rs = [[CText e]]"
  proof (rule partition_keys [OF ok])
    show "has_row d ''drone_clearance'' k" if "k \<in> set [[CText e]]" for k
      using that cell by (auto simp: cell_def has_row_def split: option.splits)
    fix k r assume r: "map_of (d ''drone_clearance'') k = Some r"
    have "key_of ''drone_clearance'' r = k"
      using ok r by (auto simp: db_ok_def dest: table_ok_lookup)
    then show "list_all (\<lambda>(c, v). row_get r c = v) [(''entity_id'', CText e)] \<longleftrightarrow> k \<in> set [[CText e]]"
      by (auto simp: key_of_def)
  qed simp_all
  then obtain r where r: "?rs = [r]" "key_of ''drone_clearance'' r = [CText e]" by auto
  then have "map_of (d ''drone_clearance'') [CText e] = Some r"
    using select_partition_mem [OF _ ok, of r "''drone_clearance''"] by (metis list.set_intros(1))
  then show ?thesis using r cell by (simp add: cell_def)
qed

lemma zone_mismatches_none:
  assumes inv: "clearance_inv d"
  shows "zone_mismatches d r = []"
proof -
  let ?z = "cval_str (row_get r ''zone_id'')"
  have "finite (inside (ledger_of d) ?z)" using inv by (simp add: clearance_inv_def finite_inside)
  moreover have "\<exists>m. select_partition ''drone_clearance'' [(''entity_id'', CText e)] d = [m] \<and>
      row_get m ''zone_id'' = CText ?z" if "e \<in> inside (ledger_of d) ?z" for e
    using mirror_listed [OF inv] that by (simp add: inside_def)
  ultimately show ?thesis
    by (fastforce simp: zone_mismatches_def holders_listed [OF inv] Let_def)
qed

lemma zone_view_facts:
  assumes inv: "clearance_inv d" and r: "(k, r) \<in> set (d ''zone_occupancy'')"
  obtains z c n where "k = [CText z]" "zone_id (zone_view d r) = z" "cap (ledger_of d) z = Some c"
    "slots (ledger_of d) z = Some n" "capacity (zone_view d r) = c" "remaining (zone_view d r) = n"
    "holders (zone_view d r) = sorted_list_of_set (inside (ledger_of d) z)"
    "consistent (zone_view d r)"
proof -
  have wf: "clearance_wf d" and ok: "db_ok d" using inv by (auto simp: clearance_inv_def clearance_wf_def)
  have look: "map_of (d ''zone_occupancy'') k = Some r" and key: "key_of ''zone_occupancy'' r = k"
    using ok r by (auto simp: db_ok_def table_ok_def)
  then have "has_row d ''zone_occupancy'' k" by (simp add: has_row_def)
  then obtain z c n where z: "k = [CText z]" "cell d ''zone_occupancy'' k ''capacity'' = CInt c"
      "cell d ''zone_occupancy'' k ''remaining'' = CInt n"
    using wf unfolding clearance_wf_def by blast
  then have cells: "row_get r ''zone_id'' = CText z" "row_get r ''capacity'' = CInt c"
      "row_get r ''remaining'' = CInt n"
    using look key by (simp_all add: cell_def key_of_def)
  have led: "cap (ledger_of d) z = Some c" "slots (ledger_of d) z = Some n"
    using z by (simp_all add: ledger_of_def)
  then have "c = n + int (card (inside (ledger_of d) z))"
    using inv by (auto simp: clearance_inv_def ledger_inv_def)
  then have "consistent (zone_view d r)"
    by (simp add: zone_view_def Let_def cells int_or_0_def cval_int_def holders_listed [OF inv])
  moreover have "holders (zone_view d r) = sorted_list_of_set (inside (ledger_of d) z)"
    by (simp add: zone_view_def Let_def cells holders_listed [OF inv] sorted_sort_id)
  ultimately show ?thesis using that z led
    by (simp add: zone_view_def Let_def cells int_or_0_def cval_int_def)
qed

lemma ledger_view_mismatched: "clearance_inv d \<Longrightarrow> mismatched (ledger_view d) = []"
proof -
  assume "clearance_inv d"
  then have "concat (map (zone_mismatches d) rs) = []" for rs
    by (induction rs) (simp_all add: zone_mismatches_none)
  then show ?thesis unfolding ledger_view_def clearance_ledger.simps by (simp only: remdups.simps sort_key_simps)
qed

lemma ledger_view_zones:
  "v \<in> set (zones (ledger_view d)) \<longleftrightarrow> (\<exists>k r. (k, r) \<in> set (d ''zone_occupancy'') \<and> v = zone_view d r)"
  by (force simp: ledger_view_def select_all_def)

lemma zone_named_view:
  assumes inv: "clearance_inv d"
  shows "case zone_named z (ledger_view d) of
      None \<Rightarrow> cap (ledger_of d) z = None
    | Some v \<Rightarrow> zone_id v = z \<and> cap (ledger_of d) z = Some (capacity v) \<and>
        slots (ledger_of d) z = Some (remaining v) \<and>
        holders v = sorted_list_of_set (inside (ledger_of d) z) \<and> consistent v"
proof (cases "zone_named z (ledger_view d)")
  case None
  then have no: "zone_id v \<noteq> z" if "v \<in> set (zones (ledger_view d))" for v
    using that by (auto simp: zone_named_def find_None_iff)
  have "\<not> has_row d ''zone_occupancy'' [CText z]"
  proof
    assume "has_row d ''zone_occupancy'' [CText z]"
    then obtain r where r: "([CText z], r) \<in> set (d ''zone_occupancy'')"
      by (auto simp: has_row_def dest: map_of_SomeD)
    obtain z' where "[CText z] = [CText z']" "zone_id (zone_view d r) = z'"
      using zone_view_facts [OF inv r] by metis
    moreover have "zone_view d r \<in> set (zones (ledger_view d))" using r ledger_view_zones by blast
    ultimately show False using no by simp
  qed
  with None show ?thesis by (simp add: ledger_of_def cell_absent)
next
  case (Some v)
  then have v: "v \<in> set (zones (ledger_view d))" "zone_id v = z"
    by (auto simp: zone_named_def find_Some_iff)
  then obtain k r where r: "(k, r) \<in> set (d ''zone_occupancy'')" "v = zone_view d r"
    using ledger_view_zones by blast
  show ?thesis by (rule zone_view_facts [OF inv r(1)]) (use Some v r in auto)
qed

subsection \<open>Grants, releases and the reset\<close>

lemma quiet_tick: "quiet ks (w\<lparr>ticks := n\<rparr>) = quiet ks w"
  by (simp add: quiet_def)

lemma clearance_step_quiet:
  assumes w: "quiet ks w" and t: "t \<in> set clearance_txns"
    and inv: "clearance_inv (snd (run_txn t ps (tables w)))"
  shows "\<exists>step w'. clearance_step act (render_txn ks t) ps z e f b w = (Inr step, w') \<and> quiet ks w' \<and>
    tables w' = snd (run_txn t ps (tables w)) \<and>
    applied step = (f z e (fst (run_txn t ps (tables w))) = '''') \<and> step_error step = None"
  using assms
  by (simp add: clearance_step_def quiet_def bind_def perf_counter_def attempt_def
      execute_transaction_run [OF _ t] elapsed_ms_run read_clearance_state_run ret_def empty_step_def)

lemma run_grant_quiet:
  assumes "quiet ks w"
  shows "\<exists>step w'. run_grant ks act z e b w = (Inr step, w') \<and> quiet ks w' \<and>
    ledger_of (tables w') = lgrant z e (ledger_of (tables w)) \<and>
    applied step = can_grant (ledger_of (tables w)) z e \<and> step_error step = None"
proof -
  let ?w = "w\<lparr>ticks := Suc (ticks w)\<rparr>" and ?ps = "grant_binds z e (wall_clock w (ticks w))"
  have inv: "clearance_inv (tables w)" and wf: "clearance_wf (tables w)"
    using assms by (auto simp: quiet_def clearance_inv_def)
  have "quiet ks ?w" using assms by (simp add: quiet_tick)
  moreover have "grant_txn \<in> set clearance_txns" by (simp add: clearance_txns_def)
  moreover have "clearance_inv (snd (run_txn grant_txn ?ps (tables ?w)))"
    using inv by (simp add: clearance_inv_grant)
  ultimately obtain step w' where
    "clearance_step act (grant_cql ks) ?ps z e grant_reason b ?w = (Inr step, w')" "quiet ks w'"
    "tables w' = snd (run_txn grant_txn ?ps (tables w))" "step_error step = None"
    "applied step = (grant_reason z e (fst (run_txn grant_txn ?ps (tables w))) = '''')"
    using clearance_step_quiet [of ks ?w grant_txn ?ps act z e grant_reason b]
    unfolding grant_cql_render by auto
  then show ?thesis
    by (simp add: run_grant_def bind_def now_def grant_refines [OF wf] grant_reason_iff [OF wf])
qed

lemma run_release_quiet:
  assumes "quiet ks w"
  shows "\<exists>step w'. run_release ks act z e b w = (Inr step, w') \<and> quiet ks w' \<and>
    ledger_of (tables w') = lrelease z e (ledger_of (tables w)) \<and>
    applied step = (held (ledger_of (tables w)) e = Some z) \<and> step_error step = None"
proof -
  let ?ps = "release_binds z e"
  have inv: "clearance_inv (tables w)" and wf: "clearance_wf (tables w)"
    using assms by (auto simp: quiet_def clearance_inv_def)
  have "release_txn \<in> set clearance_txns" by (simp add: clearance_txns_def)
  moreover have "clearance_inv (snd (run_txn release_txn ?ps (tables w)))"
    using inv by (simp add: clearance_inv_release)
  ultimately obtain step w' where
    "clearance_step act (release_cql ks) ?ps z e release_reason b w = (Inr step, w')" "quiet ks w'"
    "tables w' = snd (run_txn release_txn ?ps (tables w))" "step_error step = None"
    "applied step = (release_reason z e (fst (run_txn release_txn ?ps (tables w))) = '''')"
    using clearance_step_quiet [OF assms, of release_txn ?ps act z e release_reason b]
    unfolding release_cql_render by auto
  then show ?thesis
    by (simp add: run_release_def release_refines [OF wf] release_reason_iff [OF wf])
qed

definition released :: "(string \<times> string) list \<Rightarrow> ledger \<Rightarrow> ledger" where
  "released ps l = fold (\<lambda>(z, e). lrelease z e) ps l"

lemma reset_holders_quiet:
  assumes "quiet ks w"
  shows "\<exists>acts w'. map_pm (reset_holder ks) ps w = (Inr acts, w') \<and> quiet ks w' \<and>
    ledger_of (tables w') = released ps (ledger_of (tables w))"
  using assms
proof (induction ps arbitrary: w)
  case Nil
  then show ?case by (simp add: ret_def released_def)
next
  case (Cons p ps)
  obtain z e where p: "p = (z, e)" by (cases p)
  obtain a w1 where 1: "reset_holder ks p w = (Inr a, w1)" "quiet ks w1"
      "ledger_of (tables w1) = lrelease z e (ledger_of (tables w))"
    using run_release_quiet [OF Cons.prems, of "''release '' @ e" z e True]
    by (auto simp: p reset_holder_def bind_def ret_def)
  obtain acts w2 where "map_pm (reset_holder ks) ps w1 = (Inr acts, w2)" "quiet ks w2"
      "ledger_of (tables w2) = released ps (ledger_of (tables w1))"
    using Cons.IH [OF 1(2)] by blast
  with 1 show ?case
    by (intro exI [of _ "a # acts"] exI [of _ w2])
      (simp add: map_pm_Cons_run p released_def del: map_pm.simps)
qed

lemma released_cap: "cap (released ps l) = cap l"
  unfolding released_def by (induction ps arbitrary: l) (auto simp: lrelease_def)

lemma lrelease_held:
  "held (lrelease z e l) e' = (if e' = e \<and> held l e' = Some z then None else held l e')"
  by (auto simp: lrelease_def)

lemma released_held:
  "held (released ps l) e = (case held l e of None \<Rightarrow> None | Some z \<Rightarrow>
     if (z, e) \<in> set ps then None else Some z)"
  unfolding released_def
  by (induction ps arbitrary: l) (auto simp: lrelease_held split: option.splits if_splits)

text \<open>Every slot free: nobody holds a clearance and each zone has its capacity left.\<close>

definition all_free :: "ledger \<Rightarrow> bool" where
  "all_free l \<longleftrightarrow> held l = Map.empty \<and> slots l = cap l"

lemma all_freeI: "ledger_inv l \<Longrightarrow> held l = Map.empty \<Longrightarrow> all_free l"
proof -
  assume inv: "ledger_inv l" and held: "held l = Map.empty"
  have "slots l z = cap l z" for z
  proof (cases "cap l z")
    case None
    then show ?thesis using inv unfolding ledger_inv_def by (metis domIff)
  next
    case (Some c)
    then obtain n where "slots l z = Some n" using inv by (force simp: ledger_inv_def dom_def set_eq_iff)
    with Some inv held show ?thesis by (auto simp: ledger_inv_def inside_def)
  qed
  with held show ?thesis by (auto simp: all_free_def)
qed

lemma reset_clearances_quiet:
  assumes w: "quiet ks w"
  shows "\<exists>acts w'. reset_clearances ks w = (Inr acts, w') \<and> quiet ks w' \<and>
    all_free (ledger_of (tables w')) \<and> cap (ledger_of (tables w')) = cap (ledger_of (tables w))"
proof -
  let ?l = "ledger_of (tables w)"
  let ?ps = "concat (map (\<lambda>z. map (Pair (zone_id z)) (holders z)) (zones (ledger_view (tables w))))"
  have inv: "clearance_inv (tables w)" and fl: "faults w = []" using w by (simp_all add: quiet_def)
  obtain acts w' where w': "map_pm (reset_holder ks) ?ps w = (Inr acts, w')" "quiet ks w'"
      "ledger_of (tables w') = released ?ps ?l"
    using reset_holders_quiet [OF w] by blast
  have "held (released ?ps ?l) e = None" for e
  proof (cases "held ?l e")
    case (Some z)
    then have "cap ?l z \<noteq> None" using inv by (auto simp: clearance_inv_def ledger_inv_def ran_def)
    then obtain v where v: "zone_named z (ledger_view (tables w)) = Some v"
        "holders v = sorted_list_of_set (inside ?l z)"
      using zone_named_view [OF inv, of z] by (auto split: option.splits)
    then have "v \<in> set (zones (ledger_view (tables w)))" "zone_id v = z"
      by (auto simp: zone_named_def find_Some_iff)
    moreover have "e \<in> set (holders v)"
      using Some v(2) inv by (simp add: inside_def [of ?l z, symmetric] clearance_inv_def finite_inside)
        (simp add: inside_def)
    ultimately have "(z, e) \<in> set ?ps" by force
    with Some show ?thesis by (simp add: released_held)
  qed (simp add: released_held)
  then have "held (ledger_of (tables w')) = Map.empty" using w'(3) by (simp add: fun_eq_iff)
  moreover have "ledger_inv (ledger_of (tables w'))"
    using w'(2) by (simp add: quiet_def clearance_inv_def)
  ultimately have "all_free (ledger_of (tables w'))" by (rule all_freeI [rotated])
  moreover have "reset_clearances ks w = (Inr acts, w')"
    using w'(1) fl by (simp add: reset_clearances_def bind_def read_clearance_state_run)
  ultimately show ?thesis using w' by (simp add: released_cap)
qed

subsection \<open>Contention\<close>

lemma map_pm_length: "map_pm f xs w = (Inr ys, w') \<Longrightarrow> length ys = length xs"
  by (induction xs arbitrary: ys w) (auto simp: bind_def ret_def split: prod.splits sum.splits)

lemma map_pm_map: "map_pm f (map g xs) = map_pm (\<lambda>x. f (g x)) xs"
  by (induction xs) simp_all

lemma pool_map_run:
  assumes run: "map_pm f (map ((!) xs) order) w = (Inr ys, w')"
    and perm: "distinct order" "set order = {0..<length xs}"
  shows "\<exists>zs. pool_map order f xs w = (Inr zs, w') \<and> mset zs = mset ys"
proof -
  let ?g = "\<lambda>i. the (map_of (zip order ys) i)"
  have len: "length ys = length order" using map_pm_length [OF run] by simp
  have "map ?g order = ys"
    by (rule nth_equalityI) (use len perm(1) in \<open>simp_all add: map_of_zip_nth\<close>)
  moreover have "mset [0..<length xs] = mset order"
    by (rule set_eq_iff_mset_eq_distinct [THEN iffD1]) (use perm in simp_all)
  ultimately have "mset (map ?g [0..<length xs]) = mset ys" by (metis mset_map)
  then show ?thesis using run by (simp add: pool_map_def map_pm_map bind_def ret_def)
qed

lemma length_filter_mset: "mset xs = mset ys \<Longrightarrow> length (filter P xs) = length (filter P ys)"
  by (metis mset_filter size_mset)

lemma lgrant_simps:
  "cap (lgrant z e l) = cap l"
  "held (lgrant z e l) e' = (if e' = e \<and> can_grant l z e then Some z else held l e')"
  "slots (lgrant z e l) z = (if can_grant l z e then map_option (\<lambda>n. n - 1) (slots l z) else slots l z)"
  by (auto simp: lgrant_def)

lemma grants_quiet:
  assumes "quiet ks w" and "distinct es" and "\<forall>e \<in> set es. held (ledger_of (tables w)) e = None"
    and "slots (ledger_of (tables w)) z = Some n" and "0 \<le> n"
  shows "\<exists>steps w'. map_pm (\<lambda>e. run_grant ks (act e) z e False) es w = (Inr steps, w') \<and> quiet ks w' \<and>
    map applied steps = map (\<lambda>j. int j < n) [0..<length es] \<and>
    list_all (\<lambda>t. step_error t = None) steps \<and>
    cap (ledger_of (tables w')) = cap (ledger_of (tables w)) \<and>
    slots (ledger_of (tables w')) z = Some (n - min n (int (length es)))"
  using assms
proof (induction es arbitrary: w n)
  case Nil
  then show ?case by (simp add: ret_def)
next
  case (Cons e es)
  let ?l = "ledger_of (tables w)" and ?m = "if 0 < n then n - 1 else n"
  have can: "can_grant ?l z e \<longleftrightarrow> 0 < n" using Cons.prems by (simp add: can_grant_def)
  obtain step w1 where 1: "run_grant ks (act e) z e False w = (Inr step, w1)" "quiet ks w1"
      "ledger_of (tables w1) = lgrant z e ?l" "applied step = (0 < n)" "step_error step = None"
    using run_grant_quiet [OF Cons.prems(1)] can by metis
  have "\<forall>e' \<in> set es. held (ledger_of (tables w1)) e' = None"
    using Cons.prems(2,3) by (auto simp: 1(3) lgrant_simps)
  moreover have "slots (ledger_of (tables w1)) z = Some ?m"
    using Cons.prems(4) can by (simp add: 1(3) lgrant_simps)
  moreover have "0 \<le> ?m" "distinct es" using Cons.prems(2,5) by simp_all
  ultimately obtain steps w2 where 2:
      "map_pm (\<lambda>e. run_grant ks (act e) z e False) es w1 = (Inr steps, w2)" "quiet ks w2"
      "map applied steps = map (\<lambda>j. int j < ?m) [0..<length es]"
      "list_all (\<lambda>t. step_error t = None) steps"
      "cap (ledger_of (tables w2)) = cap (ledger_of (tables w1))"
      "slots (ledger_of (tables w2)) z = Some (?m - min ?m (int (length es)))"
    using Cons.IH [OF 1(2), of ?m] by blast
  have "map (\<lambda>j. int j < n) [0..<length (e # es)] = (0 < n) # map (\<lambda>j. int j < ?m) [0..<length es]"
    using Cons.prems(5) by (auto simp: upt_conv_Cons map_Suc_upt [symmetric] simp del: upt_Suc map_Suc_upt)
  moreover have "?m - min ?m (int (length es)) = n - min n (int (length (e # es)))"
    using Cons.prems(5) by (simp add: min_def)
  ultimately show ?case using 1 2
    by (intro exI [of _ "step # steps"] exI [of _ w2])
      (simp add: map_pm_Cons_run lgrant_simps del: map_pm.simps upt_Suc)
qed

lemma count_granted:
  assumes "map applied steps = map (\<lambda>j. int j < n) [0..<k]" and "0 \<le> n"
  shows "length (filter applied steps) = min (nat n) k"
proof -
  have "length (filter applied steps) = length (filter id (map applied steps))"
    by (simp add: filter_map)
  also have "\<dots> = card {j. j < k \<and> int j < n}"
    unfolding assms(1) by (simp add: filter_map length_filter_conv_card comp_def conj_commute cong: conj_cong)
  also have "{j. j < k \<and> int j < n} = {0..<min (nat n) k}" using assms(2) by auto
  finally show ?thesis by simp
qed

lemma asset_name_inj: "asset_name i = asset_name j \<longleftrightarrow> i = j"
  by (simp add: asset_name_def pad0_inj)

subsection \<open>The scripted steps\<close>

text \<open>A computation that performs one statement of the ledger and reports its decision.\<close>

fun lstep :: "clearance_stmt \<Rightarrow> ledger \<Rightarrow> ledger" where
  "lstep (GrantStmt z e t) l = lgrant z e l"
| "lstep (ReleaseStmt z e) l = lrelease z e l"

fun ldecides :: "clearance_stmt \<Rightarrow> ledger \<Rightarrow> bool" where
  "ldecides (GrantStmt z e t) l = can_grant l z e"
| "ldecides (ReleaseStmt z e) l = (held l e = Some z)"

fun ldecisions :: "clearance_stmt list \<Rightarrow> ledger \<Rightarrow> bool list" where
  "ldecisions [] l = []"
| "ldecisions (st # sts) l = ldecides st l # ldecisions sts (lstep st l)"

definition performs :: "string \<Rightarrow> (world, transaction_step) pm \<Rightarrow> clearance_stmt \<Rightarrow> bool" where
  "performs ks m st \<longleftrightarrow> (\<forall>w. quiet ks w \<longrightarrow> (\<exists>step w'. m w = (Inr step, w') \<and> quiet ks w' \<and>
     ledger_of (tables w') = lstep st (ledger_of (tables w)) \<and>
     applied step = ldecides st (ledger_of (tables w)) \<and> step_error step = None))"

lemma performs_grant: "performs ks (run_grant ks act z e b) (GrantStmt z e t)"
  unfolding performs_def by (simp add: run_grant_quiet)

lemma performs_release: "performs ks (run_release ks act z e b) (ReleaseStmt z e)"
  unfolding performs_def by (simp add: run_release_quiet)

lemma performs_script:
  assumes "list_all2 (performs ks) ms sts" and "quiet ks w"
  shows "\<exists>steps w'. map_pm (\<lambda>m. m) ms w = (Inr steps, w') \<and> quiet ks w' \<and>
    ledger_of (tables w') = fold lstep sts (ledger_of (tables w)) \<and>
    map applied steps = ldecisions sts (ledger_of (tables w)) \<and>
    map step_error steps = map (\<lambda>_. None) ms"
  using assms
proof (induction arbitrary: w rule: list_all2_induct)
  case Nil
  then show ?case by (simp add: ret_def)
next
  case (Cons m ms st sts)
  obtain step w1 where 1: "m w = (Inr step, w1)" "quiet ks w1"
      "ledger_of (tables w1) = lstep st (ledger_of (tables w))"
      "applied step = ldecides st (ledger_of (tables w))" "step_error step = None"
    using Cons.hyps(1) Cons.prems unfolding performs_def by blast
  obtain steps w2 where "map_pm (\<lambda>m. m) ms w1 = (Inr steps, w2)" "quiet ks w2"
      "ledger_of (tables w2) = fold lstep sts (ledger_of (tables w1))"
      "map applied steps = ldecisions sts (ledger_of (tables w1))"
      "map step_error steps = map (\<lambda>_. None) ms"
    using Cons.IH [OF 1(2)] by blast
  with 1 show ?case
    by (intro exI [of _ "step # steps"] exI [of _ w2]) (simp add: map_pm_Cons_run del: map_pm.simps)
qed

definition demo_stmts :: "clearance_stmt list" where
  "demo_stmts =
    [GrantStmt DEMO_ZONE ''asset-000000'' 0, GrantStmt DEMO_ZONE ''asset-000000'' 0,
     GrantStmt DEMO_OTHER_ZONE ''asset-000000'' 0, GrantStmt DEMO_ZONE ''asset-000001'' 0,
     GrantStmt DEMO_ZONE ''asset-000002'' 0, ReleaseStmt DEMO_ZONE ''asset-000000'',
     ReleaseStmt DEMO_ZONE ''asset-000000'']"

lemma clearance_script_performs: "list_all2 (performs ks) (clearance_script ks) demo_stmts"
  by (simp add: clearance_script_def demo_stmts_def DEMO_ASSETS_def performs_grant performs_release)

lemma demo_stmts_decisions:
  assumes "all_free l" and "cap l DEMO_ZONE = Some 2"
  shows "ldecisions demo_stmts l = [True, False, False, True, False, True, False]"
    and "fold lstep demo_stmts l = lgrant DEMO_ZONE ''asset-000001'' l"
  using assms
  by (simp_all add: demo_stmts_def all_free_def can_grant_def lgrant_def lrelease_def fun_upd_twist)

lemma measure_pair_quiet:
  assumes w: "quiet ks w" and out: "held (ledger_of (tables w)) ''asset-measure'' = None"
    and room: "slots (ledger_of (tables w)) DEMO_MEASURE_ZONE = Some m" "0 < m"
  shows "\<exists>g r w'. measure_pair ks w = (Inr ([g], [r]), w') \<and> quiet ks w' \<and>
    ledger_of (tables w') = ledger_of (tables w)"
proof -
  let ?l = "ledger_of (tables w)" and ?z = DEMO_MEASURE_ZONE and ?e = "''asset-measure''"
  have can: "can_grant ?l ?z ?e" using out room by (simp add: can_grant_def)
  obtain g w1 where 1: "run_grant ks ''measure grant'' ?z ?e False w = (Inr g, w1)" "quiet ks w1"
      "ledger_of (tables w1) = lgrant ?z ?e ?l" "applied g"
    using run_grant_quiet [OF w] can by blast
  have "held (lgrant ?z ?e ?l) ?e = Some ?z" using can by (simp add: lgrant_simps)
  then obtain r w2 where 2: "run_release ks ''measure release'' ?z ?e False w1 = (Inr r, w2)"
      "quiet ks w2" "ledger_of (tables w2) = lrelease ?z ?e (lgrant ?z ?e ?l)" "applied r"
    using run_release_quiet [OF 1(2), of "''measure release''" ?z ?e False] unfolding 1(3) by auto
  have "lrelease ?z ?e (lgrant ?z ?e ?l) = ?l"
    using can out room by (simp add: lrelease_def lgrant_def fun_upd_idem)
  with 1 2 show ?thesis by (simp add: measure_pair_def bind_def ret_def)
qed

lemma measure_pairs_quiet:
  assumes "quiet ks w" and "held (ledger_of (tables w)) ''asset-measure'' = None"
    and "slots (ledger_of (tables w)) DEMO_MEASURE_ZONE = Some m" and "0 < m"
  shows "\<exists>pairs w'. map_pm (\<lambda>_. measure_pair ks) xs w = (Inr pairs, w') \<and> quiet ks w' \<and>
    ledger_of (tables w') = ledger_of (tables w) \<and>
    length (concat (map fst pairs)) = length xs \<and> length (concat (map snd pairs)) = length xs"
  using assms
proof (induction xs arbitrary: w)
  case Nil
  then show ?case by (simp add: ret_def)
next
  case (Cons x xs)
  obtain g r w1 where 1: "measure_pair ks w = (Inr ([g], [r]), w1)" "quiet ks w1"
      "ledger_of (tables w1) = ledger_of (tables w)"
    using measure_pair_quiet [OF Cons.prems] by blast
  obtain pairs w2 where "map_pm (\<lambda>_. measure_pair ks) xs w1 = (Inr pairs, w2)" "quiet ks w2"
      "ledger_of (tables w2) = ledger_of (tables w1)"
      "length (concat (map fst pairs)) = length xs" "length (concat (map snd pairs)) = length xs"
    using Cons.IH [OF 1(2)] Cons.prems(2-4) unfolding 1(3) by blast
  with 1 show ?case
    by (intro exI [of _ "([g], [r]) # pairs"] exI [of _ w2])
      (simp add: map_pm_Cons_run del: map_pm.simps)
qed

subsection \<open>Seeding a zone\<close>

definition occupancy_cells :: "string \<Rightarrow> string \<Rightarrow> string \<Rightarrow> int \<Rightarrow> row" where
  "occupancy_cells zid name sev capac =
    [(''zone_id'', CText zid), (''zone_name'', CText name), (''severity'', CText sev),
     (''capacity'', CInt capac), (''remaining'', CInt capac)]"

lemma key_occupancy_cells: "key_of ''zone_occupancy'' (occupancy_cells z n s c) = [CText z]"
  by (simp add: key_of_def occupancy_cells_def)

lemma seed_cells:
  "cell (put_row ''zone_occupancy'' (occupancy_cells z n s c) d) ''zone_occupancy'' k ''capacity'' =
    (if k = [CText z] then CInt c else cell d ''zone_occupancy'' k ''capacity'')"
  "cell (put_row ''zone_occupancy'' (occupancy_cells z n s c) d) ''zone_occupancy'' k ''remaining'' =
    (if k = [CText z] then CInt c else cell d ''zone_occupancy'' k ''remaining'')"
  "cell (put_row ''zone_occupancy'' (occupancy_cells z n s c) d) ''drone_clearance'' k c' =
    cell d ''drone_clearance'' k c'"
  unfolding cell_put_row key_occupancy_cells by (simp_all add: occupancy_cells_def)

lemma seed_rows:
  "has_row (put_row ''zone_occupancy'' (occupancy_cells z n s c) d) t k \<longleftrightarrow>
    t = ''zone_occupancy'' \<and> k = [CText z] \<or> has_row d t k"
  by (simp add: has_row_put_row key_occupancy_cells)

lemma ledger_of_seed:
  "ledger_of (put_row ''zone_occupancy'' (occupancy_cells z n s c) d) =
    (ledger_of d)\<lparr>cap := (cap (ledger_of d))(z \<mapsto> c), slots := (slots (ledger_of d))(z \<mapsto> c)\<rparr>"
  by (simp add: ledger_of_def seed_cells fun_eq_iff)

lemma clearance_wf_seed:
  assumes wf: "clearance_wf d"
  shows "clearance_wf (put_row ''zone_occupancy'' (occupancy_cells z n s c) d)"
proof -
  let ?d = "put_row ''zone_occupancy'' (occupancy_cells z n s c) d"
  have "db_ok ?d" using wf by (intro db_ok_put_row) (simp_all add: clearance_wf_def occupancy_cells_def)
  moreover have "\<exists>z c n. k = [CText z] \<and> cell ?d ''zone_occupancy'' k ''capacity'' = CInt c \<and>
      cell ?d ''zone_occupancy'' k ''remaining'' = CInt n" if "has_row ?d ''zone_occupancy'' k" for k
    using that wf unfolding clearance_wf_def seed_rows seed_cells by auto
  moreover have "held (ledger_of ?d) = held (ledger_of d)" by (simp add: ledger_of_seed)
  ultimately show ?thesis using wf unfolding clearance_wf_def seed_rows seed_cells(3) by simp
qed

lemma clearance_inv_seed:
  assumes inv: "clearance_inv d" and new: "\<not> has_row d ''zone_occupancy'' [CText z]" and c: "0 \<le> c"
  shows "clearance_inv (put_row ''zone_occupancy'' (occupancy_cells z n s c) d)"
proof -
  let ?l = "ledger_of d" and ?l' = "ledger_of (put_row ''zone_occupancy'' (occupancy_cells z n s c) d)"
  have "cap ?l z = None" using new by (simp add: ledger_of_def cell_absent)
  then have "inside ?l z = {}" using inv by (auto simp: clearance_inv_def ledger_inv_def inside_def ran_def)
  moreover have "inside ?l' z' = inside ?l z'" for z' by (simp add: inside_def ledger_of_seed)
  ultimately have "ledger_inv ?l'" using inv c
    by (auto simp: clearance_inv_def ledger_inv_def ledger_of_seed)
  then show ?thesis using inv by (simp add: clearance_inv_def clearance_wf_seed)
qed

lemma empty_db_rows: "\<not> has_row empty_db t k" "cell empty_db t k c = CNull"
  by (simp_all add: has_row_def cell_def empty_db_def)

lemma ledger_of_empty: "ledger_of empty_db = \<lparr>cap = Map.empty, slots = Map.empty, held = Map.empty\<rparr>"
  by (simp add: ledger_of_def empty_db_rows)

lemma clearance_inv_empty: "clearance_inv empty_db"
proof -
  have "db_ok empty_db" by (simp add: db_ok_def table_ok_def empty_db_def)
  then show ?thesis
    by (simp add: clearance_inv_def clearance_wf_def ledger_inv_def empty_db_rows ledger_of_empty)
qed

section \<open>Properties\<close>

text \<open>Tables with the three zones the demonstration uses, for the witnesses.\<close>

definition three_zones_db :: db where
  "three_zones_db =
    put_row ''zone_occupancy'' (occupancy_cells DEMO_MEASURE_ZONE ''Fornebu'' ''low'' 6)
     (put_row ''zone_occupancy'' (occupancy_cells DEMO_OTHER_ZONE ''Palace'' ''high'' 3)
      (put_row ''zone_occupancy'' (occupancy_cells DEMO_ZONE ''Airport'' ''high'' 2) empty_db))"

lemmas demo_zones = DEMO_ZONE_def DEMO_OTHER_ZONE_def DEMO_MEASURE_ZONE_def

lemma three_zones_inv: "clearance_inv three_zones_db"
  unfolding three_zones_db_def
  by (intro clearance_inv_seed clearance_inv_empty)
    (simp_all add: seed_rows demo_zones empty_db_rows)

lemma three_zones_ledger:
  "ledger_of three_zones_db = \<lparr>
     cap = [DEMO_ZONE \<mapsto> 2, DEMO_OTHER_ZONE \<mapsto> 3, DEMO_MEASURE_ZONE \<mapsto> 6],
     slots = [DEMO_ZONE \<mapsto> 2, DEMO_OTHER_ZONE \<mapsto> 3, DEMO_MEASURE_ZONE \<mapsto> 6], held = Map.empty\<rparr>"
  by (simp add: three_zones_db_def ledger_of_seed ledger_of_empty)

lemma clearance_texts_distinct: "distinct (map (render_txn ''demo'') clearance_txns)"
  by code_simp

lemma three_zones_quiet: "quiet ''demo'' (node_world ''demo'' clearance_txns three_zones_db)"
  using accord_runs_serve [OF clearance_texts_distinct] three_zones_inv by (simp add: quiet_def)

lemma three_zones_caps:
  "cap (ledger_of three_zones_db) DEMO_ZONE = Some 2"
  "cap (ledger_of three_zones_db) DEMO_MEASURE_ZONE = Some 6"
  by (simp_all add: three_zones_ledger demo_zones)

lemma three_zones_accord:
  "accord_runs ''demo'' clearance_txns (node_world ''demo'' clearance_txns d)"
  by (rule accord_runs_serve [OF clearance_texts_distinct]) simp

text \<open>
  C5. A grant and a release refine the counting semaphore. With a node that answers, each changes
  the tables exactly as \<open>lgrant\<close> and \<open>lrelease\<close> change the ledger they represent, all three
  tables or none, and the \<open>applied\<close> flag, read out of the projected guards, is the semaphore's
  own decision: a slot left and no clearance held, or this very clearance held.
\<close>

theorem clearance_steps_refine_ledger:
  assumes "accord_runs ks clearance_txns w" and "faults w = []" and "clearance_inv (tables w)"
  shows "\<exists>g w1 r w2.
    run_grant ks act z e b w = (Inr g, w1) \<and> clearance_inv (tables w1) \<and>
    ledger_of (tables w1) = lgrant z e (ledger_of (tables w)) \<and>
    applied g = can_grant (ledger_of (tables w)) z e \<and>
    run_release ks act z e b w = (Inr r, w2) \<and> clearance_inv (tables w2) \<and>
    ledger_of (tables w2) = lrelease z e (ledger_of (tables w)) \<and>
    applied r = (held (ledger_of (tables w)) e = Some z)"
proof -
  have "quiet ks w" using assms by (simp add: quiet_def)
  then show ?thesis
    using run_grant_quiet [of ks w act z e b] run_release_quiet [of ks w act z e b]
    unfolding quiet_def by blast
qed

theorem clearance_steps_refine_ledger_witness:
  "\<exists>g w1. run_grant ''demo'' ''ask'' DEMO_ZONE ''asset-000000'' True
      (node_world ''demo'' clearance_txns three_zones_db) = (Inr g, w1) \<and> applied g \<and>
    ledger_of (tables w1) = lgrant DEMO_ZONE ''asset-000000'' (ledger_of three_zones_db)"
  using clearance_steps_refine_ledger [OF three_zones_accord, of three_zones_db "''ask''" DEMO_ZONE
      "''asset-000000''" True]
  by (auto simp: three_zones_inv can_grant_def three_zones_ledger demo_zones)

text \<open>
  C2. The clearance invariant survives everything. Whatever requests the six routes are sent, in
  whatever order, whichever order the contending threads take effect in, and whichever calls to
  the node fail before or after their effect, in every zone the slots left and the drones inside
  add up to the capacity, no slot count is negative, and the two indexes mirror each other.
\<close>

theorem clearance_routes_keep_invariant:
  assumes "accord_runs ks clearance_txns w" and "clearance_inv (tables w)"
  shows "clearance_inv (tables (fold (handle_clearance ks) requests w))"
  using clearance.requests.run_inv [of ks w requests] assms by (simp add: on_node_def)

theorem clearance_routes_keep_invariant_witness:
  "clearance_inv (tables (fold (handle_clearance ''demo'')
     [ContendReq [2, 0, 1] DEMO_ZONE 3, GrantReq DEMO_ZONE ''asset-000007'', ResetReq, ClearanceDemoReq 2]
     (node_world ''demo'' clearance_txns three_zones_db\<lparr>faults := [Reply, LostAfter ''timeout'', LostBefore ''down'']\<rparr>)))"
  by (rule clearance_routes_keep_invariant) (simp_all add: three_zones_accord three_zones_inv)

lemma ledger_inv_slots:
  assumes "ledger_inv l" and "cap l z = Some c"
  shows "\<exists>n. slots l z = Some n \<and> 0 \<le> n \<and> c = n + int (card (inside l z))"
proof -
  have "z \<in> dom (slots l)" using assms by (auto simp: ledger_inv_def)
  then obtain n where "slots l z = Some n" by blast
  then show ?thesis using assms unfolding ledger_inv_def by blast
qed

text \<open>
  Property. No interleaving oversubscribes a zone. Under any interleaving of the grant and release
  statements of any number of callers, a zone never holds more drones than its capacity, and
  capacities never change.
\<close>

theorem never_oversubscribed:
  assumes "clearance_inv d" and "cap (ledger_of d) z = Some c"
  shows "int (card (inside (ledger_of (fold run_clearance_stmt sts d)) z)) \<le> c"
proof -
  have inv: "clearance_inv (fold run_clearance_stmt sts d)"
    by (rule clearance.statements.run_inv [OF assms(1)])
  have "cap (ledger_of (fold run_clearance_stmt sts d)) = cap (ledger_of d)"
    using assms(1)
  proof (induction sts arbitrary: d)
    case (Cons st sts)
    then have wf: "clearance_wf d" by (simp add: clearance_inv_def)
    have "cap (ledger_of (run_clearance_stmt st d)) = cap (ledger_of d)"
      using grant_refines(2) [OF wf] release_refines(2) [OF wf]
      by (cases st) (auto simp: lgrant_def lrelease_def)
    then show ?case
      using Cons.IH [of "run_clearance_stmt st d"] clearance.run_clearance_stmt_inv [OF Cons.prems] by simp
  qed simp
  then have "cap (ledger_of (fold run_clearance_stmt sts d)) z = Some c" using assms(2) by simp
  then show ?thesis using ledger_inv_slots inv unfolding clearance_inv_def by fastforce
qed

theorem never_oversubscribed_witness:
  "int (card (inside (ledger_of (fold run_clearance_stmt
      [GrantStmt DEMO_ZONE ''a'' 0, GrantStmt DEMO_ZONE ''b'' 0, GrantStmt DEMO_ZONE ''c'' 0]
      three_zones_db)) DEMO_ZONE)) \<le> 2"
  by (rule never_oversubscribed) (simp_all add: three_zones_inv three_zones_ledger demo_zones)

text \<open>
  C1. Contention is exact. When \<open>n\<close> drones ask for one zone at once and the node answers, then
  whatever order their transactions take effect in, exactly as many are granted as the zone has
  slots (or all of them, if there are fewer askers), the rest are refused without an error, the
  winners are the drones then inside, and the zone's numbers still add up.
\<close>

theorem contention_is_exact:
  assumes "accord_runs ks clearance_txns w" and "faults w = []" and "clearance_inv (tables w)"
    and "\<not> txn_lock w" and "2 \<le> n" and "n \<le> 100" and "distinct order" and "set order = {0..<n}"
    and cap: "cap (ledger_of (tables w)) z = Some c"
  shows "\<exists>r w'. clearance_contend ks order z n w = (Inr r, w') \<and> \<not> txn_lock w' \<and>
    granted r = min (nat c) n \<and> refused r = n - min (nat c) n \<and> errors r = [] \<and>
    cr_capacity r = c \<and> length (winners r) = granted r \<and>
    (\<exists>v. cr_zone r = Some v \<and> consistent v \<and> remaining v = c - int (granted r))"
proof -
  let ?w = "w\<lparr>txn_lock := True\<rparr>"
  have "quiet ks ?w" using assms by (simp add: quiet_def)
  then obtain acts w1 where 1: "reset_clearances ks ?w = (Inr acts, w1)" "quiet ks w1"
      "all_free (ledger_of (tables w1))" "cap (ledger_of (tables w1)) z = Some c"
    using reset_clearances_quiet [of ks ?w] cap by auto
  have inv1: "clearance_inv (tables w1)" and f1: "faults w1 = []" using 1(2) by (simp_all add: quiet_def)
  have s1: "slots (ledger_of (tables w1)) z = Some c" using 1(3,4) by (simp add: all_free_def)
  then have c: "0 \<le> c" using inv1 1(4) by (auto simp: clearance_inv_def ledger_inv_def)
  obtain v1 where v1: "zone_named z (ledger_view (tables w1)) = Some v1" "capacity v1 = c"
    using zone_named_view [OF inv1, of z] 1(4) by (auto split: option.splits)
  let ?names = "map asset_name [0..<n]" and ?w1 = "w1\<lparr>ticks := Suc (ticks w1)\<rparr>"
  let ?es = "map ((!) ?names) order"
  let ?f = "\<lambda>e. run_grant ks (''grant '' @ e) z e False"
  have "?es = map asset_name order" using assms(8) by simp
  then have es: "distinct ?es" "length ?es = n"
    using assms(7,8) distinct_card [OF assms(7)]
    by (simp_all add: distinct_map inj_on_def asset_name_inj)
  obtain steps w2 where 2: "map_pm ?f ?es ?w1 = (Inr steps, w2)" "quiet ks w2"
      "map applied steps = map (\<lambda>j. int j < c) [0..<n]" "list_all (\<lambda>t. step_error t = None) steps"
      "cap (ledger_of (tables w2)) = cap (ledger_of (tables w1))"
      "slots (ledger_of (tables w2)) z = Some (c - min c (int n))"
    using grants_quiet [of ks ?w1 ?es z c "\<lambda>e. ''grant '' @ e"] 1(2,3) s1 c es
    by (auto simp: quiet_tick all_free_def)
  obtain zs where zs: "pool_map order ?f ?names ?w1 = (Inr zs, w2)" "mset zs = mset steps"
    using pool_map_run [OF 2(1) assms(7)] assms(8) by auto
  have len: "length steps = n" using arg_cong [OF 2(3), of length] by simp
  have granted: "length (filter applied zs) = min (nat c) n"
    using length_filter_mset [OF zs(2)] count_granted [OF 2(3) c] by simp
  have noerr: "error_text t = ''''" if "t \<in> set zs" for t
    using that 2(4) mset_eq_setD [OF zs(2)] by (auto simp: list_all_iff error_text_def)
  have "length (filter (\<lambda>t. \<not> applied t) zs) = n - min (nat c) n"
    using sum_length_filter_compl [of applied zs] granted len mset_eq_length [OF zs(2)] by linarith
  then have refused: "length (filter (\<lambda>t. \<not> applied t \<and> error_text t = '''') zs) = n - min (nat c) n"
    using noerr by (metis (mono_tags, lifting) filter_cong)
  have noerrs: "filter (\<lambda>t. error_text t \<noteq> '''') zs = []" using noerr by (simp add: filter_empty_conv)
  let ?w2 = "w2\<lparr>ticks := Suc (ticks w2)\<rparr>"
  have inv2: "clearance_inv (tables w2)" and f2: "faults w2 = []" using 2(2) by (simp_all add: quiet_def)
  obtain v2 where v2: "zone_named z (ledger_view (tables w2)) = Some v2" "consistent v2"
      "remaining v2 = c - min c (int n)" "holders v2 = sorted_list_of_set (inside (ledger_of (tables w2)) z)"
    using zone_named_view [OF inv2, of z] 2(5,6) 1(4) by (auto split: option.splits)
  have "c = c - min c (int n) + int (card (inside (ledger_of (tables w2)) z))"
    using inv2 2(5,6) 1(4) unfolding clearance_inv_def ledger_inv_def by metis
  then have winners: "length (sort (holders v2)) = min (nat c) n" using v2(4) by simp
  have "min c (int n) = int (min (nat c) n)" using c by (simp add: min_def nat_le_iff)
  then show ?thesis using assms(4,5,6) 1(1) f1 f2 v1 v2 zs granted refused noerrs winners c
    by (simp add: clearance_contend_def validated_def with_txn_lock_def try_finally_def or_503_def
        try_except_def bind_def read_clearance_state_run perf_counter_def elapsed_ms_run ret_def Let_def)
qed

theorem contention_is_exact_witness:
  "\<exists>r w'. clearance_contend ''demo'' [3, 1, 0, 2] DEMO_ZONE 4
      (node_world ''demo'' clearance_txns three_zones_db) = (Inr r, w') \<and> granted r = 2 \<and> refused r = 2"
proof -
  have "set [3, 1, 0, 2] = {0..<4 :: nat}" by auto
  then show ?thesis
    using contention_is_exact [OF three_zones_accord, of three_zones_db 4 "[3, 1, 0, 2]" DEMO_ZONE 2]
    by (auto simp: three_zones_inv three_zones_ledger demo_zones)
qed

text \<open>
  Property. The scripted demonstration on an airport zone of two slots. With a node that answers, the
  demonstration first gives every clearance back, then exactly the first, the fourth and the
  sixth of its seven steps are applied; every measured grant is applied; the ledger it returns is
  consistent in every zone and mismatched nowhere; and it leaves the airport with one drone
  inside and one slot.
\<close>

theorem clearance_demo_outcome:
  assumes "accord_runs ks clearance_txns w" and "faults w = []" and "clearance_inv (tables w)"
    and "\<not> txn_lock w" and "0 \<le> repeats" and "repeats \<le> 4000"
    and zone: "cap (ledger_of (tables w)) DEMO_ZONE = Some 2"
    and room: "cap (ledger_of (tables w)) DEMO_MEASURE_ZONE = Some m" "0 < m"
  shows "\<exists>r w'. clearance_demo ks repeats w = (Inr r, w') \<and> \<not> txn_lock w' \<and>
    map applied (cd_steps r) = [True, False, False, True, False, True, False] \<and>
    map step_error (cd_steps r) = replicate 7 None \<and> cd_repeats r = nat repeats \<and>
    list_all consistent (zones (cd_state r)) \<and> mismatched (cd_state r) = [] \<and>
    inside (ledger_of (tables w')) DEMO_ZONE = {''asset-000001''} \<and>
    slots (ledger_of (tables w')) DEMO_ZONE = Some 1"
proof -
  let ?w = "w\<lparr>txn_lock := True\<rparr>"
  have "quiet ks ?w" using assms by (simp add: quiet_def)
  then obtain acts w1 where 1: "reset_clearances ks ?w = (Inr acts, w1)" "quiet ks w1"
      "all_free (ledger_of (tables w1))" "cap (ledger_of (tables w1)) = cap (ledger_of (tables w))"
    using reset_clearances_quiet [of ks ?w] by auto
  let ?l = "ledger_of (tables w1)"
  have cap: "cap ?l DEMO_ZONE = Some 2" "cap ?l DEMO_MEASURE_ZONE = Some m" using 1(4) zone room by simp_all
  obtain steps w2 where 2: "map_pm (\<lambda>m. m) (clearance_script ks) w1 = (Inr steps, w2)" "quiet ks w2"
      "ledger_of (tables w2) = lgrant DEMO_ZONE ''asset-000001'' ?l"
      "map applied steps = [True, False, False, True, False, True, False]"
      "map step_error steps = map (\<lambda>_. None) (clearance_script ks)"
    using performs_script [OF clearance_script_performs 1(2)] demo_stmts_decisions [OF 1(3) cap(1)] by auto
  have can: "can_grant ?l DEMO_ZONE ''asset-000001''"
    using 1(3) cap(1) by (simp add: can_grant_def all_free_def)
  have led: "held (ledger_of (tables w2)) = [''asset-000001'' \<mapsto> DEMO_ZONE]"
      "slots (ledger_of (tables w2)) DEMO_ZONE = Some 1"
      "slots (ledger_of (tables w2)) DEMO_MEASURE_ZONE = Some m"
    using can 1(3) cap unfolding 2(3) by (simp_all add: lgrant_def all_free_def demo_zones)
  have "\<exists>gs rs w3. repeat_clearance ks repeats w2 = (Inr (gs, rs), w3) \<and> quiet ks w3 \<and>
      ledger_of (tables w3) = ledger_of (tables w2) \<and> length gs = nat repeats"
  proof (cases "repeats \<le> 0")
    case True
    with 2(2) show ?thesis by (simp add: repeat_clearance_def ret_def)
  next
    case False
    with measure_pairs_quiet [OF 2(2) _ led(3) room(2), of "[0..<nat repeats]"] led(1)
    show ?thesis by (auto simp: repeat_clearance_def bind_def ret_def)
  qed
  then obtain gs rs w3 where 3: "repeat_clearance ks repeats w2 = (Inr (gs, rs), w3)" "quiet ks w3"
      "ledger_of (tables w3) = ledger_of (tables w2)" "length gs = nat repeats" by blast
  have inv: "clearance_inv (tables w3)" and f: "faults w3 = []" using 3(2) by (simp_all add: quiet_def)
  have "consistent v" if v: "v \<in> set (zones (ledger_view (tables w3)))" for v
  proof -
    obtain k r where r: "(k, r) \<in> set (tables w3 ''zone_occupancy'')" "v = zone_view (tables w3) r"
      using v ledger_view_zones by blast
    show ?thesis by (rule zone_view_facts [OF inv r(1)]) (use r in simp)
  qed
  then have ok: "list_all consistent (zones (ledger_view (tables w3)))" by (simp add: list_all_iff)
  have "inside (ledger_of (tables w3)) DEMO_ZONE = {''asset-000001''}"
    using led(1) 3(3) by (auto simp: inside_def)
  moreover have "map (\<lambda>_. None) (clearance_script ks) = replicate 7 None"
    by (simp add: clearance_script_def DEMO_ASSETS_def eval_nat_numeral)
  ultimately show ?thesis using assms(4-6) 1(1) 2(1,4,5) 3(1,3,4) led(2) f ok ledger_view_mismatched [OF inv]
    by (simp add: clearance_demo_def validated_def with_txn_lock_def try_finally_def or_503_def
        try_except_def bind_def read_clearance_state_run ret_def)
qed

theorem clearance_demo_outcome_witness:
  "\<exists>r w'. clearance_demo ''demo'' 20 (node_world ''demo'' clearance_txns three_zones_db) = (Inr r, w') \<and>
    map applied (cd_steps r) = [True, False, False, True, False, True, False] \<and> cd_repeats r = 20"
proof -
  let ?w = "node_world ''demo'' clearance_txns three_zones_db"
  obtain r w' where "clearance_demo ''demo'' 20 ?w = (Inr r, w')"
      "map applied (cd_steps r) = [True, False, False, True, False, True, False]"
      "cd_repeats r = nat 20"
    using clearance_demo_outcome [OF three_zones_accord, of three_zones_db 20 6]
    unfolding node_world_simps three_zones_caps using three_zones_inv by fastforce
  then show ?thesis by (intro exI [of _ r] exI [of _ w']) simp
qed

text \<open>
  Property. The state route reports a consistent ledger. On tables that satisfy the invariant every zone
  it lists is consistent, none of its holders is mismatched, and the zone it lists under a name
  carries that zone's capacity, the slots left and, sorted, the drones inside.
\<close>

theorem clearance_state_is_the_ledger:
  assumes inv: "clearance_inv (tables w)" and "faults w = []" and "cap (ledger_of (tables w)) z = Some c"
  shows "\<exists>l v. clearance_state w = (Inr l, w) \<and> mismatched l = [] \<and> zone_named z l = Some v \<and>
    capacity v = c \<and> slots (ledger_of (tables w)) z = Some (remaining v) \<and>
    holders v = sorted_list_of_set (inside (ledger_of (tables w)) z) \<and> consistent v"
  using zone_named_view [OF inv, of z] ledger_view_mismatched [OF inv] assms(2,3)
  by (auto simp: clearance_state_def any_503_def try_except_def read_clearance_state_run split: option.splits)

theorem clearance_state_is_the_ledger_witness:
  "\<exists>l v. clearance_state (node_world ''demo'' clearance_txns three_zones_db) =
      (Inr l, node_world ''demo'' clearance_txns three_zones_db) \<and>
    zone_named DEMO_ZONE l = Some v \<and> capacity v = 2 \<and> remaining v = 2 \<and> holders v = [] \<and> consistent v"
  using clearance_state_is_the_ledger [of "node_world ''demo'' clearance_txns three_zones_db" DEMO_ZONE 2]
  by (auto simp: three_zones_inv three_zones_ledger demo_zones inside_def)

text \<open>
  Property. The reset gives every clearance back through releases alone: afterwards no drone holds one
  and each zone has its whole capacity left, with the capacities unchanged.
\<close>

theorem reset_frees_every_slot:
  assumes "accord_runs ks clearance_txns w" and "faults w = []" and "clearance_inv (tables w)"
    and "\<not> txn_lock w"
  shows "\<exists>acts l w'. clearance_reset ks w = (Inr (acts, l), w') \<and> all_free (ledger_of (tables w')) \<and>
    cap (ledger_of (tables w')) = cap (ledger_of (tables w))"
proof -
  have "quiet ks (w\<lparr>txn_lock := True\<rparr>)" using assms by (simp add: quiet_def)
  then obtain acts w1 where 1: "reset_clearances ks (w\<lparr>txn_lock := True\<rparr>) = (Inr acts, w1)"
      "quiet ks w1" "all_free (ledger_of (tables w1))"
      "cap (ledger_of (tables w1)) = cap (ledger_of (tables w))"
    using reset_clearances_quiet [of ks "w\<lparr>txn_lock := True\<rparr>"] by auto
  then show ?thesis using assms(4)
    by (simp add: clearance_reset_def with_txn_lock_def try_finally_def any_503_def try_except_def
        bind_def read_clearance_state_run ret_def quiet_def)
qed

theorem reset_frees_every_slot_witness:
  "\<exists>acts l w'. clearance_reset ''demo'' (node_world ''demo'' clearance_txns three_zones_db) =
      (Inr (acts, l), w') \<and> all_free (ledger_of (tables w'))"
  using reset_frees_every_slot [OF three_zones_accord, of three_zones_db]
  by (auto simp: three_zones_inv)

section \<open>The lock the routes share\<close>

datatype txn_request = SessionRoute session_request | ClearanceRoute clearance_request

fun handle_txn :: "string \<Rightarrow> txn_request \<Rightarrow> world \<Rightarrow> world" where
  "handle_txn ks (SessionRoute r) = handle_session ks r"
| "handle_txn ks (ClearanceRoute r) = handle_clearance ks r"

definition lock_free :: "world \<Rightarrow> bool" where
  "lock_free w \<longleftrightarrow> \<not> txn_lock w"

lemma lock_free_node_call: "preserves lock_free (node_call f)"
proof (rule preservesI)
  fix w assume "lock_free w"
  then show "lock_free (snd (node_call f w))"
    by (cases f w rule: node_call_cases) (simp_all add: lock_free_def)
qed

lemma lock_free_calls [preserves_intros]:
  "preserves lock_free (execute_query q)" "preserves lock_free (execute_write f)"
  "preserves lock_free (execute_transaction stmt ps)" "preserves lock_free new_uuid"
  by (simp_all add: execute_query_def execute_write_def execute_transaction_def preserves_def
      new_uuid_def lock_free_def lock_free_node_call [unfolded preserves_def lock_free_def, rule_format])

lemma lock_free_routes [preserves_intros]:
  "preserves lock_free (session_open who)" "preserves lock_free (session_timeline u p)"
  "preserves lock_free (transaction_schema ks)" "preserves lock_free clearance_state"
  unfolding session_open_def session_timeline_def transaction_schema_def clearance_state_def
    open_session_def timeline_rows_def read_clearance_state_def read_zone_def Let_def
  by (intro preserves_intros)+

lemma lock_free_with_txn_lock [preserves_intros]: "preserves lock_free (with_txn_lock m)"
  by (simp add: preserves_def with_txn_lock_def try_finally_def lock_free_def split: prod.splits)

interpretation lock: step_system "handle_txn ks" lock_free for ks
proof unfold_locales
  fix w r assume w: "lock_free w"
  show "lock_free (handle_txn ks r w)"
  proof (cases r)
    case (SessionRoute q)
    with w show ?thesis
      by (cases q) (auto simp: session_step_def session_demo_def intro!: preservesD [of lock_free] preserves_intros)
  next
    case (ClearanceRoute q)
    with w show ?thesis
      by (cases q) (auto simp: clearance_grant_def clearance_release_def clearance_reset_def
          clearance_contend_def clearance_demo_def intro!: preservesD [of lock_free] preserves_intros)
  qed
qed

text \<open>
  Property. The lock is never leaked and always respected. After any sequence of requests to the
  session and clearance routes, under any failures, the lock is free again if it was free; and
  while it is held every route that needs it answers 409 and touches nothing.
\<close>

theorem txn_lock_discipline:
  "(\<not> txn_lock w \<longrightarrow> \<not> txn_lock (fold (handle_txn ks) requests w)) \<and>
   (txn_lock w \<longrightarrow>
      (let busy = HTTPException 409 ''a transaction demo is already running'' in
       (0 \<le> seq \<longrightarrow> session_step ks u (Some s) seq ty w = (Inl busy, w)) \<and>
       clearance_grant ks z e w = (Inl busy, w) \<and> clearance_release ks z e w = (Inl busy, w) \<and>
       clearance_reset ks w = (Inl busy, w) \<and>
       (0 \<le> n \<and> n \<le> 4000 \<longrightarrow> session_demo ks n w = (Inl busy, w) \<and> clearance_demo ks n w = (Inl busy, w)) \<and>
       (2 \<le> k \<and> k \<le> 100 \<longrightarrow> clearance_contend ks order z k w = (Inl busy, w))))"
  using lock.run_inv [of w ks requests]
  by (simp add: lock_free_def session_step_def session_demo_def clearance_grant_def
      clearance_release_def clearance_reset_def clearance_demo_def clearance_contend_def
      validated_def with_txn_lock_def Let_def)

theorem txn_lock_discipline_witness:
  "\<not> txn_lock (fold (handle_txn ''demo'') [SessionRoute (DemoReq 3), ClearanceRoute ResetReq]
      (node_world ''demo'' [] empty_db\<lparr>faults := [LostBefore ''down'']\<rparr>)) \<and>
   clearance_reset ''demo'' (node_world ''demo'' [] empty_db\<lparr>txn_lock := True\<rparr>) =
     (Inl (HTTPException 409 ''a transaction demo is already running''),
      node_world ''demo'' [] empty_db\<lparr>txn_lock := True\<rparr>)"
  using txn_lock_discipline [of "node_world ''demo'' [] empty_db\<lparr>faults := [LostBefore ''down'']\<rparr>"
      "''demo''" "[SessionRoute (DemoReq 3), ClearanceRoute ResetReq]"]
    txn_lock_discipline [of "node_world ''demo'' [] empty_db\<lparr>txn_lock := True\<rparr>" "''demo''"]
  by (simp add: Let_def)

end
