(* ===== verification/Seeding.thy ===== *)
theory Seeding
  imports Clearance
begin

text \<open>
  How the sink prepares the keyspace when it starts (\<open>ensure_schema\<close>, \<open>ensure_cdc\<close>, \<open>seed_zones\<close>
  and \<open>seed_zone_occupancy\<close> of \<open>src/ingress/consumer/consumer.py\<close>). The state is a \<open>session\<close>: the
  node of the theory \<open>Cql\<close> and the catalog of what is declared in the keyspace.

  The properties show what every run of it leaves declared, whatever was there before, and that
  a restart, with any calls failing, keeps the clearance invariant and every row it finds.
\<close>

section \<open>The session\<close>

record catalog =
  keyspaces :: "string list"
  declared :: "string \<rightharpoonup> table_def"
  indexes :: "string list"

record session =
  node :: world
  catalog_of :: catalog

text \<open>One call that reads or changes the catalog, under the node's faults.\<close>

definition catalog_call :: "(catalog \<Rightarrow> 'a \<times> catalog) \<Rightarrow> (session, 'a) pm" where
  "catalog_call f = (\<lambda>s.
    let w = node s; w' = w\<lparr>faults := tl (faults w)\<rparr>; (a, c) = f (catalog_of s)
    in case (case faults w of [] \<Rightarrow> Reply | x # _ \<Rightarrow> x) of
         Reply \<Rightarrow> (Inr a, s\<lparr>node := w', catalog_of := c\<rparr>)
       | LostBefore m \<Rightarrow> (Inl (Exn m), s\<lparr>node := w'\<rparr>)
       | LostAfter m \<Rightarrow> (Inl (Exn m), s\<lparr>node := w', catalog_of := c\<rparr>))"

definition on_world :: "(world, 'a) pm \<Rightarrow> (session, 'a) pm" where
  "on_world m = (\<lambda>s. case m (node s) of (r, w) \<Rightarrow> (r, s\<lparr>node := w\<rparr>))"

fun run_ddl :: "ddl \<Rightarrow> catalog \<Rightarrow> catalog" where
  "run_ddl (CreateKeyspace k) c =
    (if k \<in> set (keyspaces c) then c else c\<lparr>keyspaces := keyspaces c @ [k]\<rparr>)"
| "run_ddl (CreateTable d) c =
    (if declared c (tname d) \<noteq> None then c else c\<lparr>declared := (declared c)(tname d \<mapsto> d)\<rparr>)"
| "run_ddl (CreateIndex i t col) c =
    (if i \<in> set (indexes c) then c else c\<lparr>indexes := indexes c @ [i]\<rparr>)"

section \<open>Declaring the tables\<close>

definition cdc_of :: "catalog \<Rightarrow> bool" where
  "cdc_of c = (case declared c ''drone_latest_status'' of None \<Rightarrow> False | Some d \<Rightarrow> cdc_option d)"

text \<open>\<open>ALTER TABLE ... WITH cdc = ...\<close>, refused for a table that does not exist.\<close>

definition alter_cdc :: "bool \<Rightarrow> catalog \<Rightarrow> bool \<times> catalog" where
  "alter_cdc want c =
    (case declared c ''drone_latest_status'' of
       None \<Rightarrow> (False, c)
     | Some d \<Rightarrow> (True, c\<lparr>declared := (declared c)(''drone_latest_status'' \<mapsto> d\<lparr>cdc_option := want\<rparr>)\<rparr>))"

definition ensure_cdc :: "bool \<Rightarrow> (session, unit) pm" where
  "ensure_cdc CDC_ENABLED =
    bind (catalog_call (\<lambda>c. (cdc_of c, c))) (\<lambda>have_cdc.
      if have_cdc = CDC_ENABLED then ret ()
      else bind (catalog_call (alter_cdc CDC_ENABLED)) (\<lambda>found.
        if found then ret () else raise (Exn ''unconfigured table drone_latest_status'')))"

section \<open>Seeding\<close>

type_synonym demo_zone = "string \<times> string \<times> string \<times> string \<times> int"

definition DEMO_ZONES :: "demo_zone list" where
  "DEMO_ZONES =
    [(''zone-oslo-airport'', ''Oslo Lufthavn Gardermoen'',
      ''POLYGON((11.05 60.18, 11.15 60.18, 11.15 60.22, 11.05 60.22, 11.05 60.18))'', ''critical'', 2),
     (''zone-royal-palace'', ''Det Kongelige Slott'',
      ''POLYGON((10.72 59.91, 10.74 59.91, 10.74 59.92, 10.72 59.92, 10.72 59.91))'', ''critical'', 3),
     (''zone-fornebu'', ''Fornebu Tech Park'',
      ''POLYGON((10.62 59.88, 10.66 59.88, 10.66 59.90, 10.62 59.90, 10.62 59.88))'', ''warning'', 5)]"

text \<open>\<open>INSERT ... IF NOT EXISTS\<close>: nothing happens when the key has a row.\<close>

definition insert_if_absent :: "string \<Rightarrow> row \<Rightarrow> db \<Rightarrow> db" where
  "insert_if_absent t cs d = (if has_row d t (key_of t cs) then d else put_row t cs d)"

definition seed_zone :: "demo_zone \<Rightarrow> (world, unit) pm" where
  "seed_zone = (\<lambda>(zone_id, name, polygon_wkt, severity, _).
    try_except
      (bind now (\<lambda>t. execute_write (insert_if_absent ''restricted_zones''
        [(''zone_id'', CText zone_id), (''zone_name'', CText name), (''polygon_wkt'', CText polygon_wkt),
         (''severity'', CText severity), (''enabled'', CBool True), (''updated_at'', CTime t)])))
      (\<lambda>_. ret ()))"

definition seed_zones :: "(world, unit) pm" where
  "seed_zones = bind (map_pm seed_zone DEMO_ZONES) (\<lambda>_. ret ())"

definition seed_occupancy :: "demo_zone \<Rightarrow> (world, unit) pm" where
  "seed_occupancy = (\<lambda>(zone_id, name, _, severity, capacity).
    try_except
      (bind (execute_query (\<lambda>d. has_row d ''zone_occupancy'' [CText zone_id])) (\<lambda>existing.
        if existing then ret ()
        else execute_write (put_row ''zone_occupancy'' (occupancy_cells zone_id name severity capacity))))
      (\<lambda>_. ret ()))"

definition seed_zone_occupancy :: "(world, unit) pm" where
  "seed_zone_occupancy = bind (map_pm seed_occupancy DEMO_ZONES) (\<lambda>_. ret ())"

definition ensure_schema :: "string \<Rightarrow> string \<Rightarrow> bool \<Rightarrow> bool \<Rightarrow> (session, unit) pm" where
  "ensure_schema keyspace table ACCORD_ENABLED CDC_ENABLED =
    bind (map_pm (\<lambda>stmt. catalog_call (\<lambda>c. ((), run_ddl stmt c)))
            (schema_ddl keyspace table ACCORD_ENABLED CDC_ENABLED)) (\<lambda>_.
    bind (ensure_cdc CDC_ENABLED) (\<lambda>_.
    bind (on_world seed_zones) (\<lambda>_.
    on_world seed_zone_occupancy)))"

section \<open>Lemmas\<close>

subsection \<open>The catalog\<close>

lemma catalog_call_ok [pm_simps]:
  "faults (node s) = [] \<Longrightarrow> catalog_call f s = (Inr (fst (f (catalog_of s))), s\<lparr>catalog_of := snd (f (catalog_of s))\<rparr>)"
  by (simp add: catalog_call_def Let_def split: prod.splits)

text \<open>The first declaration of a name wins, and one already in the keyspace comes before all.\<close>

lemma declared_run_ddl:
  "declared (fold run_ddl ds c) n =
    (case declared c n of Some d \<Rightarrow> Some d | None \<Rightarrow> List.find (\<lambda>d. tname d = n) (tables_of ds))"
proof (induction ds arbitrary: c)
  case (Cons x ds)
  then show ?case by (cases x) (auto split: option.splits)
qed (simp split: option.splits)

lemma map_pm_ddl:
  "faults (node s) = [] \<Longrightarrow> \<exists>us. map_pm (\<lambda>stmt. catalog_call (\<lambda>c. ((), run_ddl stmt c))) ds s =
    (Inr us, s\<lparr>catalog_of := fold run_ddl ds (catalog_of s)\<rparr>)"
proof (induction ds arbitrary: s)
  case (Cons x ds)
  let ?s = "s\<lparr>catalog_of := run_ddl x (catalog_of s)\<rparr>"
  obtain us where "map_pm (\<lambda>stmt. catalog_call (\<lambda>c. ((), run_ddl stmt c))) ds ?s =
      (Inr us, ?s\<lparr>catalog_of := fold run_ddl ds (run_ddl x (catalog_of s))\<rparr>)"
    using Cons.IH [of ?s] Cons.prems by auto
  then show ?case using Cons.prems by (simp add: bind_def ret_def catalog_call_ok)
qed (simp add: ret_def)

abbreviation with_cdc :: "bool \<Rightarrow> string \<Rightarrow> table_def \<Rightarrow> table_def" where
  "with_cdc want n d \<equiv> (if n = ''drone_latest_status'' then d\<lparr>cdc_option := want\<rparr> else d)"

lemma ensure_cdc_run:
  assumes "faults (node s) = []" and "declared (catalog_of s) ''drone_latest_status'' = Some d"
  shows "\<exists>c. ensure_cdc want s = (Inr (), s\<lparr>catalog_of := c\<rparr>) \<and>
    (\<forall>n. declared c n = map_option (with_cdc want n) (declared (catalog_of s) n))"
proof (cases "cdc_option d = want")
  case True
  then have "with_cdc want n d' = d'" if "declared (catalog_of s) n = Some d'" for n d'
    using assms(2) that by auto
  then have "declared (catalog_of s) n = map_option (with_cdc want n) (declared (catalog_of s) n)" for n
    by (cases "declared (catalog_of s) n") simp_all
  moreover have "ensure_cdc want s = (Inr (), s\<lparr>catalog_of := catalog_of s\<rparr>)"
    using assms True by (simp add: ensure_cdc_def cdc_of_def bind_def ret_def catalog_call_ok)
  ultimately show ?thesis by blast
next
  case False
  then show ?thesis using assms
    by (intro exI [of _ "snd (alter_cdc want (catalog_of s))"])
      (auto simp: ensure_cdc_def cdc_of_def alter_cdc_def bind_def ret_def catalog_call_ok option.map_ident)
qed

subsection \<open>The rows\<close>

text \<open>Every row found at the start is as it was, and only the two seeded tables have new ones.\<close>

definition kept :: "db \<Rightarrow> db \<Rightarrow> bool" where
  "kept d0 d \<longleftrightarrow> (\<forall>t k. has_row d0 t k \<longrightarrow> map_of (d t) k = map_of (d0 t) k) \<and>
    (\<forall>t. t \<notin> {''restricted_zones'', ''zone_occupancy''} \<longrightarrow> d t = d0 t)"

definition restart_inv :: "db \<Rightarrow> db \<Rightarrow> bool" where
  "restart_inv d0 d \<longleftrightarrow> clearance_inv d \<and> kept d0 d"

lemma kept_fresh:
  assumes "kept d0 d" and "t \<in> {''restricted_zones'', ''zone_occupancy''}" and "\<not> has_row d t (key_of t cs)"
  shows "kept d0 (put_row t cs d)"
proof -
  have "\<not> has_row d0 t (key_of t cs)" using assms(1,3) unfolding kept_def has_row_def by metis
  then show ?thesis
    using assms(1,2) unfolding kept_def lookup_put_row by (auto simp: put_row_def)
qed

lemma clearance_inv_other:
  assumes "clearance_inv d" and "t \<notin> {''zone_occupancy'', ''zone_clearance'', ''drone_clearance''}"
    and "set (primary_key t) \<subseteq> fst ` set cs"
  shows "clearance_inv (put_row t cs d)"
proof -
  have same: "has_row (put_row t cs d) t' k = has_row d t' k" "cell (put_row t cs d) t' k c = cell d t' k c"
    if "t' \<in> {''zone_occupancy'', ''zone_clearance'', ''drone_clearance''}" for t' k c
    using assms(2) that by (auto simp: has_row_put_row cell_put_row)
  have "ledger_of (put_row t cs d) = ledger_of d" by (simp add: ledger_of_def same)
  moreover have "db_ok (put_row t cs d)"
    using assms(1,3) by (intro db_ok_put_row) (simp_all add: clearance_inv_def clearance_wf_def)
  ultimately show ?thesis using assms(1) by (simp add: clearance_inv_def clearance_wf_def same)
qed

lemma preserves_seed_zone:
  "preserves (on_node ks [] (restart_inv d0)) (seed_zone z)"
proof (cases z)
  case (fields zid name wkt sev c)
  have "restart_inv d0 (insert_if_absent ''restricted_zones'' cs d)"
    if "restart_inv d0 d" "set (primary_key ''restricted_zones'') \<subseteq> fst ` set cs" for cs d
    using that by (simp add: restart_inv_def insert_if_absent_def kept_fresh clearance_inv_other)
  then show ?thesis
    unfolding fields seed_zone_def split by (intro preserves_intros preserves_execute_write) simp_all
qed

lemma restart_inv_seed:
  assumes "restart_inv d0 d" and "\<not> has_row d ''zone_occupancy'' [CText z]" and "0 \<le> c"
  shows "restart_inv d0 (put_row ''zone_occupancy'' (occupancy_cells z n s c) d)"
  using assms kept_fresh [of d0 d "''zone_occupancy''" "occupancy_cells z n s c"]
  by (auto simp: restart_inv_def key_occupancy_cells intro: clearance_inv_seed)

text \<open>The read that finds no row and the write that follows: no row is there when it is written.\<close>

lemma preserves_seed_occupancy:
  assumes "0 \<le> c"
  shows "preserves (on_node ks [] (restart_inv d0)) (seed_occupancy (zid, name, wkt, sev, c))"
proof (rule preservesI)
  fix w assume w: "on_node ks [] (restart_inv d0) w"
  let ?q = "\<lambda>d. (has_row d ''zone_occupancy'' [CText zid], d)"
  let ?put = "put_row ''zone_occupancy'' (occupancy_cells zid name sev c)"
  let ?w' = "w\<lparr>faults := tl (faults w)\<rparr>"
  have inv: "restart_inv d0 (tables w)" using w by (simp add: on_node_def)
  show "on_node ks [] (restart_inv d0) (snd (seed_occupancy (zid, name, wkt, sev, c) w))"
  proof (cases ?q w rule: node_call_cases)
    case reply
    show ?thesis
    proof (cases "has_row (tables w) ''zone_occupancy'' [CText zid]")
      case True
      then show ?thesis using reply w
        by (simp add: seed_occupancy_def execute_query_def try_except_def bind_def ret_def on_node_def accord_runs_def)
    next
      case False
      have new: "restart_inv d0 (?put (tables w))" by (rule restart_inv_seed [OF inv False assms])
      have q: "execute_query (\<lambda>d. has_row d ''zone_occupancy'' [CText zid]) w = (Inr False, ?w')"
        using reply False by (simp add: execute_query_def)
      show ?thesis
        unfolding seed_occupancy_def split try_except_def bind_def q using inv new
        by (cases "\<lambda>d. ((), ?put d)" ?w' rule: node_call_cases)
          (auto simp: execute_write_def ret_def on_node_def accord_runs_def)
    qed
  qed (use w in \<open>auto simp: seed_occupancy_def execute_query_def try_except_def bind_def ret_def on_node_def accord_runs_def\<close>)
qed

lemma demo_zone_capacity: "(zid, name, wkt, sev, c) \<in> set DEMO_ZONES \<Longrightarrow> 0 \<le> c"
  unfolding DEMO_ZONES_def by auto

lemma preserves_seeding:
  "preserves (on_node ks [] (restart_inv d0)) seed_zones"
  "preserves (on_node ks [] (restart_inv d0)) seed_zone_occupancy"
proof -
  show "preserves (on_node ks [] (restart_inv d0)) seed_zones"
    unfolding seed_zones_def by (intro preserves_intros preserves_seed_zone)
  show "preserves (on_node ks [] (restart_inv d0)) seed_zone_occupancy"
    unfolding seed_zone_occupancy_def
    by (intro preserves_bind preserves_map_pm_mem preserves_ret)
      (auto intro!: preserves_seed_occupancy dest: demo_zone_capacity)
qed

lemma preserves_catalog_call [preserves_intros]:
  "preserves (\<lambda>s. on_node ks [] I (node s)) (catalog_call f)"
  by (rule preservesI)
    (auto simp: catalog_call_def Let_def on_node_def accord_runs_def split: prod.splits fault.splits list.splits)

lemma preserves_on_world:
  "preserves (on_node ks [] I) m \<Longrightarrow> preserves (\<lambda>s. on_node ks [] I (node s)) (on_world m)"
  unfolding preserves_def on_world_def by (auto split: prod.splits)

lemma preserves_ensure_schema:
  "preserves (\<lambda>s. on_node ks [] (restart_inv d0) (node s)) (ensure_schema keyspace table accord_on cdc)"
  unfolding ensure_schema_def ensure_cdc_def
  by (intro preserves_intros preserves_on_world preserves_seeding)

subsection \<open>When nothing fails\<close>

lemma preserves_no_faults [preserves_intros]:
  "preserves (\<lambda>w. faults w = []) (execute_query g)" "preserves (\<lambda>w. faults w = []) (execute_write h)"
  "preserves (\<lambda>w. faults w = []) now"
  by (simp_all add: preserves_def execute_query_def execute_write_def node_call_ok now_def)

lemma seeding_no_faults:
  "preserves (\<lambda>w. faults w = []) seed_zones" "preserves (\<lambda>w. faults w = []) seed_zone_occupancy"
  unfolding seed_zones_def seed_zone_occupancy_def seed_zone_def seed_occupancy_def
  by (intro preserves_intros)+

lemma seeding_total: "total seed_zones" "total seed_zone_occupancy"
  unfolding seed_zones_def seed_zone_occupancy_def seed_zone_def seed_occupancy_def
  by (intro total_intros)+

lemma on_world_total:
  assumes "total m" and "preserves (\<lambda>w. faults w = []) m" and "faults (node s) = []"
  shows "\<exists>a w. on_world m s = (Inr a, s\<lparr>node := w\<rparr>) \<and> faults w = []"
  using totalD [OF assms(1), of "node s"] preservesD [OF assms(2,3)] by (auto simp: on_world_def)

lemma drone_latest_declared:
  "List.find (\<lambda>d. tname d = ''drone_latest_status'') (tables_of (schema_ddl ks table a cdc)) \<noteq> None"
  by (auto simp: schema_ddl_def find_None_iff table_defs)

lemma ensure_schema_run:
  assumes ok: "faults (node s) = []"
  shows "\<exists>s'. ensure_schema ks table a cdc s = (Inr (), s') \<and> faults (node s') = [] \<and>
    (\<forall>n. declared (catalog_of s') n = map_option (with_cdc cdc n)
       (case declared (catalog_of s) n of Some d \<Rightarrow> Some d
        | None \<Rightarrow> List.find (\<lambda>d. tname d = n) (tables_of (schema_ddl ks table a cdc))))"
proof -
  let ?ds = "schema_ddl ks table a cdc"
  let ?s1 = "s\<lparr>catalog_of := fold run_ddl ?ds (catalog_of s)\<rparr>"
  obtain us where one: "map_pm (\<lambda>stmt. catalog_call (\<lambda>c. ((), run_ddl stmt c))) ?ds s = (Inr us, ?s1)"
    using map_pm_ddl [OF ok] by blast
  obtain d where "declared (catalog_of ?s1) ''drone_latest_status'' = Some d"
    using drone_latest_declared [of ks table a cdc]
    by (cases "declared (catalog_of s) ''drone_latest_status''") (auto simp: declared_run_ddl)
  then obtain c where two: "ensure_cdc cdc ?s1 = (Inr (), ?s1\<lparr>catalog_of := c\<rparr>)"
    and c: "\<forall>n. declared c n = map_option (with_cdc cdc n) (declared (catalog_of ?s1) n)"
    using ensure_cdc_run [of ?s1 d cdc] ok by auto
  obtain w3 u3 where three: "on_world seed_zones (?s1\<lparr>catalog_of := c\<rparr>) = (Inr u3, ?s1\<lparr>catalog_of := c, node := w3\<rparr>)"
    and f3: "faults w3 = []"
    using on_world_total [OF seeding_total(1) seeding_no_faults(1), of "?s1\<lparr>catalog_of := c\<rparr>"] ok by auto
  obtain w4 where four: "on_world seed_zone_occupancy (?s1\<lparr>catalog_of := c, node := w3\<rparr>) =
      (Inr (), ?s1\<lparr>catalog_of := c, node := w4\<rparr>)" and f4: "faults w4 = []"
    using on_world_total [OF seeding_total(2) seeding_no_faults(2), of "?s1\<lparr>catalog_of := c, node := w3\<rparr>"] f3 by auto
  have "ensure_schema ks table a cdc s = (Inr (), ?s1\<lparr>catalog_of := c, node := w4\<rparr>)"
    unfolding ensure_schema_def bind_Inr [of "map_pm _ _", OF one] bind_Inr [of "ensure_cdc _", OF two]
      bind_Inr [of "on_world _", OF three] by (rule four)
  then show ?thesis using c f4 by (intro exI conjI) (assumption, simp_all add: declared_run_ddl)
qed

definition seed_row :: "demo_zone \<Rightarrow> db \<Rightarrow> db" where
  "seed_row = (\<lambda>(z, n, _, s, c) d.
    if has_row d ''zone_occupancy'' [CText z] then d else put_row ''zone_occupancy'' (occupancy_cells z n s c) d)"

lemma seed_occupancy_ok:
  "faults w = [] \<Longrightarrow> seed_occupancy z w = (Inr (), w\<lparr>tables := seed_row z (tables w)\<rparr>)"
  by (cases z) (simp add: seed_occupancy_def seed_row_def execute_query_def execute_write_def
      try_except_def bind_def ret_def node_call_ok)

lemma seed_zone_occupancy_ok:
  assumes "faults w = []"
  shows "seed_zone_occupancy w = (Inr (), w\<lparr>tables := fold seed_row DEMO_ZONES (tables w)\<rparr>)"
proof -
  have "\<exists>us. map_pm seed_occupancy zs w = (Inr us, w\<lparr>tables := fold seed_row zs (tables w)\<rparr>)" for zs
    using assms
  proof (induction zs arbitrary: w)
    case (Cons z zs)
    then show ?case
      using Cons.IH [of "w\<lparr>tables := seed_row z (tables w)\<rparr>"] by (auto simp: bind_def ret_def seed_occupancy_ok)
  qed (simp add: ret_def)
  then obtain us where "map_pm seed_occupancy DEMO_ZONES w = (Inr us, w\<lparr>tables := fold seed_row DEMO_ZONES (tables w)\<rparr>)"
    by blast
  then show ?thesis by (simp add: seed_zone_occupancy_def bind_def ret_def)
qed

section \<open>Properties\<close>

text \<open>
  Property. Starting the sink settles the schema whatever the keyspace held. When no call fails, every
  table of the schema is declared; one that existed keeps its declaration, with the one exception
  of \<open>drone_latest_status\<close>, whose \<open>cdc\<close> option becomes what the environment asks for; nothing else
  changes; and starting it again changes no declaration.
\<close>

theorem schema_is_settled:
  assumes ok: "faults (node s) = []"
  shows "\<exists>s' s''. ensure_schema ks table a cdc s = (Inr (), s') \<and>
    (\<forall>n. declared (catalog_of s') n = map_option (with_cdc cdc n)
       (case declared (catalog_of s) n of Some d \<Rightarrow> Some d
        | None \<Rightarrow> List.find (\<lambda>d. tname d = n) (tables_of (schema_ddl ks table a cdc)))) \<and>
    cdc_of (catalog_of s') = cdc \<and>
    ensure_schema ks table a cdc s' = (Inr (), s'') \<and> declared (catalog_of s'') = declared (catalog_of s')"
proof -
  let ?find = "\<lambda>n. List.find (\<lambda>d. tname d = n) (tables_of (schema_ddl ks table a cdc))"
  obtain s' where s': "ensure_schema ks table a cdc s = (Inr (), s')" "faults (node s') = []"
    and d': "\<And>n. declared (catalog_of s') n = map_option (with_cdc cdc n)
       (case declared (catalog_of s) n of Some d \<Rightarrow> Some d | None \<Rightarrow> ?find n)"
    using ensure_schema_run [OF ok] by blast
  obtain s'' where s'': "ensure_schema ks table a cdc s' = (Inr (), s'')"
    and d'': "\<And>n. declared (catalog_of s'') n = map_option (with_cdc cdc n)
       (case declared (catalog_of s') n of Some d \<Rightarrow> Some d | None \<Rightarrow> ?find n)"
    using ensure_schema_run [OF s'(2)] by blast
  have "declared (catalog_of s'') n = declared (catalog_of s') n" for n
    unfolding d'' d' by (auto split: option.splits)
  moreover have "cdc_of (catalog_of s') = cdc"
    using drone_latest_declared [of ks table a cdc] unfolding cdc_of_def d' by (auto split: option.splits)
  ultimately show ?thesis using s'(1) d' s'' by blast
qed

definition fresh_session :: session where
  "fresh_session = \<lparr>node = node_world ''demo'' [] empty_db,
     catalog_of = \<lparr>keyspaces = [], declared = [''drone_latest_status'' \<mapsto> drone_latest_status_table False], indexes = []\<rparr>\<rparr>"

theorem schema_is_settled_witness:
  "\<exists>s' s''. ensure_schema ''demo'' ''events'' True True fresh_session = (Inr (), s') \<and>
    cdc_of (catalog_of s') = True \<and>
    ensure_schema ''demo'' ''events'' True True s' = (Inr (), s'') \<and> declared (catalog_of s'') = declared (catalog_of s')"
proof -
  have "faults (node fresh_session) = []" by (simp add: fresh_session_def)
  from schema_is_settled [OF this] show ?thesis by blast
qed

text \<open>
  Property. Restarting the sink hands back no clearance. Whatever calls fail on the way, the clearance
  invariant holds afterwards as before, every row that was there is as it was, zone capacities
  and remaining slots included, and only the two seeded tables can have gained rows.
\<close>

theorem restart_keeps_clearances:
  assumes "clearance_inv (tables (node s))"
  shows "clearance_inv (tables (node (snd (ensure_schema ks table a cdc s)))) \<and>
    (\<forall>t k. has_row (tables (node s)) t k \<longrightarrow>
       map_of (tables (node (snd (ensure_schema ks table a cdc s))) t) k = map_of (tables (node s) t) k) \<and>
    (\<forall>t. t \<notin> {''restricted_zones'', ''zone_occupancy''} \<longrightarrow>
       tables (node (snd (ensure_schema ks table a cdc s))) t = tables (node s) t)"
proof -
  have "on_node ks [] (restart_inv (tables (node s))) (node s)"
    using assms by (simp add: on_node_def accord_runs_def restart_inv_def kept_def)
  from preservesD [OF preserves_ensure_schema this] show ?thesis
    by (auto simp: on_node_def restart_inv_def kept_def)
qed

theorem restart_keeps_clearances_witness:
  "clearance_inv (tables (node (snd (ensure_schema ''demo'' ''events'' True True
      (fresh_session\<lparr>node := node_world ''demo'' [] three_zones_db\<lparr>faults := replicate 17 Reply @ [LostAfter ''timeout'']\<rparr>\<rparr>)))))"
proof -
  have "clearance_inv (tables (node (fresh_session\<lparr>node := node_world ''demo'' [] three_zones_db
      \<lparr>faults := replicate 17 Reply @ [LostAfter ''timeout'']\<rparr>\<rparr>)))"
    using three_zones_inv by simp
  from restart_keeps_clearances [OF this] show ?thesis by blast
qed

text \<open>
  Property. Seeding gives a zone that has no occupancy row its declared limit, all of it free, and leaves
  the count of one that has a row alone.
\<close>

theorem seeding_sets_the_limits:
  assumes "faults w = []" and "(z, name, wkt, sev, c) \<in> set DEMO_ZONES"
  shows "\<exists>w'. seed_zone_occupancy w = (Inr (), w') \<and>
    (if has_row (tables w) ''zone_occupancy'' [CText z]
     then slots (ledger_of (tables w')) z = slots (ledger_of (tables w)) z
     else cap (ledger_of (tables w')) z = Some c \<and> slots (ledger_of (tables w')) z = Some c)"
  using assms(2) unfolding seed_zone_occupancy_ok [OF assms(1)]
  by (auto simp: DEMO_ZONES_def seed_row_def ledger_of_seed seed_rows)

theorem seeding_sets_the_limits_witness:
  "\<exists>w'. seed_zone_occupancy (node_world ''demo'' [] empty_db) = (Inr (), w') \<and>
     cap (ledger_of (tables w')) ''zone-fornebu'' = Some 5"
  using seeding_sets_the_limits [of "node_world ''demo'' [] empty_db" "''zone-fornebu''" "''Fornebu Tech Park''"
      "''POLYGON((10.62 59.88, 10.66 59.88, 10.66 59.90, 10.62 59.90, 10.62 59.88))''" "''warning''" 5]
  by (auto simp: DEMO_ZONES_def empty_db_rows)

end
