(* ===== verification/Sink.thy ===== *)
theory Sink
  imports Seeding Geometry Buckets Json
begin

text \<open>
  The sink (\<open>src/ingress/consumer/consumer.py\<close>): what is derived from an asset's consecutive events
  (\<open>DroneTracker\<close>), the proximity alerts (\<open>AlertGenerator\<close>) and the loop of \<open>main\<close> that takes a
  batch from Kafka, writes three rows per event and commits the offsets.

  Not under \<open>src/\<close>, and so parameters: the Kafka consumer, the driver's \<open>datetime_from_uuid1\<close>, and
  the text Python gives a number with a fraction, a list or an object (\<open>repr_of\<close>).
\<close>

section \<open>Derived fields\<close>

record tracked =
  t_lat :: real
  t_lon :: real
  t_alt :: real
  t_time :: instant
  t_speed :: "real option"
  t_heading :: "real option"

type_synonym tracker = "string \<rightharpoonup> tracked"

definition FLYING_ALTITUDE_THRESHOLD_M :: real where
  "FLYING_ALTITUDE_THRESHOLD_M = 10"

definition MAX_PLAUSIBLE_SPEED_MPS :: real where
  "MAX_PLAUSIBLE_SPEED_MPS = 100"

definition tracker_update ::
  "string \<Rightarrow> real \<Rightarrow> real \<Rightarrow> real \<Rightarrow> instant \<Rightarrow> tracker \<Rightarrow> (real \<times> real \<times> bool) \<times> tracker" where
  "tracker_update entity_id lat lon alt event_time known =
    (case known entity_id of
       None \<Rightarrow>
         ((0, 0, alt > FLYING_ALTITUDE_THRESHOLD_M),
          known(entity_id \<mapsto> \<lparr>t_lat = lat, t_lon = lon, t_alt = alt, t_time = event_time,
                              t_speed = None, t_heading = None\<rparr>))
     | Some prev \<Rightarrow>
         (let elapsed = real_of_int (event_time - t_time prev) / 1000000;
              dt = (if elapsed \<le> 0 then 0.001 else elapsed);
              dist_m = haversine_distance_m (t_lat prev) (t_lon prev) lat lon;
              raw_speed = dist_m / dt;
              speed_mps = (if raw_speed > MAX_PLAUSIBLE_SPEED_MPS
                           then (case t_speed prev of None \<Rightarrow> 0 | Some v \<Rightarrow> v) else raw_speed);
              heading_deg = compute_bearing_deg (t_lat prev) (t_lon prev) lat lon
          in ((speed_mps, heading_deg, alt > FLYING_ALTITUDE_THRESHOLD_M),
              known(entity_id \<mapsto> \<lparr>t_lat = lat, t_lon = lon, t_alt = alt, t_time = event_time,
                                  t_speed = Some speed_mps, t_heading = Some heading_deg\<rparr>))))"

section \<open>The sink's known\<close>

record zone =
  zid :: string
  zname :: string
  zseverity :: string
  zring :: ring

record sink =
  snode :: world
  tracker_state :: tracker
  zones :: "zone list"
  loaded :: bool
  last_alert :: "string \<times> string \<rightharpoonup> real"
  last_zone_reload :: real
  total_inserted :: nat
  window_inserted :: nat
  last_report :: real

definition via :: "(world, 'a) pm \<Rightarrow> (sink, 'a) pm" where
  "via m = (\<lambda>s. case m (snode s) of (r, w) \<Rightarrow> (r, s\<lparr>snode := w\<rparr>))"

text \<open>\<open>time.monotonic()\<close>: a clock in seconds that never goes back.\<close>

definition monotonic :: "(sink, real) pm" where
  "monotonic = via perf_counter"

section \<open>Alerts\<close>

definition WARNING_DISTANCE_M :: real where "WARNING_DISTANCE_M = 500"
definition BREACH_RISK_THRESHOLD :: real where "BREACH_RISK_THRESHOLD = 0.7"
definition ALERT_RISK_THRESHOLD :: real where "ALERT_RISK_THRESHOLD = 0.5"
definition ALERT_COOLDOWN_S :: real where "ALERT_COOLDOWN_S = 60"

text \<open>A column of text, where a null prints as \<open>None\<close>.\<close>

fun text_of :: "cval \<Rightarrow> string" where
  "text_of (CText s) = s"
| "text_of _ = ''None''"

definition zone_of_row :: "row \<Rightarrow> zone" where
  "zone_of_row r = \<lparr>zid = text_of (row_get r ''zone_id''), zname = text_of (row_get r ''zone_name''),
     zseverity = text_of (row_get r ''severity''),
     zring = parse_wkt_polygon (case row_get r ''polygon_wkt'' of CText s \<Rightarrow> Some s | _ \<Rightarrow> None)\<rparr>"

definition load_zones :: "(sink, unit) pm" where
  "load_zones =
    bind (modify (\<lambda>s. s\<lparr>loaded := True\<rparr>)) (\<lambda>_.
    try_except
      (bind (via (execute_query (select_all ''restricted_zones''))) (\<lambda>rows.
        modify (\<lambda>s. s\<lparr>zones := filter (\<lambda>z. 3 \<le> length (zring z))
          (map zone_of_row (filter (\<lambda>r. row_get r ''enabled'' = CBool True) rows))\<rparr>)))
      (\<lambda>_. ret ()))"

definition cooldown_elapsed :: "string \<Rightarrow> string \<Rightarrow> (sink, bool) pm" where
  "cooldown_elapsed entity_id zone_ref =
    bind monotonic (\<lambda>now_s.
    bind (gets last_alert) (\<lambda>last.
      if (case last (entity_id, zone_ref) of None \<Rightarrow> False | Some t \<Rightarrow> now_s - t < ALERT_COOLDOWN_S)
      then ret False
      else bind (modify (\<lambda>s. s\<lparr>last_alert := (last_alert s)((entity_id, zone_ref) \<mapsto> now_s)\<rparr>)) (\<lambda>_. ret True)))"

text \<open>The write is issued and its outcome is never looked at.\<close>

definition write_alert ::
  "string \<Rightarrow> instant \<Rightarrow> string \<Rightarrow> string \<Rightarrow> string \<Rightarrow> real \<Rightarrow> real \<Rightarrow> real \<Rightarrow> string \<Rightarrow> real \<Rightarrow> (sink, unit) pm" where
  "write_alert entity_id alert_time alert_type sev zone_ref lat lon alt message risk_score =
    try_except
      (bind (via new_uuid) (\<lambda>alert_id.
        via (execute_write (put_row ''alerts_by_bucket''
          [(''bucket'', CText (alert_bucket alert_time)), (''alert_time'', CTime alert_time),
           (''entity_id'', CText entity_id), (''alert_id'', CUuid alert_id),
           (''alert_type'', CText alert_type), (''severity'', CText sev), (''zone_id'', CText zone_ref),
           (''latitude'', CDouble lat), (''longitude'', CDouble lon), (''altitude_m'', CDouble alt),
           (''message'', CText message), (''risk_score'', CDouble risk_score)]))))
      (\<lambda>_. ret ())"

type_synonym score = "bool \<times> bool \<times> real \<times> string option"

definition zone_risk_at :: "real \<Rightarrow> real" where
  "zone_risk_at distance = (if distance = 0 then 0.95 else 1 - distance / WARNING_DISTANCE_M)"

text \<open>What one zone within the warning distance adds to the score.\<close>

definition score_zone :: "string \<Rightarrow> real \<Rightarrow> score \<Rightarrow> score" where
  "score_zone zone_ref distance = (\<lambda>(near, breach, risk, nearest).
    let inside = (distance = 0); zone_risk = zone_risk_at distance
    in (True, breach \<or> inside \<or> zone_risk > BREACH_RISK_THRESHOLD,
        if zone_risk > risk then zone_risk else risk,
        if zone_risk > risk then Some zone_ref else nearest))"

definition alert_for_zone ::
  "string \<Rightarrow> real \<Rightarrow> real \<Rightarrow> real \<Rightarrow> instant \<Rightarrow> zone \<Rightarrow> real \<Rightarrow> (sink, unit) pm" where
  "alert_for_zone entity_id lat lon alt alert_time zone distance =
    (let inside = (distance = 0); zone_risk = zone_risk_at distance in
     if zone_risk \<ge> ALERT_RISK_THRESHOLD
     then bind (cooldown_elapsed entity_id (zid zone)) (\<lambda>elapsed.
       if elapsed
       then write_alert entity_id alert_time
              (if inside then ''zone_breach'' else ''zone_proximity'')
              (if inside then ''critical'' else if zone_risk > 0.8 then ''high'' else ''warning'')
              (zid zone) lat lon alt
              (if inside then entity_id @ '' is inside restricted zone '' @ zname zone
               else entity_id @ '' is '' @ int_str (round_half_even distance) @
                    ''m from restricted zone '' @ zname zone)
              zone_risk
       else ret ())
     else ret ())"

fun check_zones ::
  "string \<Rightarrow> real \<Rightarrow> real \<Rightarrow> real \<Rightarrow> instant \<Rightarrow> zone list \<Rightarrow> score \<Rightarrow> (sink, score) pm" where
  "check_zones entity_id lat lon alt alert_time [] acc = ret acc"
| "check_zones entity_id lat lon alt alert_time (z # zs) acc =
    (case distance_to_polygon_m lat lon (zring z) of
       None \<Rightarrow> check_zones entity_id lat lon alt alert_time zs acc
     | Some distance \<Rightarrow>
         if distance \<ge> WARNING_DISTANCE_M then check_zones entity_id lat lon alt alert_time zs acc
         else bind (alert_for_zone entity_id lat lon alt alert_time z distance) (\<lambda>_.
           check_zones entity_id lat lon alt alert_time zs (score_zone (zid z) distance acc)))"

definition check_proximity :: "string \<Rightarrow> real \<Rightarrow> real \<Rightarrow> real \<Rightarrow> instant \<Rightarrow> (sink, score) pm" where
  "check_proximity entity_id lat lon alt alert_time =
    bind (gets loaded) (\<lambda>is_loaded.
    bind (if is_loaded then ret () else load_zones) (\<lambda>_.
    bind (gets zones) (\<lambda>zs.
      check_zones entity_id lat lon alt alert_time zs (False, False, 0, None))))"

section \<open>One event\<close>

text \<open>The configuration the loop reads, and what it calls outside the repository.\<close>

record config =
  EVENT_BUCKET_MINUTES :: int
  EVENT_SHARDS :: int
  batch_size :: nat
  report_every_s :: real
  zone_reload_s :: real
  repr_of :: "json \<Rightarrow> string"
  datetime_from_uuid1 :: "nat \<Rightarrow> exn + instant"

record telemetry =
  event_id :: nat
  event_time :: instant
  entity_id :: string
  latitude :: real
  longitude :: real
  altitude_m :: real
  event_type :: string
  observer_id :: string
  temp_external_c :: real
  temp_internal_c :: real
  text_payload :: string

text \<open>The identifier and the time it carries, when the event has a usable one.\<close>

definition event_identity :: "config \<Rightarrow> json \<Rightarrow> (nat \<times> instant) option" where
  "event_identity cfg event =
    (case event of
       JObj m \<Rightarrow> (case map_of m ''event_id'' of
         Some (JStr s) \<Rightarrow> (case parse_uuid s of
           Some u \<Rightarrow> (case datetime_from_uuid1 cfg u of Inr t \<Rightarrow> Some (u, t) | Inl _ \<Rightarrow> None)
         | None \<Rightarrow> None)
       | _ \<Rightarrow> None)
     | _ \<Rightarrow> None)"

definition text_field :: "config \<Rightarrow> json \<Rightarrow> string \<Rightarrow> (sink, string) pm" where
  "text_field cfg event k = bind (lift_exn (get_or event k (JStr []))) (\<lambda>v. ret (py_str (repr_of cfg) v))"

definition float_field :: "json \<Rightarrow> string \<Rightarrow> (sink, real) pm" where
  "float_field event k = bind (lift_exn (get_or event k (JFloat 0))) (\<lambda>v. lift_exn (float_of v))"

definition decode_event :: "config \<Rightarrow> json \<Rightarrow> (sink, telemetry) pm" where
  "decode_event cfg event =
    bind (case event_identity cfg event of
            Some (u, t) \<Rightarrow> ret (u, t)
          | None \<Rightarrow> bind (via new_uuid) (\<lambda>u. bind (via now) (\<lambda>t. ret (u, t)))) (\<lambda>(u, t).
    bind (text_field cfg event ''entity_id'') (\<lambda>entity.
    bind (lift_exn (get_or event ''position'' JNull)) (\<lambda>pos.
    let position = (if truthy pos then pos else JObj []) in
    bind (float_field position ''lat'') (\<lambda>lat.
    bind (float_field position ''lon'') (\<lambda>lon.
    bind (float_field event ''z_m'') (\<lambda>alt.
    bind (text_field cfg event ''event_type'') (\<lambda>ty.
    bind (text_field cfg event ''observer_id'') (\<lambda>obs.
    bind (float_field event ''temp_external_c'') (\<lambda>te.
    bind (float_field event ''temp_internal_c'') (\<lambda>ti.
    bind (text_field cfg event ''text'') (\<lambda>payload.
      ret \<lparr>event_id = u, event_time = t, entity_id = entity, latitude = lat, longitude = lon,
           altitude_m = alt, event_type = ty, observer_id = obs, temp_external_c = te,
           temp_internal_c = ti, text_payload = payload\<rparr>)))))))))))"

text \<open>The three rows of an event.\<close>

definition raw_cells :: "telemetry \<Rightarrow> string \<Rightarrow> int \<Rightarrow> row" where
  "raw_cells e bucket shard =
    [(''event_bucket'', CText bucket), (''shard'', CInt shard), (''event_id'', CUuid (event_id e)),
     (''entity_id'', CText (entity_id e)), (''event_day'', CDate (event_time e div 86400000000)),
     (''event_time'', CTime (event_time e)), (''event_type'', CText (event_type e)),
     (''observer_id'', CText (observer_id e)), (''latitude'', CDouble (latitude e)),
     (''longitude'', CDouble (longitude e)), (''altitude_m'', CDouble (altitude_m e)),
     (''temp_external_c'', CDouble (temp_external_c e)), (''temp_internal_c'', CDouble (temp_internal_c e)),
     (''text_payload'', CText (text_payload e))]"

definition history_cells :: "telemetry \<Rightarrow> real \<Rightarrow> real \<Rightarrow> string option \<Rightarrow> row" where
  "history_cells e speed_mps heading_deg zone_ref =
    [(''entity_id'', CText (entity_id e)), (''event_time'', CTime (event_time e)),
     (''event_id'', CUuid (event_id e)), (''event_type'', CText (event_type e)),
     (''observer_id'', CText (observer_id e)), (''latitude'', CDouble (latitude e)),
     (''longitude'', CDouble (longitude e)), (''altitude_m'', CDouble (altitude_m e)),
     (''temp_external_c'', CDouble (temp_external_c e)), (''temp_internal_c'', CDouble (temp_internal_c e)),
     (''speed_mps'', CDouble speed_mps), (''heading_deg'', CDouble heading_deg),
     (''zone_id'', case zone_ref of None \<Rightarrow> CNull | Some z \<Rightarrow> CText z), (''text_payload'', CText (text_payload e))]"

definition latest_cells ::
  "telemetry \<Rightarrow> real \<Rightarrow> real \<Rightarrow> bool \<Rightarrow> int \<Rightarrow> bool \<Rightarrow> bool \<Rightarrow> real \<Rightarrow> instant \<Rightarrow> row" where
  "latest_cells e speed_mps heading_deg is_flying telemetry_age_s near_zone predicted_breach risk_score now_utc =
    [(''event_id'', CUuid (event_id e)), (''event_time'', CTime (event_time e)),
     (''event_type'', CText (event_type e)), (''observer_id'', CText (observer_id e)),
     (''latitude'', CDouble (latitude e)), (''longitude'', CDouble (longitude e)),
     (''altitude_m'', CDouble (altitude_m e)), (''temp_external_c'', CDouble (temp_external_c e)),
     (''temp_internal_c'', CDouble (temp_internal_c e)), (''speed_mps'', CDouble speed_mps),
     (''heading_deg'', CDouble heading_deg), (''is_flying'', CBool is_flying),
     (''telemetry_age_s'', CInt telemetry_age_s), (''near_restricted_zone'', CBool near_zone),
     (''predicted_zone_breach'', CBool predicted_breach), (''risk_score'', CDouble risk_score),
     (''text_payload'', CText (text_payload e)), (''updated_at'', CTime now_utc),
     (''entity_id'', CText (entity_id e))]"

definition telemetry_age :: "instant \<Rightarrow> instant \<Rightarrow> int" where
  "telemetry_age now_utc t = max 0 ((now_utc - t) div 1000000)"

text \<open>\<open>session.execute_async\<close>: the write is issued, and the future holds how it ended.\<close>

definition execute_async :: "(db \<Rightarrow> db) \<Rightarrow> (sink, exn + unit) pm" where
  "execute_async f = attempt (via (execute_write f))"

definition process_message :: "config \<Rightarrow> json \<Rightarrow> (sink, (exn + unit) list) pm" where
  "process_message cfg event =
    bind (decode_event cfg event) (\<lambda>e.
    bind (\<lambda>s. case tracker_update (entity_id e) (latitude e) (longitude e) (altitude_m e) (event_time e) (tracker_state s)
           of (r, t) \<Rightarrow> (Inr r, s\<lparr>tracker_state := t\<rparr>)) (\<lambda>(speed_mps, heading_deg, is_flying).
    bind (check_proximity (entity_id e) (latitude e) (longitude e) (altitude_m e) (event_time e))
      (\<lambda>(near_zone, predicted_breach, risk_score, zone_ref).
    bind (via now) (\<lambda>now_utc.
    bind (lift_exn (event_bucket (EVENT_BUCKET_MINUTES cfg) (event_time e))) (\<lambda>bucket.
    bind (lift_exn (event_shard (EVENT_SHARDS cfg) (event_id e))) (\<lambda>shard.
    bind (execute_async (put_row ''events'' (raw_cells e bucket shard))) (\<lambda>f1.
    bind (execute_async (put_row ''drone_events_by_entity'' (history_cells e speed_mps heading_deg zone_ref))) (\<lambda>f2.
    bind (execute_async (put_row ''drone_latest_status''
            (latest_cells e speed_mps heading_deg is_flying (telemetry_age now_utc (event_time e))
               near_zone predicted_breach risk_score now_utc))) (\<lambda>f3.
      ret [f1, f2, f3])))))))))"

section \<open>The loop\<close>

text \<open>
  The Kafka consumer: \<open>poll\<close> takes up to \<open>batch_size\<close> records, grouped by partition, or raises, and
  \<open>commit_offsets\<close> commits, or raises. Its own state is of any type.
\<close>

record 'c consumer =
  poll :: "nat \<Rightarrow> 'c \<Rightarrow> (exn + json list list) \<times> 'c"
  commit_offsets :: "'c \<Rightarrow> (exn + unit) \<times> 'c"

definition reload_zones_if_due :: "config \<Rightarrow> (sink, unit) pm" where
  "reload_zones_if_due cfg =
    bind monotonic (\<lambda>now_monotonic.
    bind (gets last_zone_reload) (\<lambda>last.
      if now_monotonic - last > zone_reload_s cfg
      then bind load_zones (\<lambda>_. modify (\<lambda>s. s\<lparr>last_zone_reload := now_monotonic\<rparr>))
      else ret ()))"

definition count_ingested :: "nat \<Rightarrow> string \<Rightarrow> db \<Rightarrow> db" where
  "count_ingested n bucket d =
    (let k = [(''bucket'', CText bucket)] in
     case map_of (d ''ingestion_counts'') (key_of ''ingestion_counts'' k) of
       None \<Rightarrow> put_row ''ingestion_counts'' (k @ [(''record_count'', CInt (int n))]) d
     | Some _ \<Rightarrow> increment_row ''ingestion_counts'' ''record_count'' (int n) k d)"

definition write_batch :: "config \<Rightarrow> json list list \<Rightarrow> (sink, (exn + unit) list \<times> nat) pm" where
  "write_batch cfg records =
    bind (reload_zones_if_due cfg) (\<lambda>_.
    bind (map_pm (process_message cfg) (concat records)) (\<lambda>futures.
      ret (concat futures, length (concat records))))"

definition after_commit :: "config \<Rightarrow> nat \<Rightarrow> (sink, unit) pm" where
  "after_commit cfg buffered =
    bind (if 0 < buffered
          then bind (via now) (\<lambda>t. bind (execute_async (count_ingested buffered (thirty_min_bucket t))) (\<lambda>_. ret ()))
          else ret ()) (\<lambda>_.
    bind (modify (\<lambda>s. s\<lparr>total_inserted := total_inserted s + buffered,
                        window_inserted := window_inserted s + buffered\<rparr>)) (\<lambda>_.
    bind monotonic (\<lambda>t.
    bind (gets last_report) (\<lambda>last.
      if t - last \<ge> report_every_s cfg
      then bind monotonic (\<lambda>t'. modify (\<lambda>s. s\<lparr>window_inserted := 0, last_report := t'\<rparr>))
      else ret ()))))"

text \<open>One turn of \<open>while True\<close>: \<open>Inl\<close> where an exception leaves \<open>main\<close>.\<close>

definition sink_iteration :: "config \<Rightarrow> 'c consumer \<Rightarrow> ('c \<times> sink, unit) pm" where
  "sink_iteration cfg K = (\<lambda>(c, s).
    case poll K (batch_size cfg) c of
      (Inl e, c1) \<Rightarrow> (Inl e, (c1, s))
    | (Inr records, c1) \<Rightarrow>
        if records = [] then (Inr (), (c1, s))
        else case write_batch cfg records s of
          (Inl e, s1) \<Rightarrow> (Inl e, (c1, s1))
        | (Inr (pending, buffered), s1) \<Rightarrow>
            if list_ex isl pending then (Inr (), (c1, s1))
            else case commit_offsets K c1 of
              (Inl e, c2) \<Rightarrow> (Inl e, (c2, s1))
            | (Inr _, c2) \<Rightarrow> (case after_commit cfg buffered s1 of (r, s2) \<Rightarrow> (r, (c2, s2))))"

fun sink_run :: "config \<Rightarrow> 'c consumer \<Rightarrow> nat \<Rightarrow> ('c \<times> sink, unit) pm" where
  "sink_run cfg K 0 = ret ()"
| "sink_run cfg K (Suc n) = bind (sink_iteration cfg K) (\<lambda>_. sink_run cfg K n)"

section \<open>Lemmas\<close>

subsection \<open>The tracker\<close>

definition tracked_ok :: "tracked \<Rightarrow> bool" where
  "tracked_ok p \<longleftrightarrow>
    (case t_speed p of None \<Rightarrow> True | Some v \<Rightarrow> 0 \<le> v \<and> v \<le> MAX_PLAUSIBLE_SPEED_MPS) \<and>
    (case t_heading p of None \<Rightarrow> True | Some h \<Rightarrow> 0 \<le> h \<and> h < 360)"

definition tracker_ok :: "tracker \<Rightarrow> bool" where
  "tracker_ok st \<longleftrightarrow> (\<forall>e p. st e = Some p \<longrightarrow> tracked_ok p)"

lemma tracker_ok_upd: "tracker_ok st \<Longrightarrow> tracked_ok p \<Longrightarrow> tracker_ok (st(e \<mapsto> p))"
  by (simp add: tracker_ok_def)

type_synonym sighting = "string \<times> real \<times> real \<times> real \<times> instant"

definition observe :: "sighting \<Rightarrow> tracker \<Rightarrow> tracker" where
  "observe = (\<lambda>(e, lat, lon, alt, t) st. snd (tracker_update e lat lon alt t st))"

lemma derived_speed_bounds:
  assumes "case v of None \<Rightarrow> True | Some x \<Rightarrow> 0 \<le> x \<and> x \<le> MAX_PLAUSIBLE_SPEED_MPS" and "0 < dt" and "0 \<le> d"
  shows "0 \<le> (if d / dt > MAX_PLAUSIBLE_SPEED_MPS then case v of None \<Rightarrow> 0 | Some x \<Rightarrow> x else d / dt)"
    and "(if d / dt > MAX_PLAUSIBLE_SPEED_MPS then case v of None \<Rightarrow> 0 | Some x \<Rightarrow> x else d / dt) \<le> MAX_PLAUSIBLE_SPEED_MPS"
  using assms by (auto simp: MAX_PLAUSIBLE_SPEED_MPS_def split: option.splits)

lemma tracker_update_bounds:
  assumes ok: "tracker_ok st" and up: "tracker_update e lat lon alt t st = ((v, h, flying), st')"
  shows "0 \<le> v \<and> v \<le> MAX_PLAUSIBLE_SPEED_MPS \<and> 0 \<le> h \<and> h < 360 \<and>
    flying = (alt > FLYING_ALTITUDE_THRESHOLD_M) \<and> tracker_ok st'"
proof (cases "st e")
  case None
  then show ?thesis using up
    by (auto simp: tracker_update_def tracked_ok_def MAX_PLAUSIBLE_SPEED_MPS_def intro!: tracker_ok_upd [OF ok])
next
  case (Some p)
  define dt where "dt = (let x = real_of_int (t - t_time p) / 1000000 in if x \<le> 0 then 0.001 else x)"
  have dt: "0 < dt" unfolding dt_def Let_def by simp
  have prev: "case t_speed p of None \<Rightarrow> True | Some x \<Rightarrow> 0 \<le> x \<and> x \<le> MAX_PLAUSIBLE_SPEED_MPS"
    using ok Some by (simp add: tracker_ok_def tracked_ok_def)
  note v = derived_speed_bounds [OF prev dt haversine_bounds(1), of "t_lat p" "t_lon p" lat lon]
  have "v = (if haversine_distance_m (t_lat p) (t_lon p) lat lon / dt > MAX_PLAUSIBLE_SPEED_MPS
        then case t_speed p of None \<Rightarrow> 0 | Some x \<Rightarrow> x else haversine_distance_m (t_lat p) (t_lon p) lat lon / dt)"
    "h = compute_bearing_deg (t_lat p) (t_lon p) lat lon" "flying = (alt > FLYING_ALTITUDE_THRESHOLD_M)"
    "st' = st(e \<mapsto> \<lparr>t_lat = lat, t_lon = lon, t_alt = alt, t_time = t, t_speed = Some v, t_heading = Some h\<rparr>)"
    using up unfolding tracker_update_def Some option.case Let_def dt_def by (simp_all only: prod.inject) auto
  then show ?thesis using v bearing_bounds [of "t_lat p" "t_lon p" lat lon]
    by (auto simp: tracked_ok_def simp del: fun_upd_apply intro!: tracker_ok_upd [OF ok])
qed

interpretation tracker: step_system observe tracker_ok
proof
  fix st and l :: sighting assume "tracker_ok st"
  then show "tracker_ok (observe l st)"
    using tracker_update_bounds by (cases l) (simp add: observe_def, metis prod.collapse)
qed

lemma tracker_ok_empty: "tracker_ok Map.empty"
  by (simp add: tracker_ok_def)

subsection \<open>Alerts\<close>

lemma total_via [total_intros]: "total m \<Longrightarrow> total (via m)"
  unfolding total_def via_def by (auto split: prod.splits) (metis prod.inject)

lemma total_alerting: "total monotonic" "total (cooldown_elapsed e z)"
  "total (write_alert e t ty sev z lat lon alt msg r)" "total (alert_for_zone e lat lon alt t zn d)" "total load_zones"
  unfolding monotonic_def cooldown_elapsed_def write_alert_def alert_for_zone_def load_zones_def Let_def
  by (intro total_intros)+

text \<open>The score is a fold over the zones within reach, whatever happens to the alert writes.\<close>

definition score_of :: "real \<Rightarrow> real \<Rightarrow> zone list \<Rightarrow> score \<Rightarrow> score" where
  "score_of lat lon zs = fold (\<lambda>z acc.
     case distance_to_polygon_m lat lon (zring z) of None \<Rightarrow> acc
     | Some d \<Rightarrow> if d \<ge> WARNING_DISTANCE_M then acc else score_zone (zid z) d acc) zs"

lemma check_zones_score: "\<exists>s'. check_zones e lat lon alt t zs acc s = (Inr (score_of lat lon zs acc), s')"
proof (induction zs arbitrary: acc s)
  case (Cons z zs)
  have next_zone: "\<exists>s'. bind (alert_for_zone e lat lon alt t z d) (\<lambda>_. check_zones e lat lon alt t zs acc') s =
      (Inr (score_of lat lon zs acc'), s')" for d acc'
    using totalD [OF total_alerting(4), of e lat lon alt t z d s] Cons.IH [of acc'] by (metis bind_Inr)
  show ?case using Cons.IH next_zone by (auto simp: score_of_def split: option.splits)
qed (simp add: score_of_def ret_run)

definition reached :: "real \<Rightarrow> real \<Rightarrow> zone list \<Rightarrow> (zone \<times> real) set" where
  "reached lat lon zs = {(z, d). z \<in> set zs \<and> distance_to_polygon_m lat lon (zring z) = Some d \<and> d < WARNING_DISTANCE_M}"

lemma reached_Cons:
  "reached lat lon (z # zs) = (case distance_to_polygon_m lat lon (zring z) of
     None \<Rightarrow> reached lat lon zs
   | Some d \<Rightarrow> if d < WARNING_DISTANCE_M then insert (z, d) (reached lat lon zs) else reached lat lon zs)"
  by (auto simp: reached_def split: option.splits)

lemma zone_risk_range: "0 \<le> d \<Longrightarrow> d < WARNING_DISTANCE_M \<Longrightarrow> 0 < zone_risk_at d \<and> zone_risk_at d < 1"
  by (auto simp: zone_risk_at_def WARNING_DISTANCE_M_def)

lemma breach_distance:
  "0 \<le> d \<Longrightarrow> d < WARNING_DISTANCE_M \<Longrightarrow> d = 0 \<or> zone_risk_at d > BREACH_RISK_THRESHOLD \<longleftrightarrow> d < 150"
  by (auto simp: zone_risk_at_def WARNING_DISTANCE_M_def BREACH_RISK_THRESHOLD_def)

definition best_of :: "(zone \<times> real) set \<Rightarrow> real \<Rightarrow> string option \<Rightarrow> real \<Rightarrow> string option \<Rightarrow> bool" where
  "best_of R r0 n0 r n \<longleftrightarrow> (\<forall>(z, d) \<in> R. zone_risk_at d \<le> r) \<and> r0 \<le> r \<and>
    (r = r0 \<and> n = n0 \<or> (\<exists>(z, d) \<in> R. r = zone_risk_at d \<and> r0 < r \<and> n = Some (zid z)))"

lemma score_of_reached:
  assumes "score_of lat lon zs (near0, breach0, r0, n0) = (near, breach, r, n)"
  shows "near \<longleftrightarrow> near0 \<or> reached lat lon zs \<noteq> {}"
    and "breach \<longleftrightarrow> breach0 \<or> (\<exists>(z, d) \<in> reached lat lon zs. d < 150)"
    and "best_of (reached lat lon zs) r0 n0 r n"
proof -
  have "(near \<longleftrightarrow> near0 \<or> reached lat lon zs \<noteq> {}) \<and>
      (breach \<longleftrightarrow> breach0 \<or> (\<exists>(z, d) \<in> reached lat lon zs. d < 150)) \<and> best_of (reached lat lon zs) r0 n0 r n"
    using assms
  proof (induction zs arbitrary: near0 breach0 r0 n0)
    case Nil
    then show ?case by (simp add: score_of_def best_of_def reached_def)
  next
    case (Cons z zs)
    show ?case
    proof (cases "\<exists>d. distance_to_polygon_m lat lon (zring z) = Some d \<and> d < WARNING_DISTANCE_M")
      case False
      then have "score_of lat lon (z # zs) = score_of lat lon zs" "reached lat lon (z # zs) = reached lat lon zs"
        by (auto simp: score_of_def reached_def fun_eq_iff split: option.splits)
      then show ?thesis using Cons by simp
    next
      case True
      then obtain d where d: "distance_to_polygon_m lat lon (zring z) = Some d" "d < WARNING_DISTANCE_M" by blast
      let ?r1 = "max r0 (zone_risk_at d)" and ?n1 = "if zone_risk_at d > r0 then Some (zid z) else n0"
      have R: "reached lat lon (z # zs) = insert (z, d) (reached lat lon zs)" using d by (simp only: reached_Cons) simp
      have b: "d = 0 \<or> zone_risk_at d > BREACH_RISK_THRESHOLD \<longleftrightarrow> d < 150"
        by (rule breach_distance [OF distance_nonneg [OF d(1)] d(2)])
      have "score_of lat lon (z # zs) (near0, breach0, r0, n0) =
          score_of lat lon zs (True, breach0 \<or> d < 150, ?r1, ?n1)"
        using d b by (auto simp: score_of_def score_zone_def Let_def max_def)
      then have ih: "near" "breach \<longleftrightarrow> (breach0 \<or> d < 150) \<or> (\<exists>(z, d) \<in> reached lat lon zs. d < 150)"
        "best_of (reached lat lon zs) ?r1 ?n1 r n"
        using Cons by auto
      have "best_of (insert (z, d) (reached lat lon zs)) r0 n0 r n"
        using ih(3) unfolding best_of_def by (auto simp: max_def split: if_splits)
      then show ?thesis using ih(1,2) unfolding R by auto
    qed
  qed
  then show "near \<longleftrightarrow> near0 \<or> reached lat lon zs \<noteq> {}"
    "breach \<longleftrightarrow> breach0 \<or> (\<exists>(z, d) \<in> reached lat lon zs. d < 150)" "best_of (reached lat lon zs) r0 n0 r n"
    by blast+
qed

subsection \<open>The cooldown\<close>

text \<open>The answers to a sequence of questions, the \<open>n\<close>-th reading of the clock on.\<close>

fun cooldowns :: "(nat \<Rightarrow> real) \<Rightarrow> nat \<Rightarrow> ('k \<rightharpoonup> real) \<Rightarrow> 'k list \<Rightarrow> bool list" where
  "cooldowns clock n la [] = []"
| "cooldowns clock n la (k # ks) =
    (let wait = (case la k of None \<Rightarrow> False | Some t \<Rightarrow> clock n - t < ALERT_COOLDOWN_S)
     in (\<not> wait) # cooldowns clock (Suc n) (if wait then la else la(k \<mapsto> clock n)) ks)"

lemma length_cooldowns [simp]: "length (cooldowns clock n la ks) = length ks"
  by (induction ks arbitrary: n la) (simp_all add: Let_def)

lemma cooldown_elapsed_run:
  "cooldown_elapsed e z s =
    (let now_s = perf_clock (snode s) (ticks (snode s));
         wait = (case last_alert s (e, z) of None \<Rightarrow> False | Some t \<Rightarrow> now_s - t < ALERT_COOLDOWN_S);
         s1 = s\<lparr>snode := (snode s)\<lparr>ticks := Suc (ticks (snode s))\<rparr>\<rparr>
     in (Inr (\<not> wait), if wait then s1 else s1\<lparr>last_alert := (last_alert s)((e, z) \<mapsto> now_s)\<rparr>))"
  by (simp add: cooldown_elapsed_def monotonic_def via_def perf_counter_def bind_def gets_def modify_def ret_def Let_def
      split: option.splits)

lemma cooldowns_run:
  "\<exists>s'. map_pm (\<lambda>(e, z). cooldown_elapsed e z) ks s =
    (Inr (cooldowns (perf_clock (snode s)) (ticks (snode s)) (last_alert s) ks), s')"
proof (induction ks arbitrary: s)
  case (Cons k ks)
  obtain e z where k: "k = (e, z)" by (cases k)
  define s1 where "s1 = snd (cooldown_elapsed e z s)"
  have s1: "perf_clock (snode s1) = perf_clock (snode s)" "ticks (snode s1) = Suc (ticks (snode s))"
    by (simp_all add: s1_def cooldown_elapsed_run Let_def)
  obtain b where b: "cooldown_elapsed e z s = (Inr b, s1)"
    "cooldowns (perf_clock (snode s)) (ticks (snode s)) (last_alert s) (k # ks) =
      b # cooldowns (perf_clock (snode s1)) (ticks (snode s1)) (last_alert s1) ks"
    unfolding s1 unfolding s1_def by (auto simp: cooldown_elapsed_run k Let_def)
  then show ?case using Cons.IH [of s1] by (auto simp: k bind_def ret_def)
qed (simp add: ret_def)

lemma cooldowns_spaced:
  assumes "mono clock" and "\<And>k t. la k = Some t \<Longrightarrow> t \<le> clock n" and "j < length ks" and "cooldowns clock n la ks ! j"
  shows "(\<forall>t. la (ks ! j) = Some t \<longrightarrow> ALERT_COOLDOWN_S \<le> clock (n + j) - t) \<and>
    (\<forall>i < j. ks ! i = ks ! j \<longrightarrow> cooldowns clock n la ks ! i \<longrightarrow> ALERT_COOLDOWN_S \<le> clock (n + j) - clock (n + i))"
  using assms(2-)
proof (induction ks arbitrary: n la j)
  case (Cons k ks)
  define wait where "wait = (case la k of None \<Rightarrow> False | Some t \<Rightarrow> clock n - t < ALERT_COOLDOWN_S)"
  define la' where "la' = (if wait then la else la(k \<mapsto> clock n))"
  have cs: "cooldowns clock n la (k # ks) = (\<not> wait) # cooldowns clock (Suc n) la' ks"
    by (simp add: wait_def la'_def Let_def)
  have up: "clock n \<le> clock (Suc n)" using assms(1) by (simp add: monoD)
  have la': "t \<le> clock (Suc n)" if "la' k' = Some t" for k' t
    using that Cons.prems(1) [of k' t] up by (auto simp: la'_def split: if_splits)
  show ?case
  proof (cases j)
    case 0
    then show ?thesis using Cons.prems(3) unfolding cs by (auto simp: wait_def split: option.splits)
  next
    case (Suc j')
    then have j': "j' < length ks" "cooldowns clock (Suc n) la' ks ! j'" using Cons.prems unfolding cs by simp_all
    note ih = Cons.IH [OF la' j']
    have "ALERT_COOLDOWN_S \<le> clock (n + j) - t" if found: "la (ks ! j') = Some t" for t
    proof -
      obtain t' where "la' (ks ! j') = Some t'" "t \<le> t'"
        using found Cons.prems(1) [OF found] by (cases "wait \<or> ks ! j' \<noteq> k") (auto simp: la'_def)
      then show ?thesis using ih Suc by fastforce
    qed
    moreover have "ALERT_COOLDOWN_S \<le> clock (n + j) - clock (n + i)"
      if i: "i < j" "(k # ks) ! i = ks ! j'" "cooldowns clock n la (k # ks) ! i" for i
    proof (cases i)
      case 0
      then have "la' (ks ! j') = Some (clock n)" using i unfolding cs by (simp add: la'_def)
      then show ?thesis using ih 0 Suc by simp
    next
      case (Suc i')
      then show ?thesis using i ih \<open>j = Suc j'\<close> unfolding cs by simp
    qed
    ultimately show ?thesis using Suc by simp
  qed
qed simp

lemma cooldowns_refused:
  assumes "j < length ks" and "\<not> cooldowns clock n la ks ! j"
  shows "(\<exists>i < j. ks ! i = ks ! j \<and> cooldowns clock n la ks ! i \<and> clock (n + j) - clock (n + i) < ALERT_COOLDOWN_S) \<or>
    (\<exists>t. la (ks ! j) = Some t \<and> clock (n + j) - t < ALERT_COOLDOWN_S)"
  using assms
proof (induction ks arbitrary: n la j)
  case (Cons k ks)
  define wait where "wait = (case la k of None \<Rightarrow> False | Some t \<Rightarrow> clock n - t < ALERT_COOLDOWN_S)"
  define la' where "la' = (if wait then la else la(k \<mapsto> clock n))"
  have cs: "cooldowns clock n la (k # ks) = (\<not> wait) # cooldowns clock (Suc n) la' ks"
    by (simp add: wait_def la'_def Let_def)
  show ?case
  proof (cases j)
    case 0
    then show ?thesis using Cons.prems unfolding cs by (auto simp: wait_def split: option.splits)
  next
    case (Suc j')
    then have "j' < length ks" "\<not> cooldowns clock (Suc n) la' ks ! j'" using Cons.prems unfolding cs by simp_all
    from Cons.IH [OF this] show ?thesis
    proof
      assume "\<exists>i < j'. ks ! i = ks ! j' \<and> cooldowns clock (Suc n) la' ks ! i \<and>
        clock (Suc n + j') - clock (Suc n + i) < ALERT_COOLDOWN_S"
      then obtain i where "i < j'" "ks ! i = ks ! j'" "cooldowns clock (Suc n) la' ks ! i"
        "clock (Suc n + j') - clock (Suc n + i) < ALERT_COOLDOWN_S" by blast
      then show ?thesis unfolding cs Suc by (intro disjI1 exI [of _ "Suc i"]) simp
    next
      assume "\<exists>t. la' (ks ! j') = Some t \<and> clock (Suc n + j') - t < ALERT_COOLDOWN_S"
      then obtain t where t: "la' (ks ! j') = Some t" "clock (Suc n + j') - t < ALERT_COOLDOWN_S" by blast
      show ?thesis
      proof (cases "\<not> wait \<and> ks ! j' = k")
        case True
        then show ?thesis using t unfolding cs Suc by (intro disjI1 exI [of _ 0]) (simp add: la'_def)
      next
        case False
        then show ?thesis using t Suc by (auto simp: la'_def split: if_splits)
      qed
    qed
  qed
qed simp

subsection \<open>Rows are never lost\<close>

lemma bind_Inr_iff: "bind m f s = (Inr b, s') \<longleftrightarrow> (\<exists>a s1. m s = (Inr a, s1) \<and> f a s1 = (Inr b, s'))"
  by (auto simp: bind_def split: prod.splits sum.splits)

abbreviation rows :: "sink \<Rightarrow> db" where
  "rows s \<equiv> tables (snode s)"

lemma preserves_via: "preserves J m \<Longrightarrow> preserves (\<lambda>s. J (snode s)) (via m)"
  unfolding preserves_def via_def by (auto split: prod.splits)

definition sink_tables :: "string list" where
  "sink_tables = [''events'', ''drone_events_by_entity'', ''drone_latest_status'', ''alerts_by_bucket'']"

text \<open>
  What the sink's steps need of the node to keep a property of it: that the clock, the
  identifiers and reads keep it, and that upserts into the sink's own tables and its counter do.
  Everything the loop does then keeps it.
\<close>

locale sink_writes =
  fixes J :: "world \<Rightarrow> bool"
  assumes clock: "preserves J now" "preserves J perf_counter" "preserves J new_uuid"
    and read: "preserves J (execute_query (f :: db \<Rightarrow> row list))"
    and upsert: "t \<in> set sink_tables \<Longrightarrow> set (primary_key t) \<subseteq> fst ` set cs \<Longrightarrow> preserves J (execute_write (put_row t cs))"
    and count: "preserves J (execute_write (count_ingested n b))"
begin

lemmas via_intros = clock [THEN preserves_via] read [THEN preserves_via] count [THEN preserves_via]

lemma upsert_via [preserves_intros]:
  "t \<in> set sink_tables \<Longrightarrow> set (primary_key t) \<subseteq> fst ` set cs \<Longrightarrow>
    preserves (\<lambda>s. J (snode s)) (via (execute_write (put_row t cs)))"
  by (rule preserves_via [OF upsert])

lemma sink_modify: "(\<And>s. snode (f s) = snode s) \<Longrightarrow> preserves (\<lambda>s. J (snode s)) (modify f)"
  by (simp add: preserves_def modify_def)

lemma write_alert: "preserves (\<lambda>s. J (snode s)) (write_alert e t ty sev z lat lon alt msg r)"
  unfolding write_alert_def by (intro preserves_intros via_intros) (simp_all add: sink_tables_def)

lemma cooldown: "preserves (\<lambda>s. J (snode s)) (cooldown_elapsed e z)"
  unfolding cooldown_elapsed_def monotonic_def by (intro preserves_intros via_intros sink_modify; simp)

lemma load_zones: "preserves (\<lambda>s. J (snode s)) load_zones"
  unfolding load_zones_def by (intro preserves_intros via_intros sink_modify; simp)

lemma check_zones: "preserves (\<lambda>s. J (snode s)) (check_zones e lat lon alt t zs acc)"
proof (induction zs arbitrary: acc)
  case (Cons z zs)
  then show ?case unfolding check_zones.simps alert_for_zone_def Let_def
    by (intro preserves_intros write_alert cooldown)
qed (simp add: preserves_ret)

lemma decode: "preserves (\<lambda>s. J (snode s)) (decode_event cfg v)"
  unfolding decode_event_def text_field_def float_field_def Let_def by (intro preserves_intros via_intros)

lemma track:
  "preserves (\<lambda>s. J (snode s)) (\<lambda>s. case tracker_update e lat lon alt t (tracker_state s) of
     (r, st) \<Rightarrow> (Inr r, s\<lparr>tracker_state := st\<rparr>))"
  by (auto simp: preserves_def split: prod.splits)

lemma process: "preserves (\<lambda>s. J (snode s)) (process_message cfg v)"
  unfolding process_message_def check_proximity_def execute_async_def
  by (intro preserves_intros via_intros decode track check_zones load_zones)
    (simp_all add: sink_tables_def raw_cells_def history_cells_def latest_cells_def)

lemma reload: "preserves (\<lambda>s. J (snode s)) (reload_zones_if_due cfg)"
  unfolding reload_zones_if_due_def monotonic_def by (intro preserves_intros via_intros load_zones sink_modify; simp)

lemma batch: "preserves (\<lambda>s. J (snode s)) (write_batch cfg records)"
  unfolding write_batch_def by (intro preserves_intros reload process)

lemma commit: "preserves (\<lambda>s. J (snode s)) (after_commit cfg n)"
  unfolding after_commit_def execute_async_def monotonic_def
  by (intro preserves_intros via_intros sink_modify; simp)

lemma iteration:
  fixes K :: "'c consumer"
  shows "preserves (\<lambda>(c, s). J (snode s)) (sink_iteration cfg K)"
proof (rule preservesI)
  fix x :: "'c \<times> sink" assume x: "case x of (c, s) \<Rightarrow> J (snode s)"
  obtain c s where cs: "x = (c, s)" by (cases x)
  then have s: "J (snode s)" using x by simp
  have b: "J (snode s1)" if "write_batch cfg rs s = (r, s1)" for rs r s1
    using preservesD [OF batch s, of cfg rs] that by simp
  have a: "J (snode s2)" if "after_commit cfg n s1 = (r, s2)" "J (snode s1)" for n s1 r s2
    using preservesD [OF commit that(2), of cfg n] that(1) by simp
  show "case snd (sink_iteration cfg K x) of (c, s) \<Rightarrow> J (snode s)"
    unfolding cs sink_iteration_def using s b a by (auto split: prod.splits sum.splits)
qed

lemma run: "preserves (\<lambda>(c, s). J (snode s)) (sink_run cfg K n)"
  by (induction n) (auto intro!: preserves_ret preserves_bind iteration)

end

lemma has_row_increment: "has_row (increment_row t c n cs d) t' k \<longleftrightarrow> has_row d t' k"
  by (auto simp: increment_row_def has_row_def update_conv' split: option.splits cval.splits)

lemma has_row_count: "has_row d t k \<Longrightarrow> has_row (count_ingested n b d) t k"
  by (simp add: count_ingested_def Let_def has_row_increment has_row_put_row split: option.splits)

text \<open>A property of the tables alone needs only the writes to keep it.\<close>

lemma sink_writes_tables:
  assumes "\<And>t cs d. t \<in> set sink_tables \<Longrightarrow> set (primary_key t) \<subseteq> fst ` set cs \<Longrightarrow> I d \<Longrightarrow> I (put_row t cs d)"
    and "\<And>n b d. I d \<Longrightarrow> I (count_ingested n b d)"
  shows "sink_writes (\<lambda>w. I (tables w))"
proof -
  have eq: "(\<lambda>w. I (tables w)) = on_node [] [] I" by (simp add: on_node_def accord_runs_def fun_eq_iff)
  show ?thesis unfolding eq
    by unfold_locales (auto intro: preserves_intros preserves_execute_write assms)
qed

interpretation row_kept: sink_writes "\<lambda>w. has_row (tables w) t k" for t k
  by (rule sink_writes_tables) (simp_all add: has_row_put_row has_row_count)

interpretation quiet_node: sink_writes "\<lambda>w. faults w = []"
  by unfold_locales (simp_all add: preserves_def now_def perf_counter_def new_uuid_def execute_query_def
      execute_write_def node_call_ok)

subsection \<open>An event and its row\<close>

text \<open>Where the raw row of an event with a usable identifier goes, and whether it is there.\<close>

definition raw_key :: "config \<Rightarrow> json \<Rightarrow> cval list option" where
  "raw_key cfg v =
    (case event_identity cfg v of
       None \<Rightarrow> None
     | Some (u, t) \<Rightarrow>
         (case (event_bucket (EVENT_BUCKET_MINUTES cfg) t, event_shard (EVENT_SHARDS cfg) u) of
            (Inr b, Inr sh) \<Rightarrow> Some [CText b, CInt sh, CUuid u]
          | _ \<Rightarrow> None))"

definition stored :: "config \<Rightarrow> db \<Rightarrow> json \<Rightarrow> bool" where
  "stored cfg d v \<longleftrightarrow> (case raw_key cfg v of None \<Rightarrow> True | Some k \<Rightarrow> has_row d ''events'' k)"

text \<open>With a usable identifier the decoding reads nothing but the event.\<close>

definition stateless :: "('a \<Rightarrow> bool) \<Rightarrow> ('s, 'a) pm \<Rightarrow> bool" where
  "stateless post m \<longleftrightarrow> (\<exists>e. m = raise e) \<or> (\<exists>x. m = ret x \<and> post x)"

lemma stateless_ret: "post x \<Longrightarrow> stateless post (ret x)"
  by (auto simp: stateless_def)

lemma stateless_lift: "stateless (\<lambda>_. True) (lift_exn r)"
  by (auto simp: stateless_def lift_exn_def split: sum.splits)

lemma stateless_bind: "stateless P m \<Longrightarrow> (\<And>a. P a \<Longrightarrow> stateless post (f a)) \<Longrightarrow> stateless post (bind m f)"
  by (auto simp: stateless_def bind_ret_left) (auto simp: bind_def raise_def)

lemma stateless_fields: "stateless (\<lambda>_. True) (text_field cfg v k)" "stateless (\<lambda>_. True) (float_field v k)"
  unfolding text_field_def float_field_def
  by (rule stateless_bind [OF stateless_lift], simp add: stateless_ret stateless_lift)+

lemma decode_stateless:
  assumes "event_identity cfg v = Some (u, t)"
  shows "stateless (\<lambda>x. event_id x = u \<and> event_time x = t) (decode_event cfg v)"
  unfolding decode_event_def assms option.case prod.case bind_ret_left Let_def
  by (intro stateless_bind [OF stateless_fields(1)] stateless_bind [OF stateless_fields(2)]
      stateless_bind [OF stateless_lift] stateless_ret) simp

lemma execute_async_ok:
  "execute_async f s = (Inr fut, s') \<Longrightarrow> \<not> isl fut \<Longrightarrow> rows s' = f (rows s)"
  by (cases "\<lambda>d. ((), f d)" "snode s" rule: node_call_cases)
    (auto simp: execute_async_def attempt_def via_def execute_write_def split: prod.splits)

lemma key_raw_cells: "key_of ''events'' (raw_cells e b sh) = [CText b, CInt sh, CUuid (event_id e)]"
  by (simp add: key_of_def raw_cells_def)

lemma cell_raw: "c \<in> fst ` set (raw_cells e b sh) \<Longrightarrow>
    cell (put_row ''events'' (raw_cells e b sh) d) ''events'' [CText b, CInt sh, CUuid (event_id e)] c = row_get (raw_cells e b sh) c"
  by (simp add: cell_put_row key_raw_cells)

lemma cell_other_table: "t' \<noteq> t \<Longrightarrow> cell (put_row t cs d) t' k c = cell d t' k c"
  by (simp add: cell_put_row)

text \<open>What a message that is processed without a failed write leaves in \<open>events\<close>.\<close>

lemma process_message_stores:
  assumes run: "process_message cfg v s = (Inr futures, s')" and ok: "\<not> list_ex isl futures"
    and ident: "event_identity cfg v = Some (u, t)"
  shows "\<exists>e b sh. decode_event cfg v = ret e \<and> event_id e = u \<and>
    event_bucket (EVENT_BUCKET_MINUTES cfg) t = Inr b \<and> event_shard (EVENT_SHARDS cfg) u = Inr sh \<and>
    has_row (rows s') ''events'' [CText b, CInt sh, CUuid u] \<and>
    (\<forall>c \<in> fst ` set (raw_cells e b sh). cell (rows s') ''events'' [CText b, CInt sh, CUuid u] c = row_get (raw_cells e b sh) c)"
proof -
  have lift: "lift_exn r x = (Inr a, y) \<longleftrightarrow> r = Inr a \<and> y = x" for r :: "exn + 'x" and a and x y :: sink
    by (auto simp: lift_exn_def ret_def raise_def split: sum.splits)
  obtain e where e: "decode_event cfg v = ret e" "event_id e = u" "event_time e = t"
    using decode_stateless [OF ident] run unfolding stateless_def process_message_def
    by (auto simp: bind_def raise_def)
  obtain b sh f1 f2 f3 s1 s2 s3 s4 t2 c2 t3 c3 where
    "event_bucket (EVENT_BUCKET_MINUTES cfg) t = Inr b" "event_shard (EVENT_SHARDS cfg) u = Inr sh"
    "execute_async (put_row ''events'' (raw_cells e b sh)) s1 = (Inr f1, s2)"
    "execute_async (put_row ''drone_events_by_entity'' c2) s2 = (Inr f2, s3)"
    "execute_async (put_row ''drone_latest_status'' c3) s3 = (Inr f3, s')" "futures = [f1, f2, f3]"
    using run e unfolding process_message_def
    by (auto simp: bind_Inr_iff lift ret_run split: prod.splits)
  note parts = this
  have "rows s' = put_row ''drone_latest_status'' c3 (put_row ''drone_events_by_entity'' c2
      (put_row ''events'' (raw_cells e b sh) (rows s1)))"
    using parts(3-5) ok parts(6) by (simp add: execute_async_ok)
  then show ?thesis
    using e parts(1,2) cell_raw [of _ e b sh "rows s1"]
    by (intro exI [of _ e] exI [of _ b] exI [of _ sh]) (simp add: has_row_put_row key_raw_cells cell_other_table)
qed

lemma process_message_stored:
  assumes "process_message cfg v s = (Inr futures, s')" and "\<not> list_ex isl futures"
  shows "stored cfg (rows s') v"
proof (cases "event_identity cfg v")
  case (Some ut)
  then show ?thesis
    using process_message_stores [OF assms] by (cases ut) (auto simp: stored_def raw_key_def)
qed (simp add: stored_def raw_key_def)

lemma stored_mono:
  assumes "\<And>k. preserves (\<lambda>s. has_row (rows s) ''events'' k) m" and "stored cfg (rows s) v"
  shows "stored cfg (rows (snd (m s))) v"
  using assms(2) preservesD [OF assms(1)] by (auto simp: stored_def split: option.splits)

lemma map_pm_stored:
  assumes "map_pm (process_message cfg) vs s = (Inr fss, s')" and "\<not> list_ex isl (concat fss)"
  shows "(\<forall>v \<in> set vs. stored cfg (rows s') v) \<and> (\<forall>v. stored cfg (rows s) v \<longrightarrow> stored cfg (rows s') v)"
  using assms
proof (induction vs arbitrary: s fss)
  case (Cons v vs)
  obtain fs s1 rest where run: "process_message cfg v s = (Inr fs, s1)"
    "map_pm (process_message cfg) vs s1 = (Inr rest, s')" "fss = fs # rest"
    using Cons.prems(1) by (auto simp: bind_Inr_iff ret_def)
  have one: "stored cfg (rows s1) v" using process_message_stored [OF run(1)] Cons.prems(2) run(3) by simp
  have "stored cfg (rows s) x \<Longrightarrow> stored cfg (rows s1) x" for x
    using stored_mono [OF row_kept.process, of cfg s x cfg v] run(1) by simp
  moreover have "(\<forall>v \<in> set vs. stored cfg (rows s') v) \<and> (\<forall>v. stored cfg (rows s1) v \<longrightarrow> stored cfg (rows s') v)"
    using Cons.IH [OF run(2)] Cons.prems(2) run(3) by simp
  ultimately show ?case using one by auto
qed (simp add: ret_def)

lemma write_batch_stored:
  assumes "write_batch cfg records s = (Inr (pending, n), s')" and "\<not> list_ex isl pending"
  shows "\<forall>v \<in> set (concat records). stored cfg (rows s') v"
proof -
  obtain s1 fss where "map_pm (process_message cfg) (concat records) s1 = (Inr fss, s')" "pending = concat fss"
    using assms(1) by (auto simp: write_batch_def bind_Inr_iff ret_run)
  then show ?thesis using map_pm_stored assms(2) by blast
qed

lemma execute_async_quiet:
  "faults (snode s) = [] \<Longrightarrow> execute_async f s = (Inr fut, s') \<Longrightarrow> \<not> isl fut"
  by (auto simp: execute_async_def attempt_def via_def execute_write_def node_call_ok split: prod.splits)

text \<open>A computation that keeps \<open>I\<close> and, where it returns, returns something with \<open>post\<close>.\<close>

definition yields :: "('s \<Rightarrow> bool) \<Rightarrow> ('a \<Rightarrow> bool) \<Rightarrow> ('s, 'a) pm \<Rightarrow> bool" where
  "yields I post m \<longleftrightarrow> (\<forall>s a s'. I s \<longrightarrow> m s = (Inr a, s') \<longrightarrow> I s' \<and> post a)"

lemma yieldsD: "yields I post m \<Longrightarrow> I s \<Longrightarrow> m s = (Inr a, s') \<Longrightarrow> I s' \<and> post a"
  by (auto simp: yields_def)

lemma yields_bind: "yields I mid m \<Longrightarrow> (\<And>a. mid a \<Longrightarrow> yields I post (f a)) \<Longrightarrow> yields I post (bind m f)"
  unfolding yields_def bind_Inr_iff by blast

lemma yields_ret: "post x \<Longrightarrow> yields I post (ret x)"
  by (simp add: yields_def ret_run)

lemma yields_preserves: "preserves I m \<Longrightarrow> yields I (\<lambda>_. True) m"
  using preservesD by (fastforce simp: yields_def)

lemma yields_split: "(\<And>a b. yields I post (f a b)) \<Longrightarrow> yields I post (case p of (a, b) \<Rightarrow> f a b)"
  by (cases p) simp

abbreviation quiet_sink :: "sink \<Rightarrow> bool" where
  "quiet_sink s \<equiv> faults (snode s) = []"

lemma yields_async: "yields quiet_sink (\<lambda>fut. \<not> isl fut) (execute_async f)"
  using execute_async_quiet
  by (fastforce simp: yields_def execute_async_def attempt_def via_def execute_write_def node_call_ok split: prod.splits)

lemma yields_process: "yields quiet_sink (\<lambda>futures. \<not> list_ex isl futures) (process_message cfg v)"
proof -
  have prox: "preserves quiet_sink (check_proximity e lat lon alt t)" for e lat lon alt t
    unfolding check_proximity_def
    by (intro preserves_intros quiet_node.check_zones quiet_node.load_zones)
  note keep = yields_preserves [THEN yields_bind]
  show ?thesis
    unfolding process_message_def
    by (intro keep [OF quiet_node.decode] keep [OF quiet_node.track] keep [OF prox] keep [OF quiet_node.via_intros(1)]
        keep [OF preserves_lift_exn] yields_bind [OF yields_async] yields_split yields_ret) simp
qed

lemma yields_map: "(\<And>x. yields I post (f x)) \<Longrightarrow> yields I (list_all post) (map_pm f xs)"
proof (induction xs)
  case (Cons x xs)
  show ?case unfolding map_pm.simps
    by (rule yields_bind [OF Cons.prems], rule yields_bind [OF Cons.IH [OF Cons.prems]], rule yields_ret) simp
qed (simp add: yields_ret)

lemma yields_batch: "yields quiet_sink (\<lambda>(pending, n). \<not> list_ex isl pending) (write_batch cfg records)"
  unfolding write_batch_def
  by (rule yields_preserves [OF quiet_node.reload, THEN yields_bind], rule yields_map [OF yields_process, THEN yields_bind])
    (auto intro!: yields_ret simp: list_all_iff list_ex_iff)

section \<open>Kafka\<close>

text \<open>
  What the loop relies on of the consumer, over a topic with a log per partition: \<open>pos\<close> is the
  consumer's position and \<open>com\<close> the committed offset, per partition. A poll delivers every record
  between the old position and the new one and commits nothing; a commit commits the positions.
\<close>

definition consumes ::
  "'c consumer \<Rightarrow> (nat \<Rightarrow> json list) \<Rightarrow> ('c \<Rightarrow> nat \<Rightarrow> nat) \<Rightarrow> ('c \<Rightarrow> nat \<Rightarrow> nat) \<Rightarrow> bool" where
  "consumes K topic pos com \<longleftrightarrow>
    (\<forall>n c r c'. poll K n c = (r, c') \<longrightarrow> com c' = com c \<and>
      (case r of Inl _ \<Rightarrow> pos c' = pos c
       | Inr records \<Rightarrow> \<forall>p i. pos c p \<le> i \<and> i < pos c' p \<longrightarrow> i < length (topic p) \<and> topic p ! i \<in> set (concat records))) \<and>
    (\<forall>c r c'. commit_offsets K c = (r, c') \<longrightarrow> pos c' = pos c \<and> (com c' = pos c \<or> isl r \<and> com c' = com c))"

text \<open>Every record before an offset is in the table.\<close>

definition stored_upto :: "config \<Rightarrow> (nat \<Rightarrow> json list) \<Rightarrow> (nat \<Rightarrow> nat) \<Rightarrow> db \<Rightarrow> bool" where
  "stored_upto cfg topic offs d \<longleftrightarrow> (\<forall>p i. i < offs p \<longrightarrow> stored cfg d (topic p ! i))"

lemma stored_upto_mono:
  "(\<And>v. stored cfg d v \<Longrightarrow> stored cfg d' v) \<Longrightarrow> stored_upto cfg topic u d \<Longrightarrow> stored_upto cfg topic u d'"
  by (simp add: stored_upto_def)

lemma iteration_stored:
  assumes K: "consumes K topic pos com" and q: "quiet_sink s"
    and inv: "stored_upto cfg topic (pos c) (rows s)" "stored_upto cfg topic (com c) (rows s)"
    and it: "sink_iteration cfg K (c, s) = (r, (c', s'))"
  shows "stored_upto cfg topic (com c') (rows s') \<and>
    (\<not> isl r \<longrightarrow> quiet_sink s' \<and> stored_upto cfg topic (pos c') (rows s'))"
proof -
  obtain rp c1 where poll: "poll K (batch_size cfg) c = (rp, c1)" by (cases "poll K (batch_size cfg) c")
  have com1: "com c1 = com c" using K poll by (auto simp: consumes_def)
  show ?thesis
  proof (cases rp)
    case (Inl e)
    then show ?thesis using it poll com1 inv K by (auto simp: sink_iteration_def consumes_def)
  next
    case (Inr records)
    have polled: "topic p ! i \<in> set (concat records)" if "pos c p \<le> i" "i < pos c1 p" for p i
      using K poll Inr that by (fastforce simp: consumes_def)
    show ?thesis
    proof (cases "records = []")
      case True
      then have "stored_upto cfg topic (pos c1) (rows s)"
        using polled inv(1) by (auto simp: stored_upto_def) (metis not_le)
      then show ?thesis using it poll com1 inv q True Inr by (auto simp: sink_iteration_def)
    next
      case False
      obtain rb s1 where batch: "write_batch cfg records s = (rb, s1)" by (cases "write_batch cfg records s")
      have keep: "stored cfg (rows s1) v" if "stored cfg (rows s) v" for v
        using stored_mono [OF row_kept.batch that] batch by (metis snd_conv)
      have com_kept: "stored_upto cfg topic (com c1) (rows s1)"
        using inv(2) com1 by (simp add: stored_upto_mono [OF keep])
      show ?thesis
      proof (cases rb)
        case (Inl e)
        then show ?thesis using it poll Inr False batch com_kept by (auto simp: sink_iteration_def)
      next
        case (Inr pn)
        obtain pending n where pn: "pn = (pending, n)" by (cases pn)
        have ok: "\<not> list_ex isl pending" and q1: "quiet_sink s1"
          using yieldsD [OF yields_batch q] batch Inr pn by fastforce+
        have new: "\<forall>v \<in> set (concat records). stored cfg (rows s1) v"
          using write_batch_stored batch Inr pn ok by blast
        have all1: "stored_upto cfg topic (pos c1) (rows s1)"
          unfolding stored_upto_def
        proof (intro allI impI)
          fix p i assume i: "i < pos c1 p"
          show "stored cfg (rows s1) (topic p ! i)"
            using polled [of p i] new keep inv(1) i by (cases "i < pos c p") (auto simp: stored_upto_def)
        qed
        obtain rc c2 where com: "commit_offsets K c1 = (rc, c2)" by (cases "commit_offsets K c1")
        have c2: "pos c2 = pos c1" "com c2 = pos c1 \<or> com c2 = com c1" using K com unfolding consumes_def by blast+
        obtain ra s2 where aft: "after_commit cfg n s1 = (ra, s2)" by (cases "after_commit cfg n s1")
        have keep2: "stored cfg (rows s2) v" if "stored cfg (rows s1) v" for v
          using stored_mono [OF row_kept.commit that] aft by (metis snd_conv)
        have q2: "quiet_sink s2" using preservesD [OF quiet_node.commit q1, of cfg n] aft by simp
        have "c' = c2" "s' = (if isl rc then s1 else s2)"
          using it poll \<open>rp = Inr records\<close> False batch Inr pn ok com aft
          by (auto simp: sink_iteration_def split: sum.splits)
        then show ?thesis
          using c2 all1 com_kept stored_upto_mono [OF keep2 all1] stored_upto_mono [OF keep2 com_kept] q2
            it poll \<open>rp = Inr records\<close> False batch Inr pn ok com aft
          by (auto simp: sink_iteration_def split: sum.splits)
      qed
    qed
  qed
qed

lemma run_stored:
  assumes K: "consumes K topic pos com" and "quiet_sink s"
    and "stored_upto cfg topic (pos c) (rows s)" "stored_upto cfg topic (com c) (rows s)"
    and "sink_run cfg K n (c, s) = (r, (c', s'))"
  shows "stored_upto cfg topic (com c') (rows s')"
  using assms(2-)
proof (induction n arbitrary: c s)
  case (Suc n)
  obtain r1 c1 s1 where it: "sink_iteration cfg K (c, s) = (r1, (c1, s1))" by (metis prod_cases3)
  note step = iteration_stored [OF K Suc.prems(1-3) it]
  show ?case
  proof (cases r1)
    case (Inl e)
    then show ?thesis using step Suc.prems(4) it by (simp add: bind_def)
  next
    case (Inr u)
    then show ?thesis using step Suc.IH [of s1 c1] Suc.prems(4) it by (simp add: bind_def)
  qed
qed (simp add: ret_def)

subsection \<open>The clearance tables\<close>

lemma cell_increment_other: "t' \<noteq> t \<Longrightarrow> cell (increment_row t c n cs d) t' k c' = cell d t' k c'"
  by (auto simp: increment_row_def cell_def split: option.splits cval.splits)

lemma clearance_inv_increment:
  assumes "clearance_inv d"
  shows "clearance_inv (increment_row ''ingestion_counts'' ''record_count'' n cs d)"
proof -
  let ?d = "increment_row ''ingestion_counts'' ''record_count'' n cs d"
  have "ledger_of ?d = ledger_of d" by (simp add: ledger_of_def cell_increment_other)
  moreover have "db_ok ?d"
    using assms by (intro db_ok_increment_row) (simp_all add: clearance_inv_def clearance_wf_def)
  ultimately show ?thesis
    using assms by (simp add: clearance_inv_def clearance_wf_def cell_increment_other has_row_increment)
qed

interpretation clearance_kept: sink_writes "\<lambda>w. clearance_inv (tables w)"
proof (rule sink_writes_tables)
  show "clearance_inv (put_row t cs d)"
    if "t \<in> set sink_tables" "set (primary_key t) \<subseteq> fst ` set cs" "clearance_inv d" for t cs d
    using that by (intro clearance_inv_other) (auto simp: sink_tables_def)
  show "clearance_inv (count_ingested n b d)" if "clearance_inv d" for n b d
    using that by (auto simp: count_ingested_def Let_def split: option.splits
        intro!: clearance_inv_increment clearance_inv_other)
qed

lemma best_of_range:
  assumes pos: "\<And>z d. (z, d) \<in> R \<Longrightarrow> 0 < zone_risk_at d \<and> zone_risk_at d < 1" and best: "best_of R 0 None risk zone"
  shows "0 \<le> risk \<and> risk < 1 \<and> (\<forall>(z, d) \<in> R. zone_risk_at d \<le> risk) \<and>
    (if R \<noteq> {} then \<exists>(z, d) \<in> R. risk = zone_risk_at d \<and> zone = Some (zid z) else risk = 0 \<and> zone = None)"
proof (cases "R = {}")
  case True
  then show ?thesis using best by (simp add: best_of_def)
next
  case False
  then obtain z d where zd: "(z, d) \<in> R" by auto
  then have "0 < risk" using pos [OF zd] best by (fastforce simp: best_of_def)
  then obtain z' d' where "(z', d') \<in> R" "risk = zone_risk_at d'" "zone = Some (zid z')"
    using best by (auto simp: best_of_def)
  then show ?thesis using False pos best by (fastforce simp: best_of_def)
qed

section \<open>Properties\<close>

text \<open>
  Property. No position glitch is ever reported as movement. After any history of sightings, the speed
  derived for the next one is between 0 and 100 m/s, the heading is in \<open>[0, 360)\<close>, and the flying flag
  is the altitude alone, whatever the coordinates, and when the clock stands still or goes back.
\<close>

theorem derived_fields_in_range:
  assumes "tracker_update e lat lon alt t (fold observe history Map.empty) = ((speed, heading, flying), st)"
  shows "0 \<le> speed \<and> speed \<le> MAX_PLAUSIBLE_SPEED_MPS \<and> 0 \<le> heading \<and> heading < 360 \<and>
    (flying \<longleftrightarrow> alt > FLYING_ALTITUDE_THRESHOLD_M)"
  using tracker_update_bounds [OF tracker.run_inv [OF tracker_ok_empty] assms] by blast

theorem derived_fields_in_range_witness:
  "\<exists>speed heading flying st.
    tracker_update ''a'' 59 10 20 5 (fold observe [(''a'', 60, 11, 0, 7)] Map.empty) = ((speed, heading, flying), st) \<and>
    0 \<le> speed \<and> speed \<le> MAX_PLAUSIBLE_SPEED_MPS"
  using derived_fields_in_range [of "''a''" 59 10 20 5 "[(''a'', 60, 11, 0, 7)]"] by (metis surj_pair)

text \<open>
  Property. What a position scores. Whatever becomes of the alert writes, \<open>check_proximity\<close> returns: near
  exactly when some loaded zone is within 500 m, a predicted breach exactly when one is within
  150 m (or the asset is inside it), and as risk the greatest over the zones in reach, which is in
  \<open>[0, 1)\<close>, with the zone it belongs to, or none.
\<close>

theorem proximity_score:
  assumes "loaded s"
  shows "\<exists>near breach risk zone s'. check_proximity e lat lon alt t s = (Inr (near, breach, risk, zone), s') \<and>
    (near \<longleftrightarrow> reached lat lon (zones s) \<noteq> {}) \<and>
    (breach \<longleftrightarrow> (\<exists>(z, d) \<in> reached lat lon (zones s). d < 150)) \<and>
    0 \<le> risk \<and> risk < 1 \<and> (\<forall>(z, d) \<in> reached lat lon (zones s). zone_risk_at d \<le> risk) \<and>
    (if near then \<exists>(z, d) \<in> reached lat lon (zones s). risk = zone_risk_at d \<and> zone = Some (zid z)
     else risk = 0 \<and> zone = None)"
proof -
  obtain near breach risk zone where sc: "score_of lat lon (zones s) (False, False, 0, None) = (near, breach, risk, zone)"
    by (metis prod_cases4)
  obtain s' where "check_zones e lat lon alt t (zones s) (False, False, 0, None) s = (Inr (near, breach, risk, zone), s')"
    using check_zones_score [of e lat lon alt t "zones s" "(False, False, 0, None)" s] sc by auto
  then have run: "check_proximity e lat lon alt t s = (Inr (near, breach, risk, zone), s')"
    using assms by (simp add: check_proximity_def bind_def gets_def ret_def)
  note s = score_of_reached [OF sc]
  have pos: "0 < zone_risk_at d \<and> zone_risk_at d < 1" if "(z, d) \<in> reached lat lon (zones s)" for z d
    using that zone_risk_range distance_nonneg by (auto simp: reached_def)
  have "0 \<le> risk \<and> risk < 1 \<and> (\<forall>(z, d) \<in> reached lat lon (zones s). zone_risk_at d \<le> risk) \<and>
    (if near then \<exists>(z, d) \<in> reached lat lon (zones s). risk = zone_risk_at d \<and> zone = Some (zid z)
     else risk = 0 \<and> zone = None)"
    unfolding s(1) simp_thms by (rule best_of_range [OF _ s(3)]) (rule pos)
  then show ?thesis using run s(1,2) by (simp only: simp_thms) blast
qed

text \<open>
  The reported zone is the one of greatest risk, which is not always the nearest: inside a zone
  the risk is 0.95, and a metre outside another it is more.
\<close>

lemma inside_zone_outranked:
  "score_zone ''b'' 1 (score_zone ''a'' 0 (False, False, 0, None)) = (True, True, zone_risk_at 1, Some ''b'')"
  by (simp add: score_zone_def zone_risk_at_def WARNING_DISTANCE_M_def)

definition sink_world :: "db \<Rightarrow> fault list \<Rightarrow> zone list \<Rightarrow> sink" where
  "sink_world d fs zs = \<lparr>snode = (node_world ''demo'' [] d)\<lparr>faults := fs\<rparr>, tracker_state = Map.empty, zones = zs,
     loaded = True, last_alert = Map.empty, last_zone_reload = 0, total_inserted = 0, window_inserted = 0, last_report = 0\<rparr>"

theorem proximity_score_witness:
  "\<exists>near breach risk zone s'. check_proximity ''a'' (1 / 2) (1 / 2) 20 0
      (sink_world empty_db [] [\<lparr>zid = ''z'', zname = ''Zone'', zseverity = ''critical'', zring = unit_square\<rparr>]) =
        (Inr (near, breach, risk, zone), s') \<and> 0 \<le> risk \<and> risk < 1"
  using proximity_score [of "sink_world empty_db [] [\<lparr>zid = ''z'', zname = ''Zone'', zseverity = ''critical'', zring = unit_square\<rparr>]"
      "''a''" "1 / 2" "1 / 2" 20 0] by (fastforce simp: sink_world_def)

text \<open>
  C12. Alerts are rationed, and only as far as they should be. Over any sequence of questions about
  assets and zones, with a clock that does not go back and no alert dated after the first
  question: two answers that allow an alert for the same asset and zone are at least 60 s apart,
  and an answer that refuses one has an allowed one less than 60 s before it.
\<close>

theorem alerts_are_rationed:
  assumes "mono (perf_clock (snode s))"
    and "\<forall>k t. last_alert s k = Some t \<longrightarrow> t \<le> perf_clock (snode s) (ticks (snode s))"
  shows "\<exists>allowed s'. map_pm (\<lambda>(e, z). cooldown_elapsed e z) ks s = (Inr allowed, s') \<and>
    (\<forall>i j. i < j \<and> j < length ks \<and> ks ! i = ks ! j \<and> allowed ! i \<and> allowed ! j \<longrightarrow>
      ALERT_COOLDOWN_S \<le> perf_clock (snode s) (ticks (snode s) + j) - perf_clock (snode s) (ticks (snode s) + i)) \<and>
    (\<forall>j < length ks. \<not> allowed ! j \<longrightarrow>
      (\<exists>i < j. ks ! i = ks ! j \<and> allowed ! i \<and>
        perf_clock (snode s) (ticks (snode s) + j) - perf_clock (snode s) (ticks (snode s) + i) < ALERT_COOLDOWN_S) \<or>
      (\<exists>t. last_alert s (ks ! j) = Some t \<and> perf_clock (snode s) (ticks (snode s) + j) - t < ALERT_COOLDOWN_S))"
proof -
  let ?bs = "cooldowns (perf_clock (snode s)) (ticks (snode s)) (last_alert s) ks"
  obtain s' where "map_pm (\<lambda>(e, z). cooldown_elapsed e z) ks s = (Inr ?bs, s')" using cooldowns_run by blast
  then show ?thesis
    using cooldowns_spaced [OF assms(1), of "last_alert s" "ticks (snode s)"] assms(2) cooldowns_refused
    by (intro exI [of _ ?bs] exI [of _ s']) blast
qed

theorem alerts_are_rationed_witness:
  "\<exists>allowed s'. map_pm (\<lambda>(e, z). cooldown_elapsed e z) [(''a'', ''z''), (''a'', ''z''), (''b'', ''z'')]
      (sink_world empty_db [] []) = (Inr allowed, s') \<and>
    (allowed ! 0 \<and> allowed ! 1 \<longrightarrow> ALERT_COOLDOWN_S \<le> real 1 - real 0)"
proof -
  let ?s = "sink_world empty_db [] []"
  have "mono (perf_clock (snode ?s))" by (simp add: sink_world_def node_world_def mono_def)
  moreover have "\<forall>k t. last_alert ?s k = Some t \<longrightarrow> t \<le> perf_clock (snode ?s) (ticks (snode ?s))"
    by (simp add: sink_world_def)
  ultimately show ?thesis
    using alerts_are_rationed [of ?s "[(''a'', ''z''), (''a'', ''z''), (''b'', ''z'')]"]
    by (fastforce simp: sink_world_def node_world_def)
qed

text \<open>
  C9. A committed offset means stored, when no write fails. Over any number of turns of the loop, and
  even where an exception ends it, every record of every partition before the committed offset,
  if it carries a usable identifier, has its row in \<open>events\<close>, provided this held for the position
  the consumer started from.
\<close>

theorem committed_means_stored:
  assumes "consumes K topic pos com" and "faults (snode s) = []"
    and "stored_upto cfg topic (pos c) (rows s)" and "stored_upto cfg topic (com c) (rows s)"
    and "sink_run cfg K n (c, s) = (r, (c', s'))"
    and "i < com c' p"
  shows "stored cfg (rows s') (topic p ! i)"
  using run_stored [OF assms(1-5)] assms(6) by (simp add: stored_upto_def)

text \<open>A consumer of a topic with one partition, at position and committed offset 0.\<close>

definition log_consumer :: "json list \<Rightarrow> (nat \<times> nat) consumer" where
  "log_consumer vs = \<lparr>
     poll = (\<lambda>n (p, c). (Inr (if p < length vs \<and> 0 < n then [take n (drop p vs)] else []), (min (p + n) (max p (length vs)), c))),
     commit_offsets = (\<lambda>(p, c). (Inr (), (p, p)))\<rparr>"

definition at_partition0 :: "nat \<Rightarrow> nat \<Rightarrow> nat" where
  "at_partition0 x p = (if p = 0 then x else 0)"

lemma log_consumer_consumes:
  "consumes (log_consumer vs) (\<lambda>p. if p = 0 then vs else []) (at_partition0 \<circ> fst) (at_partition0 \<circ> snd)"
proof -
  have "vs ! i \<in> set (take n (drop p vs))" "p < length vs" "0 < n" "i < length vs"
    if "p \<le> i" "i < min (p + n) (max p (length vs))" for n p i
  proof -
    have "i < length vs" "i - p < n" using that by auto
    then have "take n (drop p vs) ! (i - p) = vs ! i" "i - p < length (take n (drop p vs))" using that by auto
    then show "vs ! i \<in> set (take n (drop p vs))" by (metis nth_mem)
  qed (use that in auto)
  note taken = this
  let ?K = "log_consumer vs"
  have poll: "com c' = com c \<and> (case r of Inl _ \<Rightarrow> pos c' = pos c
      | Inr records \<Rightarrow> \<forall>p i. pos c p \<le> i \<and> i < pos c' p \<longrightarrow>
          i < length (if p = 0 then vs else []) \<and> (if p = 0 then vs else []) ! i \<in> set (concat records))"
    if "poll ?K n c = (r, c')" "pos = at_partition0 \<circ> fst" "com = at_partition0 \<circ> snd" for n c r c' pos com
  proof -
    obtain p q where c: "c = (p, q)" by (cases c)
    have r: "r = Inr (if p < length vs \<and> 0 < n then [take n (drop p vs)] else [])"
      "c' = (min (p + n) (max p (length vs)), q)"
      using that(1) by (simp_all add: log_consumer_def c)
    have "i < length (if x = 0 then vs else []) \<and> (if x = 0 then vs else []) ! i \<in>
        set (concat (if p < length vs \<and> 0 < n then [take n (drop p vs)] else []))"
      if "at_partition0 p x \<le> i \<and> i < at_partition0 (min (p + n) (max p (length vs))) x" for x i
    proof (cases "x = 0")
      case True
      then have i: "p \<le> i" "i < min (p + n) (max p (length vs))" using that by (simp_all add: at_partition0_def)
      then show ?thesis using taken [OF i] True by simp
    qed (use that in \<open>simp add: at_partition0_def\<close>)
    then show ?thesis unfolding that(2,3) c r sum.case comp_apply fst_conv snd_conv by blast
  qed
  have "(at_partition0 \<circ> fst) c' = (at_partition0 \<circ> fst) c \<and> ((at_partition0 \<circ> snd) c' = (at_partition0 \<circ> fst) c \<or>
      isl r \<and> (at_partition0 \<circ> snd) c' = (at_partition0 \<circ> snd) c)" if "commit_offsets ?K c = (r, c')" for c r c'
    using that by (cases c) (auto simp: log_consumer_def)
  then show ?thesis unfolding consumes_def using poll [OF _ refl refl] by blast
qed

definition demo_config :: config where
  "demo_config = \<lparr>EVENT_BUCKET_MINUTES = 15, EVENT_SHARDS = 16, batch_size = 1, report_every_s = 5, zone_reload_s = 60,
     repr_of = (\<lambda>_. ''''), datetime_from_uuid1 = (\<lambda>u. Inr (int u))\<rparr>"

definition demo_event :: "string \<Rightarrow> json" where
  "demo_event u = JObj [(''event_id'', JStr u), (''entity_id'', JStr u)]"

definition two_events :: "json list" where
  "two_events = [demo_event ''00000000-0000-1000-8000-000000000001'', demo_event ''00000000-0000-1000-8000-000000000002'']"

text \<open>
  C11. Replaying an event rewrites the same row. For an event with a usable identifier, two successful
  processings, from any two states of the sink whatsoever, leave the same key in \<open>events\<close> with the
  same value in every column the statement names.
\<close>

theorem replay_rewrites_the_same_row:
  assumes "event_identity cfg v = Some (u, t)"
    and "process_message cfg v s1 = (Inr f1, s1')" and "\<not> list_ex isl f1"
    and "process_message cfg v s2 = (Inr f2, s2')" and "\<not> list_ex isl f2"
  shows "\<exists>k. raw_key cfg v = Some k \<and> has_row (rows s1') ''events'' k \<and> has_row (rows s2') ''events'' k \<and>
    (\<forall>c \<in> set (map fst (columns (events_table ''events''))).
       cell (rows s1') ''events'' k c = cell (rows s2') ''events'' k c)"
proof -
  have names: "fst ` set (raw_cells e b sh) = set (map fst (columns (events_table ''events'')))" for e b sh
    by (simp add: raw_cells_def events_table_def)
  obtain e1 b1 sh1 where 1: "decode_event cfg v = ret e1" "event_bucket (EVENT_BUCKET_MINUTES cfg) t = Inr b1"
    "event_shard (EVENT_SHARDS cfg) u = Inr sh1" "has_row (rows s1') ''events'' [CText b1, CInt sh1, CUuid u]"
    "\<forall>c \<in> fst ` set (raw_cells e1 b1 sh1). cell (rows s1') ''events'' [CText b1, CInt sh1, CUuid u] c = row_get (raw_cells e1 b1 sh1) c"
    using process_message_stores [OF assms(2,3,1)] by blast
  obtain e2 b2 sh2 where 2: "decode_event cfg v = ret e2" "event_bucket (EVENT_BUCKET_MINUTES cfg) t = Inr b2"
    "event_shard (EVENT_SHARDS cfg) u = Inr sh2" "has_row (rows s2') ''events'' [CText b2, CInt sh2, CUuid u]"
    "\<forall>c \<in> fst ` set (raw_cells e2 b2 sh2). cell (rows s2') ''events'' [CText b2, CInt sh2, CUuid u] c = row_get (raw_cells e2 b2 sh2) c"
    using process_message_stores [OF assms(4,5,1)] by blast
  have "b1 = b2" "sh1 = sh2" using 1 2 by simp_all
  moreover have "e1 = e2" using fun_cong [OF trans [OF 1(1) [symmetric] 2(1)], of s1] by (simp add: ret_def)
  moreover have "raw_key cfg v = Some [CText b1, CInt sh1, CUuid u]" using assms(1) 1 by (simp add: raw_key_def)
  ultimately show ?thesis using 1 2 unfolding names by simp
qed



definition plain_event :: "string \<Rightarrow> json" where
  "plain_event entity = JObj [(''entity_id'', JStr entity)]"

lemma decode_plain:
  "decode_event cfg (plain_event x) s =
    (let w = snode s in
     (Inr \<lparr>event_id = uuids w (uuids_used w), event_time = wall_clock w (ticks w), entity_id = x, latitude = 0,
        longitude = 0, altitude_m = 0, event_type = [], observer_id = [], temp_external_c = 0, temp_internal_c = 0,
        text_payload = []\<rparr>, s\<lparr>snode := w\<lparr>uuids_used := Suc (uuids_used w), ticks := Suc (ticks w)\<rparr>\<rparr>))"
  by (simp add: decode_event_def plain_event_def event_identity_def text_field_def float_field_def lift_exn_def
      bind_def ret_def raise_def via_def new_uuid_def now_def Let_def)

fun outcome :: "fault list \<Rightarrow> exn + unit" where
  "outcome (LostBefore m # _) = Inl (Exn m)"
| "outcome (LostAfter m # _) = Inl (Exn m)"
| "outcome _ = Inr ()"

definition calm :: "sink \<Rightarrow> bool" where
  "calm s \<longleftrightarrow> loaded s \<and> zones s = [] \<and> last_zone_reload s = 0 \<and> perf_clock (snode s) = (\<lambda>_. 0)"

lemma execute_async_run:
  "\<exists>s'. execute_async f s = (Inr (outcome (faults (snode s))), s') \<and> faults (snode s') = tl (faults (snode s)) \<and>
    calm s' = calm s"
  by (cases "faults (snode s)" rule: outcome.cases)
    (auto simp: execute_async_def attempt_def via_def execute_write_def node_call_def calm_def)

lemma process_decoded:
  assumes "1 \<le> EVENT_BUCKET_MINUTES cfg" and "1 \<le> EVENT_SHARDS cfg"
    and d: "decode_event cfg v s = (Inr e, s1)" "faults (snode s1) = faults (snode s)" "calm s1"
  shows "\<exists>f2 f3 s'. process_message cfg v s = (Inr [outcome (faults (snode s)), f2, f3], s') \<and>
    faults (snode s') = drop 3 (faults (snode s)) \<and> calm s'"
proof -
  obtain r st where tr: "tracker_update (entity_id e) (latitude e) (longitude e) (altitude_m e) (event_time e) (tracker_state s1) = (r, st)"
    by (metis surj_pair)
  define s2 where "s2 = s1\<lparr>tracker_state := st\<rparr>"
  have s2: "faults (snode s2) = faults (snode s)" "calm s2" using d by (simp_all add: s2_def calm_def)
  have prox: "check_proximity en la lo al ti s2 = (Inr (False, False, 0, None), s2)" for en la lo al ti
    using s2 by (simp add: check_proximity_def bind_def gets_def ret_def calm_def)
  define s3 where "s3 = s2\<lparr>snode := (snode s2)\<lparr>ticks := Suc (ticks (snode s2))\<rparr>\<rparr>"
  have nw: "via now s2 = (Inr (wall_clock (snode s2) (ticks (snode s2))), s3)" by (simp add: via_def now_def s3_def)
  have s3: "faults (snode s3) = faults (snode s)" "calm s3" using s2 by (simp_all add: s3_def calm_def)
  obtain b sh where bs: "event_bucket (EVENT_BUCKET_MINUTES cfg) (event_time e) = Inr b"
    "event_shard (EVENT_SHARDS cfg) (event_id e) = Inr sh"
    using event_bucket_for [OF assms(1)] assms(2) by (auto simp: event_shard_def)
  let ?c = "history_cells e (fst r) (fst (snd r)) None"
  let ?l = "latest_cells e (fst r) (fst (snd r)) (snd (snd r))
    (telemetry_age (wall_clock (snode s2) (ticks (snode s2))) (event_time e)) False False 0 (wall_clock (snode s2) (ticks (snode s2)))"
  obtain s4 where a1: "execute_async (put_row ''events'' (raw_cells e b sh)) s3 = (Inr (outcome (faults (snode s))), s4)"
    "faults (snode s4) = tl (faults (snode s))" "calm s4"
    using execute_async_run [of "put_row ''events'' (raw_cells e b sh)" s3] s3 by auto
  obtain s5 f2 where a2: "execute_async (put_row ''drone_events_by_entity'' ?c) s4 = (Inr f2, s5)"
    "faults (snode s5) = tl (tl (faults (snode s)))" "calm s5"
    using execute_async_run [of "put_row ''drone_events_by_entity'' ?c" s4] a1(2,3) by auto
  obtain s6 f3 where a3: "execute_async (put_row ''drone_latest_status'' ?l) s5 = (Inr f3, s6)"
    "faults (snode s6) = tl (tl (tl (faults (snode s))))" "calm s6"
    using execute_async_run [of "put_row ''drone_latest_status'' ?l" s5] a2(2,3) by auto
  have "process_message cfg v s = (Inr [outcome (faults (snode s)), f2, f3], s6)"
    unfolding process_message_def
    using d(1) tr prox nw bs a1(1) a2(1) a3(1) unfolding s2_def [symmetric]
    by (simp add: bind_def lift_exn_def ret_def s2_def [symmetric] split_beta)
  then show ?thesis using a3(2,3) by (simp add: drop_Suc eval_nat_numeral)
qed

text \<open>
  C10. A failed batch is passed over. The loop does not move the consumer back when a write of a batch
  fails, so the batch that succeeds next commits an offset past it: the records of the failed
  batch are before the committed offset although their writes were not acknowledged, and the
  group is not given them again.
\<close>

theorem failed_batch_is_skipped:
  assumes "consumes K topic pos com"
    and one: "poll K (batch_size cfg) c = (Inr records, c1)" "records \<noteq> []"
      "write_batch cfg records s = (Inr (pending, n), s1)" "list_ex isl pending"
    and two: "poll K (batch_size cfg) c1 = (Inr records', c2)" "records' \<noteq> []"
      "write_batch cfg records' s1 = (Inr (pending', n'), s2)" "\<not> list_ex isl pending'"
    and com: "commit_offsets K c2 = (Inr (), c3)" and forward: "pos c1 p \<le> pos c2 p"
  shows "\<exists>r s3. sink_run cfg K 2 (c, s) = (r, (c3, s3)) \<and> (\<forall>i < pos c1 p. i < com c3 p)"
proof -
  have it1: "sink_iteration cfg K (c, s) = (Inr (), (c1, s1))" using one by (simp add: sink_iteration_def)
  obtain r s3 where aft: "after_commit cfg n' s2 = (r, s3)" by (cases "after_commit cfg n' s2")
  have it2: "sink_iteration cfg K (c1, s1) = (r, (c3, s3))" using two com aft by (simp add: sink_iteration_def)
  have "sink_run cfg K 2 (c, s) = (r, (c3, s3))"
    by (cases r) (simp_all add: eval_nat_numeral bind_def it1 it2 ret_def)
  moreover have "com c3 = pos c2" using assms(1) com unfolding consumes_def by fastforce
  ultimately show ?thesis using forward by auto
qed

lemma batch_of_one:
  assumes "calm s" and "\<And>s. calm s \<Longrightarrow> \<exists>e s'. decode_event demo_config v s = (Inr e, s') \<and> faults (snode s') = faults (snode s) \<and> calm s'"
  shows "\<exists>f2 f3 s'. write_batch demo_config [[v]] s = (Inr ([outcome (faults (snode s)), f2, f3], 1), s') \<and>
    faults (snode s') = drop 3 (faults (snode s)) \<and> calm s'"
proof -
  define s0 where "s0 = s\<lparr>snode := (snode s)\<lparr>ticks := Suc (ticks (snode s))\<rparr>\<rparr>"
  have r: "reload_zones_if_due demo_config s = (Inr (), s0)"
    using assms(1) by (simp add: reload_zones_if_due_def monotonic_def via_def perf_counter_def bind_def gets_def ret_def
        demo_config_def s0_def calm_def)
  have "calm s0" using assms(1) by (simp add: calm_def s0_def)
  from assms(2) [OF this] obtain e s1 where
    "decode_event demo_config v s0 = (Inr e, s1)" "faults (snode s1) = faults (snode s0)" "calm s1" by blast
  then have "\<exists>f2 f3 s'. process_message demo_config v s0 = (Inr [outcome (faults (snode s0)), f2, f3], s') \<and>
      faults (snode s') = drop 3 (faults (snode s0)) \<and> calm s'"
    by (intro process_decoded) (simp_all add: demo_config_def)
  then show ?thesis using r by (auto simp: write_batch_def bind_def ret_def s0_def)
qed

lemma batch_plain:
  assumes "calm s"
  shows "\<exists>f2 f3 s'. write_batch demo_config [[plain_event x]] s = (Inr ([outcome (faults (snode s)), f2, f3], 1), s') \<and>
    faults (snode s') = drop 3 (faults (snode s)) \<and> calm s'"
  by (rule batch_of_one [OF assms]) (simp add: decode_plain Let_def calm_def)

definition calm_sink :: sink where
  "calm_sink = \<lparr>snode = (node_world ''demo'' [] empty_db)\<lparr>faults := replicate 3 (LostBefore ''timed out''), perf_clock := (\<lambda>_. 0)\<rparr>,
     tracker_state = Map.empty, zones = [], loaded = True, last_alert = Map.empty, last_zone_reload = 0,
     total_inserted = 0, window_inserted = 0, last_report = 0\<rparr>"

theorem failed_batch_is_skipped_witness:
  "\<exists>r s3. sink_run demo_config (log_consumer [plain_event ''a'', plain_event ''b'']) 2 ((0, 0), calm_sink) = (r, ((2, 2), s3)) \<and>
    (\<forall>i < at_partition0 1 0. i < at_partition0 2 0)"
proof -
  let ?vs = "[plain_event ''a'', plain_event ''b'']"
  have calm: "calm calm_sink" "faults (snode calm_sink) = replicate 3 (LostBefore ''timed out'')"
    by (simp_all add: calm_sink_def calm_def)
  obtain f2 f3 s1 where one: "write_batch demo_config [[plain_event ''a'']] calm_sink =
      (Inr ([Inl (Exn ''timed out''), f2, f3], 1), s1)" and s1: "faults (snode s1) = []" "calm s1"
    using batch_plain [OF calm(1), of "''a''"] calm(2) by (auto simp: eval_nat_numeral)
  obtain pending n s2 where two: "write_batch demo_config [[plain_event ''b'']] s1 = (Inr (pending, n), s2)"
    using batch_plain [OF s1(2), of "''b''"] by blast
  have ok: "\<not> list_ex isl pending" using yieldsD [OF yields_batch s1(1) two] by simp
  have b: "batch_size demo_config = 1" by (simp add: demo_config_def)
  have "\<exists>r s3. sink_run demo_config (log_consumer ?vs) 2 ((0, 0), calm_sink) = (r, ((2, 2), s3)) \<and>
      (\<forall>i < (at_partition0 \<circ> fst) (1 :: nat, 0 :: nat) 0. i < (at_partition0 \<circ> snd) (2 :: nat, 2 :: nat) 0)"
    by (rule failed_batch_is_skipped [where ?c1.0 = "(1, 0)" and ?c2.0 = "(2, 0)", OF log_consumer_consumes _ _ one _ _ _ two ok])
      (simp_all add: log_consumer_def b at_partition0_def)
  then show ?thesis by simp
qed

lemma demo_uuid: "parse_uuid ''00000000-0000-0000-0000-000000000001'' = Some 1"
proof -
  let ?h = "''00000000000000000000000000000001''"
  have "remove_sub ''uuid:'' (remove_sub ''urn:'' ''00000000-0000-0000-0000-000000000001'') = ''00000000-0000-0000-0000-000000000001''"
    "remove_sub ''-'' ''00000000-0000-0000-0000-000000000001'' = ?h" "hex_int ?h = Some (False, 1)" "length ?h = 32"
    by code_simp+
  then show ?thesis unfolding parse_uuid_def Let_def by simp
qed

definition known_event :: json where
  "known_event = JObj [(''event_id'', JStr ''00000000-0000-0000-0000-000000000001''), (''entity_id'', JStr ''a'')]"

lemma known_identity: "event_identity demo_config known_event = Some (1, 1)"
  by (simp add: event_identity_def known_event_def demo_uuid demo_config_def)

lemma decode_known: "\<exists>e. decode_event demo_config known_event s = (Inr e, s)"
  unfolding decode_event_def known_identity
  by (simp add: known_event_def text_field_def float_field_def lift_exn_def bind_def ret_def Let_def)

theorem committed_means_stored_witness:
  "\<exists>r s'. sink_run demo_config (log_consumer [known_event]) 1 ((0, 0), calm_sink\<lparr>snode := (snode calm_sink)\<lparr>faults := []\<rparr>\<rparr>) =
      (r, ((1, 1), s')) \<and> stored demo_config (rows s') known_event"
proof -
  let ?s = "calm_sink\<lparr>snode := (snode calm_sink)\<lparr>faults := []\<rparr>\<rparr>"
  have calm: "calm ?s" "quiet_sink ?s" by (simp_all add: calm_sink_def calm_def)
  obtain pending s1 where one: "write_batch demo_config [[known_event]] ?s = (Inr (pending, 1), s1)"
    using batch_of_one [OF calm(1), of known_event] decode_known by blast
  have ok: "\<not> list_ex isl pending" using yieldsD [OF yields_batch calm(2) one] by simp
  obtain r s' where aft: "after_commit demo_config 1 s1 = (r, s')" by (metis surj_pair)
  have "batch_size demo_config = 1" by (simp add: demo_config_def)
  then have "sink_iteration demo_config (log_consumer [known_event]) ((0, 0), ?s) = (r, ((1, 1), s'))"
    using one ok aft by (simp add: sink_iteration_def log_consumer_def)
  then have run: "sink_run demo_config (log_consumer [known_event]) 1 ((0, 0), ?s) = (r, ((1, 1), s'))"
    by (cases r) (simp_all add: bind_def ret_def)
  have "stored demo_config (rows s') known_event"
    using committed_means_stored [OF log_consumer_consumes _ _ _ run, of 0 0]
    by (simp add: calm_sink_def stored_upto_def at_partition0_def)
  then show ?thesis using run by simp
qed

theorem replay_rewrites_the_same_row_witness:
  "\<exists>f1 s1' f2 s2' k. process_message demo_config known_event (calm_sink\<lparr>snode := (snode calm_sink)\<lparr>faults := []\<rparr>\<rparr>) = (Inr f1, s1') \<and>
    process_message demo_config known_event s1' = (Inr f2, s2') \<and> raw_key demo_config known_event = Some k \<and>
    has_row (rows s2') ''events'' k \<and> cell (rows s1') ''events'' k ''event_time'' = cell (rows s2') ''events'' k ''event_time''"
proof -
  let ?s = "calm_sink\<lparr>snode := (snode calm_sink)\<lparr>faults := []\<rparr>\<rparr>"
  have run: "\<exists>f s'. process_message demo_config known_event s = (Inr f, s') \<and> \<not> list_ex isl f \<and> calm s' \<and> quiet_sink s'"
    if s: "calm s" "quiet_sink s" for s
  proof -
    obtain e where "decode_event demo_config known_event s = (Inr e, s)" using decode_known by blast
    then obtain f s' where r: "process_message demo_config known_event s = (Inr f, s')" "calm s'"
      using process_decoded [of demo_config known_event s e s] s by (auto simp: demo_config_def)
    then show ?thesis using yieldsD [OF yields_process s(2) r(1)] by blast
  qed
  have "calm ?s" "quiet_sink ?s" by (simp_all add: calm_sink_def calm_def)
  from run [OF this] obtain f1 s1' where one: "process_message demo_config known_event ?s = (Inr f1, s1')"
    "\<not> list_ex isl f1" "calm s1'" "quiet_sink s1'" by blast
  from run [OF one(3,4)] obtain f2 s2' where two: "process_message demo_config known_event s1' = (Inr f2, s2')"
    "\<not> list_ex isl f2" by blast
  have "''event_time'' \<in> set (map fst (columns (events_table ''events'')))" by (simp add: events_table_def)
  then show ?thesis
    using replay_rewrites_the_same_row [OF known_identity one(1,2) two] one(1) two(1) by blast
qed

end
