(* ===== verification/Corpus.thy ===== *)
theory Corpus
  imports Pystr "HOL-Library.Code_Target_Nat"
begin

text \<open>
  The text payloads of the producer (\<open>TextSampler\<close> of \<open>src/ingress/producer/producer.py\<close>): a few
  adjacent sentences from a memory-mapped file, found by two bounded scans around an offset.

  A byte of the file is a character of HOL; the text decoded from them is a list of code points,
  because a corpus holds more than the 256 characters of HOL. Not under \<open>src/\<close>, and so parameters:
  the files there are, and the numbers numpy draws for a seed.
\<close>

section \<open>Definitions\<close>

record sampler =
  mm :: string
  max_back :: nat
  max_fwd :: nat

definition text_sampler :: "(string \<Rightarrow> string option) \<Rightarrow> string \<Rightarrow> nat \<Rightarrow> nat \<Rightarrow> exn + sampler" where
  "text_sampler files path max_scan_back max_scan_fwd =
    (case files path of
       None \<Rightarrow>
         (let hint = (if starts_with (rev ''enwik9'') (rev path)
            then ''; the image is built without it, so rebuild with --build-arg FETCH_ENWIK9=1 or leave TEXT_FILE at /app/wikipedia.txt''
            else [])
          in Inl (Exn (''TEXT_FILE '' @ path @ '' is not in this image'' @ hint)))
     | Some bytes \<Rightarrow>
         if bytes = [] then Inl (Exn ''cannot mmap an empty file'')
         else Inr \<lparr>mm = bytes, max_back = max_scan_back, max_fwd = max_scan_fwd\<rparr>)"

definition terminator :: "char \<Rightarrow> bool" where
  "terminator c \<longleftrightarrow> c \<in> set ''.?!''"

definition boundary :: "char \<Rightarrow> bool" where
  "boundary c \<longleftrightarrow> terminator c \<or> c = CHR 10"

fun scan_back :: "string \<Rightarrow> nat \<Rightarrow> nat option" where
  "scan_back window 0 = None"
| "scan_back window (Suc i) = (if boundary (window ! i) then Some i else scan_back window i)"

definition find_sentence_start :: "sampler \<Rightarrow> nat \<Rightarrow> nat" where
  "find_sentence_start ts pos =
    (let start = pos - max_back ts; window = slice start pos (mm ts)
     in case scan_back window (length window) of Some i \<Rightarrow> start + i + 1 | None \<Rightarrow> start)"

fun scan_fwd :: "nat \<Rightarrow> nat \<Rightarrow> nat \<Rightarrow> string \<Rightarrow> nat option" where
  "scan_fwd n_sent found i [] = None"
| "scan_fwd n_sent found i (c # window) =
    (if terminator c
     then (if n_sent \<le> Suc found then Some (i + 1) else scan_fwd n_sent (Suc found) (i + 1) window)
     else scan_fwd n_sent found (i + 1) window)"

text \<open>\<open>bytes.decode("utf-8", errors="ignore")\<close>: a sequence that is not well formed loses its lead byte,
  and the continuation bytes left over are then not well formed either.\<close>

definition continuation :: "nat \<Rightarrow> bool" where
  "continuation b \<longleftrightarrow> 128 \<le> b \<and> b < 192"

fun utf8_multi :: "nat \<Rightarrow> nat list \<Rightarrow> (nat \<times> nat) option" where
  "utf8_multi a (b # s) =
    (if \<not> continuation b then None
     else if 194 \<le> a \<and> a \<le> 223 then Some ((a - 192) * 64 + (b - 128), 1)
     else case s of [] \<Rightarrow> None
     | c # s \<Rightarrow>
         if \<not> continuation c then None
         else if 224 \<le> a \<and> a \<le> 239 \<and> (a = 224 \<longrightarrow> 160 \<le> b) \<and> (a = 237 \<longrightarrow> b < 160)
         then Some ((a - 224) * 4096 + (b - 128) * 64 + (c - 128), 2)
         else case s of [] \<Rightarrow> None
         | d # s \<Rightarrow>
             if continuation d \<and> 240 \<le> a \<and> a \<le> 244 \<and> (a = 240 \<longrightarrow> 144 \<le> b) \<and> (a = 244 \<longrightarrow> b < 144)
             then Some ((a - 240) * 262144 + (b - 128) * 4096 + (c - 128) * 64 + (d - 128), 3)
             else None)"
| "utf8_multi a [] = None"

function utf8_ignore :: "nat list \<Rightarrow> nat list" where
  "utf8_ignore [] = []"
| "utf8_ignore (a # s) =
    (if a < 128 then a # utf8_ignore s
     else case utf8_multi a s of None \<Rightarrow> utf8_ignore s | Some (cp, n) \<Rightarrow> cp # utf8_ignore (drop n s))"
  by pat_completeness auto
termination by (relation "measure length") auto

definition space_point :: "nat \<Rightarrow> bool" where
  "space_point p \<longleftrightarrow> 9 \<le> p \<and> p \<le> 13 \<or> 28 \<le> p \<and> p \<le> 32 \<or> p = 133 \<or> p = 160 \<or> p = 5760 \<or>
     8192 \<le> p \<and> p \<le> 8202 \<or> p = 8232 \<or> p = 8233 \<or> p = 8239 \<or> p = 8287 \<or> p = 12288"

definition strip_points :: "nat list \<Rightarrow> nat list" where
  "strip_points t = rev (dropWhile space_point (rev (dropWhile space_point t)))"

definition take_sentences :: "sampler \<Rightarrow> nat \<Rightarrow> nat \<Rightarrow> nat list" where
  "take_sentences ts pos n_sent =
    (let window = slice pos (min (length (mm ts)) (pos + max_fwd ts)) (mm ts);
         cut = (case scan_fwd n_sent 0 0 window of Some c \<Rightarrow> c | None \<Rightarrow> length window)
     in strip_points (utf8_ignore (map code_of (take cut window))))"

text \<open>\<open>t.split()\<close> and \<open>" ".join(ws)\<close> over code points.\<close>

definition split_points :: "nat list \<Rightarrow> nat list list" where
  "split_points t = filter (\<lambda>w. w \<noteq> [])
     (foldr (\<lambda>p ws. if space_point p then [] # ws else case ws of w # ws \<Rightarrow> (p # w) # ws | [] \<Rightarrow> [[p]]) t [[]])"

fun join_points :: "nat list list \<Rightarrow> nat list" where
  "join_points [] = []"
| "join_points [w] = w"
| "join_points (w # v # ws) = w @ 32 # join_points (v # ws)"

definition extract_stable :: "sampler \<Rightarrow> nat \<Rightarrow> nat \<Rightarrow> nat list" where
  "extract_stable ts pos n_sent =
    (let start = find_sentence_start ts pos in join_points (split_points (take_sentences ts start n_sent)))"

text \<open>The two entry points; \<open>draw\<close> is what numpy's generator of that seed gives, a number of sentences
  in 1 to 3 and an offset in the file.\<close>

definition sample :: "nat \<times> nat \<Rightarrow> sampler \<Rightarrow> nat option \<Rightarrow> nat list" where
  "sample drawn ts n_sent =
    (if length (mm ts) < 32 then []
     else extract_stable ts (snd drawn) (case n_sent of Some n \<Rightarrow> n | None \<Rightarrow> fst drawn))"

definition sample_stable :: "(int \<Rightarrow> nat \<times> nat) \<Rightarrow> sampler \<Rightarrow> int \<Rightarrow> nat list" where
  "sample_stable draw ts seed =
    (if length (mm ts) < 32 then [] else case draw seed of (n_sent, pos) \<Rightarrow> extract_stable ts pos n_sent)"

section \<open>Lemmas\<close>

lemma scan_back_Some: "scan_back w n = Some i \<Longrightarrow> i < n \<and> boundary (w ! i) \<and> (\<forall>j. i < j \<and> j < n \<longrightarrow> \<not> boundary (w ! j))"
  by (induction n) (auto split: if_splits simp: less_Suc_eq)

lemma scan_back_None: "scan_back w n = None \<Longrightarrow> \<forall>j < n. \<not> boundary (w ! j)"
  by (induction n) (auto split: if_splits simp: less_Suc_eq)

text \<open>The sentence starts at most \<open>max_back\<close> bytes before the offset, right after a boundary or there.\<close>

lemma find_sentence_start_bounds:
  assumes "pos \<le> length (mm ts)"
  shows "pos - max_back ts \<le> find_sentence_start ts pos" and "find_sentence_start ts pos \<le> pos"
    and "find_sentence_start ts pos = pos - max_back ts \<or> boundary (mm ts ! (find_sentence_start ts pos - 1))"
    and "\<And>i. find_sentence_start ts pos \<le> i \<Longrightarrow> i < pos \<Longrightarrow> \<not> boundary (mm ts ! i)"
proof -
  define w where "w = slice (pos - max_back ts) pos (mm ts)"
  have len: "length w = pos - (pos - max_back ts)" and nth: "\<And>i. i < length w \<Longrightarrow> w ! i = mm ts ! (pos - max_back ts + i)"
    using assms by (simp_all add: w_def slice_def)
  consider (found) i where "scan_back w (length w) = Some i" "find_sentence_start ts pos = pos - max_back ts + i + 1"
    | (none) "scan_back w (length w) = None" "find_sentence_start ts pos = pos - max_back ts"
    by (cases "scan_back w (length w)") (auto simp: find_sentence_start_def Let_def w_def)
  then have "pos - max_back ts \<le> find_sentence_start ts pos \<and> find_sentence_start ts pos \<le> pos \<and>
      (find_sentence_start ts pos = pos - max_back ts \<or> boundary (mm ts ! (find_sentence_start ts pos - 1))) \<and>
      (\<forall>i. find_sentence_start ts pos \<le> i \<and> i < pos \<longrightarrow> \<not> boundary (mm ts ! i))"
  proof cases
    case found
    note b = scan_back_Some [OF found(1)]
    have "\<not> boundary (mm ts ! k)" if "pos - max_back ts + i + 1 \<le> k" "k < pos" for k
    proof -
      have "i < k - (pos - max_back ts)" "k - (pos - max_back ts) < length w" using that len by auto
      moreover from this have "w ! (k - (pos - max_back ts)) = mm ts ! k" using that by (simp add: nth)
      ultimately show ?thesis using b by metis
    qed
    moreover have "boundary (mm ts ! (pos - max_back ts + i))" using b nth by metis
    moreover have "pos - max_back ts + i + 1 \<le> pos" using b len by linarith
    ultimately show ?thesis using found(2) by auto
  next
    case none
    have "\<not> boundary (mm ts ! k)" if "pos - max_back ts \<le> k" "k < pos" for k
    proof -
      have "k - (pos - max_back ts) < length w" using that len by auto
      moreover from this have "w ! (k - (pos - max_back ts)) = mm ts ! k" using that by (simp add: nth)
      ultimately show ?thesis using scan_back_None [OF none(1)] by metis
    qed
    then show ?thesis using none(2) by auto
  qed
  then show "pos - max_back ts \<le> find_sentence_start ts pos" "find_sentence_start ts pos \<le> pos"
    "find_sentence_start ts pos = pos - max_back ts \<or> boundary (mm ts ! (find_sentence_start ts pos - 1))"
    "\<And>i. find_sentence_start ts pos \<le> i \<Longrightarrow> i < pos \<Longrightarrow> \<not> boundary (mm ts ! i)" by blast+
qed

abbreviation terminators :: "string \<Rightarrow> nat" where
  "terminators s \<equiv> length (filter terminator s)"

lemma scan_fwd_terminators:
  "found < n \<Longrightarrow> (case scan_fwd n found i w of
      Some c \<Rightarrow> i < c \<and> c \<le> i + length w \<and> found + terminators (take (c - i) w) = n
    | None \<Rightarrow> found + terminators w < n)"
proof (induction n found i w rule: scan_fwd.induct)
  case (2 n found i c w)
  consider "\<not> terminator c" | "terminator c" "n \<le> Suc found" | "terminator c" "Suc found < n" by linarith
  then show ?case
  proof cases
    case 1
    then show ?thesis using 2 by (auto split: option.splits simp: take_Cons')
  next
    case 2
    then show ?thesis using \<open>found < n\<close> by simp
  next
    case 3
    then show ?thesis using "2.IH"(1) by (auto split: option.splits simp: take_Cons')
  qed
qed simp

abbreviation point_terminator :: "nat \<Rightarrow> bool" where
  "point_terminator p \<equiv> p = 46 \<or> p = 63 \<or> p = 33"

lemma terminator_point: "terminator c \<longleftrightarrow> point_terminator (code_of c)"
  by (cases c) (auto simp: terminator_def char_code)

lemma utf8_multi_points:
  "utf8_multi a s = Some (cp, n) \<Longrightarrow> 128 \<le> cp \<and> n \<le> length s \<and> list_all continuation (take n s)"
  by (induction a s rule: utf8_multi.induct) (auto simp: continuation_def split: if_splits list.splits)

lemma utf8_terminators:
  "filter point_terminator (utf8_ignore s) = filter point_terminator s \<and> length (utf8_ignore s) \<le> length s"
proof (induction s rule: utf8_ignore.induct)
  case (2 a s)
  show ?case
  proof (cases "a < 128 \<or> utf8_multi a s = None")
    case True
    then show ?thesis using 2 by (auto simp: le_SucI)
  next
    case False
    then obtain cp n where m: "\<not> a < 128" "utf8_multi a s = Some (cp, n)" by auto
    note f = utf8_multi_points [OF m(2)]
    have "filter point_terminator (take n s) = []"
      using f by (auto simp: filter_empty_conv list_all_iff continuation_def)
    moreover have "filter point_terminator (take n s @ drop n s) = filter point_terminator (take n s) @ filter point_terminator (drop n s)"
      by (rule filter_append)
    ultimately have "filter point_terminator (drop n s) = filter point_terminator s" by (simp only: append_take_drop_id append_Nil)
    moreover have "length (drop n s) \<le> length s" by simp
    ultimately show ?thesis using "2.IH"(3) [OF m(1,2) refl] m f by simp linarith
  qed
qed simp

abbreviation raw_split :: "nat list \<Rightarrow> nat list list" where
  "raw_split t \<equiv> foldr (\<lambda>p ws. if space_point p then [] # ws else case ws of w # ws \<Rightarrow> (p # w) # ws | [] \<Rightarrow> [[p]]) t [[]]"

lemma raw_split:
  "raw_split t \<noteq> [] \<and> sum_list (map length (raw_split t)) + length (raw_split t) = Suc (length t) \<and>
   (\<forall>w \<in> set (raw_split t). \<forall>p \<in> set w. \<not> space_point p) \<and>
   filter (\<lambda>p. \<not> space_point p) t = concat (raw_split t)"
  by (induction t) (auto split: list.splits)

lemma concat_nonempty: "concat (filter (\<lambda>w. w \<noteq> []) ws) = concat ws"
  by (induction ws) auto

lemma join_points_length: "length (join_points ws) = sum_list (map length ws) + (length ws - 1)"
  by (induction ws rule: join_points.induct) auto

lemma join_points_filter: "\<not> P 32 \<Longrightarrow> filter P (join_points ws) = filter P (concat ws)"
  by (induction ws rule: join_points.induct) auto

lemma sum_nonempty: "sum_list (map length (filter (\<lambda>w. w \<noteq> []) ws)) = sum_list (map length ws)"
  by (induction ws) auto

lemma words_of_points:
  defines "out \<equiv> \<lambda>t. join_points (split_points t)"
  shows "length (out t) \<le> length t" and "filter point_terminator (out t) = filter point_terminator t"
    and "\<forall>w \<in> set (split_points t). w \<noteq> [] \<and> (\<forall>p \<in> set w. \<not> space_point p)"
proof -
  note r = raw_split [of t]
  have "length (filter (\<lambda>w. w \<noteq> []) (raw_split t)) \<le> length (raw_split t)" by simp
  moreover have "1 \<le> length (raw_split t)" using r by (cases "raw_split t") auto
  ultimately show "length (out t) \<le> length t"
    unfolding out_def join_points_length split_points_def sum_nonempty using r by linarith
  have "filter point_terminator t = filter point_terminator (filter (\<lambda>p. \<not> space_point p) t)"
    unfolding filter_filter by (rule filter_cong) (auto simp: space_point_def)
  also have "\<dots> = filter point_terminator (concat (split_points t))"
    using r by (simp add: split_points_def concat_nonempty)
  finally show "filter point_terminator (out t) = filter point_terminator t"
    by (simp add: out_def join_points_filter)
  show "\<forall>w \<in> set (split_points t). w \<noteq> [] \<and> (\<forall>p \<in> set w. \<not> space_point p)"
    using r by (auto simp: split_points_def)
qed

lemma strip_points_parts: "\<exists>a b. t = a @ strip_points t @ b \<and> list_all space_point a \<and> list_all space_point b"
proof -
  let ?u = "dropWhile space_point t"
  have "t = takeWhile space_point t @ ?u" by simp
  moreover have "?u = rev (dropWhile space_point (rev ?u)) @ rev (takeWhile space_point (rev ?u))"
    by (metis rev_append rev_rev_ident takeWhile_dropWhile_id)
  ultimately have "t = takeWhile space_point t @ strip_points t @ rev (takeWhile space_point (rev ?u))"
    by (simp add: strip_points_def)
  moreover have "list_all space_point (takeWhile space_point xs)" for xs by (induction xs) auto
  ultimately show ?thesis by (metis list_all_rev)
qed

lemma take_sentences_bounds:
  assumes "1 \<le> n"
  shows "length (take_sentences ts pos n) \<le> max_fwd ts" and "length (filter point_terminator (take_sentences ts pos n)) \<le> n"
proof -
  define w where "w = slice pos (min (length (mm ts)) (pos + max_fwd ts)) (mm ts)"
  define cut where "cut = (case scan_fwd n 0 0 w of Some c \<Rightarrow> c | None \<Rightarrow> length w)"
  define t where "t = utf8_ignore (map code_of (take cut w))"
  have ts: "take_sentences ts pos n = strip_points t" unfolding take_sentences_def Let_def t_def cut_def w_def ..
  obtain a b where ab: "t = a @ strip_points t @ b" using strip_points_parts by blast
  have "length w \<le> max_fwd ts" by (simp add: w_def slice_def)
  moreover have "length t \<le> length w" using utf8_terminators [of "map code_of (take cut w)"] by (simp add: t_def)
  moreover have "length t = length a + length (strip_points t) + length b" by (subst ab) simp
  ultimately show "length (take_sentences ts pos n) \<le> max_fwd ts" by (simp add: ts)
  have "terminators (take cut w) \<le> n"
    using scan_fwd_terminators [where found = 0 and n = n and i = 0 and w = w] assms by (auto simp: cut_def split: option.splits)
  moreover have "length (filter point_terminator t) = terminators (take cut w)"
    using utf8_terminators [of "map code_of (take cut w)"] by (simp add: t_def filter_map comp_def terminator_point [abs_def])
  moreover have "length (filter point_terminator t) = length (filter point_terminator a) +
      length (filter point_terminator (strip_points t)) + length (filter point_terminator b)" by (subst ab) simp
  ultimately show "length (filter point_terminator (take_sentences ts pos n)) \<le> n" by (simp add: ts)
qed

section \<open>Properties\<close>

text \<open>
  Property. A payload is bounded and tidy. For an offset in the file and a positive number of sentences, the
  text is at most \<open>max_fwd\<close> characters with at most that many sentence ends, made of non-empty words
  without white space set apart by single spaces; it is read from a place at most \<open>max_back\<close> bytes
  before the offset with no sentence boundary between, which follows a boundary or is as far back
  as the scan goes. A file shorter than 32 bytes gives the empty text.
\<close>

theorem payload_is_bounded:
  assumes "draw seed = (n, pos)" and "1 \<le> n" and "pos < length (mm ts)"
  shows "\<exists>ws start. sample_stable draw ts seed = join_points ws \<and>
    (\<forall>w \<in> set ws. w \<noteq> [] \<and> (\<forall>p \<in> set w. \<not> space_point p)) \<and>
    length (join_points ws) \<le> max_fwd ts \<and> length (filter point_terminator (join_points ws)) \<le> n \<and>
    (length (mm ts) < 32 \<longrightarrow> ws = []) \<and>
    (32 \<le> length (mm ts) \<longrightarrow> ws = split_points (take_sentences ts start n)) \<and>
    pos - max_back ts \<le> start \<and> start \<le> pos \<and>
    (start = pos - max_back ts \<or> boundary (mm ts ! (start - 1))) \<and>
    (\<forall>i. start \<le> i \<and> i < pos \<longrightarrow> \<not> boundary (mm ts ! i))"
proof -
  define start where "start = find_sentence_start ts pos"
  define ws where "ws = (if length (mm ts) < 32 then [] else split_points (take_sentences ts start n))"
  have "sample_stable draw ts seed = join_points ws"
    using assms(1) by (simp add: sample_stable_def extract_stable_def ws_def start_def Let_def)
  moreover have "length (join_points ws) \<le> max_fwd ts" "length (filter point_terminator (join_points ws)) \<le> n"
    using words_of_points(1,2) [of "take_sentences ts start n"] take_sentences_bounds [OF assms(2), of ts start]
    by (auto simp: ws_def intro: order.trans)
  moreover have "\<forall>w \<in> set ws. w \<noteq> [] \<and> (\<forall>p \<in> set w. \<not> space_point p)"
    using words_of_points(3) by (simp add: ws_def)
  ultimately show ?thesis
    using find_sentence_start_bounds [OF less_imp_le [OF assms(3)], folded start_def]
    by (intro exI [of _ ws] exI [of _ start]) (simp add: ws_def)
qed

definition short_text :: sampler where
  "short_text = \<lparr>mm = ''One ends here. Two  goes on! Three follows.'', max_back = 2048, max_fwd = 4096\<rparr>"

lemma short_text_sample:
  "sample_stable (\<lambda>_. (1, 20)) short_text 7 = map code_of ''Two goes on!''"
  by code_simp

theorem payload_is_bounded_witness:
  "sample_stable (\<lambda>_. (1, 20)) short_text 7 = map code_of ''Two goes on!'' \<and>
   length (filter point_terminator (sample_stable (\<lambda>_. (1, 20)) short_text 7)) \<le> 1"
proof -
  have "(20 :: nat) < length (mm short_text)" by (simp add: short_text_def)
  from payload_is_bounded [of "\<lambda>_. (1, 20)" 7 1 20, OF refl _ this]
  show ?thesis using short_text_sample by auto
qed

end
