(* ===== verification/Generator.thy ===== *)
theory Generator
  imports Geometry Calendar
begin

text \<open>
  The simulated fleet of the producer (\<open>FleetConfig\<close> and \<open>FleetState\<close> of
  \<open>src/ingress/producer/producer.py\<close>): its arrays, their initialisation and the vectorised step that
  advances the entities of a batch.

  A numpy array is a list; \<open>xs[ids]\<close> reads every position before anything is written and
  \<open>xs[ids] = vs\<close> writes in order, so an entity that is twice in a batch keeps the last value. numpy's
  generator is a parameter: two endless sequences, uniform on [0, 1) and standard normal, read in
  turn. Numbers are reals, so the rounding of \<open>float32\<close> is outside the model.
\<close>

section \<open>Configuration and arrays\<close>

record fleet_config =
  n_entities :: nat
  center_lat :: real
  center_lon :: real
  lat_spread_deg :: real
  lon_spread_deg :: real
  scale_m_min :: real
  scale_m_max :: real
  speed_mps_min :: real
  speed_mps_max :: real
  drift_frac_max :: real
  pos_noise_tau_s :: real
  pos_noise_sigma_m :: real
  alt_base_min :: real
  alt_base_max :: real
  alt_amp_min :: real
  alt_amp_max :: real
  alt_period_min_s :: real
  alt_period_max_s :: real
  alt_noise_tau_s :: real
  alt_noise_sigma_m :: real
  isa_lapse_c_per_km :: real
  internal_tau_s :: real
  internal_base_delta_c :: real
  internal_load_delta_c :: real
  internal_noise_sigma_c :: real
  anomaly_dur_min_s :: real
  anomaly_dur_max_s :: real
  anomaly_delta_min_c :: real
  anomaly_delta_max_c :: real

definition default_fleet_config :: fleet_config where
  "default_fleet_config = \<lparr>n_entities = 5000, center_lat = 59.91, center_lon = 10.75, lat_spread_deg = 0.06,
     lon_spread_deg = 0.12, scale_m_min = 500, scale_m_max = 50000, speed_mps_min = 6, speed_mps_max = 24,
     drift_frac_max = 0.30, pos_noise_tau_s = 10, pos_noise_sigma_m = 1.5, alt_base_min = 30, alt_base_max = 200,
     alt_amp_min = 0, alt_amp_max = 80, alt_period_min_s = 40, alt_period_max_s = 180, alt_noise_tau_s = 25,
     alt_noise_sigma_m = 0.6, isa_lapse_c_per_km = 6.5, internal_tau_s = 45, internal_base_delta_c = 8,
     internal_load_delta_c = 12, internal_noise_sigma_c = 0.05, anomaly_dur_min_s = 10, anomaly_dur_max_s = 60,
     anomaly_delta_min_c = 15, anomaly_delta_max_c = 40\<rparr>"

text \<open>What is drawn once, and what a step changes.\<close>

record fleet_plan =
  cfg :: fleet_config
  t0 :: real
  lat0 :: "real list"
  lon0 :: "real list"
  inv_m_per_deg_lon :: "real list"
  observer_ids :: "string list"
  scale :: "real list"
  speed_ref :: "real list"
  w1 :: "real list"
  w2 :: "real list"
  phi1 :: "real list"
  phi2 :: "real list"
  phi3 :: "real list"
  phi4 :: "real list"
  drift_x :: "real list"
  drift_y :: "real list"
  t_offset :: "real list"
  alt_base :: "real list"
  alt_amp :: "real list"
  w_alt :: "real list"
  phi_alt :: "real list"

record rng =
  uniforms :: "nat \<Rightarrow> real"
  normals :: "nat \<Rightarrow> real"
  drawn :: nat

record fleet_state =
  plan :: fleet_plan
  rng :: rng
  noise_x :: "real list"
  noise_y :: "real list"
  noise_alt :: "real list"
  last_t :: "real list"
  x_prev :: "real list"
  y_prev :: "real list"
  alt_prev :: "real list"
  temp_in :: "real list"
  anom_end :: "real list"
  anom_delta :: "real list"
  text_cache :: "string list"
  next_text_t :: "real list"
  text_revision :: "int list"

definition uniform :: "real \<Rightarrow> real \<Rightarrow> nat \<Rightarrow> rng \<Rightarrow> real list \<times> rng" where
  "uniform a b n g = (map (\<lambda>k. a + (b - a) * uniforms g (drawn g + k)) [0..<n], g\<lparr>drawn := drawn g + n\<rparr>)"

definition normal :: "real \<Rightarrow> real \<Rightarrow> nat \<Rightarrow> rng \<Rightarrow> real list \<times> rng" where
  "normal mu sigma n g = (map (\<lambda>k. mu + sigma * normals g (drawn g + k)) [0..<n], g\<lparr>drawn := drawn g + n\<rparr>)"

definition INV_M_PER_DEG_LAT :: real where
  "INV_M_PER_DEG_LAT = 1 / 111320"

section \<open>Initialisation\<close>

definition observer_name :: "nat \<Rightarrow> nat \<Rightarrow> string" where
  "observer_name n i = ''observer-'' @ pad0 4 (min (i div 100) (max 1 (n div 100) - 1))"

definition plan_fleet :: "fleet_config \<Rightarrow> real \<Rightarrow> rng \<Rightarrow> fleet_plan \<times> rng" where
  "plan_fleet c t g0 =
    (let n = n_entities c;
         (lat0, g1) = uniform (center_lat c - lat_spread_deg c) (center_lat c + lat_spread_deg c) n g0;
         (lon0, g2) = uniform (center_lon c - lon_spread_deg c) (center_lon c + lon_spread_deg c) n g1;
         (scale, g3) = uniform (scale_m_min c) (scale_m_max c) n g2;
         (speed_ref, g4) = uniform (speed_mps_min c) (speed_mps_max c) n g3;
         (f1, g5) = uniform 0.6 1.4 n g4;
         w1 = map (\<lambda>i. speed_ref ! i / scale ! i * f1 ! i) [0..<n];
         (f2, g6) = uniform 1.4 2.3 n g5;
         w2 = map (\<lambda>i. w1 ! i * f2 ! i) [0..<n];
         (phi1, g7) = uniform 0 (2 * pi) n g6;
         (phi2, g8) = uniform 0 (2 * pi) n g7;
         (phi3, g9) = uniform 0 (2 * pi) n g8;
         (phi4, g10) = uniform 0 (2 * pi) n g9;
         (frac, g11) = uniform 0 (drift_frac_max c) n g10;
         (ang, g12) = uniform 0 (2 * pi) n g11;
         (t_offset, g13) = uniform 0 10000 n g12;
         (alt_base, g14) = uniform (alt_base_min c) (alt_base_max c) n g13;
         (alt_amp, g15) = uniform (alt_amp_min c) (alt_amp_max c) n g14;
         (alt_period, g16) = uniform (alt_period_min_s c) (alt_period_max_s c) n g15;
         (phi_alt, g17) = uniform 0 (2 * pi) n g16
     in (\<lparr>cfg = c, t0 = t, lat0 = lat0, lon0 = lon0,
          inv_m_per_deg_lon = map (\<lambda>i. 1 / (111320 * max 0.2 (cos (radians (lat0 ! i))))) [0..<n],
          observer_ids = map (observer_name n) [0..<n], scale = scale, speed_ref = speed_ref, w1 = w1, w2 = w2,
          phi1 = phi1, phi2 = phi2, phi3 = phi3, phi4 = phi4,
          drift_x = map (\<lambda>i. speed_ref ! i * frac ! i * cos (ang ! i)) [0..<n],
          drift_y = map (\<lambda>i. speed_ref ! i * frac ! i * sin (ang ! i)) [0..<n],
          t_offset = t_offset, alt_base = alt_base, alt_amp = alt_amp, w_alt = map (\<lambda>p. 2 * pi / p) alt_period,
          phi_alt = phi_alt\<rparr>, g17))"

definition init_fleet :: "fleet_config \<Rightarrow> real \<Rightarrow> rng \<Rightarrow> fleet_state" where
  "init_fleet c t g =
    (case plan_fleet c t g of (p, g') \<Rightarrow>
      (let n = n_entities c; zeros = replicate n (0 :: real)
       in \<lparr>plan = p, rng = g', noise_x = zeros, noise_y = zeros, noise_alt = zeros, last_t = replicate n t,
           x_prev = zeros, y_prev = zeros, alt_prev = alt_base p, temp_in = replicate n 25, anom_end = zeros,
           anom_delta = zeros, text_cache = replicate n [], next_text_t = zeros, text_revision = replicate n 0\<rparr>))"

section \<open>One step\<close>

definition at_ids :: "'a list \<Rightarrow> nat list \<Rightarrow> 'a list" where
  "at_ids xs ids = map (nth xs) ids"

definition set_ids :: "nat list \<Rightarrow> 'a list \<Rightarrow> 'a list \<Rightarrow> 'a list" where
  "set_ids ids vs xs = fold (\<lambda>(i, v) xs. xs[i := v]) (zip ids vs) xs"

definition clip :: "real \<Rightarrow> real \<Rightarrow> real \<Rightarrow> real" where
  "clip lo hi x = min (max x lo) hi"

definition ou_step :: "real list \<Rightarrow> real list \<Rightarrow> real \<Rightarrow> real \<Rightarrow> rng \<Rightarrow> real list \<times> rng" where
  "ou_step xs dt tau sigma g =
    (let tau = max (1 / 10 ^ 6) tau; (zs, g') = normal 0 1 (length xs) g
     in (map (\<lambda>k. xs ! k * exp (- dt ! k / tau) + sigma * sqrt (1 - exp (- 2 * dt ! k / tau)) * zs ! k) [0..<length xs], g'))"

text \<open>\<open>datetime.fromtimestamp(ts, tz=utc)\<close> rounds to microseconds; \<open>tm_yday\<close> counts from 1.\<close>

definition from_timestamp :: "real \<Rightarrow> datetime" where
  "from_timestamp ts = utc_fields (round_half_even (ts * 10 ^ 6))"

definition tm_yday :: "datetime \<Rightarrow> int" where
  "tm_yday f = days_before_month (is_leap (year f)) (month f) + day f"

definition external_temp_c :: "fleet_config \<Rightarrow> real list \<Rightarrow> real list \<Rightarrow> real \<Rightarrow> rng \<Rightarrow> real list \<times> rng" where
  "external_temp_c c lat alt_m now_ts g =
    (let dt_utc = from_timestamp now_ts;
         doy = of_int (tm_yday dt_utc);
         hour = of_int (hour dt_utc) + of_int (minute dt_utc) / 60;
         m = length lat;
         t_lat = map (\<lambda>x. clip (-35) 38 (30 - 0.7 * \<bar>x\<bar>)) lat;
         season = cos (2 * pi * (doy - 173) / 365);
         t_season = map (\<lambda>x. 10 * season * sgn x) lat;
         t_diurnal = 5 * sin (2 * pi * (hour - 14) / 24);
         (weather, g1) = normal 0 0.5 m g;
         (sensor, g2) = normal 0 0.3 m g1
     in (map (\<lambda>k. t_lat ! k + t_season ! k + t_diurnal + weather ! k
             - isa_lapse_c_per_km c * (alt_m ! k / 1000) + sensor ! k) [0..<m], g2))"

definition anomaly_rate_per_s :: "fleet_config \<Rightarrow> real \<Rightarrow> real" where
  "anomaly_rate_per_s c outlier_fraction =
    (let target = min (max outlier_fraction 0) 0.99;
         mean_duration_s = (anomaly_dur_min_s c + anomaly_dur_max_s c) / 2
     in if target \<le> 0 then 0 else target / (mean_duration_s * (1 - target)))"

text \<open>The telemetry of a batch, position by position.\<close>

record readings =
  r_lat :: "real list"
  r_lon :: "real list"
  r_z :: "real list"
  r_ext :: "real list"
  r_in :: "real list"
  r_text :: "string list"

definition masked :: "nat list \<Rightarrow> bool list \<Rightarrow> nat list" where
  "masked ids flags = map fst (filter snd (zip ids flags))"

text \<open>The positions of the batch: the noise advanced, the path, latitude, longitude and altitude.\<close>

record moved =
  m_x :: "real list"
  m_y :: "real list"
  m_alt :: "real list"
  m_lat :: "real list"
  m_lon :: "real list"

definition move :: "nat list \<Rightarrow> real \<Rightarrow> real list \<Rightarrow> fleet_state \<Rightarrow> moved \<times> fleet_state" where
  "move ids now_ts dt s =
    (let p = plan s; c = cfg p;
         t = map (\<lambda>i. now_ts - t0 p + t_offset p ! i) ids;
         (nx, g1) = ou_step (at_ids (noise_x s) ids) dt (pos_noise_tau_s c) (pos_noise_sigma_m c) (rng s);
         noise_x' = set_ids ids nx (noise_x s);
         (ny, g2) = ou_step (at_ids (noise_y s) ids) dt (pos_noise_tau_s c) (pos_noise_sigma_m c) g1;
         noise_y' = set_ids ids ny (noise_y s);
         (na, g3) = ou_step (at_ids (noise_alt s) ids) dt (alt_noise_tau_s c) (alt_noise_sigma_m c) g2;
         noise_alt' = set_ids ids na (noise_alt s);
         x = map (\<lambda>(i, t). drift_x p ! i * t +
               scale p ! i * (sin (w1 p ! i * t + phi1 p ! i) + 0.5 * sin (w2 p ! i * t + phi2 p ! i)) + noise_x' ! i) (zip ids t);
         y = map (\<lambda>(i, t). drift_y p ! i * t +
               scale p ! i * (cos (w1 p ! i * t + phi3 p ! i) + 0.5 * cos (w2 p ! i * t + phi4 p ! i)) + noise_y' ! i) (zip ids t);
         alt = map (\<lambda>(i, t). clip 5 600 (alt_base p ! i + alt_amp p ! i * sin (w_alt p ! i * t + phi_alt p ! i) + noise_alt' ! i))
           (zip ids t);
         lat = map (\<lambda>(i, y). clip (-85) 85 (lat0 p ! i + y * INV_M_PER_DEG_LAT)) (zip ids y);
         lon = map (\<lambda>(i, x). fmod (lon0 p ! i + x * inv_m_per_deg_lon p ! i + 180) 360 - 180) (zip ids x)
     in (\<lparr>m_x = x, m_y = y, m_alt = alt, m_lat = lat, m_lon = lon\<rparr>,
         s\<lparr>rng := g3, noise_x := noise_x', noise_y := noise_y', noise_alt := noise_alt'\<rparr>))"

text \<open>The proxy for the load, from the distance to the last position of each entity.\<close>

definition load_of :: "nat list \<Rightarrow> real \<Rightarrow> real list \<Rightarrow> moved \<Rightarrow> fleet_state \<Rightarrow> real list \<times> fleet_state" where
  "load_of ids now_ts dt m s =
    (let n = length ids;
         dx = map (\<lambda>k. m_x m ! k - x_prev s ! (ids ! k)) [0..<n];
         dy = map (\<lambda>k. m_y m ! k - y_prev s ! (ids ! k)) [0..<n];
         da = map (\<lambda>k. m_alt m ! k - alt_prev s ! (ids ! k)) [0..<n];
         speed = map (\<lambda>k. sqrt (dx ! k * dx ! k + dy ! k * dy ! k) / dt ! k) [0..<n];
         climb = map (\<lambda>k. da ! k / dt ! k) [0..<n]
     in (map (\<lambda>k. clip 0 1 (0.4 * (speed ! k / max (speed_ref (plan s) ! (ids ! k)) (1 / 1000)) + 0.6 * (\<bar>climb ! k\<bar> / 3))) [0..<n],
         s\<lparr>x_prev := set_ids ids (m_x m) (x_prev s), y_prev := set_ids ids (m_y m) (y_prev s),
           alt_prev := set_ids ids (m_alt m) (alt_prev s), last_t := set_ids ids (replicate n now_ts) (last_t s)\<rparr>))"

text \<open>Anomalies that start in this step, and what those under way add.\<close>

definition anomalies :: "real \<Rightarrow> nat list \<Rightarrow> real \<Rightarrow> real list \<Rightarrow> fleet_state \<Rightarrow> real list \<times> fleet_state" where
  "anomalies outlier_fraction ids now_ts dt s =
    (let c = cfg (plan s); n = length ids;
         p_start = map (\<lambda>d. 1 - exp (- anomaly_rate_per_s c outlier_fraction * d)) dt;
         (u, g1) = uniform 0 1 n (rng s);
         start_mask = map (\<lambda>k. u ! k < p_start ! k \<and> anom_end s ! (ids ! k) \<le> now_ts) [0..<n];
         idxs = masked ids start_mask;
         (dur, g2) = uniform (anomaly_dur_min_s c) (anomaly_dur_max_s c) (length idxs) g1;
         (delta, g3) = uniform (anomaly_delta_min_c c) (anomaly_delta_max_c c) (length idxs) g2;
         anom_end' = set_ids idxs (map (\<lambda>d. now_ts + d) dur) (anom_end s);
         anom_delta' = set_ids idxs delta (anom_delta s)
     in (map (\<lambda>i. if now_ts < anom_end' ! i then anom_delta' ! i else 0) ids,
         s\<lparr>rng := g3, anom_end := anom_end', anom_delta := anom_delta'\<rparr>))"

definition heat :: "nat list \<Rightarrow> real list \<Rightarrow> real list \<Rightarrow> real list \<Rightarrow> real list \<Rightarrow> fleet_state \<Rightarrow> fleet_state" where
  "heat ids dt temp_ext load extra s =
    (let c = cfg (plan s); n = length ids;
         alpha = map (\<lambda>d. 1 - exp (- d / internal_tau_s c)) dt;
         target = map (\<lambda>k. temp_ext ! k + internal_base_delta_c c + internal_load_delta_c c * load ! k + extra ! k) [0..<n];
         (z, g1) = normal 0 (internal_noise_sigma_c c) n (rng s);
         temp = map (\<lambda>k. temp_in s ! (ids ! k) + alpha ! k * (target ! k - temp_in s ! (ids ! k)) + z ! k) [0..<n]
     in s\<lparr>rng := g1, temp_in := set_ids ids temp (temp_in s)\<rparr>)"

text \<open>A text is refreshed on the entity and its refresh count, entity by entity.\<close>

fun refresh_loop :: "(int \<Rightarrow> string) \<Rightarrow> nat list \<Rightarrow> string list \<Rightarrow> int list \<Rightarrow> string list \<times> int list" where
  "refresh_loop sampler [] cache revision = (cache, revision)"
| "refresh_loop sampler (i # idxs) cache revision =
    (let revision = revision[i := revision ! i + 1]
     in refresh_loop sampler idxs (cache[i := sampler (int i * 1000003 + revision ! i)]) revision)"

definition refresh_texts :: "(int \<Rightarrow> string) option \<Rightarrow> real \<times> real \<Rightarrow> nat list \<Rightarrow> real \<Rightarrow> fleet_state \<Rightarrow> string list \<times> fleet_state" where
  "refresh_texts text_sampler text_refresh_range_s ids now_ts s =
    (case text_sampler of
       None \<Rightarrow> (replicate (length ids) [], s)
     | Some sampler \<Rightarrow>
         (let idxs = masked ids (map (\<lambda>i. next_text_t s ! i \<le> now_ts) ids);
              (cache, revision) = refresh_loop sampler idxs (text_cache s) (text_revision s);
              (u, g1) = uniform (fst text_refresh_range_s) (snd text_refresh_range_s) (length idxs) (rng s)
          in (at_ids cache ids,
              s\<lparr>rng := g1, text_cache := cache, text_revision := revision,
                next_text_t := set_ids idxs (map (\<lambda>d. now_ts + d) u) (next_text_t s)\<rparr>)))"

definition step ::
  "(int \<Rightarrow> string) option \<Rightarrow> real \<times> real \<Rightarrow> real \<Rightarrow> nat list \<Rightarrow> real \<Rightarrow> (fleet_state, readings) pm" where
  "step text_sampler text_refresh_range_s outlier_fraction ids now_ts s =
    (if \<not> list_all (\<lambda>i. i < length (last_t s)) ids then (Inl (Exn ''index is out of bounds''), s)
     else let dt = map (\<lambda>i. clip (1 / 1000) 2 (now_ts - last_t s ! i)) ids;
              (m, s1) = move ids now_ts dt s;
              (load, s2) = load_of ids now_ts dt m s1;
              (temp_ext, g) = external_temp_c (cfg (plan s2)) (m_lat m) (m_alt m) now_ts (rng s2);
              (extra, s3) = anomalies outlier_fraction ids now_ts dt (s2\<lparr>rng := g\<rparr>);
              s4 = heat ids dt temp_ext load extra s3;
              (texts, s5) = refresh_texts text_sampler text_refresh_range_s ids now_ts s4
          in (Inr \<lparr>r_lat = m_lat m, r_lon = m_lon m, r_z = m_alt m, r_ext = temp_ext,
                r_in = at_ids (temp_in s5) ids, r_text = texts\<rparr>, s5))"

section \<open>Lemmas\<close>

lemma uniform_simps [simp]:
  "length (fst (uniform a b n g)) = n" "uniform a b n g = (xs, g') \<Longrightarrow> length xs = n"
  by (auto simp: uniform_def)

lemma normal_simps [simp]:
  "length (fst (normal a b n g)) = n" "normal a b n g = (xs, g') \<Longrightarrow> length xs = n"
  by (auto simp: normal_def)

lemma ou_step_length [simp]: "ou_step xs dt tau sigma g = (ys, g') \<Longrightarrow> length ys = length xs"
  by (auto simp: ou_step_def Let_def split: prod.splits)

lemma at_ids_length [simp]: "length (at_ids xs ids) = length ids"
  by (simp add: at_ids_def)

lemma set_ids_length [simp]: "length (set_ids ids vs xs) = length xs"
proof -
  have "length (fold (\<lambda>(i, v) xs. xs[i := v]) ps xs) = length xs" for ps :: "(nat \<times> 'a) list" and xs
    by (induction ps arbitrary: xs) auto
  then show ?thesis by (simp add: set_ids_def)
qed

lemma set_ids_nth:
  assumes "i < length xs"
  shows "i \<notin> fst ` set (zip ids vs) \<and> set_ids ids vs xs ! i = xs ! i \<or> (i, set_ids ids vs xs ! i) \<in> set (zip ids vs)"
proof -
  have "i \<notin> fst ` set ps \<and> fold (\<lambda>(i, v) xs. xs[i := v]) ps xs ! i = xs ! i \<or>
      (i, fold (\<lambda>(i, v) xs. xs[i := v]) ps xs ! i) \<in> set ps"
    if "i < length xs" for ps :: "(nat \<times> 'a) list" and xs
    using that
  proof (induction ps arbitrary: xs)
    case (Cons p ps)
    obtain j v where p: "p = (j, v)" by (cases p)
    show ?case using Cons.IH [of "xs[j := v]"] Cons.prems by (cases "j = i") (auto simp: p)
  qed simp
  then show ?thesis using assms by (simp add: set_ids_def)
qed

lemma clip_bounds: "lo \<le> hi \<Longrightarrow> lo \<le> clip lo hi x \<and> clip lo hi x \<le> hi"
  by (auto simp: clip_def)

text \<open>Every array of the fleet has one entry per entity.\<close>

definition plan_ok :: "nat \<Rightarrow> fleet_plan \<Rightarrow> bool" where
  "plan_ok n p \<longleftrightarrow> length (lat0 p) = n \<and> length (lon0 p) = n \<and> length (inv_m_per_deg_lon p) = n \<and>
     length (observer_ids p) = n \<and> length (scale p) = n \<and> length (speed_ref p) = n \<and> length (w1 p) = n \<and>
     length (w2 p) = n \<and> length (phi1 p) = n \<and> length (phi2 p) = n \<and> length (phi3 p) = n \<and> length (phi4 p) = n \<and>
     length (drift_x p) = n \<and> length (drift_y p) = n \<and> length (t_offset p) = n \<and> length (alt_base p) = n \<and>
     length (alt_amp p) = n \<and> length (w_alt p) = n \<and> length (phi_alt p) = n"

definition fleet_ok :: "nat \<Rightarrow> fleet_state \<Rightarrow> bool" where
  "fleet_ok n s \<longleftrightarrow> plan_ok n (plan s) \<and> length (noise_x s) = n \<and> length (noise_y s) = n \<and> length (noise_alt s) = n \<and>
     length (last_t s) = n \<and> length (x_prev s) = n \<and> length (y_prev s) = n \<and> length (alt_prev s) = n \<and>
     length (temp_in s) = n \<and> length (anom_end s) = n \<and> length (anom_delta s) = n \<and> length (text_cache s) = n \<and>
     length (next_text_t s) = n \<and> length (text_revision s) = n"

lemma init_fleet_ok: "fleet_ok (n_entities c) (init_fleet c t g)"
proof -
  obtain p g' where p: "plan_fleet c t g = (p, g')" by (metis surj_pair)
  then have "plan_ok (n_entities c) p"
    by (auto simp: plan_fleet_def plan_ok_def uniform_def Let_def)
  then show ?thesis using p by (simp add: init_fleet_def fleet_ok_def Let_def plan_ok_def)
qed

definition in_range :: "nat \<Rightarrow> readings \<Rightarrow> bool" where
  "in_range m r \<longleftrightarrow> length (r_lat r) = m \<and> length (r_lon r) = m \<and> length (r_z r) = m \<and> length (r_ext r) = m \<and>
     length (r_in r) = m \<and> length (r_text r) = m \<and>
     (\<forall>x \<in> set (r_lat r). -85 \<le> x \<and> x \<le> 85) \<and> (\<forall>x \<in> set (r_lon r). -180 \<le> x \<and> x < 180) \<and>
     (\<forall>x \<in> set (r_z r). 5 \<le> x \<and> x \<le> 600)"

lemma move_ok:
  assumes "move ids t dt s = (m, s')" and "fleet_ok n s" and "length dt = length ids"
  shows "fleet_ok n s'" and "plan s' = plan s" and "anom_end s' = anom_end s" and "anom_delta s' = anom_delta s"
    and "length (m_lat m) = length ids \<and> length (m_lon m) = length ids \<and> length (m_alt m) = length ids"
    and "(\<forall>x \<in> set (m_lat m). -85 \<le> x \<and> x \<le> 85) \<and> (\<forall>x \<in> set (m_lon m). -180 \<le> x \<and> x < 180) \<and>
      (\<forall>x \<in> set (m_alt m). 5 \<le> x \<and> x \<le> 600)"
proof -
  have lon: "-180 \<le> fmod x 360 - 180 \<and> fmod x 360 - 180 < 180" for x using fmod_bounds [of 360 x] by simp
  show "fleet_ok n s'" "plan s' = plan s" "anom_end s' = anom_end s" "anom_delta s' = anom_delta s"
    "length (m_lat m) = length ids \<and> length (m_lon m) = length ids \<and> length (m_alt m) = length ids"
    using assms by (auto simp: move_def Let_def fleet_ok_def split: prod.splits)
  show "(\<forall>x \<in> set (m_lat m). -85 \<le> x \<and> x \<le> 85) \<and> (\<forall>x \<in> set (m_lon m). -180 \<le> x \<and> x < 180) \<and>
      (\<forall>x \<in> set (m_alt m). 5 \<le> x \<and> x \<le> 600)"
    using assms(1) lon clip_bounds by (auto simp: move_def Let_def split: prod.splits)
qed

lemma load_of_ok:
  assumes "load_of ids t dt m s = (l, s')" and "fleet_ok n s"
  shows "fleet_ok n s' \<and> plan s' = plan s \<and> anom_end s' = anom_end s \<and> anom_delta s' = anom_delta s"
  using assms by (auto simp: load_of_def Let_def fleet_ok_def)

lemma anomalies_ok:
  assumes "anomalies f ids t dt s = (x, s')" and "fleet_ok n s"
  shows "fleet_ok n s' \<and> plan s' = plan s"
  using assms by (auto simp: anomalies_def Let_def fleet_ok_def split: prod.splits)

lemma heat_ok:
  assumes "fleet_ok n s"
  shows "fleet_ok n (heat ids dt te l x s) \<and> plan (heat ids dt te l x s) = plan s \<and>
    anom_end (heat ids dt te l x s) = anom_end s \<and> anom_delta (heat ids dt te l x s) = anom_delta s"
  using assms by (auto simp: heat_def Let_def fleet_ok_def split: prod.splits)

lemma refresh_loop_length:
  "refresh_loop f ids c r = (c', r') \<Longrightarrow> length c' = length c \<and> length r' = length r"
  by (induction f ids c r rule: refresh_loop.induct) (auto simp: Let_def)

lemma refresh_texts_ok:
  assumes "refresh_texts ts rr ids t s = (xs, s')" and "fleet_ok n s"
  shows "fleet_ok n s' \<and> plan s' = plan s \<and> anom_end s' = anom_end s \<and> anom_delta s' = anom_delta s \<and>
    temp_in s' = temp_in s \<and> length xs = length ids"
  using assms by (auto simp: refresh_texts_def Let_def fleet_ok_def split: prod.splits option.splits dest: refresh_loop_length)

lemma external_temp_length: "external_temp_c c lat alt t g = (xs, g') \<Longrightarrow> length xs = length lat"
  by (auto simp: external_temp_c_def Let_def split: prod.splits)

text \<open>One step of a well-formed fleet: what it returns, and that the fleet stays well formed. The fleet just
  before the anomalies differs from the one before the step in nothing they read.\<close>

lemma step_parts:
  assumes "fleet_ok n s" and "\<forall>i \<in> set ids. i < n"
  obtains r s' dt sa sb x where "step ts rr f ids t s = (Inr r, s')" and "in_range (length ids) r" and "fleet_ok n s'"
    and "plan s' = plan s" and "anomalies f ids t dt sa = (x, sb)" and "fleet_ok n sa" and "plan sa = plan s"
    and "uniforms (rng sa) = uniforms (rng s)"
    and "anom_end sa = anom_end s" and "anom_delta sa = anom_delta s" and "anom_end s' = anom_end sb"
    and "anom_delta s' = anom_delta sb"
proof -
  define dt where "dt = map (\<lambda>i. clip (1 / 1000) 2 (t - last_t s ! i)) ids"
  have dt: "length dt = length ids" by (simp add: dt_def)
  obtain m s1 where 1: "move ids t dt s = (m, s1)" by (metis surj_pair)
  obtain l s2 where 2: "load_of ids t dt m s1 = (l, s2)" by (metis surj_pair)
  obtain te g where 3: "external_temp_c (cfg (plan s2)) (m_lat m) (m_alt m) t (rng s2) = (te, g)" by (metis surj_pair)
  obtain x s3 where 4: "anomalies f ids t dt (s2\<lparr>rng := g\<rparr>) = (x, s3)" by (metis surj_pair)
  define s4 where "s4 = heat ids dt te l x s3"
  obtain tx s5 where 5: "refresh_texts ts rr ids t s4 = (tx, s5)" by (metis surj_pair)
  note ok1 = move_ok [OF 1 assms(1) dt]
  note ok2 = load_of_ok [OF 2 ok1(1)]
  have ok2': "fleet_ok n (s2\<lparr>rng := g\<rparr>)" using conjunct1 [OF ok2] by (simp add: fleet_ok_def)
  note ok3 = anomalies_ok [OF 4 ok2']
  note ok4 = heat_ok [of n s3 ids dt te l x, OF conjunct1 [OF ok3], folded s4_def]
  note ok5 = refresh_texts_ok [OF 5 conjunct1 [OF ok4]]
  have "uniforms g = uniforms (rng s)"
  proof -
    have "uniforms (rng s1) = uniforms (rng s)"
      using 1 by (auto simp: move_def ou_step_def normal_def Let_def)
    moreover have "rng s2 = rng s1" using 2 by (auto simp: load_of_def Let_def)
    moreover have "uniforms g = uniforms (rng s2)" using 3 by (auto simp: external_temp_c_def normal_def Let_def)
    ultimately show ?thesis by simp
  qed
  define r where "r = \<lparr>r_lat = m_lat m, r_lon = m_lon m, r_z = m_alt m, r_ext = te, r_in = at_ids (temp_in s5) ids, r_text = tx\<rparr>"
  have "list_all (\<lambda>i. i < length (last_t s)) ids" using assms by (simp add: list_all_iff fleet_ok_def)
  then have run: "step ts rr f ids t s = (Inr r, s5)"
    using 1 2 3 4 5 by (simp add: step_def dt_def [symmetric] s4_def r_def)
  have "in_range (length ids) r"
    using ok1(5,6) ok5 external_temp_length [OF 3] by (simp add: in_range_def r_def)
  then show ?thesis
    using that [OF run _ conjunct1 [OF ok5] _ 4 ok2' ] ok1 ok2 ok3 ok4 ok5 \<open>uniforms g = uniforms (rng s)\<close> by simp
qed

lemma fleet_run:
  assumes "fleet_ok n s" and "list_all (\<lambda>(ids, t). \<forall>i \<in> set ids. i < n) batches"
  shows "\<exists>rs s'. map_pm (\<lambda>(ids, t). step ts rr f ids t) batches s = (Inr rs, s') \<and> fleet_ok n s' \<and>
    list_all2 (\<lambda>(ids, t) r. in_range (length ids) r) batches rs"
  using assms
proof (induction batches arbitrary: s)
  case (Cons b batches)
  obtain ids t where b: "b = (ids, t)" by (cases b)
  have "\<forall>i \<in> set ids. i < n" using Cons.prems(2) by (simp add: b)
  from step_parts [OF Cons.prems(1) this, of ts rr f t]
  obtain r s1 where r: "step ts rr f ids t s = (Inr r, s1)" "in_range (length ids) r" "fleet_ok n s1" by blast
  from Cons.IH [OF r(3)] Cons.prems(2) obtain rs s2 where
    "map_pm (\<lambda>(ids, t). step ts rr f ids t) batches s1 = (Inr rs, s2)" "fleet_ok n s2"
    "list_all2 (\<lambda>(ids, t) r. in_range (length ids) r) batches rs" by auto
  then show ?case using r by (auto simp: b bind_def ret_def)
qed (simp add: ret_def)

section \<open>Properties\<close>

text \<open>
  C22. The telemetry of the simulated fleet is in range: over any sequence of batches of entities the
  fleet has, repeated ones included, no step fails, every array of a batch has one value per
  position, latitudes are in [-85, 85], longitudes in [-180, 180) and altitudes in [5, 600],
  whatever is drawn, and every array of the fleet keeps one entry per entity.
\<close>

theorem fleet_telemetry_in_range:
  assumes "list_all (\<lambda>(ids, t). \<forall>i \<in> set ids. i < n_entities c) batches"
  shows "\<exists>rs s'. map_pm (\<lambda>(ids, t). step sampler range_s f ids t) batches (init_fleet c start g) = (Inr rs, s') \<and>
    fleet_ok (n_entities c) s' \<and> list_all2 (\<lambda>(ids, t) r. in_range (length ids) r) batches rs"
  by (rule fleet_run [OF init_fleet_ok assms])

definition still_rng :: rng where
  "still_rng = \<lparr>uniforms = (\<lambda>_. 0), normals = (\<lambda>_. 0), drawn = 0\<rparr>"

theorem fleet_telemetry_in_range_witness:
  "\<exists>rs s'. map_pm (\<lambda>(ids, t). step None (5, 30) 0.05 ids t) [([0, 1, 0], 1), ([2], 2)]
     (init_fleet (default_fleet_config\<lparr>n_entities := 3\<rparr>) 0 still_rng) = (Inr rs, s') \<and> length rs = 2"
  using fleet_telemetry_in_range [of "default_fleet_config\<lparr>n_entities := 3\<rparr>" "[([0, 1, 0], 1), ([2], 2)]" None "(5, 30)" "0.05" 0 still_rng]
  by (auto dest!: list_all2_lengthD)

text \<open>
  Property. The arrival rate of anomalies is the one the target asks for: with a mean duration \<open>d\<close> and
  arrivals at that rate \<open>r\<close>, the long-run share \<open>r d / (1 + r d)\<close> of hot entities is the outlier
  fraction, cut to [0, 0.99].
\<close>

theorem anomaly_rate_balances:
  assumes "0 < anomaly_dur_min_s c + anomaly_dur_max_s c"
  shows "let r = anomaly_rate_per_s c f; d = (anomaly_dur_min_s c + anomaly_dur_max_s c) / 2
    in r * d / (1 + r * d) = min (max f 0) 0.99 \<and> 0 \<le> r"
proof -
  define d where "d = (anomaly_dur_min_s c + anomaly_dur_max_s c) / 2"
  define target where "target = min (max f 0) (0.99 :: real)"
  have d: "0 < d" using assms by (simp add: d_def)
  have t: "0 \<le> target" "target < 1" by (auto simp: target_def)
  have "r * d / (1 + r * d) = target \<and> 0 \<le> r" if r: "r = (if target \<le> 0 then 0 else target / (d * (1 - target)))" for r
  proof (cases "target \<le> 0")
    case False
    have "r * d = target / (1 - target)" using d t False by (simp add: r)
    moreover have "1 + target / (1 - target) = 1 / (1 - target)" using t by (simp add: field_simps)
    ultimately show ?thesis using d t False by (simp add: r)
  qed (use t in \<open>simp add: r\<close>)
  then show ?thesis unfolding Let_def anomaly_rate_per_s_def d_def [symmetric] target_def [symmetric] by blast
qed

theorem anomaly_rate_balances_witness:
  "anomaly_rate_per_s default_fleet_config (1 / 2) * 35 / (1 + anomaly_rate_per_s default_fleet_config (1 / 2) * 35) = 1 / 2"
  using anomaly_rate_balances [of default_fleet_config "1 / 2"] by (simp add: Let_def default_fleet_config_def)

text \<open>
  Property. Anomalies have the durations they are given and are left alone until they end: when the uniform
  draws are in [0, 1), a step leaves the end of every anomaly that is still under way, and what it
  adds, as they were, and sets the end of any other entity only to a time between the least and
  the greatest duration from now.
\<close>

theorem anomaly_runs_its_course:
  assumes "fleet_ok n s" and "\<forall>i \<in> set ids. i < n" and "e < n"
    and "\<forall>k. 0 \<le> uniforms (rng s) k \<and> uniforms (rng s) k < 1"
    and "anomaly_dur_min_s (cfg (plan s)) \<le> anomaly_dur_max_s (cfg (plan s))"
    and "step sampler range_s f ids now_ts s = (Inr r, s')"
  shows "(anom_end s' ! e = anom_end s ! e \<and> anom_delta s' ! e = anom_delta s ! e) \<or>
    (anom_end s ! e \<le> now_ts \<and> e \<in> set ids \<and> now_ts + anomaly_dur_min_s (cfg (plan s)) \<le> anom_end s' ! e \<and>
     anom_end s' ! e \<le> now_ts + anomaly_dur_max_s (cfg (plan s)))"
proof -
  obtain dt sa sb x where a: "anomalies f ids now_ts dt sa = (x, sb)" "fleet_ok n sa" "plan sa = plan s"
    "uniforms (rng sa) = uniforms (rng s)" "anom_end sa = anom_end s" "anom_delta sa = anom_delta s"
    "anom_end s' = anom_end sb" "anom_delta s' = anom_delta sb"
    using step_parts [OF assms(1,2), of sampler range_s f now_ts] assms(6) by (metis Inr_inject prod.inject)
  define c where "c = cfg (plan s)"
  define u where "u = fst (uniform 0 1 (length ids) (rng sa))"
  define g1 where "g1 = snd (uniform 0 1 (length ids) (rng sa))"
  define p where "p = map (\<lambda>d. 1 - exp (- anomaly_rate_per_s c f * d)) dt"
  define idxs where "idxs = masked ids (map (\<lambda>k. u ! k < p ! k \<and> anom_end s ! (ids ! k) \<le> now_ts) [0..<length ids])"
  define dur where "dur = fst (uniform (anomaly_dur_min_s c) (anomaly_dur_max_s c) (length idxs) g1)"
  define g2 where "g2 = snd (uniform (anomaly_dur_min_s c) (anomaly_dur_max_s c) (length idxs) g1)"
  define delta where "delta = fst (uniform (anomaly_delta_min_c c) (anomaly_delta_max_c c) (length idxs) g2)"
  have sb: "anom_end sb = set_ids idxs (map (\<lambda>d. now_ts + d) dur) (anom_end s)" "anom_delta sb = set_ids idxs delta (anom_delta s)"
    using a(1,3,5,6) by (auto simp: anomalies_def Let_def u_def g1_def p_def idxs_def dur_def g2_def delta_def c_def split_beta)
  have len: "length dur = length idxs" "length delta = length idxs" "e < length (anom_end s)" "e < length (anom_delta s)"
    using assms(1,3) by (simp_all add: dur_def delta_def fleet_ok_def)
  have idx: "i \<in> set ids \<and> anom_end s ! i \<le> now_ts" if "i \<in> set idxs" for i
    using that by (auto simp: idxs_def masked_def set_zip in_set_conv_nth)
  have durs: "anomaly_dur_min_s c \<le> d \<and> d \<le> anomaly_dur_max_s c" if d_in: "d \<in> set dur" for d
  proof -
    have "uniforms g1 = uniforms (rng s)" using a(4) by (simp add: g1_def uniform_def)
    then obtain k where d: "d = anomaly_dur_min_s c + (anomaly_dur_max_s c - anomaly_dur_min_s c) * uniforms (rng s) k"
      using d_in by (auto simp: dur_def uniform_def)
    have "0 \<le> uniforms (rng s) k" "uniforms (rng s) k \<le> 1" using assms(4) less_imp_le by blast+
    moreover from this have "(anomaly_dur_max_s c - anomaly_dur_min_s c) * uniforms (rng s) k \<le> anomaly_dur_max_s c - anomaly_dur_min_s c"
      using assms(5) by (simp add: c_def mult_left_le)
    ultimately show ?thesis using assms(5) by (simp add: d c_def)
  qed
  show ?thesis
  proof (cases "e \<in> set idxs")
    case True
    moreover have "map fst (zip idxs (map (\<lambda>d. now_ts + d) dur)) = idxs" using len by (simp only: map_fst_zip length_map)
    ultimately have "e \<in> fst ` set (zip idxs (map (\<lambda>d. now_ts + d) dur))" by (metis set_map)
    then have "(e, anom_end s' ! e) \<in> set (zip idxs (map (\<lambda>d. now_ts + d) dur))"
      using set_ids_nth [OF len(3), of idxs "map (\<lambda>d. now_ts + d) dur"] a(7) sb(1) by auto
    then obtain d where "d \<in> set dur" "anom_end s' ! e = now_ts + d" by (auto dest!: set_zip_rightD)
    then show ?thesis using idx [OF True] durs by (auto simp: c_def)
  next
    case False
    then have "(e, y) \<notin> set (zip idxs ys)" for y :: real and ys by (auto dest: set_zip_leftD)
    then show ?thesis
      using set_ids_nth [OF len(3), of idxs "map (\<lambda>d. now_ts + d) dur"] set_ids_nth [OF len(4), of idxs delta] a(7,8) sb by auto
  qed
qed

theorem anomaly_runs_its_course_witness:
  "\<exists>r s'. step None (5, 30) (1 / 20) [0] 1 (init_fleet (default_fleet_config\<lparr>n_entities := 1\<rparr>) 0 still_rng) = (Inr r, s') \<and>
     (anom_end s' ! 0 = 0 \<or> 11 \<le> anom_end s' ! 0 \<and> anom_end s' ! 0 \<le> 61)"
proof -
  let ?c = "default_fleet_config\<lparr>n_entities := 1\<rparr>"
  let ?s = "init_fleet ?c 0 still_rng"
  have ok: "fleet_ok 1 ?s" using init_fleet_ok [of ?c 0 still_rng] by simp
  have "\<forall>i \<in> set [0]. i < (1 :: nat)" by simp
  from step_parts [OF ok this, of None "(5, 30)" "1 / 20" 1]
  obtain r s' where step: "step None (5, 30) (1 / 20) [0] 1 ?s = (Inr r, s')" by blast
  have "cfg (plan ?s) = ?c" "anom_end ?s ! 0 = 0" "uniforms (rng ?s) = (\<lambda>_. 0)"
    by (simp_all add: init_fleet_def plan_fleet_def Let_def split_beta uniform_def still_rng_def)
  then show ?thesis
    using anomaly_runs_its_course [OF ok _ _ _ _ step, of 0] step by (auto simp: default_fleet_config_def)
qed

end
