(* ===== verification/Producer.thy ===== *)
theory Producer
  imports Generator Json Cql
begin

text \<open>
  The producer (\<open>src/ingress/producer/producer.py\<close>): what it reads from its environment, the demo
  controls it polls from the backend (\<open>LiveSettings\<close>, \<open>_poll_settings\<close>) and the loop of \<open>main\<close> that
  paces, stamps and sends the events of the fleet.

  Not under \<open>src/\<close>, and so parameters: the identifiers \<open>uuid_from_time\<close> makes, the answers of the
  settings endpoint, the outcome of each \<open>send\<close> and the clock, which a sleep moves on by at least what
  was asked and a reading by any amount that is not negative.
\<close>

section \<open>Environment\<close>

type_synonym environment = "string \<Rightarrow> string option"

definition env_int :: "environment \<Rightarrow> string \<Rightarrow> int \<Rightarrow> int" where
  "env_int env name d = (case env name of None \<Rightarrow> d | Some v \<Rightarrow> (case py_int v of Some i \<Rightarrow> i | None \<Rightarrow> d))"

definition env_float :: "environment \<Rightarrow> string \<Rightarrow> real \<Rightarrow> real" where
  "env_float env name d = (case env name of None \<Rightarrow> d | Some v \<Rightarrow> (case py_float v of Some x \<Rightarrow> x | None \<Rightarrow> d))"

definition env_str :: "environment \<Rightarrow> string \<Rightarrow> string \<Rightarrow> string" where
  "env_str env name d = (case env name of None \<Rightarrow> d | Some v \<Rightarrow> if v = [] then d else v)"

section \<open>Live settings\<close>

record live_settings =
  events_per_sec :: int
  live_entities :: int
  outlier_percent :: real
  paused :: bool

definition snapshot :: "live_settings \<Rightarrow> int \<times> int \<times> real \<times> bool" where
  "snapshot l = (events_per_sec l, live_entities l, outlier_percent l, paused l)"

text \<open>Each assignment takes effect before the next value is converted.\<close>

definition apply_settings :: "json \<Rightarrow> (live_settings, unit) pm" where
  "apply_settings payload =
    bind (gets (\<lambda>l. JInt (events_per_sec l))) (\<lambda>d. bind (lift_exn (get_or payload ''events_per_sec'' d)) (\<lambda>v.
    bind (lift_exn (int_of v)) (\<lambda>i. bind (modify (\<lambda>l. l\<lparr>events_per_sec := max 1 i\<rparr>)) (\<lambda>_.
    bind (gets (\<lambda>l. JInt (live_entities l))) (\<lambda>d. bind (lift_exn (get_or payload ''drones_enabled'' d)) (\<lambda>v.
    bind (lift_exn (int_of v)) (\<lambda>i. bind (modify (\<lambda>l. l\<lparr>live_entities := max 1 i\<rparr>)) (\<lambda>_.
    bind (gets (\<lambda>l. JFloat (outlier_percent l))) (\<lambda>d. bind (lift_exn (get_or payload ''outlier_percent'' d)) (\<lambda>v.
    bind (lift_exn (float_of v)) (\<lambda>x. bind (modify (\<lambda>l. l\<lparr>outlier_percent := x\<rparr>)) (\<lambda>_.
    bind (gets (\<lambda>l. JBool (paused l))) (\<lambda>d. bind (lift_exn (get_or payload ''paused'' d)) (\<lambda>v.
      modify (\<lambda>l. l\<lparr>paused := truthy v\<rparr>)))))))))))))))"

text \<open>One round of the polling thread: the answer is a failure of the request or a decoded body.\<close>

definition poll_settings :: "exn + json \<Rightarrow> (live_settings, unit) pm" where
  "poll_settings answer =
    try_except
      (bind (lift_exn answer) (\<lambda>body. bind (lift_exn (get_or body ''settings'' (JObj []))) apply_settings))
      (\<lambda>_. ret ())"

section \<open>Start-up\<close>

record producer_config =
  start_live :: live_settings
  max_entities :: nat
  fleet_cfg :: fleet_config
  period_s :: real
  text_refresh :: "real \<times> real"
  report_every_s :: real

definition configure :: "environment \<Rightarrow> producer_config" where
  "configure env =
    (let live = \<lparr>events_per_sec = max 1 (env_int env ''EVENTS_PER_SEC'' 5), live_entities = max 1 (env_int env ''N_ENTITIES'' 100),
           outlier_percent = env_float env ''OUTLIER_PERCENT'' 5, paused = False\<rparr>;
         most = nat (max (live_entities live) (env_int env ''MAX_ENTITIES'' 2000))
     in \<lparr>start_live = live, max_entities = most,
         fleet_cfg = default_fleet_config\<lparr>n_entities := most,
           center_lat := env_float env ''FLEET_CENTER_LAT'' 59.91, center_lon := env_float env ''FLEET_CENTER_LON'' 10.75,
           lat_spread_deg := env_float env ''FLEET_LAT_SPREAD_DEG'' 0.06,
           lon_spread_deg := env_float env ''FLEET_LON_SPREAD_DEG'' 0.12\<rparr>,
         period_s = of_int (max 5 (env_int env ''BATCH_PERIOD_MS'' 50)) / 1000,
         text_refresh = (env_float env ''TEXT_REFRESH_MIN_S'' 5, env_float env ''TEXT_REFRESH_MAX_S'' 30),
         report_every_s = env_float env ''REPORT_EVERY_S'' 5\<rparr>)"

definition asset_id :: "nat \<Rightarrow> string" where
  "asset_id i = ''asset-'' @ pad0 6 i"

definition EVENT_TYPES :: "string list" where
  "EVENT_TYPES = [''telemetry_update'', ''position_report'', ''temperature_reading'', ''status_check'', ''health_monitor'',
     ''sensor_data'', ''diagnostic_report'', ''performance_metric'', ''environmental_scan'', ''system_heartbeat'',
     ''operational_status'', ''maintenance_alert'', ''calibration_check'', ''power_status'', ''connectivity_test'',
     ''data_sync'', ''threshold_check'', ''routine_inspection'', ''compliance_report'', ''activity_log'']"

section \<open>The loop\<close>

record producer =
  live :: live_settings
  fleet :: fleet_state
  ptr :: nat
  owed :: real
  total_sent :: nat
  window_sent :: nat
  last_report :: real
  outbox :: "(string \<times> real \<times> json) list"
  sends :: "exn option list"
  wall :: real
  drift :: "nat \<Rightarrow> real"
  reads :: nat
  minted :: nat

text \<open>What \<open>main\<close> is given besides its configuration: the texts of the sampler, if there is one, and the
  identifiers.\<close>

record outside =
  texts :: "(int \<Rightarrow> string) option"
  uuid_from_time :: "nat \<Rightarrow> real \<Rightarrow> nat"

definition time_time :: "(producer, real) pm" where
  "time_time = (\<lambda>s. let t = wall s + drift s (reads s) in (Inr t, s\<lparr>wall := t, reads := Suc (reads s)\<rparr>))"

definition sleep :: "real \<Rightarrow> (producer, unit) pm" where
  "sleep d = (\<lambda>s. (Inr (), s\<lparr>wall := wall s + d + drift s (reads s), reads := Suc (reads s)\<rparr>))"

text \<open>\<open>producer.send\<close>: the message with its key, beside the time its identifier was made for.\<close>

definition send :: "string \<Rightarrow> real \<Rightarrow> json \<Rightarrow> (producer, unit) pm" where
  "send key stamp value = (\<lambda>s. case sends s of
      [] \<Rightarrow> (Inr (), s\<lparr>outbox := outbox s @ [(key, stamp, value)]\<rparr>)
    | None # fs \<Rightarrow> (Inr (), s\<lparr>sends := fs, outbox := outbox s @ [(key, stamp, value)]\<rparr>)
    | Some e # fs \<Rightarrow> (Inl e, s\<lparr>sends := fs\<rparr>))"

definition event_json :: "nat \<Rightarrow> string \<Rightarrow> nat \<Rightarrow> readings \<Rightarrow> nat \<Rightarrow> json" where
  "event_json u observer index r k =
    JObj [(''event_id'', JStr (uuid_str u)), (''entity_id'', JStr (asset_id index)), (''observer_id'', JStr observer),
      (''event_type'', JStr (EVENT_TYPES ! (index mod length EVENT_TYPES))),
      (''position'', JObj [(''lat'', JFloat (r_lat r ! k)), (''lon'', JFloat (r_lon r ! k))]),
      (''z_m'', JFloat (r_z r ! k)), (''temp_external_c'', JFloat (r_ext r ! k)),
      (''temp_internal_c'', JFloat (r_in r ! k)), (''text'', JStr (r_text r ! k))]"

definition send_event :: "outside \<Rightarrow> real \<Rightarrow> real \<Rightarrow> nat list \<Rightarrow> readings \<Rightarrow> nat \<Rightarrow> (producer, unit) pm" where
  "send_event ext loop_start stamp_step_s ids r k =
    (let index = ids ! k; stamp = loop_start + of_nat k * stamp_step_s in
     bind (gets minted) (\<lambda>n. bind (modify (\<lambda>s. s\<lparr>minted := Suc n\<rparr>)) (\<lambda>_.
     bind (gets (\<lambda>s. observer_ids (plan (fleet s)) ! index)) (\<lambda>observer.
       send (asset_id index) stamp (event_json (uuid_from_time ext n stamp) observer index r k)))))"

definition on_fleet :: "(fleet_state, 'a) pm \<Rightarrow> (producer, 'a) pm" where
  "on_fleet m = (\<lambda>s. case m (fleet s) of (r, f) \<Rightarrow> (r, s\<lparr>fleet := f\<rparr>))"

definition batch_ids :: "nat \<Rightarrow> nat \<Rightarrow> nat \<Rightarrow> nat list" where
  "batch_ids start m n = map (\<lambda>k. (start + k) mod n) [0..<m]"

definition send_batch :: "outside \<Rightarrow> producer_config \<Rightarrow> real \<Rightarrow> real \<Rightarrow> nat \<Rightarrow> nat \<Rightarrow> (producer, unit) pm" where
  "send_batch ext conf loop_start outlier batch_n n =
    bind (gets (\<lambda>s. batch_ids (ptr s) batch_n n)) (\<lambda>ids.
    bind (modify (\<lambda>s. s\<lparr>ptr := (ptr s + batch_n) mod n\<rparr>)) (\<lambda>_.
    bind (on_fleet (step (texts ext) (text_refresh conf) (outlier / 100) ids loop_start)) (\<lambda>r.
    bind (map_pm (send_event ext loop_start (period_s conf / of_nat (length ids)) ids r) [0..<length ids]) (\<lambda>_.
      modify (\<lambda>s. s\<lparr>window_sent := window_sent s + length ids\<rparr>)))))"

text \<open>One turn of the loop.\<close>

definition turn :: "outside \<Rightarrow> producer_config \<Rightarrow> (producer, unit) pm" where
  "turn ext conf =
    bind time_time (\<lambda>loop_start.
    bind (gets (\<lambda>s. snapshot (live s))) (\<lambda>(eps, wanted, outlier, is_paused).
    if is_paused then sleep (period_s conf)
    else let n = min (nat wanted) (max_entities conf) in
      bind (modify (\<lambda>s. s\<lparr>owed := owed s + of_int eps * period_s conf\<rparr>)) (\<lambda>_.
      bind (gets (\<lambda>s. truncate_int (owed s))) (\<lambda>batch_n.
      bind (modify (\<lambda>s. s\<lparr>owed := owed s - of_int batch_n\<rparr>)) (\<lambda>_.
      bind (if batch_n > 0 then send_batch ext conf loop_start outlier (nat batch_n) n else ret ()) (\<lambda>_.
      bind time_time (\<lambda>t1.
      bind (if t1 - loop_start < period_s conf then sleep (period_s conf - (t1 - loop_start)) else ret ()) (\<lambda>_.
      bind time_time (\<lambda>t2.
        modify (\<lambda>s. if t2 - last_report s \<ge> report_every_s conf
          then s\<lparr>total_sent := total_sent s + window_sent s, window_sent := 0, last_report := t2\<rparr> else s))))))))))"

fun turns :: "outside \<Rightarrow> producer_config \<Rightarrow> nat \<Rightarrow> (producer, unit) pm" where
  "turns ext conf 0 = ret ()"
| "turns ext conf (Suc n) = bind (turn ext conf) (\<lambda>_. turns ext conf n)"

text \<open>The state the loop starts in.\<close>

definition start_producer :: "environment \<Rightarrow> real \<Rightarrow> rng \<Rightarrow> (nat \<Rightarrow> real) \<Rightarrow> producer" where
  "start_producer env t g d =
    (let conf = configure env in
     \<lparr>live = start_live conf, fleet = init_fleet (fleet_cfg conf) t g, ptr = 0, owed = 0, total_sent = 0, window_sent = 0,
       last_report = t, outbox = [], sends = [], wall = t, drift = d, reads = 0, minted = 0\<rparr>)"

section \<open>Lemmas\<close>

text \<open>What every poll keeps.\<close>

abbreviation sane :: "live_settings \<Rightarrow> bool" where
  "sane l \<equiv> 1 \<le> events_per_sec l \<and> 1 \<le> live_entities l"

lemma apply_settings_sane: "preserves sane (apply_settings v)"
  unfolding apply_settings_def by (intro preserves_intros) auto

lemma poll_settings_sane: "preserves sane (poll_settings a)"
  unfolding poll_settings_def by (intro preserves_intros apply_settings_sane)

lemma poll_settings_total: "total (poll_settings a)"
  unfolding poll_settings_def by (intro total_intros)

lemma configure_ok:
  "sane (start_live (configure env))" "1 \<le> max_entities (configure env)" "n_entities (fleet_cfg (configure env)) = max_entities (configure env)"
  "0 < period_s (configure env)" "nat (live_entities (start_live (configure env))) \<le> max_entities (configure env)"
  by (auto simp: configure_def Let_def)

text \<open>What holds between the turns.\<close>

definition producer_ok :: "producer_config \<Rightarrow> producer \<Rightarrow> bool" where
  "producer_ok conf s \<longleftrightarrow> fleet_ok (max_entities conf) (fleet s) \<and> 1 \<le> max_entities conf \<and> 0 < period_s conf \<and>
     sane (live s) \<and> 0 \<le> owed s \<and> owed s < 1"

text \<open>A clock that does not go back, and sends that succeed.\<close>

definition fair :: "producer \<Rightarrow> bool" where
  "fair s \<longleftrightarrow> (\<forall>k. 0 \<le> drift s k) \<and> sends s = []"

definition is_message :: "outside \<Rightarrow> string list \<Rightarrow> real \<Rightarrow> real \<Rightarrow> nat list \<Rightarrow> readings \<Rightarrow> nat \<Rightarrow> string \<times> real \<times> json \<Rightarrow> bool" where
  "is_message ext obs ls st ids r k msg \<longleftrightarrow> (\<exists>u. msg = (asset_id (ids ! k), ls + of_nat k * st,
     event_json (uuid_from_time ext u (ls + of_nat k * st)) (obs ! (ids ! k)) (ids ! k) r k))"

lemma send_events:
  assumes "sends s = []"
  shows "\<exists>us ms. map_pm (send_event ext ls st ids r) ks s =
      (Inr us, s\<lparr>outbox := outbox s @ ms, minted := minted s + length ks\<rparr>) \<and>
    list_all2 (is_message ext (observer_ids (plan (fleet s))) ls st ids r) ks ms"
  using assms
proof (induction ks arbitrary: s)
  case Nil
  then show ?case by (simp add: ret_def)
next
  case (Cons k ks)
  define msg where "msg = (asset_id (ids ! k), ls + of_nat k * st,
    event_json (uuid_from_time ext (minted s) (ls + of_nat k * st)) (observer_ids (plan (fleet s)) ! (ids ! k)) (ids ! k) r k)"
  define s1 where "s1 = s\<lparr>minted := Suc (minted s), outbox := outbox s @ [msg]\<rparr>"
  have one: "send_event ext ls st ids r k s = (Inr (), s1)"
    using Cons.prems by (simp add: send_event_def Let_def bind_def gets_def modify_def send_def s1_def msg_def)
  have "sends s1 = []" using Cons.prems by (simp add: s1_def)
  from Cons.IH [OF this] obtain us ms where rest: "map_pm (send_event ext ls st ids r) ks s1 =
      (Inr us, s1\<lparr>outbox := outbox s1 @ ms, minted := minted s1 + length ks\<rparr>)"
    "list_all2 (is_message ext (observer_ids (plan (fleet s1))) ls st ids r) ks ms" by blast
  have "is_message ext (observer_ids (plan (fleet s))) ls st ids r k msg" by (auto simp: is_message_def msg_def)
  then show ?case
    using one rest by (intro exI [of _ "() # us"] exI [of _ "msg # ms"]) (simp add: bind_def ret_def s1_def)
qed

lemma batch_ids_bound: "0 < n \<Longrightarrow> \<forall>i \<in> set (batch_ids p m n). i < n"
  by (auto simp: batch_ids_def)

lemma send_batch_run:
  assumes "fleet_ok N (fleet s)" and "0 < n" and "n \<le> N" and "sends s = []"
  shows "\<exists>s' ms r. send_batch ext conf ls ol m n s = (Inr (), s') \<and> fleet_ok N (fleet s') \<and> plan (fleet s') = plan (fleet s) \<and>
    in_range m r \<and>
    list_all2 (is_message ext (observer_ids (plan (fleet s))) ls (period_s conf / of_nat m) (batch_ids (ptr s) m n) r) [0..<m] ms \<and>
    s' = s\<lparr>ptr := (ptr s + m) mod n, fleet := fleet s', outbox := outbox s @ ms, minted := minted s + m, window_sent := window_sent s + m\<rparr>"
proof -
  define ids where "ids = batch_ids (ptr s) m n"
  have len: "length ids = m" by (simp add: ids_def batch_ids_def)
  have "\<forall>i \<in> set ids. i < N" using batch_ids_bound [OF assms(2), of "ptr s" m] assms(3) by (auto simp: ids_def)
  from step_parts [OF assms(1) this, of "texts ext" "text_refresh conf" "ol / 100" ls]
  obtain r f where r: "step (texts ext) (text_refresh conf) (ol / 100) ids ls (fleet s) = (Inr r, f)" "in_range (length ids) r"
    "fleet_ok N f" "plan f = plan (fleet s)" by blast
  define s1 where "s1 = s\<lparr>ptr := (ptr s + m) mod n, fleet := f\<rparr>"
  have "sends s1 = []" using assms(4) by (simp add: s1_def)
  from send_events [OF this, of ext ls "period_s conf / of_nat (length ids)" ids r "[0..<length ids]"]
  obtain us ms where ms: "map_pm (send_event ext ls (period_s conf / of_nat (length ids)) ids r) [0..<length ids] s1 =
      (Inr us, s1\<lparr>outbox := outbox s1 @ ms, minted := minted s1 + length [0..<length ids]\<rparr>)"
    "list_all2 (is_message ext (observer_ids (plan (fleet s1))) ls (period_s conf / of_nat (length ids)) ids r) [0..<length ids] ms"
    by blast
  have "send_batch ext conf ls ol m n s = (Inr (), s1\<lparr>outbox := outbox s1 @ ms, minted := minted s + m, window_sent := window_sent s + m\<rparr>)"
    using r(1) ms(1) by (simp add: send_batch_def bind_def gets_def modify_def on_fleet_def ids_def [symmetric] s1_def len)
  then show ?thesis
    using r ms(2) len by (intro exI [of _ "s1\<lparr>outbox := outbox s1 @ ms, minted := minted s + m, window_sent := window_sent s + m\<rparr>"]
        exI [of _ ms] exI [of _ r]) (simp add: s1_def ids_def)
qed

lemma floor_split:
  fixes x :: real
  assumes "0 \<le> x"
  shows "truncate_int x = \<lfloor>x\<rfloor>" and "0 \<le> x - of_int \<lfloor>x\<rfloor>" and "x - of_int \<lfloor>x\<rfloor> < 1" and "0 \<le> \<lfloor>x\<rfloor>"
  using assms by (auto simp: truncate_int_def) linarith+

definition due :: "producer_config \<Rightarrow> producer \<Rightarrow> real" where
  "due conf s = owed s + of_int (events_per_sec (live s)) * period_s conf"

definition in_use :: "producer_config \<Rightarrow> producer \<Rightarrow> nat" where
  "in_use conf s = min (nat (live_entities (live s))) (max_entities conf)"

text \<open>A turn that is not paused: what it sends, what it carries over, and when it ends.\<close>

lemma turn_run:
  assumes ok: "producer_ok conf s" and fair: "fair s" and going: "\<not> paused (live s)"
  defines "m \<equiv> nat \<lfloor>due conf s\<rfloor>" and "n \<equiv> in_use conf s" and "ls \<equiv> wall s + drift s (reads s)"
  obtains s' ms r where "turn ext conf s = (Inr (), s')" and "producer_ok conf s'" and "fair s'"
    and "live s' = live s" and "drift s' = drift s" and "plan (fleet s') = plan (fleet s)"
    and "outbox s' = outbox s @ ms" and "in_range m r"
    and "list_all2 (is_message ext (observer_ids (plan (fleet s))) ls (period_s conf / of_nat m) (batch_ids (ptr s) m n) r) [0..<m] ms"
    and "owed s' = due conf s - of_int \<lfloor>due conf s\<rfloor>" and "ptr s' mod n = (ptr s + m) mod n"
    and "ls + period_s conf \<le> wall s'" and "wall s \<le> ls"
    and "total_sent s' + window_sent s' = total_sent s + window_sent s + m"
proof -
  have due: "0 \<le> due conf s" using ok by (auto simp: producer_ok_def due_def)
  note f = floor_split [OF due]
  have n: "0 < n" "n \<le> max_entities conf" using ok by (auto simp: producer_ok_def n_def in_use_def)
  have P: "0 < period_s conf" using ok by (simp add: producer_ok_def)
  define s1 where "s1 = s\<lparr>wall := ls, reads := Suc (reads s), owed := due conf s - of_int \<lfloor>due conf s\<rfloor>\<rparr>"
  have s1: "fleet_ok (max_entities conf) (fleet s1)" "sends s1 = []" "ptr s1 = ptr s" "fleet s1 = fleet s"
    using ok fair by (simp_all add: s1_def producer_ok_def fair_def)
  have batch: "\<exists>s2 ms r. (if \<lfloor>due conf s\<rfloor> > 0 then send_batch ext conf ls (outlier_percent (live s)) (nat \<lfloor>due conf s\<rfloor>) n else ret ()) s1 = (Inr (), s2) \<and>
      fleet_ok (max_entities conf) (fleet s2) \<and> plan (fleet s2) = plan (fleet s) \<and> in_range m r \<and>
      list_all2 (is_message ext (observer_ids (plan (fleet s))) ls (period_s conf / of_nat m) (batch_ids (ptr s) m n) r) [0..<m] ms \<and>
      ptr s2 mod n = (ptr s + m) mod n \<and> outbox s2 = outbox s @ ms \<and> window_sent s2 = window_sent s + m \<and>
      total_sent s2 = total_sent s \<and> owed s2 = owed s1 \<and> live s2 = live s \<and> drift s2 = drift s \<and> sends s2 = [] \<and>
      wall s2 = ls \<and> reads s2 = Suc (reads s)"
  proof (cases "0 < \<lfloor>due conf s\<rfloor>")
    case True
    obtain s2 ms r where b: "send_batch ext conf ls (outlier_percent (live s)) m n s1 = (Inr (), s2)"
      "fleet_ok (max_entities conf) (fleet s2)" "plan (fleet s2) = plan (fleet s)" "in_range m r"
      "list_all2 (is_message ext (observer_ids (plan (fleet s))) ls (period_s conf / of_nat m) (batch_ids (ptr s) m n) r) [0..<m] ms"
      "s2 = s1\<lparr>ptr := (ptr s1 + m) mod n, fleet := fleet s2, outbox := outbox s1 @ ms, minted := minted s1 + m,
         window_sent := window_sent s1 + m\<rparr>"
      using send_batch_run [OF s1(1) n s1(2), of ext conf ls "outlier_percent (live s)" m] unfolding s1(3,4) by metis
    have "ptr s2 mod n = (ptr s + m) mod n" "outbox s2 = outbox s @ ms" "window_sent s2 = window_sent s + m"
      "total_sent s2 = total_sent s" "owed s2 = owed s1" "live s2 = live s" "drift s2 = drift s" "sends s2 = []"
      "wall s2 = ls" "reads s2 = Suc (reads s)"
      using s1(2) by (subst b(6), simp add: s1_def)+
    then show ?thesis using b(1-5) True unfolding m_def by auto
  next
    case False
    then have "m = 0" by (simp add: m_def)
    moreover have "in_range 0 \<lparr>r_lat = [], r_lon = [], r_z = [], r_ext = [], r_in = [], r_text = []\<rparr>" by (simp add: in_range_def)
    ultimately show ?thesis using False s1 by (auto simp: ret_def s1_def)
  qed
  then obtain s2 ms r where b: "(if \<lfloor>due conf s\<rfloor> > 0 then send_batch ext conf ls (outlier_percent (live s)) (nat \<lfloor>due conf s\<rfloor>) n else ret ()) s1 = (Inr (), s2)"
    and b2: "fleet_ok (max_entities conf) (fleet s2)" "plan (fleet s2) = plan (fleet s)" "in_range m r"
      "list_all2 (is_message ext (observer_ids (plan (fleet s))) ls (period_s conf / of_nat m) (batch_ids (ptr s) m n) r) [0..<m] ms"
      "ptr s2 mod n = (ptr s + m) mod n" "outbox s2 = outbox s @ ms" "window_sent s2 = window_sent s + m"
      "total_sent s2 = total_sent s" "owed s2 = owed s1" "live s2 = live s" "drift s2 = drift s" "sends s2 = []"
      "wall s2 = ls" "reads s2 = Suc (reads s)" by blast
  define t1 where "t1 = ls + drift s (Suc (reads s))"
  define s3 where "s3 = s2\<lparr>wall := t1, reads := Suc (Suc (reads s))\<rparr>"
  define s4 where "s4 = (if t1 - ls < period_s conf then snd (sleep (period_s conf - (t1 - ls)) s3) else s3)"
  define t2 where "t2 = wall s4 + drift s4 (reads s4)"
  define s5 where "s5 = s4\<lparr>wall := t2, reads := Suc (reads s4)\<rparr>"
  define s6 where "s6 = (if t2 - last_report s5 \<ge> report_every_s conf
      then s5\<lparr>total_sent := total_sent s5 + window_sent s5, window_sent := 0, last_report := t2\<rparr> else s5)"
  have "turn ext conf s = (Inr (), s6)"
  proof -
    have bb: "(if truncate_int (due conf s) > 0 then send_batch ext conf ls (outlier_percent (live s)) (nat (truncate_int (due conf s))) n else ret ()) s1 = (Inr (), s2)"
      using b unfolding f(1) .
    have "s1 = s\<lparr>wall := ls, reads := Suc (reads s), owed := due conf s - of_int (truncate_int (due conf s))\<rparr>"
      by (simp add: s1_def f(1))
    note bb = bb [unfolded this]
    have tt0: "time_time s = (Inr ls, s\<lparr>wall := ls, reads := Suc (reads s)\<rparr>)" by (simp add: time_time_def Let_def ls_def)
    have tt: "time_time s2 = (Inr t1, s3)" by (simp add: time_time_def Let_def b2 t1_def s3_def)
    have sl: "(if t1 - ls < period_s conf then sleep (period_s conf - (t1 - ls)) else ret ()) s3 = (Inr (), s4)"
      by (simp add: s4_def sleep_def ret_def)
    have tt2: "time_time s4 = (Inr t2, s5)" by (simp add: time_time_def Let_def t2_def s5_def)
    show ?thesis
      using going bb [unfolded due_def n_def in_use_def] tt0 tt sl tt2
      by (simp add: turn_def bind_def Let_def gets_def snapshot_def modify_def s6_def cong: if_cong split del: if_split)
  qed
  moreover have dr: "0 \<le> drift s k" for k using fair by (simp add: fair_def)
  have keep: "fleet s6 = fleet s2" "live s6 = live s" "drift s6 = drift s" "sends s6 = []" "outbox s6 = outbox s @ ms"
    "owed s6 = owed s1" "ptr s6 = ptr s2" "total_sent s6 + window_sent s6 = total_sent s + window_sent s + m"
    "drift s4 = drift s" "wall s6 = t2"
    using b2 by (auto simp: s6_def s5_def s4_def s3_def sleep_def)
  have "ls + period_s conf \<le> wall s4"
    using dr [of "Suc (Suc (reads s))"] b2 by (auto simp: s4_def s3_def sleep_def t1_def)
  then have "ls + period_s conf \<le> t2" using dr [of "reads s4"] keep by (simp add: t2_def)
  moreover have "wall s \<le> ls" using dr by (simp add: ls_def)
  moreover have "producer_ok conf s6"
    using ok b2 keep f by (auto simp: producer_ok_def s1_def)
  moreover have "fair s6" using keep dr by (simp add: fair_def)
  ultimately show ?thesis using that [of s6 ms r] keep b2 by (simp add: s1_def)
qed

lemma list_all2_map:
  assumes "list_all2 P xs ys" and "\<And>x y. P x y \<Longrightarrow> f y = g x"
  shows "map f ys = map g xs"
  using assms(1) by (induction rule: list_all2_induct) (auto dest: assms(2))

abbreviation stamp_of :: "string \<times> real \<times> json \<Rightarrow> real" where
  "stamp_of msg \<equiv> fst (snd msg)"

text \<open>A message of some batch: its parts belong together and its readings are in range.\<close>

definition genuine :: "outside \<Rightarrow> string list \<Rightarrow> nat \<Rightarrow> string \<times> real \<times> json \<Rightarrow> bool" where
  "genuine ext obs n msg \<longleftrightarrow> (\<exists>i r k m u. i < n \<and> in_range m r \<and> k < m \<and>
     msg = (asset_id i, stamp_of msg, event_json (uuid_from_time ext u (stamp_of msg)) (obs ! i) i r k))"

lemma batch_genuine:
  assumes "list_all2 (is_message ext obs ls st (batch_ids p m n) r) [0..<m] ms" and "0 < n" and "in_range m r"
  shows "\<forall>x \<in> set ms. genuine ext obs n x"
proof
  fix x assume "x \<in> set ms"
  then obtain k where k: "k < length ms" "x = ms ! k" by (metis in_set_conv_nth)
  then have k': "k < m" using list_all2_lengthD [OF assms(1)] by simp
  then have "is_message ext obs ls st (batch_ids p m n) r k x"
    using list_all2_nthD [OF assms(1), of k] k(2) by simp
  then obtain u where x: "x = (asset_id (batch_ids p m n ! k), ls + of_nat k * st,
      event_json (uuid_from_time ext u (ls + of_nat k * st)) (obs ! (batch_ids p m n ! k)) (batch_ids p m n ! k) r k)"
    unfolding is_message_def by blast
  have i: "batch_ids p m n ! k < n" using k' assms(2) by (simp add: batch_ids_def)
  show "genuine ext obs n x"
    unfolding genuine_def
    by (rule exI [of _ "batch_ids p m n ! k"], rule exI [of _ r], rule exI [of _ k], rule exI [of _ m], rule exI [of _ u])
      (simp add: x i k' assms(3))
qed

lemma batch_messages:
  assumes "list_all2 (is_message ext obs ls (P / of_nat m) (batch_ids p m n) r) [0..<m] ms" and "0 < (P :: real)"
  shows "length ms = m" and "map fst ms = map (\<lambda>j. asset_id ((p + j) mod n)) [0..<m]"
    and "sorted_wrt (<) (map stamp_of ms)" and "\<forall>x \<in> set ms. ls \<le> stamp_of x \<and> stamp_of x < ls + P"
proof -
  show "length ms = m" using list_all2_lengthD [OF assms(1)] by simp
  have "map fst ms = map (\<lambda>k. asset_id (batch_ids p m n ! k)) [0..<m]"
    by (rule list_all2_map [OF assms(1)]) (auto simp: is_message_def)
  also have "\<dots> = map (\<lambda>j. asset_id ((p + j) mod n)) [0..<m]" by (simp add: batch_ids_def)
  finally show "map fst ms = map (\<lambda>j. asset_id ((p + j) mod n)) [0..<m]" .
  have st: "map stamp_of ms = map (\<lambda>k. ls + of_nat k * (P / of_nat m)) [0..<m]"
    by (rule list_all2_map [OF assms(1)]) (auto simp: is_message_def)
  show "sorted_wrt (<) (map stamp_of ms)"
    unfolding st sorted_wrt_map using assms(2)
    by (rule_tac sorted_wrt_mono_rel [OF _ sorted_wrt_upt]) (auto simp: divide_strict_right_mono)
  have "ls \<le> y \<and> y < ls + P" if y: "y \<in> set (map stamp_of ms)" for y
  proof -
    obtain k where k: "k < m" "y = ls + of_nat k * (P / of_nat m)" using y unfolding st by auto
    have "of_nat k * (P / of_nat m) < P" using k(1) assms(2) by (simp add: field_simps)
    then show ?thesis using k assms(2) by simp
  qed
  then show "\<forall>x \<in> set ms. ls \<le> stamp_of x \<and> stamp_of x < ls + P" by simp
qed

lemma round_robin_append:
  assumes "p' mod n = (p + a) mod (n :: nat)"
  shows "map (\<lambda>j. f ((p + j) mod n)) [0..<a] @ map (\<lambda>j. f ((p' + j) mod n)) [0..<b] = map (\<lambda>j. f ((p + j) mod n)) [0..<a + b]"
proof -
  have "(p' + j) mod n = (p + (a + j)) mod n" for j
    by (metis add.assoc assms mod_add_left_eq)
  then have "map (\<lambda>j. f ((p' + j) mod n)) [0..<b] = map (\<lambda>j. f ((p + j) mod n)) [a..<a + b]"
    by (simp add: list_eq_iff_nth_eq)
  moreover have "[0..<a + b] = [0..<a] @ [a..<a + b]" by (metis upt_add_eq_append zero_le)
  ultimately show ?thesis by (simp only: map_append)
qed

text \<open>Any number of turns with the settings left alone.\<close>

lemma turns_run:
  assumes "producer_ok conf s" and "fair s" and "\<not> paused (live s)"
  shows "\<exists>s' ms. turns ext conf k s = (Inr (), s') \<and> producer_ok conf s' \<and> live s' = live s \<and> outbox s' = outbox s @ ms \<and>
    of_nat (length ms) + owed s' = owed s + of_nat k * (of_int (events_per_sec (live s)) * period_s conf) \<and>
    map fst ms = map (\<lambda>j. asset_id ((ptr s + j) mod in_use conf s)) [0..<length ms] \<and>
    sorted_wrt (<) (map stamp_of ms) \<and> (\<forall>x \<in> set ms. wall s \<le> stamp_of x) \<and>
    (\<forall>x \<in> set ms. genuine ext (observer_ids (plan (fleet s))) (in_use conf s) x) \<and>
    total_sent s' + window_sent s' = total_sent s + window_sent s + length ms"
  using assms
proof (induction k arbitrary: s)
  case 0
  then show ?case by (intro exI [of _ s] exI [of _ "[]"]) (simp add: ret_def)
next
  case (Suc k)
  have P: "0 < period_s conf" using Suc.prems(1) by (simp add: producer_ok_def)
  let ?m = "nat \<lfloor>due conf s\<rfloor>"
  obtain s1 ms r where t: "turn ext conf s = (Inr (), s1)" "producer_ok conf s1" "fair s1" "live s1 = live s"
    "outbox s1 = outbox s @ ms" "in_range ?m r" "plan (fleet s1) = plan (fleet s)"
    "list_all2 (is_message ext (observer_ids (plan (fleet s))) (wall s + drift s (reads s)) (period_s conf / of_nat ?m)
       (batch_ids (ptr s) ?m (in_use conf s)) r) [0..<?m] ms"
    "owed s1 = due conf s - of_int \<lfloor>due conf s\<rfloor>" "ptr s1 mod in_use conf s = (ptr s + ?m) mod in_use conf s"
    "wall s + drift s (reads s) + period_s conf \<le> wall s1" "wall s \<le> wall s + drift s (reads s)"
    "total_sent s1 + window_sent s1 = total_sent s + window_sent s + ?m"
    using turn_run [OF Suc.prems] by metis
  note b = batch_messages [OF t(8) P]
  have "\<not> paused (live s1)" using t(4) Suc.prems(3) by simp
  from Suc.IH [OF t(2,3) this] obtain s' ms' where r: "turns ext conf k s1 = (Inr (), s')" "producer_ok conf s'" "live s' = live s1"
    "outbox s' = outbox s1 @ ms'"
    "of_nat (length ms') + owed s' = owed s1 + of_nat k * (of_int (events_per_sec (live s1)) * period_s conf)"
    "map fst ms' = map (\<lambda>j. asset_id ((ptr s1 + j) mod in_use conf s1)) [0..<length ms']"
    "sorted_wrt (<) (map stamp_of ms')" "\<forall>x \<in> set ms'. wall s1 \<le> stamp_of x"
    "\<forall>x \<in> set ms'. genuine ext (observer_ids (plan (fleet s1))) (in_use conf s1) x"
    "total_sent s' + window_sent s' = total_sent s1 + window_sent s1 + length ms'" by blast
  have use: "in_use conf s1 = in_use conf s" using t(4) by (simp add: in_use_def)
  have due: "0 \<le> due conf s" using Suc.prems(1) by (auto simp: producer_ok_def due_def)
  have keys: "map fst (ms @ ms') = map (\<lambda>j. asset_id ((ptr s + j) mod in_use conf s)) [0..<length (ms @ ms')]"
    using round_robin_append [OF t(10), of asset_id "length ms'"] b(1,2) r(6) by (simp add: use)
  have count: "of_nat (length (ms @ ms')) + owed s' = owed s + of_nat (Suc k) * (of_int (events_per_sec (live s)) * period_s conf)"
    using r(5) t(4,9) b(1) due by (simp add: due_def algebra_simps)
  have "\<forall>x \<in> set ms. \<forall>y \<in> set ms'. stamp_of x < stamp_of y" using b(4) r(8) t(11) by fastforce
  then have order: "sorted_wrt (<) (map stamp_of (ms @ ms'))" using b(3) r(7) by (simp add: sorted_wrt_append)
  have from_s: "\<forall>x \<in> set (ms @ ms'). wall s \<le> stamp_of x" using b(4) r(8) t(11,12) P by fastforce
  have "0 < in_use conf s" using Suc.prems(1) by (auto simp: producer_ok_def in_use_def)
  then have all: "\<forall>x \<in> set (ms @ ms'). genuine ext (observer_ids (plan (fleet s))) (in_use conf s) x"
    using batch_genuine [OF t(8) _ t(6)] r(9) t(7) use by auto
  show ?case
    by (intro exI [of _ s'] exI [of _ "ms @ ms'"] conjI keys count order from_s all)
      (use t r b(1) in \<open>simp_all add: bind_def\<close>)
qed

subsection \<open>Round robin\<close>

lemma mod_close:
  assumes "(u :: nat) \<le> v" and "v - u < n" and "(p + u) mod n = (p + v) mod n"
  shows "u = v"
proof -
  have "p + u \<le> p + v" using assms(1) by simp
  then have "n dvd (p + v) - (p + u)" using assms(3) mod_eq_dvd_iff_nat [of "p + u" "p + v" n] by simp
  then have "n dvd v - u" by simp
  then have "v - u = 0" using assms(2) nat_dvd_not_less by (metis gr0I)
  then show ?thesis using assms(1) by simp
qed

lemma one_in_a_round:
  assumes "i < (n :: nat)"
  shows "length (filter (\<lambda>j. (p + j) mod n = i) [a..<a + n]) = 1"
proof -
  let ?f = "\<lambda>j. (p + j) mod n"
  have "inj_on ?f {a..<a + n}"
  proof (rule inj_onI)
    fix x y assume x: "x \<in> {a..<a + n}" "y \<in> {a..<a + n}" "?f x = ?f y"
    consider "x \<le> y" | "y \<le> x" by linarith
    then show "x = y"
    proof cases
      case 1
      then show ?thesis using x by (intro mod_close [of x y n p]) auto
    next
      case 2
      then show ?thesis using x by (intro mod_close [of y x n p, symmetric]) auto
    qed
  qed
  note inj = this
  then have card: "card (?f ` {a..<a + n}) = n" by (simp add: card_image)
  have "?f ` {a..<a + n} \<subseteq> {..<n}" using assms by auto
  then have "?f ` {a..<a + n} = {..<n}" using card by (intro card_subset_eq) auto
  then have "i \<in> ?f ` {a..<a + n}" using assms by simp
  then obtain j where j: "j \<in> {a..<a + n}" "?f j = i" by blast
  have u: "k = j" if "k \<in> {a..<a + n}" "?f k = i" for k
    using inj_onD [OF inj _ that(1) j(1)] that(2) j(2) by simp
  have "set (filter (\<lambda>j. ?f j = i) [a..<a + n]) = {j}"
  proof (rule set_eqI)
    fix k show "k \<in> set (filter (\<lambda>j. ?f j = i) [a..<a + n]) \<longleftrightarrow> k \<in> {j}"
      using u [of k] j by (simp only: set_filter set_upt mem_Collect_eq singleton_iff) metis
  qed
  moreover have "distinct (filter (\<lambda>j. ?f j = i) [a..<a + n])" by simp
  ultimately have "card {j} = length (filter (\<lambda>j. ?f j = i) [a..<a + n])" using distinct_card by metis
  then show ?thesis by simp
qed

lemma round_robin_count:
  assumes "i < (n :: nat)"
  shows "N div n \<le> length (filter (\<lambda>j. (p + j) mod n = i) [0..<N])" and
    "length (filter (\<lambda>j. (p + j) mod n = i) [0..<N]) \<le> N div n + 1"
proof -
  let ?c = "\<lambda>N. length (filter (\<lambda>j. (p + j) mod n = i) [0..<N])"
  have add: "?c (a + b) = ?c a + length (filter (\<lambda>j. (p + j) mod n = i) [a..<a + b])" for a b
    by (metis filter_append length_append upt_add_eq_append zero_le)
  have rounds: "?c (r + q * n) = ?c r + q" for r q
  proof (induction q)
    case (Suc q)
    have "?c (r + Suc q * n) = ?c ((r + q * n) + n)" by (simp add: algebra_simps)
    also have "\<dots> = ?c (r + q * n) + 1" unfolding add one_in_a_round [OF assms] ..
    finally show ?case using Suc by simp
  qed simp
  have "?c n = 1" using one_in_a_round [OF assms, of p 0] by simp
  moreover have "?c (N mod n) \<le> ?c n"
    using add [of "N mod n" "n - N mod n"] assms by simp
  moreover have "?c N = ?c (N mod n) + N div n" using rounds [of "N mod n" "N div n"] by (simp add: mult.commute)
  ultimately show "N div n \<le> ?c N" "?c N \<le> N div n + 1" by simp_all
qed

lemma asset_id_inj: "asset_id i = asset_id j \<longleftrightarrow> i = j"
  by (simp add: asset_id_def pad0_inj)

lemma start_producer_ok: "producer_ok (configure env) (start_producer env t g d)"
  using init_fleet_ok [of "fleet_cfg (configure env)" t g] configure_ok [of env]
  by (simp add: producer_ok_def start_producer_def Let_def)

lemma start_producer_fair: "(\<And>k. 0 \<le> d k) \<Longrightarrow> fair (start_producer env t g d)"
  by (simp add: fair_def start_producer_def Let_def)

section \<open>Properties\<close>

text \<open>
  C23. The pacing is exact over time. With the settings left alone, sends that succeed and a clock
  that does not go back, any number of turns send in all the whole part of what is owed at the
  start and of the rate times the periods, however small a period's share is; what is carried over
  stays in [0, 1), no turn fails, and the two counters together count every event.
\<close>

theorem pacing_is_exact:
  assumes "producer_ok conf s" and "fair s" and "\<not> paused (live s)"
  shows "\<exists>s'. turns ext conf k s = (Inr (), s') \<and>
    int (length (outbox s')) = int (length (outbox s)) + \<lfloor>owed s + of_nat k * (of_int (events_per_sec (live s)) * period_s conf)\<rfloor> \<and>
    0 \<le> owed s' \<and> owed s' < 1 \<and>
    total_sent s' + window_sent s' + length (outbox s) = total_sent s + window_sent s + length (outbox s')"
proof -
  obtain s' ms where r: "turns ext conf k s = (Inr (), s')" "producer_ok conf s'" "outbox s' = outbox s @ ms"
    "of_nat (length ms) + owed s' = owed s + of_nat k * (of_int (events_per_sec (live s)) * period_s conf)"
    "total_sent s' + window_sent s' = total_sent s + window_sent s + length ms"
    using turns_run [OF assms] by blast
  have o: "0 \<le> owed s'" "owed s' < 1" using r(2) by (simp_all add: producer_ok_def)
  have "\<lfloor>of_nat (length ms) + owed s'\<rfloor> = int (length ms)" using o by (simp add: floor_eq_iff)
  then have "\<lfloor>owed s + of_nat k * (of_int (events_per_sec (live s)) * period_s conf)\<rfloor> = int (length ms)"
    unfolding r(4) [symmetric] .
  moreover have "length (outbox s') = length (outbox s) + length ms" using r(3) by simp
  ultimately show ?thesis using r(1,5) o by (intro exI [of _ s']) linarith
qed

text \<open>At the demo's default of 5 events a second and 20 turns a second, eight turns send two events.\<close>

definition quiet_start :: producer where
  "quiet_start = start_producer (\<lambda>_. None) 0 still_rng (\<lambda>_. 0)"

definition still_outside :: outside where
  "still_outside = \<lparr>texts = None, uuid_from_time = (\<lambda>n _. n)\<rparr>"

lemma quiet_start:
  "producer_ok (configure (\<lambda>_. None)) quiet_start" "fair quiet_start" "\<not> paused (live quiet_start)"
  "owed quiet_start = 0" "events_per_sec (live quiet_start) = 5" "outbox quiet_start = []"
  "period_s (configure (\<lambda>_. None)) = 1 / 20" "in_use (configure (\<lambda>_. None)) quiet_start = 100"
  using start_producer_ok [of "\<lambda>_. None" 0 still_rng "\<lambda>_. 0"] start_producer_fair [of "\<lambda>_. 0" "\<lambda>_. None" 0 still_rng]
  by (simp_all add: quiet_start_def) (simp_all add: start_producer_def configure_def Let_def env_int_def in_use_def)

theorem pacing_is_exact_witness:
  "\<exists>s'. turns still_outside (configure (\<lambda>_. None)) 8 quiet_start = (Inr (), s') \<and> length (outbox s') = 2"
  using pacing_is_exact [OF quiet_start(1-3), of still_outside 8] by (auto simp: quiet_start)

text \<open>
  Property. The cadence is even: after any such run the assets in use have been sent equally often, up to
  one, and the events are stamped in strictly increasing order, none before the run began, so
  that no asset's history collapses into one point.
\<close>

theorem cadence_is_even:
  assumes "producer_ok conf s" and "fair s" and "\<not> paused (live s)" and "i < in_use conf s" and "j < in_use conf s"
  shows "\<exists>s' ms. turns ext conf k s = (Inr (), s') \<and> outbox s' = outbox s @ ms \<and>
    length (filter (\<lambda>m. fst m = asset_id i) ms) \<le> length (filter (\<lambda>m. fst m = asset_id j) ms) + 1 \<and>
    sorted_wrt (<) (map stamp_of ms) \<and> (\<forall>m \<in> set ms. wall s \<le> stamp_of m)"
proof -
  obtain s' ms where r: "turns ext conf k s = (Inr (), s')" "outbox s' = outbox s @ ms"
    "map fst ms = map (\<lambda>j. asset_id ((ptr s + j) mod in_use conf s)) [0..<length ms]"
    "sorted_wrt (<) (map stamp_of ms)" "\<forall>x \<in> set ms. wall s \<le> stamp_of x"
    using turns_run [OF assms(1-3)] by blast
  have "length (filter (\<lambda>m. fst m = asset_id e) ms) = length (filter (\<lambda>j. (ptr s + j) mod in_use conf s = e) [0..<length ms])" for e
  proof -
    have "length (filter (\<lambda>m. fst m = asset_id e) ms) = length (filter (\<lambda>x. x = asset_id e) (map fst ms))"
      by (simp add: filter_map comp_def)
    also have "\<dots> = length (filter (\<lambda>j. (ptr s + j) mod in_use conf s = e) [0..<length ms])"
      unfolding r(3) by (simp add: filter_map comp_def asset_id_inj)
    finally show ?thesis .
  qed
  then show ?thesis
    using r round_robin_count [OF assms(4), where N = "length ms" and p = "ptr s"]
      round_robin_count [OF assms(5), where N = "length ms" and p = "ptr s"]
    by (intro exI [of _ s'] exI [of _ ms]) simp
qed

theorem cadence_is_even_witness:
  "\<exists>s' ms. turns still_outside (configure (\<lambda>_. None)) 8 quiet_start = (Inr (), s') \<and> outbox s' = outbox quiet_start @ ms \<and>
     length (filter (\<lambda>m. fst m = asset_id 0) ms) \<le> length (filter (\<lambda>m. fst m = asset_id 99) ms) + 1 \<and>
     sorted_wrt (<) (map stamp_of ms)"
  using cadence_is_even [OF quiet_start(1-3), of 0 99 still_outside 8] by (auto simp: quiet_start)

text \<open>
  Property. Whatever the environment says and whatever the settings endpoint answers, in any number of
  polls, the producer keeps a rate and a fleet of at least one, never more assets than its arrays
  hold are in use, the period is positive, and no poll raises.
\<close>

theorem settings_stay_usable:
  "let conf = configure env; l = fold (\<lambda>a l. snd (poll_settings a l)) answers (start_live conf) in
   1 \<le> events_per_sec l \<and> 1 \<le> live_entities l \<and> 0 < period_s conf \<and>
   nat (live_entities (start_live conf)) \<le> max_entities conf \<and>
   in_use conf (s\<lparr>live := l\<rparr>) \<le> max_entities conf \<and> 1 \<le> in_use conf (s\<lparr>live := l\<rparr>) \<and> total (poll_settings a)"
proof -
  have "step_system (\<lambda>a l. snd (poll_settings a l)) sane"
    using preservesD [OF poll_settings_sane] by unfold_locales
  then have "sane (fold (\<lambda>a l. snd (poll_settings a l)) answers (start_live (configure env)))"
    using configure_ok(1) by (rule step_system.run_inv)
  then show ?thesis
    using configure_ok [of env] poll_settings_total by (auto simp: Let_def in_use_def)
qed

text \<open>
  Property. A poll whose payload cannot be read is not always without effect: what stands before the
  value that fails is adopted, although the poller reports that it keeps the current values.
\<close>

theorem failed_poll_is_partly_adopted:
  "poll_settings (Inr (JObj [(''settings'', JObj [(''events_per_sec'', JInt 50), (''drones_enabled'', JStr ''many'')])])) l =
     (Inr (), l\<lparr>events_per_sec := 50\<rparr>)"
proof -
  have "py_int ''many'' = None" by code_simp
  then show ?thesis
    by (simp add: poll_settings_def apply_settings_def try_except_def bind_def gets_def modify_def ret_def raise_def)
qed

section \<open>Identifiers\<close>

text \<open>The text of a UUID parses to that UUID.\<close>

declare hex_val.simps [simp del]

lemma hex_digit_facts:
  assumes "d < 16"
  shows "hex_val (hex_digit d) = Some d" and "hex_digit d \<notin> set ''-_uxX{}+'' \<and> \<not> is_space (hex_digit d)"
proof -
  show "hex_val (hex_digit d) = Some d"
    using assms by (auto simp: hex_val.simps hex_digit_def Let_def of_char_of)
  have "list_all (\<lambda>d. hex_digit d \<notin> set ''-_uxX{}+'' \<and> \<not> is_space (hex_digit d)) [0, 1, 2, 3, 4, 5, 6, 7, 8, 9, 10, 11, 12, 13, 14, 15]"
    by code_simp
  moreover have "d \<in> set [0, 1, 2, 3, 4, 5, 6, 7, 8, 9, 10, 11, 12, 13, 14, 15]"
    using assms unfolding set_simps insert_iff empty_iff by presburger
  ultimately show "hex_digit d \<notin> set ''-_uxX{}+'' \<and> \<not> is_space (hex_digit d)"
    unfolding list_all_iff by blast
qed

lemmas hex_val_digit = hex_digit_facts(1) and hex_digit_plain = hex_digit_facts(2)

lemma hex_digits_set: "c \<in> set (hex_digits w n) \<Longrightarrow> \<exists>d < 16. c = hex_digit d"
  by (induction w arbitrary: n) (auto intro: exI [of _ "_ mod 16"])

lemma hex_digits_length [simp]: "length (hex_digits w n) = w"
  by (induction w arbitrary: n) auto

lemma hex_run_digits: "list_all (\<lambda>c. \<exists>d < 16. c = hex_digit d) s \<Longrightarrow>
    hex_run acc b s = (if s = [] \<and> \<not> b then None else Some (foldl (\<lambda>a c. 16 * a + the (hex_val c)) acc s))"
  by (induction s arbitrary: acc b) (use hex_digit_plain in \<open>auto simp: hex_val_digit\<close>)

lemma foldl_hex: "foldl (\<lambda>a c. 16 * a + the (hex_val c)) acc (hex_digits w n) = acc * 16 ^ w + n mod 16 ^ w"
proof (induction w arbitrary: acc n)
  case (Suc w)
  have "n mod 16 ^ Suc w = 16 * (n div 16 mod 16 ^ w) + n mod 16"
    by (simp add: mod_mult2_eq)
  then show ?case using Suc by (simp add: hex_val_digit)
qed simp

lemma remove_sub_absent: "p \<noteq> [] \<Longrightarrow> hd p \<notin> set s \<Longrightarrow> remove_sub p s = s"
  by (induction s) (cases p; auto simp: starts_with_def)+

lemma remove_sub_char: "remove_sub [c] s = filter (\<lambda>x. x \<noteq> c) s"
  by (induction s) (auto simp: starts_with_def)

lemma parse_uuid_str:
  assumes "u < 2 ^ 128"
  shows "parse_uuid (uuid_str u) = Some u"
proof -
  define h where "h = uuid_hex u"
  have len: "length h = 32" and hex: "\<And>c. c \<in> set h \<Longrightarrow> \<exists>d < 16. c = hex_digit d"
    by (auto simp: h_def uuid_hex_def dest: hex_digits_set)
  have plain: "c \<notin> set ''-_uxX{}+'' \<and> \<not> is_space c" if "c \<in> set h" for c using hex [OF that] hex_digit_plain by blast
  let ?t = "uuid_str u"
  have t: "?t = take 8 h @ ''-'' @ take 4 (drop 8 h) @ ''-'' @ take 4 (drop 12 h) @ ''-'' @ take 4 (drop 16 h) @ ''-'' @ drop 20 h"
    by (simp add: uuid_str_def h_def Let_def)
  have sub: "set ?t \<subseteq> set h \<union> {CHR ''-''}"
    unfolding t by (auto dest!: in_set_takeD in_set_dropD)
  have "CHR ''u'' \<notin> set ?t" using sub plain by fastforce
  then have r: "remove_sub ''uuid:'' (remove_sub ''urn:'' ?t) = ?t" by (simp add: remove_sub_absent)
  have nb: "c \<notin> set ''{}''" if "c \<in> set ?t" for c using that sub plain by fastforce
  then have d: "dropWhile (\<lambda>c. c \<in> set ''{}'') ?t = ?t" "dropWhile (\<lambda>c. c \<in> set ''{}'') (rev ?t) = rev ?t"
    by (simp_all add: dropWhile_eq_self_iff) (metis hd_in_set set_rev rev_is_Nil_conv)+
  have nd: "filter (\<lambda>x. x \<noteq> CHR ''-'') xs = xs" if "set xs \<subseteq> set h" for xs
    using that plain by (auto simp: filter_id_conv)
  have "remove_sub ''-'' ?t = h"
  proof -
    have "remove_sub ''-'' ?t = take 8 h @ take 4 (drop 8 h) @ take 4 (drop 12 h) @ take 4 (drop 16 h) @ drop 20 h"
    proof -
      have part: "filter (\<lambda>x. x \<noteq> CHR ''-'') (take n (drop k h)) = take n (drop k h)" "filter (\<lambda>x. x \<noteq> CHR ''-'') (drop k h) = drop k h" for n k
        by (auto intro!: nd dest: in_set_takeD in_set_dropD)
      show ?thesis using part(1) [of 8 0] unfolding remove_sub_char t by (simp add: part)
    qed
    also have "\<dots> = take 20 h @ drop 20 h"
      using take_add [of 8 4 h] take_add [of 12 4 h] take_add [of 16 4 h] by simp
    also have "\<dots> = h" by simp
    finally show ?thesis .
  qed
  moreover have "hex_int h = Some (False, u)"
  proof -
    have ne: "h \<noteq> []" using len by auto
    have "strip h = h" using plain ne by (intro strip_id) auto
    moreover have "take_sign h = (False, h)"
      using plain [of "hd h"] ne by (cases h) auto
    moreover have "\<not> starts_with ''0x'' h" "\<not> starts_with ''0X'' h"
      using plain by (auto simp: starts_with_def dest: in_set_takeD) (metis in_set_takeD list.set_intros)+
    moreover have "hex_run 0 False h = Some u"
      using hex_run_digits [of h 0 False] hex ne assms foldl_hex [of 0 32 u]
      by (simp add: list_all_iff h_def uuid_hex_def)
    ultimately show ?thesis by (simp add: hex_int_def)
  qed
  ultimately show ?thesis
    using len assms r d by (simp add: parse_uuid_def Let_def)
qed

end
