(* ===== verification/Spec2Isabelle.thy ===== *)
theory Spec2Isabelle
  imports Streaming Scenario Vector Platform Explorer Window Sink Comparison Fleet Cqlite Sql_Console Spark Corpus Producer
begin

text \<open>
  Verification of the open HTAP demonstration stack (the Python programs under \<open>src/ingress\<close> and
  \<open>src/backend\<close>).

  \<^bold>\<open>The program.\<close> A producer simulates a fleet and sends its telemetry to Kafka. A sink consumes it, derives
  figures and proximity alerts, and writes to Cassandra, whose tables it declares and seeds. A backend serves a
  dashboard from the same tables over five access paths: point reads, Presto, Spark over a connector, Spark over
  snapshots and a reader of the files themselves. Beside them it runs two demonstrations of Accord transactions, a
  console on a Postgres dialect over Accord, a vector index that follows the sink's text, and a tail of the
  change-data-capture topic. The parts meet in the tables, in Kafka's offsets, in the settings the producer polls
  and in a few locks.

  \<^bold>\<open>Conventions.\<close> A function with side effects is a computation \<open>pm\<close> over an explicit state: it returns
  \<open>Inl\<close> an exception or \<open>Inr\<close> a value, with the state so far, so every raise and every \<open>try\<close> of the source is a
  branch (\<open>Prelude\<close>). What is called but not under \<open>src/\<close> is a parameter: a record of functions over a
  state of its own, or a list of the failures to come. Each clock is a function of the number of its
  readings. Work that runs concurrently is a list of atomic steps, and a property holds for every list. Floats are
  reals, except that \<open>round\<close> is written out; text is over the 256 characters of HOL, but for the
  producer's corpus, which is over code points.

  \<^bold>\<open>Theories and sources.\<close>
  \<^item> \<open>Prelude\<close>, \<open>Pystr\<close>, \<open>Json\<close>, \<open>Calendar\<close>, \<open>Blake\<close>: computations, invariants and the interfaces
    \<open>keyed_table\<close> and \<open>step_system\<close>; the operations on text, decoded JSON, dates and digests that the sources use.
  \<^item> \<open>Schema\<close>, \<open>Seeding\<close>, \<open>Cql\<close>: \<open>consumer.py\<close> \<open>ensure_schema\<close>, \<open>ensure_cdc\<close>, \<open>seed_zones\<close>,
    \<open>seed_zone_occupancy\<close>; the tables, a node that may fail before or after a statement, and transactions both as
    text and as values.
  \<^item> \<open>Session_Timeline\<close>, \<open>Clearance\<close>: \<open>routes/transactions.py\<close>. The tables refine an append-only prefix and a
    counting semaphore, their invariants survive every request under every failure, and contention grants
    exactly the slots there are.
  \<^item> \<open>Buckets\<close>, \<open>Window\<close>: both copies of the time keys and \<open>routes/query.py\<close> \<open>get_window\<close>. The copies agree and a
    settled window is complete.
  \<^item> \<open>Sink\<close>: \<open>consumer.py\<close> \<open>DroneTracker\<close>, \<open>AlertGenerator\<close> and \<open>main\<close>. Committed means stored, as long as no
    batch failed; alerts are rationed; a replay rewrites the same row.
  \<^item> \<open>Geometry\<close>: the two copies of the zone geometry.
  \<^item> \<open>Corpus\<close>, \<open>Generator\<close>, \<open>Producer\<close>: \<open>producer.py\<close>, the text sampler, the fleet and the paced loop with its
    settings.
  \<^item> \<open>Fleet\<close>: \<open>db/cassandra_client.py\<close> and the routes \<open>map\<close>, \<open>zones\<close>, \<open>alerts\<close>, \<open>overview\<close>, \<open>settings\<close>.
  \<^item> \<open>Console\<close>, \<open>Comparison\<close>: \<open>routes/query.py\<close>, the statements that are accepted and how they are
    rewritten, and the runs over the paths with their lock and their cancellation.
  \<^item> \<open>Spark\<close>, \<open>Cqlite\<close>, \<open>Sql_Console\<close>: \<open>db/spark_client.py\<close> with \<open>sidecar.py\<close> and \<open>spark_ui.py\<close>,
    \<open>db/cqlite_client.py\<close>, \<open>db/accord_sql_client.py\<close> with \<open>routes/sql_console.py\<close>.
  \<^item> \<open>Platform\<close>: \<open>db/presto_client.py\<close> and \<open>routes/health.py\<close>. Its state \<open>dash\<close> holds the clients of
    \<open>Fleet\<close>, \<open>Spark\<close>, \<open>Cqlite\<close> and its own. A reconnect reports every path and leaves a busy one alone.
  \<^item> \<open>Scenario\<close>: \<open>routes/demo.py\<close> and the connections \<open>main.py\<close> opens. An injected breach is seen by the normal
    queries.
  \<^item> \<open>Explorer\<close>: \<open>routes/schema_explorer.py\<close>. Each table appears once, whatever is refused.
  \<^item> \<open>Vector\<close>: \<open>routes/vector.py\<close>. A stored vector embeds its snippet, and the live embedder catches up unless an
    indexing run overtakes it.
  \<^item> \<open>Streaming\<close>: \<open>routes/streaming.py\<close>. A poll by sequence number loses and repeats nothing.
  \<^item> This theory: what spans components. A zone that is simulated and the same zone in force warn of the same assets,
    and the events the producer sends are those the sink decodes.

  The classes of \<open>models.py\<close> are records in the theory of the route that answers with them.

  \<^bold>\<open>State.\<close> Module globals and the attributes of a class are the fields of one record per component, under the
  source's names where HOL allows: \<open>world\<close> (the node, the clock, the transaction lock), \<open>sink\<close>,
  \<open>cassandra_client\<close>, \<open>desk\<close> (the comparison's lock and progress), \<open>accord_sql_client\<close>, \<open>thrift\<close> and \<open>bulk\<close>,
  \<open>cqlite\<close>, \<open>presto\<close>, \<open>platform\<close>, \<open>embedder\<close>, \<open>tail\<close>, \<open>fleet_state\<close>, \<open>live_settings\<close>.

  \<^bold>\<open>Loops.\<close> A loop over data is recursion. A loop that serves for ever (the sink, the producer, the live embedder,
  the tail) is its turn, iterated any number of times; the properties hold for every number, so none rests on a
  bound. The few loops with fuel have a lemma that the fuel given is enough.

  \<^bold>\<open>Parameters.\<close> Failures of the node and what it makes of a transaction's text (\<open>accord_runs\<close> states the
  documented meaning, and \<open>serve\<close> is a node that has it); Kafka's consumers and offsets (\<open>kafka_honest\<close>); the
  comparison's clients (\<open>stack\<close>); the file reader (\<open>reader\<close>), the Postgres driver (\<open>pg\<close>), the Thrift driver and
  the HTTP answers of Spark (\<open>hive\<close>), those of Presto (\<open>presto_api\<close>); the change feed's broker, registry and Avro
  reader (\<open>cdc_broker\<close>); the embedding endpoint and the nearest-neighbour index (\<open>vector_env\<close>); the catalog rows
  (\<open>schema_catalog\<close>); numpy's draws, uuids, the clocks, \<open>fromisoformat\<close> and the \<open>repr\<close> of values. Where a theorem
  relies on them its hypotheses say how, and a witness shows that they can hold.

  \<^bold>\<open>Not modelled.\<close> The rest of \<open>main.py\<close> (the wiring of the web framework, and starting and cancelling the
  two background tasks, whose turns are modelled); \<open>config.py\<close> beyond the defaults the models use; logging; the
  coercions of the response classes; the probe of point-read latency beside the session demonstration; topic creation and the tuning of the Kafka
  clients; rounding of floats; and the frontend, images and deployment scripts, which are not Python or carry no logic.
\<close>

section \<open>The simulation of a zone and the sink that enforces it\<close>


lemma near_one_zone:
  assumes "loaded st" and "zones st = [z]" and "3 \<le> length (zring z)"
  shows "(\<exists>breach risk zn st'. check_proximity e lat lon alt t st = (Inr (True, breach, risk, zn), st')) \<longleftrightarrow>
    point_in_polygon lat lon (zring z) \<or> (\<exists>d. distance_to_polygon_m lat lon (zring z) = Some d \<and> d < 500)"
proof -
  obtain near breach risk zn where sc: "score_of lat lon [z] (False, False, 0, None) = (near, breach, risk, zn)"
    by (metis prod_cases4)
  obtain st' where "check_zones e lat lon alt t [z] (False, False, 0, None) st = (Inr (near, breach, risk, zn), st')"
    using check_zones_score [of e lat lon alt t "[z]" "(False, False, 0, None)" st] sc by auto
  then have "check_proximity e lat lon alt t st = (Inr (near, breach, risk, zn), st')"
    using assms(1,2) by (simp add: check_proximity_def bind_def gets_def ret_def)
  moreover have "near \<longleftrightarrow> (\<exists>d. distance_to_polygon_m lat lon (zring z) = Some d \<and> d < 500)"
    using score_of_reached(1) [OF sc] by (simp add: reached_def WARNING_DISTANCE_M_def)
  moreover have "point_in_polygon lat lon (zring z) \<Longrightarrow> distance_to_polygon_m lat lon (zring z) = Some 0"
    using assms(3) by (simp add: distance_to_polygon_m_def)
  ultimately show ?thesis by auto
qed

text \<open>Which of the rows read have a position, and where.\<close>

definition located :: "row list \<Rightarrow> (string \<times> real \<times> real) set" where
  "located ds = {(str_of r ''entity_id'', lat, lon) | r lat lon. r \<in> set ds \<and>
     number (row_get r ''latitude'') = Some lat \<and> number (row_get r ''longitude'') = Some lon}"

definition in_reach :: "ring \<Rightarrow> real \<Rightarrow> real \<Rightarrow> bool" where
  "in_reach polygon lat lon \<longleftrightarrow> point_in_polygon lat lon polygon \<or>
     (\<exists>d. distance_to_polygon_m lat lon polygon = Some d \<and> d < 500)"

lemma what_if_loop_sets:
  "what_if_loop polygon ds ins nbs = (i, n) \<Longrightarrow>
     set i = set ins \<union> {e. \<exists>lat lon. (e, lat, lon) \<in> located ds \<and> point_in_polygon lat lon polygon} \<and>
     set n = set nbs \<union> {e. \<exists>lat lon. (e, lat, lon) \<in> located ds \<and> \<not> point_in_polygon lat lon polygon \<and> in_reach polygon lat lon}"
proof (induction polygon ds ins nbs rule: what_if_loop.induct)
  case (2 polygon r rs ins nbs)
  have cons: "located (r # rs) = (case (number (row_get r ''latitude''), number (row_get r ''longitude'')) of
      (Some lat, Some lon) \<Rightarrow> insert (str_of r ''entity_id'', lat, lon) (located rs) | _ \<Rightarrow> located rs)"
    by (auto simp: located_def split: option.splits)
  show ?case
  proof (cases "number (row_get r ''latitude'')")
    case None
    then show ?thesis using 2 by (simp add: cons)
  next
    case (Some lat)
    show ?thesis
    proof (cases "number (row_get r ''longitude'')")
      case None
      then show ?thesis using 2 Some by (simp add: cons)
    next
      case lon: (Some lon)
      have api: "api_point_in_polygon lat lon polygon = point_in_polygon lat lon polygon"
          "api_distance_to_polygon_m lat lon polygon = distance_to_polygon_m lat lon polygon"
        by (simp_all add: geometry_copies_equal)
      consider "point_in_polygon lat lon polygon" | "\<not> point_in_polygon lat lon polygon" "in_reach polygon lat lon"
        | "\<not> in_reach polygon lat lon" by (auto simp: in_reach_def)
      then show ?thesis
      proof cases
        case 1
        then show ?thesis using 2 Some lon by (auto simp: cons api)
      next
        case 2
        then obtain d where d: "distance_to_polygon_m lat lon polygon = Some d" "d < 500" by (auto simp: in_reach_def)
        then show ?thesis using "2.IH" "2.prems" Some lon 2 by (auto simp: cons api api_WARNING_DISTANCE_M_def)
      next
        case 3
        then have "\<not> point_in_polygon lat lon polygon"
          "\<not> (case distance_to_polygon_m lat lon polygon of None \<Rightarrow> False | Some m \<Rightarrow> m < api_WARNING_DISTANCE_M)"
          by (auto simp: in_reach_def api_WARNING_DISTANCE_M_def split: option.splits)
        then show ?thesis using "2.IH" "2.prems" Some lon 3 by (auto simp: cons api)
      qed
    qed
  qed
qed (simp add: located_def)


definition one_asset_fleet :: db where
  "one_asset_fleet = empty_db(''drone_latest_status'' := [([CText ''a''],
     [(''entity_id'', CText ''a''), (''latitude'', CDouble 10), (''longitude'', CDouble 30), (''is_flying'', CBool True)])])"

definition square_dec :: "(dec \<times> dec) list" where
  "square_dec = [((False, 29, 1, 0), (False, 9, 1, 0)), ((False, 31, 1, 0), (False, 9, 1, 0)),
     ((False, 31, 1, 0), (False, 11, 1, 0)), ((False, 29, 1, 0), (False, 11, 1, 0))]"

definition square_request :: what_if_zone_request where
  "square_request = \<lparr>w_polygon_wkt = wkt_of square_dec, w_zone_name = ''New'', w_severity = ''warning''\<rparr>"


section \<open>From the producer to the sink\<close>

lemma decode_event_json:
  assumes "u < 2 ^ 128" and "datetime_from_uuid1 c u = Inr t"
  shows "decode_event c (event_json u observer i r k) s =
    (Inr \<lparr>event_id = u, event_time = t, entity_id = asset_id i, latitude = r_lat r ! k, longitude = r_lon r ! k,
       altitude_m = r_z r ! k, event_type = EVENT_TYPES ! (i mod length EVENT_TYPES), observer_id = observer,
       temp_external_c = r_ext r ! k, temp_internal_c = r_in r ! k, text_payload = r_text r ! k\<rparr>, s)"
  using assms
  by (simp add: decode_event_def event_json_def event_identity_def parse_uuid_str text_field_def float_field_def bind_def
      ret_def Let_def)

lemma genuine_is_decoded:
  assumes "genuine ext obs n (key, stamp, v)" and "\<And>k t. uuid_from_time ext k t < 2 ^ 128"
    and "\<And>k t. datetime_from_uuid1 c (uuid_from_time ext k t) = Inr (micros t)"
  shows "\<exists>e. decode_event c v st = (Inr e, st) \<and> entity_id e = key \<and> event_time e = micros stamp \<and>
    -85 \<le> latitude e \<and> latitude e \<le> 85 \<and> -180 \<le> longitude e \<and> longitude e < 180 \<and>
    5 \<le> altitude_m e \<and> altitude_m e \<le> 600 \<and> event_type e \<in> set EVENT_TYPES \<and>
    event_identity c v = Some (event_id e, event_time e)"
proof -
  obtain i r k m u where g: "in_range m r" "k < m" "key = asset_id i" "v = event_json (uuid_from_time ext u stamp) (obs ! i) i r k"
    using assms(1) unfolding genuine_def by auto
  have id: "event_identity c v = Some (uuid_from_time ext u stamp, micros stamp)"
    using assms(2,3) by (simp add: g(4) event_identity_def event_json_def parse_uuid_str)
  have "r_lat r ! k \<in> set (r_lat r)" "r_lon r ! k \<in> set (r_lon r)" "r_z r ! k \<in> set (r_z r)"
    using g(1,2) by (auto simp: in_range_def)
  moreover have "EVENT_TYPES ! (i mod length EVENT_TYPES) \<in> set EVENT_TYPES"
    by (intro nth_mem) (simp add: EVENT_TYPES_def)
  ultimately show ?thesis
    using decode_event_json [OF assms(2,3), of u stamp "obs ! i" i r k st] g(1) unfolding g(3,4) id [unfolded g(4)]
    by (auto simp: in_range_def)
qed

text \<open>
  C24. What the producer sends the sink reads. Whatever it sends in any number of turns, each message
  decodes in the sink, in any of its states and without changing it, to the asset of its key, the
  time it was stamped with and a usable identifier, with a position in range and a known kind; so
  replaying it rewrites its row. \<open>uuid_from_time\<close> and \<open>datetime_from_uuid1\<close>, both of the driver, are
  only assumed to be inverse up to the clock's resolution.
\<close>

theorem sent_events_are_decoded:
  assumes "producer_ok conf s" and "fair s" and "\<not> paused (live s)"
    and "\<And>k t. uuid_from_time ext k t < 2 ^ 128"
    and "\<And>k t. datetime_from_uuid1 c (uuid_from_time ext k t) = Inr (micros t)"
  shows "\<exists>s' ms. turns ext conf n s = (Inr (), s') \<and> outbox s' = outbox s @ ms \<and>
    (\<forall>(key, stamp, v) \<in> set ms. \<exists>e. decode_event c v st = (Inr e, st) \<and> entity_id e = key \<and> event_time e = micros stamp \<and>
      -85 \<le> latitude e \<and> latitude e \<le> 85 \<and> -180 \<le> longitude e \<and> longitude e < 180 \<and>
      5 \<le> altitude_m e \<and> altitude_m e \<le> 600 \<and> event_type e \<in> set EVENT_TYPES \<and>
      event_identity c v = Some (event_id e, event_time e))"
proof -
  obtain s' ms where r: "turns ext conf n s = (Inr (), s')" "outbox s' = outbox s @ ms"
    "\<forall>x \<in> set ms. genuine ext (observer_ids (plan (fleet s))) (in_use conf s) x"
    using turns_run [OF assms(1-3)] by blast
  then show ?thesis using genuine_is_decoded [OF _ assms(4,5), where st = st] by fastforce
qed

definition demo_outside :: outside where
  "demo_outside = \<lparr>texts = None, uuid_from_time = (\<lambda>_ t. nat \<lfloor>t * 1000000\<rfloor> mod 2 ^ 128)\<rparr>"

theorem sent_events_are_decoded_witness:
  "\<exists>s' ms. turns demo_outside (configure (\<lambda>_. None)) 8 quiet_start = (Inr (), s') \<and> outbox s' = ms \<and>
     (\<forall>(key, stamp, v) \<in> set ms. \<exists>e. decode_event demo_config v calm_sink = (Inr e, calm_sink) \<and> entity_id e = key)"
proof -
  have "uuid_from_time demo_outside k t < 2 ^ 128" for k t by (simp add: demo_outside_def)
  moreover have "datetime_from_uuid1 demo_config (uuid_from_time demo_outside k t) = Inr (int (nat \<lfloor>t * 1000000\<rfloor> mod 2 ^ 128))" for k t
    by (simp add: demo_outside_def demo_config_def)
  ultimately show ?thesis
    using sent_events_are_decoded [OF quiet_start(1-3), of demo_outside demo_config
        "\<lambda>t. int (nat \<lfloor>t * 1000000\<rfloor> mod 2 ^ 128)" 8 calm_sink] by (fastforce simp: quiet_start(6))
qed

section \<open>From the settings page to the producer\<close>

text \<open>The body of a settings response (\<open>DemoSettingsResponse\<close>) as the producer decodes it.\<close>

definition settings_response :: "demo_settings \<Rightarrow> string \<Rightarrow> json" where
  "settings_response d message =
    JObj [(''settings'', JObj [(''drones_enabled'', JInt (drones_enabled d)), (''events_per_sec'', JInt (demo_settings.events_per_sec d)),
        (''outlier_percent'', JFloat (demo_settings.outlier_percent d)), (''paused'', JBool (demo_settings.paused d))]),
      (''success'', JBool True), (''message'', JStr message)]"

text \<open>
  Property. A setting made on the dashboard reaches the producer unchanged but for the cap: after a valid
  update, the next poll of the producer, whatever it ran with before, adopts the rate, the outlier
  share and the pause as they were sent and the fleet size cut to \<open>MAX_ENTITIES\<close>; and a pause toggled
  on the dashboard is adopted by the next poll with nothing else changed.
\<close>

theorem settings_reach_the_producer:
  assumes "settings_valid new" and "1 \<le> demo_max_entities env"
  shows "poll_settings (Inr (settings_response (snd (update_demo_settings env new before)) message)) l =
      (Inr (), \<lparr>events_per_sec = demo_settings.events_per_sec new, live_entities = min (drones_enabled new) (demo_max_entities env),
         outlier_percent = demo_settings.outlier_percent new, paused = demo_settings.paused new\<rparr>) \<and>
    (let adopted = snd (poll_settings (Inr (settings_response (snd (update_demo_settings env new before)) message)) l) in
     poll_settings (Inr (settings_response (snd (toggle_pause (snd (update_demo_settings env new before)))) message)) adopted =
       (Inr (), adopted\<lparr>paused := \<not> paused adopted\<rparr>))"
  using assms
  by (simp add: poll_settings_def apply_settings_def settings_response_def update_demo_settings_def toggle_pause_def
      settings_valid_def try_except_def bind_def gets_def modify_def ret_def Let_def)

definition valid_update :: demo_settings where
  "valid_update = demo_settings.make 5000 10 0 False"

theorem settings_reach_the_producer_witness:
  "poll_settings (Inr (settings_response (snd (update_demo_settings demo_env_default
       valid_update (default_settings demo_env_default))) []))
     (start_live (configure (\<lambda>_. None))) =
   (Inr (), \<lparr>events_per_sec = 10, live_entities = 2000, outlier_percent = 0, paused = False\<rparr>)"
proof -
  have "settings_valid valid_update" "1 \<le> demo_max_entities demo_env_default"
    by (simp_all add: settings_valid_def demo_env_default_def valid_update_def demo_settings.make_def)
  from settings_reach_the_producer [OF this] show ?thesis
    by (simp add: demo_env_default_def valid_update_def demo_settings.make_def)
qed

end
